(* ===== verification/Go_Prelude.thy ===== *)
theory Go_Prelude
  imports Main "HOL-Library.Word" "HOL-Library.Monad_Syntax" "HOL-Library.Multiset"
begin

text \<open>
  What the component theories share: Go's fixed-width integers and byte slices, the values a Go
  call can end with besides its result (a panic or a returned error), little-endian coding as the
  standard library's \<^verbatim>\<open>encoding/binary\<close> does it, and general facts on lists and options.
  The collection \<open>go_simps\<close> holds the rewrite rules of the bytes and slices.
\<close>

named_theorems go_simps \<open>rewrite rules for bytes and slices\<close>

subsection \<open>Types of the Go programs\<close>

type_synonym u64 = "64 word"
type_synonym u32 = "32 word"
type_synonym byte = "8 word"
type_synonym addr = nat  \<comment> \<open>the address a Go pointer holds\<close>

text \<open>
  How a call can fail: an explicit \<^verbatim>\<open>panic(msg)\<close>, a run-time panic (nil dereference, index out
  of range), or an \<^verbatim>\<open>error\<close> value that is returned.
\<close>

datatype go_error =
    Panic string
  | NilDeref
  | IndexOutOfRange
  | Err string

type_synonym 'a res = "go_error + 'a"

definition of_opt :: "go_error \<Rightarrow> 'a option \<Rightarrow> 'a res" where
  "of_opt e x = (case x of None \<Rightarrow> Inl e | Some v \<Rightarrow> Inr v)"

lemma of_opt_simps [simp]: "of_opt e (Some v) = Inr v" "of_opt e None = Inl e"
  by (simp_all add: of_opt_def)

lemma of_opt_eq_Inr [simp]: "of_opt e x = Inr v \<longleftrightarrow> x = Some v"
  by (cases x) simp_all

lemma filter_neq_id [simp]: "a \<notin> set xs \<Longrightarrow> filter (\<lambda>b. b \<noteq> a) xs = xs"
  by (induction xs) auto

subsection \<open>Byte slices\<close>

text \<open>\<open>copy_at b off bs\<close>: the slice \<open>b\<close> after \<open>bs\<close> was copied to \<open>b[off:off+len(bs)]\<close>.\<close>

definition copy_at :: "'a list \<Rightarrow> nat \<Rightarrow> 'a list \<Rightarrow> 'a list" where
  "copy_at b off bs = take off b @ bs @ drop (off + length bs) b"

text \<open>\<open>subslice b lo hi\<close>: Go's \<open>b[lo:hi]\<close>.\<close>

definition subslice :: "'a list \<Rightarrow> nat \<Rightarrow> nat \<Rightarrow> 'a list" where
  "subslice b lo hi = take (hi - lo) (drop lo b)"

lemma length_copy_at [simp]: "off + length bs \<le> length b \<Longrightarrow> length (copy_at b off bs) = length b"
  by (simp add: copy_at_def)

lemma length_subslice [simp]: "hi \<le> length b \<Longrightarrow> lo \<le> hi \<Longrightarrow> length (subslice b lo hi) = hi - lo"
  by (simp add: subslice_def)

lemma nth_copy_at:
  "off + length bs \<le> length b \<Longrightarrow> i < length b \<Longrightarrow>
   copy_at b off bs ! i =
     (if off \<le> i \<and> i < off + length bs then bs ! (i - off) else b ! i)"
  by (auto simp: copy_at_def nth_append)

lemma subslice_copy_at_same [go_simps]:
  "off + length bs \<le> length b \<Longrightarrow> hi = off + length bs \<Longrightarrow> subslice (copy_at b off bs) off hi = bs"
  by (simp add: subslice_def copy_at_def)

lemma subslice_copy_at_other [go_simps]:
  assumes "off + length bs \<le> length b" "hi \<le> length b" "lo \<le> hi"
    and "hi \<le> off \<or> off + length bs \<le> lo"
  shows "subslice (copy_at b off bs) lo hi = subslice b lo hi"
  using assms by (intro nth_equalityI) (auto simp: subslice_def nth_copy_at)

lemma nth_copy_at_other [go_simps]:
  "off + length bs \<le> length b \<Longrightarrow> i < length b \<Longrightarrow> i < off \<or> off + length bs \<le> i \<Longrightarrow>
   copy_at b off bs ! i = b ! i"
  by (auto simp: nth_copy_at)

lemma subslice_list_update [go_simps]:
  "hi \<le> length b \<Longrightarrow> lo \<le> hi \<Longrightarrow> i < lo \<or> hi \<le> i \<Longrightarrow> subslice (b[i := x]) lo hi = subslice b lo hi"
  by (intro nth_equalityI) (auto simp: subslice_def nth_list_update)

lemma copy_at_append:
  "off = length p \<Longrightarrow> copy_at (p @ r) off bs = p @ bs @ drop (length bs) r"
  by (simp add: copy_at_def)

lemma subslice_append:
  assumes "lo \<le> mid" "mid \<le> hi"
  shows "subslice b lo mid @ subslice b mid hi = subslice b lo hi"
proof -
  have "drop mid b = drop (mid - lo) (drop lo b)" "hi - lo = (mid - lo) + (hi - mid)"
    using assms by simp_all
  then show ?thesis unfolding subslice_def by (simp only: take_add)
qed

lemma subslice_all [simp]: "n = length b \<Longrightarrow> subslice b 0 n = b"
  by (simp add: subslice_def)

subsection \<open>Little-endian coding (\<^verbatim>\<open>binary.LittleEndian\<close>)\<close>

definition put_le :: "nat \<Rightarrow> 'a::len word \<Rightarrow> byte list" where
  "put_le n w = map (\<lambda>i. ucast (drop_bit (8 * i) w)) [0..<n]"

fun get_le :: "byte list \<Rightarrow> 'a::len word" where
  "get_le [] = 0"
| "get_le (b # bs) = or (ucast b) (push_bit 8 (get_le bs))"

lemma length_put_le [simp]: "length (put_le n w) = n"
  by (simp add: put_le_def)

lemma bit_get_le:
  "bit (get_le bs :: 'a::len word) i \<longleftrightarrow>
   i < LENGTH('a) \<and> i div 8 < length bs \<and> bit (bs ! (i div 8)) (i mod 8)"
proof (induction bs arbitrary: i)
  case Nil
  then show ?case by simp
next
  case (Cons b bs)
  show ?case
  proof (cases "i < 8")
    case True
    then show ?thesis by (auto simp: bit_simps)
  next
    case False
    then obtain j where j: "i = j + 8" by (metis add.commute le_Suc_ex not_less)
    have "bit (get_le (b # bs) :: 'a word) i \<longleftrightarrow> i < LENGTH('a) \<and> bit (get_le bs :: 'a word) j"
      using False j by (auto simp: bit_simps dest: bit_imp_le_length)
    moreover have "(j + 8) div 8 = Suc (j div 8)" by simp
    ultimately show ?thesis
      using j by (auto simp: Cons.IH)
  qed
qed

lemma get_put_le [go_simps]:
  assumes "LENGTH('a) = 8 * n"
  shows "get_le (put_le n w) = (w :: 'a::len word)"
proof (rule bit_word_eqI)
  fix i assume i: "i < LENGTH('a)"
  then have "i div 8 < n" using assms by simp
  then show "bit (get_le (put_le n w) :: 'a word) i \<longleftrightarrow> bit w i"
    using i by (simp add: bit_get_le put_le_def bit_simps)
qed

lemma get_le_put_le_bytes:
  assumes "LENGTH('a) = 8 * length bs"
  shows "put_le (length bs) (get_le bs :: 'a::len word) = bs"
proof (rule nth_equalityI)
  fix i assume i: "i < length (put_le (length bs) (get_le bs :: 'a word))"
  then have i': "i < length bs" by simp
  show "put_le (length bs) (get_le bs :: 'a word) ! i = bs ! i"
  proof (rule bit_word_eqI)
    fix k assume k: "k < LENGTH(8)"
    then have "(8 * i + k) div 8 = i" "(8 * i + k) mod 8 = k" "8 * i + k < LENGTH('a)"
      using i' assms by auto
    then show "bit (put_le (length bs) (get_le bs :: 'a word) ! i) k \<longleftrightarrow> bit (bs ! i) k"
      using i' k by (simp add: put_le_def bit_simps bit_get_le)
  qed
qed simp

end
