(* ===== verification/Msg.thy ===== *)
theory Msg
  imports Go_Prelude
begin

text \<open>
  The messages of the matching engine (\<^verbatim>\<open>matching_engine-master/msg\<close>: \<^verbatim>\<open>msg.go\<close>,
  \<^verbatim>\<open>serialise.go\<close>) and the routed messages of its coordinator
  (\<^verbatim>\<open>coordinator/rmsg.go\<close>, \<^verbatim>\<open>rmsg_serialise.go\<close>): kinds, validity, and the byte layout that is
  sent over the wire, with its round trips.
\<close>

section \<open>msg.go\<close>

type_synonym MsgKind = u64

definition NO_KIND :: MsgKind where "NO_KIND = 0"
definition BUY :: MsgKind where "BUY = 1"
definition SELL :: MsgKind where "SELL = 2"
definition CANCEL :: MsgKind where "CANCEL = 3"
definition PARTIAL :: MsgKind where "PARTIAL = 4"
definition FULL :: MsgKind where "FULL = 5"
definition CANCELLED :: MsgKind where "CANCELLED = 6"
definition NOT_CANCELLED :: MsgKind where "NOT_CANCELLED = 7"
definition REJECTED :: MsgKind where "REJECTED = 8"
definition SHUTDOWN :: MsgKind where "SHUTDOWN = 9"
definition NEW_TRADER :: MsgKind where "NEW_TRADER = 10"

lemmas MsgKind_defs =
  NO_KIND_def BUY_def SELL_def CANCEL_def PARTIAL_def FULL_def CANCELLED_def
  NOT_CANCELLED_def REJECTED_def SHUTDOWN_def NEW_TRADER_def

definition MsgKind_String :: "MsgKind \<Rightarrow> string res" where
  "MsgKind_String k =
     (if k = NO_KIND then Inr ''NO_KIND''
      else if k = BUY then Inr ''BUY''
      else if k = SELL then Inr ''SELL''
      else if k = CANCEL then Inr ''CANCEL''
      else if k = PARTIAL then Inr ''PARTIAL''
      else if k = FULL then Inr ''FULL''
      else if k = CANCELLED then Inr ''CANCELLED''
      else if k = NOT_CANCELLED then Inr ''NOT_CANCELLED''
      else if k = REJECTED then Inr ''REJECTED''
      else if k = SHUTDOWN then Inr ''SHUTDOWN''
      else if k = NEW_TRADER then Inr ''NEW_TRADER''
      else Inl (Panic ''Uncreachable''))"

definition MARKET_PRICE :: u64 where "MARKET_PRICE = 0"

record Message =
  Kind :: MsgKind
  Price :: u64
  Amount :: u64
  StockId :: u64
  TraderId :: u32
  TradeId :: u32

text \<open>Go's zero value \<^verbatim>\<open>Message{}\<close>.\<close>

definition zeroMessage :: Message where
  "zeroMessage = \<lparr>Kind = 0, Price = 0, Amount = 0, StockId = 0, TraderId = 0, TradeId = 0\<rparr>"

definition Valid :: "Message \<Rightarrow> bool" where
  "Valid m =
     (if Kind m = SHUTDOWN then
        Price m = 0 \<and> Amount m = 0 \<and> TraderId m = 0 \<and> TradeId m = 0 \<and> StockId m = 0
      else if Kind m = NEW_TRADER then
        TraderId m \<noteq> 0 \<and> Price m = 0 \<and> Amount m = 0 \<and> TradeId m = 0 \<and> StockId m = 0
      else
        (let isValid = (Price m \<noteq> 0 \<or> Kind m = SELL \<or> Kind m = CANCEL \<or> Kind m = CANCELLED
                         \<or> Kind m = NOT_CANCELLED);
             isValid = (isValid \<and> Amount m \<noteq> 0 \<and> TraderId m \<noteq> 0 \<and> TradeId m \<noteq> 0 \<and> StockId m \<noteq> 0);
             isValid = (isValid \<and> Kind m \<noteq> NO_KIND)
         in isValid))"

definition WriteNewTrader :: "u32 \<Rightarrow> Message" where
  "WriteNewTrader traderId = zeroMessage\<lparr>Kind := NEW_TRADER, TraderId := traderId\<rparr>"

definition WriteCancelFor :: "Message \<Rightarrow> Message" where
  "WriteCancelFor om = om\<lparr>Kind := CANCEL\<rparr>"

section \<open>serialise.go\<close>

definition kindOffset :: nat where "kindOffset = 0"
definition priceOffset :: nat where "priceOffset = 8"
definition amountOffset :: nat where "amountOffset = 16"
definition stockIdOffset :: nat where "stockIdOffset = 24"
definition traderIdOffset :: nat where "traderIdOffset = 32"
definition tradeIdOffset :: nat where "tradeIdOffset = 36"
definition ByteSize :: nat where "ByteSize = 40"

lemmas offset_defs =
  kindOffset_def priceOffset_def amountOffset_def stockIdOffset_def traderIdOffset_def
  tradeIdOffset_def ByteSize_def

text \<open>\<^verbatim>\<open>Marshal\<close> writes into the subslice it is given; the model returns that subslice.\<close>

definition Marshal :: "Message \<Rightarrow> byte list \<Rightarrow> byte list res" where
  "Marshal m b =
     (if length b \<noteq> ByteSize then Inl (Err ''Wrong sized byte buffer'')
      else
        (let b = copy_at b kindOffset (put_le 8 (Kind m));
             b = copy_at b priceOffset (put_le 8 (Price m));
             b = copy_at b amountOffset (put_le 8 (Amount m));
             b = copy_at b stockIdOffset (put_le 8 (StockId m));
             b = copy_at b traderIdOffset (put_le 4 (TraderId m));
             b = copy_at b tradeIdOffset (put_le 4 (TradeId m))
         in Inr b))"

definition Unmarshal :: "Message \<Rightarrow> byte list \<Rightarrow> Message res" where
  "Unmarshal m b =
     (if length b \<noteq> ByteSize then Inl (Err ''Wrong sized byte buffer'')
      else
        Inr (m\<lparr>Kind := get_le (subslice b kindOffset priceOffset),
               Price := get_le (subslice b priceOffset amountOffset),
               Amount := get_le (subslice b amountOffset stockIdOffset),
               StockId := get_le (subslice b stockIdOffset traderIdOffset),
               TraderId := get_le (subslice b traderIdOffset tradeIdOffset),
               TradeId := get_le (subslice b tradeIdOffset (length b))\<rparr>))"

section \<open>coordinator/rmsg.go\<close>

definition NORMAL :: byte where "NORMAL = 0"
definition INVALID_MSG_ERROR :: byte where "INVALID_MSG_ERROR = 1"
definition READ_ERROR :: byte where "READ_ERROR = 2"
definition SMALL_READ_ERROR :: byte where "SMALL_READ_ERROR = 3"
definition WRITE_ERROR :: byte where "WRITE_ERROR = 4"
definition SMALL_WRITE_ERROR :: byte where "SMALL_WRITE_ERROR = 5"

definition MsgStatus_String :: "byte \<Rightarrow> string res" where
  "MsgStatus_String s =
     (if s = NORMAL then Inr ''NORMAL''
      else if s = INVALID_MSG_ERROR then Inr ''INVALID_MSG_ERROR''
      else if s = READ_ERROR then Inr ''READ_ERROR''
      else if s = SMALL_READ_ERROR then Inr ''SMALL_READ_ERROR''
      else if s = WRITE_ERROR then Inr ''WRITE_ERROR''
      else if s = SMALL_WRITE_ERROR then Inr ''SMALL_WRITE_ERROR''
      else Inl (Panic ''Bad Value''))"

definition NO_DIRECTION :: byte where "NO_DIRECTION = 0"
definition OUT :: byte where "OUT = 1"
definition IN :: byte where "IN = 2"

definition MsgDirection_String :: "byte \<Rightarrow> string res" where
  "MsgDirection_String d =
     (if d = NO_DIRECTION then Inr ''NO_DIRECTION''
      else if d = IN then Inr ''IN''
      else if d = OUT then Inr ''OUT''
      else Inl (Panic ''Bad Value''))"

definition NO_ROUTE :: byte where "NO_ROUTE = 0"
definition APP :: byte where "APP = 1"
definition ACK :: byte where "ACK = 2"

definition MsgRoute_String :: "byte \<Rightarrow> string res" where
  "MsgRoute_String r =
     (if r = NO_ROUTE then Inr ''NO_ROUTE''
      else if r = APP then Inr ''APP''
      else if r = ACK then Inr ''ACK''
      else Inl (Panic ''Bad Value''))"

record RMessage =
  rm_message :: Message
  rm_status :: byte
  rm_direction :: byte
  rm_route :: byte
  rm_originId :: u32
  rm_msgId :: u32

definition RValid :: "RMessage \<Rightarrow> bool" where
  "RValid rm =
     (if rm_direction rm = NO_DIRECTION then False
      else if rm_status rm \<noteq> NORMAL then True
      else if rm_originId rm = 0 \<or> rm_msgId rm = 0 then False
      else Valid (rm_message rm))"

definition WriteAckFor :: "RMessage \<Rightarrow> RMessage" where
  "WriteAckFor orm = orm\<lparr>rm_route := ACK, rm_direction := OUT\<rparr>"

section \<open>coordinator/rmsg\_serialise.go\<close>

definition statusOffset :: nat where "statusOffset = ByteSize + 0"
definition directionOffset :: nat where "directionOffset = ByteSize + 1"
definition routeOffset :: nat where "routeOffset = ByteSize + 2"
definition originIdOffset :: nat where "originIdOffset = ByteSize + 3"
definition msgIdOffset :: nat where "msgIdOffset = ByteSize + 7"
definition rmsgByteSize :: nat where "rmsgByteSize = ByteSize + 11"

lemmas roffset_defs =
  statusOffset_def directionOffset_def routeOffset_def originIdOffset_def msgIdOffset_def
  rmsgByteSize_def

text \<open>
  The inner \<^verbatim>\<open>Marshal\<close> works on the subslice \<^verbatim>\<open>b[:msg.ByteSize]\<close>, which aliases \<open>b\<close>; its returned
  error is ignored, and then the subslice is unchanged.
\<close>

definition RMarshal :: "RMessage \<Rightarrow> byte list \<Rightarrow> byte list res" where
  "RMarshal rm b =
     (if length b \<noteq> rmsgByteSize then Inl (Err ''Wrong sized byte buffer'')
      else
        (let b = (case Marshal (rm_message rm) (subslice b 0 ByteSize) of
                    Inl _ \<Rightarrow> b | Inr mb \<Rightarrow> copy_at b 0 mb);
             b = b[statusOffset := rm_status rm];
             b = b[directionOffset := rm_direction rm];
             b = b[routeOffset := rm_route rm];
             b = copy_at b originIdOffset (put_le 4 (rm_originId rm));
             b = copy_at b msgIdOffset (put_le 4 (rm_msgId rm))
         in Inr b))"

definition RUnmarshal :: "RMessage \<Rightarrow> byte list \<Rightarrow> RMessage res" where
  "RUnmarshal rm b =
     (if length b \<noteq> rmsgByteSize then Inl (Err ''Wrong sized byte buffer'')
      else
        (let rm = (case Unmarshal (rm_message rm) (subslice b 0 ByteSize) of
                     Inl _ \<Rightarrow> rm | Inr m \<Rightarrow> rm\<lparr>rm_message := m\<rparr>)
         in Inr (rm\<lparr>rm_status := b ! statusOffset,
                    rm_direction := b ! directionOffset,
                    rm_route := b ! routeOffset,
                    rm_originId := get_le (subslice b originIdOffset msgIdOffset),
                    rm_msgId := get_le (subslice b msgIdOffset (length b))\<rparr>)))"

section \<open>Round trips\<close>

lemma Marshal_length: "Marshal m b = Inr b' \<Longrightarrow> length b' = ByteSize"
  by (auto simp: Marshal_def Let_def offset_defs split: if_splits)

lemma Marshal_total: "length b = ByteSize \<Longrightarrow> \<exists>b'. Marshal m b = Inr b'"
  by (simp add: Marshal_def Let_def)

lemma Unmarshal_Marshal:
  assumes "Marshal m b = Inr b'"
  shows "Unmarshal m0 b' = Inr m"
proof -
  from assms have len: "length b = 40" and len': "length b' = 40"
    by (auto simp: Marshal_def Let_def offset_defs split: if_splits)
  from assms len have b': "b' = copy_at (copy_at (copy_at (copy_at (copy_at (copy_at b 0 (put_le 8 (Kind m)))
      8 (put_le 8 (Price m))) 16 (put_le 8 (Amount m))) 24 (put_le 8 (StockId m)))
      32 (put_le 4 (TraderId m))) 36 (put_le 4 (TradeId m))"
    by (simp add: Marshal_def Let_def offset_defs)
  show ?thesis
    using len len' by (simp add: Unmarshal_def offset_defs b' go_simps)
qed

text \<open>A buffer is its six fields in the order of the layout.\<close>

lemma Marshal_layout:
  assumes "length b = ByteSize"
  shows "Marshal m b = Inr (put_le 8 (Kind m) @ put_le 8 (Price m) @ put_le 8 (Amount m) @
           put_le 8 (StockId m) @ put_le 4 (TraderId m) @ put_le 4 (TradeId m))"
proof -
  let ?k = "put_le 8 (Kind m)" and ?p = "put_le 8 (Price m)" and ?a = "put_le 8 (Amount m)"
    and ?s = "put_le 8 (StockId m)" and ?r = "put_le 4 (TraderId m)" and ?t = "put_le 4 (TradeId m)"
  have 1: "copy_at b 0 ?k = ?k @ drop 8 b"
    by (simp add: copy_at_def)
  have 2: "copy_at (?k @ drop 8 b) 8 ?p = (?k @ ?p) @ drop 16 b"
    by (simp add: copy_at_append)
  have 3: "copy_at ((?k @ ?p) @ drop 16 b) 16 ?a = (?k @ ?p @ ?a) @ drop 24 b"
    by (subst copy_at_append) simp_all
  have 4: "copy_at ((?k @ ?p @ ?a) @ drop 24 b) 24 ?s = (?k @ ?p @ ?a @ ?s) @ drop 32 b"
    by (subst copy_at_append) simp_all
  have 5: "copy_at ((?k @ ?p @ ?a @ ?s) @ drop 32 b) 32 ?r = (?k @ ?p @ ?a @ ?s @ ?r) @ drop 36 b"
    by (subst copy_at_append) simp_all
  have 6: "copy_at ((?k @ ?p @ ?a @ ?s @ ?r) @ drop 36 b) 36 ?t = ?k @ ?p @ ?a @ ?s @ ?r @ ?t"
    using assms by (subst copy_at_append) (simp_all add: ByteSize_def)
  show ?thesis
    using assms by (simp only: Marshal_def Let_def offset_defs 1 2 3 4 5 6) simp
qed

lemma split_buffer:
  assumes "length b = 40"
  shows "subslice b 0 8 @ subslice b 8 16 @ subslice b 16 24 @ subslice b 24 32 @ subslice b 32 36 @ subslice b 36 40 = b"
  using assms by (simp add: subslice_append)

lemma Marshal_Unmarshal:
  assumes "Unmarshal m0 b = Inr m" and len0: "length b0 = ByteSize"
  shows "Marshal m b0 = Inr b"
proof -
  from assms have len: "length b = 40"
    by (auto simp: Unmarshal_def offset_defs split: if_splits)
  have p8: "put_le 8 (get_le (subslice b i j) :: u64) = subslice b i j" if "j = i + 8" "j \<le> 40" for i j
    using get_le_put_le_bytes [of "subslice b i j", where 'a = 64] that len by simp
  have p4: "put_le 4 (get_le (subslice b i j) :: u32) = subslice b i j" if "j = i + 4" "j \<le> 40" for i j
    using get_le_put_le_bytes [of "subslice b i j", where 'a = 32] that len by simp
  have m: "Kind m = get_le (subslice b 0 8)" "Price m = get_le (subslice b 8 16)"
      "Amount m = get_le (subslice b 16 24)" "StockId m = get_le (subslice b 24 32)"
      "TraderId m = get_le (subslice b 32 36)" "TradeId m = get_le (subslice b 36 40)"
    using assms(1) len by (auto simp: Unmarshal_def offset_defs)
  show ?thesis
    using split_buffer [OF len] by (simp add: Marshal_layout [OF len0] m p8 p4)
qed

lemma RUnmarshal_RMarshal:
  assumes "RMarshal rm b = Inr b'"
  shows "RUnmarshal rm0 b' = Inr rm"
proof -
  from assms have len: "length b = 51"
    by (auto simp: RMarshal_def Let_def roffset_defs offset_defs split: if_splits)
  then have "length (subslice b 0 40) = ByteSize" by (simp add: ByteSize_def)
  then obtain mb where mb: "Marshal (rm_message rm) (subslice b 0 40) = Inr mb"
    using Marshal_total by blast
  then have lmb: "length mb = 40" and un: "\<And>m0. Unmarshal m0 mb = Inr (rm_message rm)"
    using Marshal_length Unmarshal_Marshal by (auto simp: ByteSize_def)
  from assms len mb have b': "b' = copy_at (copy_at ((((copy_at b 0 mb)[40 := rm_status rm])
      [41 := rm_direction rm])[42 := rm_route rm]) 43 (put_le 4 (rm_originId rm)))
      47 (put_le 4 (rm_msgId rm))"
    by (simp add: RMarshal_def Let_def roffset_defs offset_defs)
  have len': "length b' = 51" and head: "subslice b' 0 40 = mb"
    using len lmb by (simp_all add: b' go_simps)
  have flds: "b' ! 40 = rm_status rm" "b' ! 41 = rm_direction rm" "b' ! 42 = rm_route rm"
      "get_le (subslice b' 43 47) = rm_originId rm" "get_le (subslice b' 47 51) = rm_msgId rm"
    using len lmb by (simp_all add: b' go_simps)
  show ?thesis
    using len' by (simp add: RUnmarshal_def roffset_defs ByteSize_def head un flds Let_def)
qed

text \<open>
  The wire format of routed messages is faithful: marshalling any routed message into any
  buffer of the fixed size succeeds and keeps the size, and unmarshalling the result gives back
  every field of the message and its headers, whatever the receiving struct held before.
\<close>

theorem rmessage_roundtrip:
  assumes "length b = rmsgByteSize"
  shows "\<exists>b'. RMarshal rm b = Inr b' \<and> length b' = rmsgByteSize \<and> RUnmarshal rm0 b' = Inr rm"
proof -
  obtain b' where b': "RMarshal rm b = Inr b'"
    using assms by (simp add: RMarshal_def Let_def)
  from RUnmarshal_RMarshal [OF this, of rm0] have "RUnmarshal rm0 b' = Inr rm" .
  moreover from this have "length b' = rmsgByteSize"
    by (auto simp: RUnmarshal_def split: if_splits)
  ultimately show ?thesis using b' by blast
qed

theorem rmessage_roundtrip_witness:
  "\<exists>b'. RMarshal \<lparr>rm_message = zeroMessage, rm_status = 0, rm_direction = OUT, rm_route = APP,
        rm_originId = 7, rm_msgId = 9\<rparr> (replicate 51 0) = Inr b' \<and> length b' = rmsgByteSize \<and>
     RUnmarshal \<lparr>rm_message = zeroMessage, rm_status = 1, rm_direction = IN, rm_route = ACK,
        rm_originId = 0, rm_msgId = 0\<rparr> b' =
       Inr \<lparr>rm_message = zeroMessage, rm_status = 0, rm_direction = OUT, rm_route = APP,
        rm_originId = 7, rm_msgId = 9\<rparr>"
  by (rule rmessage_roundtrip) (simp add: roffset_defs offset_defs)

text \<open>
  The format of plain messages is a bijection between messages and buffers of 40 bytes: any
  buffer that unmarshals is the marshalled form of the message it gives, and any message unmarshals
  from its marshalled form.
\<close>

theorem message_format_bijective:
  assumes "length b0 = ByteSize" and "length b = ByteSize"
  shows "Unmarshal m0 b = Inr m \<longleftrightarrow> Marshal m b0 = Inr b"
  using assms by (blast intro: Unmarshal_Marshal Marshal_Unmarshal)

theorem message_format_bijective_witness:
  "Unmarshal zeroMessage (replicate 40 0) = Inr zeroMessage \<longleftrightarrow>
   Marshal zeroMessage (replicate 40 1) = Inr (replicate 40 0)"
  by (rule message_format_bijective) (simp_all add: ByteSize_def)

end
