(* ===== verification/Price_Time.thy ===== *)
theory Price_Time
  imports Go_Prelude
begin

text \<open>
  The contract of the engine's order queues: price-time priority. A queue holds orders (addresses)
  with a price; in its abstract form it is the list of (price, order), ascending in price and oldest
  first within a price. The red-black tree (\<open>RBTree\<close>) and the array queue that the program keeps as
  a reference (\<open>RefPrioQ\<close>) both provide it; what a client can conclude from the contract is
  proved here once, for a whole run of operations.
\<close>

section \<open>The abstract queue\<close>

type_synonym pt_list = "(u64 \<times> addr) list"

definition ins_fifo :: "u64 \<Rightarrow> addr \<Rightarrow> pt_list \<Rightarrow> pt_list" where
  "ins_fifo v a es = takeWhile (\<lambda>e. fst e \<le> v) es @ (v, a) # dropWhile (\<lambda>e. fst e \<le> v) es"

definition first_min :: "pt_list \<Rightarrow> addr option" where
  "first_min es = (case es of [] \<Rightarrow> None | e # _ \<Rightarrow> Some (snd e))"

definition first_max :: "pt_list \<Rightarrow> addr option" where
  "first_max es = (if es = [] then None else Some (snd (hd (filter (\<lambda>e. fst e = fst (last es)) es))))"

definition del_entry :: "addr option \<Rightarrow> pt_list \<Rightarrow> pt_list" where
  "del_entry x es = (case x of None \<Rightarrow> es | Some a \<Rightarrow> filter (\<lambda>(v, b). b \<noteq> a) es)"

lemma set_ins_fifo [simp]: "set (ins_fifo v a es) = insert (v, a) (set es)"
proof -
  have "set es = set (takeWhile (\<lambda>e. fst e \<le> v) es) \<union> set (dropWhile (\<lambda>e. fst e \<le> v) es)"
    by (metis set_append takeWhile_dropWhile_id)
  then show ?thesis by (auto simp: ins_fifo_def)
qed

lemma mset_ins_fifo [simp]: "mset (ins_fifo v a es) = add_mset (v, a) (mset es)"
proof -
  have "mset (takeWhile (\<lambda>e. fst e \<le> v) es) + mset (dropWhile (\<lambda>e. fst e \<le> v) es) = mset es"
    by (metis mset_append takeWhile_dropWhile_id)
  then show ?thesis by (simp add: ins_fifo_def)
qed

lemma ins_fifo_nonempty [simp]: "ins_fifo v a es \<noteq> []"
  by (simp add: ins_fifo_def)

section \<open>Queues by level\<close>

text \<open>
  Both implementations keep one list of orders per price. \<open>flat\<close> is the abstract queue of such
  levels, \<open>ins_level\<close> adds an order to the level of its price.
\<close>

fun ins_level :: "u64 \<Rightarrow> addr \<Rightarrow> (u64 \<times> addr list) list \<Rightarrow> (u64 \<times> addr list) list" where
  "ins_level v a [] = [(v, [a])]"
| "ins_level v a ((w, q) # xs) =
     (if v = w then (w, q @ [a]) # xs
      else if v < w then (v, [a]) # (w, q) # xs
      else (w, q) # ins_level v a xs)"

definition flat :: "(u64 \<times> addr list) list \<Rightarrow> (u64 \<times> addr) list" where
  "flat xs = concat (map (\<lambda>(v, q). map (Pair v) q) xs)"

lemma flat_simps [simp]:
  "flat [] = []" "flat ((v, q) # xs) = map (Pair v) q @ flat xs" "flat (xs @ ys) = flat xs @ flat ys"
  by (simp_all add: flat_def)

lemma map_snd_flat: "map snd (flat xs) = concat (map snd xs)"
  by (induction xs) (auto simp: comp_def)

lemma set_flat: "(v, a) \<in> set (flat xs) \<longleftrightarrow> (\<exists>q. (v, q) \<in> set xs \<and> a \<in> set q)"
  by (induction xs) auto

lemma ins_level_append:
  "(\<And>w q. (w, q) \<in> set xs \<Longrightarrow> w < v) \<Longrightarrow> ins_level v a (xs @ ys) = xs @ ins_level v a ys"
proof (induction xs)
  case (Cons x xs)
  then have "fst x < v" by (cases x) auto
  with Cons show ?case by (cases x) auto
qed simp

lemma ins_level_append2:
  "(\<And>w q. (w, q) \<in> set ys \<Longrightarrow> v < w) \<Longrightarrow> ins_level v a (xs @ ys) = ins_level v a xs @ ys"
proof (induction xs)
  case Nil
  then show ?case by (cases ys) fastforce+
next
  case (Cons x xs)
  then show ?case by (cases x) auto
qed

lemma sorted_levels_append:
  "sorted_wrt (<) (map fst (xs @ (v, q) # ys)) \<longleftrightarrow>
   sorted_wrt (<) (map fst xs) \<and> sorted_wrt (<) (map fst ys) \<and>
   (\<forall>w p. (w, p) \<in> set xs \<longrightarrow> w < v) \<and> (\<forall>w p. (w, p) \<in> set ys \<longrightarrow> v < (w :: u64)) "
  by (fastforce simp: sorted_wrt_append)

lemma ins_level_node:
  assumes "sorted_wrt (<) (map fst (xs @ (v, q) # ys))"
  shows "ins_level val a (xs @ (v, q) # ys) =
    (if val = v then xs @ (v, q @ [a]) # ys
     else if val < v then ins_level val a xs @ (v, q) # ys
     else xs @ (v, q) # ins_level val a ys)"
proof -
  have xs: "w < v" if "(w, p) \<in> set xs" for w p
    using assms that unfolding sorted_levels_append by blast
  have ys: "v < w" if "(w, p) \<in> set ys" for w p
    using assms that unfolding sorted_levels_append by blast
  consider "val = v" | "val < v" | "v < val" by (rule linorder_cases)
  then show ?thesis
  proof cases
    case 1
    then show ?thesis using xs by (simp add: ins_level_append)
  next
    case 2
    then show ?thesis using ys by (force intro!: ins_level_append2 intro: less_trans)
  next
    case 3
    then have "w < val" if "(w, p) \<in> set xs" for w p
      using xs [OF that] by (rule less_trans [rotated])
    with 3 show ?thesis by (auto simp: ins_level_append)
  qed
qed

lemma while_level:
  assumes "w \<le> v"
  shows "takeWhile (\<lambda>e. fst e \<le> v) (map (Pair w) q @ es) = map (Pair w) q @ takeWhile (\<lambda>e. fst e \<le> v) es"
    and "dropWhile (\<lambda>e. fst e \<le> v) (map (Pair w) q @ es) = dropWhile (\<lambda>e. fst e \<le> v) es"
  using assms by (induction q) auto

lemma flat_ins_level:
  assumes "sorted_wrt (<) (map fst xs)" 
  shows "flat (ins_level v a xs) = ins_fifo v a (flat xs)"
  using assms
proof (induction v a xs rule: ins_level.induct)
  case (2 v a w q xs)
  have tl: "takeWhile (\<lambda>e. fst e \<le> v) (flat xs) = []" "dropWhile (\<lambda>e. fst e \<le> v) (flat xs) = flat xs"
    if "v \<le> w"
  proof -
    have "\<not> fst e \<le> v" if "e \<in> set (flat xs)" for e
    proof -
      obtain x b where e: "e = (x, b)" by (cases e)
      with that obtain p where "(x, p) \<in> set xs" by (auto simp: set_flat)
      then have "w < x" using "2.prems" by force
      with \<open>v \<le> w\<close> e show ?thesis by simp
    qed
    then show "takeWhile (\<lambda>e. fst e \<le> v) (flat xs) = []" "dropWhile (\<lambda>e. fst e \<le> v) (flat xs) = flat xs"
      by (cases "flat xs"; auto)+
  qed
  consider "v = w" | "v < w" | "w < v" by (rule linorder_cases)
  then show ?case
  proof cases
    case 1
    then show ?thesis using tl by (simp add: ins_fifo_def while_level)
  next
    case 2
    then show ?thesis using tl by (cases q) (auto simp: ins_fifo_def)
  next
    case 3
    then have "\<not> v < w" "v \<noteq> w" by auto
    with 3 2 show ?thesis by (simp add: ins_fifo_def while_level)
  qed
qed (simp add: ins_fifo_def)

lemma sorted_flat: "sorted_wrt (<) (map fst xs) \<Longrightarrow> sorted (map fst (flat xs))"
proof (induction xs)
  case (Cons x xs)
  obtain v q where x: "x = (v, q)" by (cases x)
  have "v \<le> w" if "(w, b) \<in> set (flat xs)" for w b
    using that Cons.prems x by (fastforce simp: set_flat)
  then have "\<forall>u \<in> set (map fst (flat xs)). v \<le> u" by auto
  moreover have "sorted (map fst (flat xs))" using Cons x by simp
  ultimately have "sorted (map fst (map (Pair v) q @ flat xs))"
    by (induction q) auto
  then show ?case using x by simp
qed simp

section \<open>Insertion and sorting\<close>

text \<open>Stable insertion into a list that is sorted by a key.\<close>

lemma dropWhile_sorted_key:
  "sorted (map f xs) \<Longrightarrow> e \<in> set (dropWhile (\<lambda>x. f x \<le> k) xs) \<Longrightarrow> k < (f e :: 'b :: linorder)"
  by (induction xs) (auto split: if_splits)

lemma sorted_insert_key:
  assumes "sorted (map f xs)" "f x = (k :: 'b :: linorder)"
  shows "sorted (map f (takeWhile (\<lambda>y. f y \<le> k) xs @ x # dropWhile (\<lambda>y. f y \<le> k) xs))"
proof -
  let ?t = "takeWhile (\<lambda>y. f y \<le> k) xs" and ?d = "dropWhile (\<lambda>y. f y \<le> k) xs"
  have "sorted (map f ?t @ map f ?d)" using assms(1) by (simp flip: map_append)
  moreover have "f y \<le> k" if "y \<in> set ?t" for y using set_takeWhileD [OF that] by simp
  moreover have "k \<le> f y" if "y \<in> set ?d" for y using dropWhile_sorted_key [OF assms(1) that] by simp
  ultimately show ?thesis using assms(2) by (auto simp: sorted_append)
qed

lemma filter_insert_key:
  assumes "sorted (map f xs)" "f x = (k :: 'b :: linorder)"
  shows "filter (\<lambda>y. f y = j) (takeWhile (\<lambda>y. f y \<le> k) xs @ x # dropWhile (\<lambda>y. f y \<le> k) xs) =
    filter (\<lambda>y. f y = j) xs @ (if j = k then [x] else [])"
proof -
  let ?t = "takeWhile (\<lambda>y. f y \<le> k) xs" and ?d = "dropWhile (\<lambda>y. f y \<le> k) xs"
  have "filter (\<lambda>y. f y = j) xs = filter (\<lambda>y. f y = j) ?t @ filter (\<lambda>y. f y = j) ?d"
    by (metis filter_append takeWhile_dropWhile_id)
  moreover have "filter (\<lambda>y. f y = k) ?d = []"
    using dropWhile_sorted_key [OF assms(1), of _ k] by (fastforce simp: filter_empty_conv)
  ultimately show ?thesis using assms(2) by auto
qed

lemma ins_fifo_sort_key: "ins_fifo v a (sort_key fst xs) = sort_key fst (xs @ [(v, a)])"
proof -
  let ?S = "sort_key fst xs"
  have srt: "sorted (map fst ?S)" by simp
  have "sort_key fst (xs @ [(v, a)]) = ins_fifo v a ?S"
  proof (rule properties_for_sort_key)
    show "mset (ins_fifo v a ?S) = mset (xs @ [(v, a)])" by simp
    show "sorted (map fst (ins_fifo v a ?S))"
      unfolding ins_fifo_def by (rule sorted_insert_key [OF srt]) simp
    fix k :: "u64 \<times> addr"
    show "filter (\<lambda>x. fst k = fst x) (ins_fifo v a ?S) = filter (\<lambda>x. fst k = fst x) (xs @ [(v, a)])"
      using filter_insert_key [OF srt, of "(v, a)" v "fst k"] sort_key_stable [of fst "fst k" xs]
      unfolding ins_fifo_def by (auto simp: eq_commute [of "fst k"])
  qed
  then show ?thesis by simp
qed

section \<open>Operations and their runs\<close>

datatype pq_op = Push u64 addr | PeekMin | PeekMax | PopMin | PopMax

fun spec_step :: "pq_op \<Rightarrow> pt_list \<Rightarrow> addr option \<times> pt_list" where
  "spec_step (Push v a) es = (None, ins_fifo v a es)"
| "spec_step PeekMin es = (first_min es, es)"
| "spec_step PeekMax es = (first_max es, es)"
| "spec_step PopMin es = (first_min es, del_entry (first_min es) es)"
| "spec_step PopMax es = (first_max es, del_entry (first_max es) es)"

fun spec_run :: "pq_op list \<Rightarrow> pt_list \<Rightarrow> addr option list \<times> pt_list" where
  "spec_run [] es = ([], es)"
| "spec_run (x # xs) es =
     (let (r, es') = spec_step x es; (rs, es'') = spec_run xs es' in (r # rs, es''))"

text \<open>A run is legal if every price is accepted and no order is pushed while it is queued.\<close>

fun legal :: "(u64 \<Rightarrow> bool) \<Rightarrow> pq_op list \<Rightarrow> pt_list \<Rightarrow> bool" where
  "legal ok [] es = True"
| "legal ok (x # xs) es =
     ((case x of Push v a \<Rightarrow> ok v \<and> a \<notin> snd ` set es | _ \<Rightarrow> True) \<and> legal ok xs (snd (spec_step x es)))"

lemma spec_run_append:
  "spec_run (xs @ ys) es = (let (rs, es') = spec_run xs es; (rs', es'') = spec_run ys es' in (rs @ rs', es''))"
  by (induction xs arbitrary: es) (auto simp: Let_def split: prod.splits)

lemma legal_append: "legal ok (xs @ ys) es \<longleftrightarrow> legal ok xs es \<and> legal ok ys (snd (spec_run xs es))"
  by (induction xs arbitrary: es) (auto simp: Let_def split: prod.splits)

text \<open>Pushing a list and taking everything out again sorts it, stably.\<close>

definition push_all :: "pt_list \<Rightarrow> pq_op list" where
  "push_all xs = map (\<lambda>(v, a). Push v a) xs"

lemma spec_push_all: "spec_run (push_all xs) [] = (replicate (length xs) None, sort_key fst xs)"
proof (induction xs rule: rev_induct)
  case (snoc x xs)
  then show ?case
    by (cases x) (simp add: push_all_def spec_run_append ins_fifo_sort_key replicate_append_same del: sort_key_simps)
qed (simp add: push_all_def)

lemma legal_push_all: "distinct (map snd xs) \<Longrightarrow> (\<And>v. v \<in> fst ` set xs \<Longrightarrow> ok v) \<Longrightarrow> legal ok (push_all xs) []"
proof (induction xs rule: rev_induct)
  case (snoc x xs)
  then have "legal ok (push_all xs) []" by auto
  moreover have "snd (spec_run (push_all xs) []) = sort_key fst xs" by (simp add: spec_push_all)
  moreover have "ok (fst x)" "snd x \<notin> snd ` set xs" using snoc.prems by auto
  ultimately show ?case by (cases x) (simp add: push_all_def legal_append)
qed (simp add: push_all_def)

lemma legal_pops [simp]: "legal ok (replicate n PopMin) es"
  by (induction n arbitrary: es) auto

lemma spec_drain:
  "distinct (map snd es) \<Longrightarrow> spec_run (replicate (length es) PopMin) es = (map (Some \<circ> snd) es, [])"
proof (induction es)
  case (Cons e es)
  have "\<forall>x \<in> set es. snd x \<noteq> snd e"
    using Cons.prems by (metis distinct.simps(2) image_eqI list.set_map list.simps(9))
  then have "filter (\<lambda>(v, b). b \<noteq> snd e) es = es"
    by (simp add: filter_id_conv case_prod_beta)
  then show ?case
    using Cons by (simp add: first_min_def del_entry_def Let_def case_prod_beta)
qed simp

text \<open>A run on an implementation that is given by its operations.\<close>

fun queue_run ::
  "(u64 \<Rightarrow> addr \<Rightarrow> 'q \<Rightarrow> 'q option) \<Rightarrow> ('q \<Rightarrow> addr option) \<Rightarrow> ('q \<Rightarrow> addr option) \<Rightarrow>
   ('q \<Rightarrow> (addr option \<times> 'q) option) \<Rightarrow> ('q \<Rightarrow> (addr option \<times> 'q) option) \<Rightarrow>
   pq_op list \<Rightarrow> 'q \<Rightarrow> (addr option list \<times> 'q) option" where
  "queue_run push pkMin pkMax ppMin ppMax [] q = Some ([], q)"
| "queue_run push pkMin pkMax ppMin ppMax (x # xs) q = do {
     (r, q) \<leftarrow> (case x of
                 Push v a \<Rightarrow> map_option (Pair None) (push v a q)
               | PeekMin \<Rightarrow> Some (pkMin q, q)
               | PeekMax \<Rightarrow> Some (pkMax q, q)
               | PopMin \<Rightarrow> ppMin q
               | PopMax \<Rightarrow> ppMax q);
     (rs, q) \<leftarrow> queue_run push pkMin pkMax ppMin ppMax xs q;
     Some (r # rs, q) }"

section \<open>The contract\<close>

locale price_time_queue =
  fixes invar :: "'q \<Rightarrow> bool"
    and entries :: "'q \<Rightarrow> pt_list"
    and okprice :: "'q \<Rightarrow> u64 \<Rightarrow> bool"
    and push :: "u64 \<Rightarrow> addr \<Rightarrow> 'q \<Rightarrow> 'q option"
    and peekMin :: "'q \<Rightarrow> addr option"
    and peekMax :: "'q \<Rightarrow> addr option"
    and popMin :: "'q \<Rightarrow> (addr option \<times> 'q) option"
    and popMax :: "'q \<Rightarrow> (addr option \<times> 'q) option"
  assumes entries_sorted: "invar q \<Longrightarrow> sorted (map fst (entries q)) \<and> distinct (map snd (entries q))"
    and push_law: "invar q \<Longrightarrow> okprice q v \<Longrightarrow> a \<notin> snd ` set (entries q) \<Longrightarrow>
      \<exists>q'. push v a q = Some q' \<and> invar q' \<and> okprice q' = okprice q \<and> entries q' = ins_fifo v a (entries q)"
    and peekMin_law: "invar q \<Longrightarrow> peekMin q = first_min (entries q)"
    and peekMax_law: "invar q \<Longrightarrow> peekMax q = first_max (entries q)"
    and popMin_law: "invar q \<Longrightarrow>
      \<exists>q'. popMin q = Some (first_min (entries q), q') \<and> invar q' \<and> okprice q' = okprice q \<and>
           entries q' = del_entry (first_min (entries q)) (entries q)"
    and popMax_law: "invar q \<Longrightarrow>
      \<exists>q'. popMax q = Some (first_max (entries q), q') \<and> invar q' \<and> okprice q' = okprice q \<and>
           entries q' = del_entry (first_max (entries q)) (entries q)"
begin

lemma run_refines:
  assumes "invar q" "legal (okprice q) ops (entries q)"
  shows "\<exists>q'. queue_run push peekMin peekMax popMin popMax ops q =
                Some (fst (spec_run ops (entries q)), q') \<and> invar q' \<and>
              entries q' = snd (spec_run ops (entries q))"
  using assms
proof (induction ops arbitrary: q)
  case (Cons x xs)
  have "\<exists>q'. (case x of
          Push v a \<Rightarrow> map_option (Pair None) (push v a q)
        | PeekMin \<Rightarrow> Some (peekMin q, q) | PeekMax \<Rightarrow> Some (peekMax q, q)
        | PopMin \<Rightarrow> popMin q | PopMax \<Rightarrow> popMax q) = Some (fst (spec_step x (entries q)), q') \<and>
        invar q' \<and> okprice q' = okprice q \<and> entries q' = snd (spec_step x (entries q))"
    using Cons.prems push_law [of q] popMin_law [of q] popMax_law [of q]
    by (cases x) (fastforce simp: peekMin_law peekMax_law)+
  then obtain q' where q': "(case x of
          Push v a \<Rightarrow> map_option (Pair None) (push v a q)
        | PeekMin \<Rightarrow> Some (peekMin q, q) | PeekMax \<Rightarrow> Some (peekMax q, q)
        | PopMin \<Rightarrow> popMin q | PopMax \<Rightarrow> popMax q) = Some (fst (spec_step x (entries q)), q')"
      "invar q'" "okprice q' = okprice q" "entries q' = snd (spec_step x (entries q))"
    by blast
  with Cons.IH [of q'] Cons.prems(2) show ?case
    by (auto simp: Let_def split: prod.splits)
qed simp

text \<open>Filling an empty queue and emptying it from below gives the orders in price-time order.\<close>

lemma drain_sorts:
  assumes "invar q" "entries q = []" "distinct (map snd xs)" "\<And>v. v \<in> fst ` set xs \<Longrightarrow> okprice q v"
  shows "\<exists>q'. queue_run push peekMin peekMax popMin popMax (push_all xs @ replicate (length xs) PopMin) q =
      Some (replicate (length xs) None @ map (Some \<circ> snd) (sort_key fst xs), q') \<and> entries q' = []"
proof -
  let ?ops = "push_all xs @ replicate (length xs) PopMin"
  have "mset (map snd (sort_key fst xs)) = mset (map snd xs)" by simp
  then have "distinct (map snd (sort_key fst xs))" using assms(3) mset_eq_imp_distinct_iff by blast
  from spec_drain [OF this] have "spec_run ?ops [] = (replicate (length xs) None @ map (Some \<circ> snd) (sort_key fst xs), [])"
    by (simp add: spec_run_append spec_push_all)
  moreover have "legal (okprice q) ?ops []" using legal_push_all [OF assms(3,4)] by (simp add: legal_append)
  ultimately show ?thesis using run_refines [OF assms(1), of ?ops] assms(2) by auto
qed

end

text \<open>Two providers of the contract answer every legal run in the same way.\<close>

locale price_time_pair =
  A: price_time_queue invarA entriesA okA pushA peekMinA peekMaxA popMinA popMaxA +
  B: price_time_queue invarB entriesB okB pushB peekMinB peekMaxB popMinB popMaxB
  for invarA :: "'p \<Rightarrow> bool" and entriesA okA pushA peekMinA peekMaxA popMinA popMaxA
    and invarB :: "'q \<Rightarrow> bool" and entriesB okB pushB peekMinB peekMaxB popMinB popMaxB
begin

lemma same_answers:
  assumes "invarA p" "invarB q" "entriesA p = entriesB q"
    and "legal (\<lambda>v. okA p v \<and> okB q v) ops (entriesA p)"
  shows "\<exists>rs p' q'. queue_run pushA peekMinA peekMaxA popMinA popMaxA ops p = Some (rs, p') \<and>
            queue_run pushB peekMinB peekMaxB popMinB popMaxB ops q = Some (rs, q') \<and>
            invarA p' \<and> invarB q' \<and> entriesA p' = entriesB q'"
proof -
  have mono: "legal ok ops es \<Longrightarrow> (\<And>v. ok v \<Longrightarrow> ok' v) \<Longrightarrow> legal ok' ops es" for ok ok' ops es
    by (induction ops arbitrary: es) (auto split: pq_op.splits)
  have "legal (okA p) ops (entriesA p)" "legal (okB q) ops (entriesB q)"
    using assms mono by (metis (lifting))+
  with A.run_refines B.run_refines assms(1,2,3) show ?thesis by metis
qed

end

end
