(* ===== verification/RBTree.thy ===== *)
theory RBTree
  imports Price_Time
begin

text \<open>
  The red-black tree of price levels and of order ids (\<^verbatim>\<open>matching_engine-master/matcher/pqueue/rbtree.go\<close>).

  A tree node of the program carries a colour, a value, two children, a parent pointer and a ring of
  the nodes with the same value (\<^verbatim>\<open>next\<close>/\<^verbatim>\<open>prev\<close>). Here a node is a constructor with its ring as the
  list of the owners' addresses in \<^verbatim>\<open>prev\<close> direction: the head of the ring, which sits in the tree,
  first, then the others from oldest to newest. A pointer into a tree, with the chain of parents
  that the code walks through \<^verbatim>\<open>parent\<close> and \<^verbatim>\<open>pp\<close>, is a subtree with its list of frames (innermost
  first). A nil dereference, where the code panics, is \<open>None\<close>.
\<close>

section \<open>Trees, parent chains\<close>

datatype rbt = Leaf | Node bool u64 "addr list" rbt rbt  \<comment> \<open>black, val, ring, left, right\<close>

datatype frame =
    LFrame bool u64 "addr list" rbt  \<comment> \<open>the parent of a left child, with its right subtree\<close>
  | RFrame bool u64 "addr list" rbt  \<comment> \<open>the parent of a right child, with its left subtree\<close>

type_synonym ctx = "frame list"

fun fill :: "frame \<Rightarrow> rbt \<Rightarrow> rbt" where
  "fill (LFrame b v q r) t = Node b v q t r"
| "fill (RFrame b v q l) t = Node b v q l t"

fun plug :: "ctx \<Rightarrow> rbt \<Rightarrow> rbt" where
  "plug [] t = t"
| "plug (f # c) t = plug c (fill f t)"

fun getSibling :: "frame \<Rightarrow> rbt" where
  "getSibling (LFrame b v q r) = r"
| "getSibling (RFrame b v q l) = l"

fun isRed :: "rbt \<Rightarrow> bool" where
  "isRed Leaf = False"
| "isRed (Node b v q l r) = (\<not> b)"

fun leftOf :: "rbt \<Rightarrow> rbt option" where
  "leftOf Leaf = None"
| "leftOf (Node b v q l r) = Some l"

fun rightOf :: "rbt \<Rightarrow> rbt option" where
  "rightOf Leaf = None"
| "rightOf (Node b v q l r) = Some r"

fun setBlack :: "bool \<Rightarrow> rbt \<Rightarrow> rbt option" where
  "setBlack c Leaf = None"
| "setBlack c (Node b v q l r) = Some (Node c v q l r)"

fun setLeft :: "rbt \<Rightarrow> rbt \<Rightarrow> rbt option" where
  "setLeft Leaf t = None"
| "setLeft (Node b v q l r) t = Some (Node b v q t r)"

fun setRight :: "rbt \<Rightarrow> rbt \<Rightarrow> rbt option" where
  "setRight Leaf t = None"
| "setRight (Node b v q l r) t = Some (Node b v q l t)"

section \<open>Rotations and colour flips\<close>

fun rotateLeft :: "rbt \<Rightarrow> rbt option" where
  "rotateLeft (Node b v q l (Node rb rv rq rl rr)) = Some (Node b rv rq (Node False v q l rl) rr)"
| "rotateLeft _ = None"

fun rotateRight :: "rbt \<Rightarrow> rbt option" where
  "rotateRight (Node b v q (Node lb lv lq ll lr) r) = Some (Node b lv lq ll (Node False v q lr r))"
| "rotateRight _ = None"

fun flip :: "rbt \<Rightarrow> rbt option" where
  "flip (Node b v q (Node lb lv lq ll lr) (Node rb rv rq rl rr)) =
     Some (Node (\<not> b) v q (Node (\<not> lb) lv lq ll lr) (Node (\<not> rb) rv rq rl rr))"
| "flip _ = None"

section \<open>Insertion\<close>

text \<open>
  One iteration of the loop of \<^verbatim>\<open>repairInsert\<close>, without the move to the parent: its three
  conditional statements in order.
\<close>

definition flipReds :: "rbt \<Rightarrow> rbt option" where
  "flipReds n = do {
     l \<leftarrow> leftOf n;
     r \<leftarrow> rightOf n;
     if isRed l \<and> isRed r then flip n else Some n }"

definition fixLeft :: "rbt \<Rightarrow> rbt option" where
  "fixLeft n = do {
     l \<leftarrow> leftOf n;
     if isRed l then do {
       ll \<leftarrow> leftOf l;
       n \<leftarrow> (if isRed ll then rotateRight n else Some n);
       l \<leftarrow> leftOf n;
       lr \<leftarrow> rightOf l;
       if isRed lr then do {
         l \<leftarrow> rotateLeft l;
         n \<leftarrow> setLeft n l;
         rotateRight n }
       else Some n }
     else Some n }"

definition fixRight :: "rbt \<Rightarrow> rbt option" where
  "fixRight n = do {
     r \<leftarrow> rightOf n;
     if isRed r then do {
       rr \<leftarrow> rightOf r;
       n \<leftarrow> (if isRed rr then rotateLeft n else Some n);
       r \<leftarrow> rightOf n;
       rl \<leftarrow> leftOf r;
       if isRed rl then do {
         r \<leftarrow> rotateRight r;
         n \<leftarrow> setRight n r;
         rotateLeft n }
       else Some n }
     else Some n }"

definition repairInsertStep :: "rbt \<Rightarrow> rbt option" where
  "repairInsertStep n = do { n \<leftarrow> flipReds n; n \<leftarrow> fixLeft n; fixRight n }"

fun repairInsert :: "ctx \<Rightarrow> rbt \<Rightarrow> rbt option" where
  "repairInsert [] n = repairInsertStep n"
| "repairInsert (f # c) n = do { n \<leftarrow> repairInsertStep n; repairInsert c (fill f n) }"

text \<open>The loop of \<^verbatim>\<open>node.push\<close>: \<open>a\<close> is the owner of the node that is pushed, \<open>val\<close> its value.\<close>

fun node_push :: "u64 \<Rightarrow> addr \<Rightarrow> ctx \<Rightarrow> rbt \<Rightarrow> rbt option" where
  "node_push val a c Leaf = None"
| "node_push val a c (Node b v q l r) =
     (if val = v then Some (plug c (Node b v (q @ [a]) l r))
      else if val < v then
        (if l = Leaf then repairInsert c (Node b v q (Node False val [a] Leaf Leaf) r)
         else node_push val a (LFrame b v q r # c) l)
      else
        (if r = Leaf then repairInsert c (Node b v q l (Node False val [a] Leaf Leaf))
         else node_push val a (RFrame b v q l # c) r))"

definition rbtree_push :: "u64 \<Rightarrow> addr \<Rightarrow> rbt \<Rightarrow> rbt option" where
  "rbtree_push val a t =
     (if t = Leaf then Some (Node False val [a] Leaf Leaf) else node_push val a [] t)"

section \<open>Lookup\<close>

fun node_min :: "rbt \<Rightarrow> (u64 \<times> addr list) option" where
  "node_min Leaf = None"
| "node_min (Node b v q l r) = (if l = Leaf then Some (v, q) else node_min l)"

fun node_max :: "rbt \<Rightarrow> (u64 \<times> addr list) option" where
  "node_max Leaf = None"
| "node_max (Node b v q l r) = (if r = Leaf then Some (v, q) else node_max r)"

text \<open>The address that \<^verbatim>\<open>getOrderNode\<close> reads off the node found: the head of its ring.\<close>

definition peekMin :: "rbt \<Rightarrow> addr option" where
  "peekMin t = map_option (\<lambda>(v, q). hd q) (node_min t)"

definition peekMax :: "rbt \<Rightarrow> addr option" where
  "peekMax t = map_option (\<lambda>(v, q). hd q) (node_max t)"

fun rbtree_get :: "u64 \<Rightarrow> rbt \<Rightarrow> addr option" where
  "rbtree_get val Leaf = None"
| "rbtree_get val (Node b v q l r) =
     (if val = v then Some (hd q) else if val < v then rbtree_get val l else rbtree_get val r)"

definition Has :: "u64 \<Rightarrow> rbt \<Rightarrow> bool" where
  "Has val t = (rbtree_get val t \<noteq> None)"

section \<open>Removal\<close>

text \<open>
  The start of an iteration of \<^verbatim>\<open>repairToRoot\<close>, for a parent \<open>p\<close> (the frame) with a red sibling: the
  rotation that makes the sibling black. The second component is the frame that the rotation puts
  above \<open>p\<close>, if there was one.
\<close>

definition redSibling :: "frame \<Rightarrow> (frame \<times> ctx) option" where
  "redSibling f =
     (if isRed (getSibling f) then
        (case f of
           LFrame b v q (Node sb sv sq sl sr) \<Rightarrow> Some (LFrame False v q sl, [LFrame b sv sq sr])
         | RFrame b v q (Node sb sv sq sl sr) \<Rightarrow> Some (RFrame False v q sr, [RFrame b sv sq sl])
         | _ \<Rightarrow> None)
      else Some (f, []))"

text \<open>
  The rest of the iteration, on the parent \<open>p\<close> with its deficient child \<open>t\<close>: the new subtree, and
  whether the function returns.
\<close>

fun frameRed :: "frame \<Rightarrow> bool" where
  "frameRed (LFrame b v q r) = (\<not> b)"
| "frameRed (RFrame b v q l) = (\<not> b)"

definition recolour :: "bool \<Rightarrow> rbt \<Rightarrow> rbt option" where
  "recolour pRed p = do {
     p \<leftarrow> setBlack (\<not> pRed) p;
     l \<leftarrow> leftOf p;
     l \<leftarrow> setBlack True l;
     p \<leftarrow> setLeft p l;
     r \<leftarrow> rightOf p;
     r \<leftarrow> setBlack True r;
     setRight p r }"

definition blackSibling :: "frame \<Rightarrow> rbt \<Rightarrow> (bool \<times> rbt) option" where
  "blackSibling f t = do {
     let pRed = frameRed f;
     let s = getSibling f;
     sl \<leftarrow> leftOf s;
     sr \<leftarrow> rightOf s;
     (if \<not> isRed sl \<and> \<not> isRed sr then do {
        s \<leftarrow> setBlack False s;
        (case f of
           LFrame b v q _ \<Rightarrow> Some (pRed, Node (pRed \<or> b) v q t s)
         | RFrame b v q _ \<Rightarrow> Some (pRed, Node (pRed \<or> b) v q s t)) }
      else
        (case f of
           RFrame b v q _ \<Rightarrow>
             (if isRed sl then do {
                p \<leftarrow> rotateRight (Node b v q s t);
                p \<leftarrow> recolour pRed p;
                Some (True, p) }
              else do {
                s \<leftarrow> rotateLeft s;
                p \<leftarrow> rotateRight (Node b v q s t);
                p \<leftarrow> recolour pRed p;
                Some (True, p) })
         | LFrame b v q _ \<Rightarrow>
             (if isRed sr then do {
                p \<leftarrow> rotateLeft (Node b v q t s);
                p \<leftarrow> recolour pRed p;
                Some (True, p) }
              else do {
                s \<leftarrow> rotateRight s;
                p \<leftarrow> rotateLeft (Node b v q t s);
                p \<leftarrow> recolour pRed p;
                Some (True, p) }))) }"

lemma redSibling_pRed: "redSibling f = Some (f', up) \<Longrightarrow> up \<noteq> [] \<Longrightarrow> frameRed f'"
  by (auto simp: redSibling_def split: if_splits frame.splits rbt.splits)

lemma blackSibling_pRed: "blackSibling f t = Some (ret, p) \<Longrightarrow> frameRed f \<Longrightarrow> ret"
  by (auto simp: blackSibling_def Let_def split: if_splits frame.splits bind_splits)

function repairToRoot :: "ctx \<Rightarrow> rbt \<Rightarrow> rbt option" where
  "repairToRoot [] t = Some t"
| "repairToRoot (f # c) t =
     (if getSibling f = Leaf then Some (plug (f # c) t)
      else do {
        (f', up) \<leftarrow> redSibling f;
        (ret, p) \<leftarrow> blackSibling f' t;
        if ret then Some (plug (up @ c) p) else repairToRoot (up @ c) p })"
  by pat_completeness auto
termination
  by (relation "measure (\<lambda>(c, t). length c)")
     (auto dest: redSibling_pRed blackSibling_pRed)

text \<open>\<open>nn\<close> is the subtree that took the place of the detached node, whose colour was \<open>nblack\<close>.\<close>

definition repairDetach :: "ctx \<Rightarrow> bool \<Rightarrow> rbt \<Rightarrow> rbt option" where
  "repairDetach c nblack nn =
     (if \<not> nblack then Some (plug c nn)
      else if isRed nn then do { nn \<leftarrow> setBlack True nn; Some (plug c nn) }
      else repairToRoot c nn)"

text \<open>
  \<^verbatim>\<open>n.givePosition(nn)\<close>: \<open>nn\<close> (its value and ring) takes the place and the colour of the node with
  head \<open>a\<close>, wherever the repair left that node.
\<close>

fun givePosition :: "addr \<Rightarrow> u64 \<Rightarrow> addr list \<Rightarrow> rbt \<Rightarrow> rbt" where
  "givePosition a nv nq Leaf = Leaf"
| "givePosition a nv nq (Node b v q l r) =
     (if hd q = a then Node b nv nq (givePosition a nv nq l) (givePosition a nv nq r)
      else Node b v q (givePosition a nv nq l) (givePosition a nv nq r))"

fun detach :: "ctx \<Rightarrow> rbt \<Rightarrow> rbt option"
  and detachMax :: "ctx \<Rightarrow> rbt \<Rightarrow> (u64 \<times> addr list \<times> rbt) option" where
  "detach c Leaf = None"
| "detach c (Node b v q l r) =
     (if r = Leaf \<and> l = Leaf then repairDetach c b Leaf
      else if r = Leaf then repairDetach c b l
      else if l = Leaf then repairDetach c b r
      else do {
        (nv, nq, t) \<leftarrow> detachMax (LFrame b v q r # c) l;
        Some (givePosition (hd q) nv nq t) })"
| "detachMax c Leaf = None"
| "detachMax c (Node b v q l r) =
     (if r = Leaf then do { t \<leftarrow> detach c (Node b v q l r); Some (v, q, t) }
      else detachMax (RFrame b v q l # c) r)"

text \<open>The place of the node that \<open>a\<close> owns: what the pointer to the node stands for.\<close>

fun locate :: "addr \<Rightarrow> ctx \<Rightarrow> rbt \<Rightarrow> (ctx \<times> rbt) option" where
  "locate a c Leaf = None"
| "locate a c (Node b v q l r) =
     (if a \<in> set q then Some (c, Node b v q l r)
      else case locate a (LFrame b v q r # c) l of
             Some x \<Rightarrow> Some x
           | None \<Rightarrow> locate a (RFrame b v q l # c) r)"

text \<open>
  \<^verbatim>\<open>node.pop\<close>. A node that is in no tree has no parent pointer and a ring of its own, and popping it
  changes nothing. A node that is not the head of its ring leaves the ring; the head of a longer
  ring gives its position to the next oldest; a node alone is detached.
\<close>

definition node_pop :: "addr \<Rightarrow> rbt \<Rightarrow> rbt option" where
  "node_pop a t =
     (case locate a [] t of
        None \<Rightarrow> Some t
      | Some (c, Leaf) \<Rightarrow> Some t
      | Some (c, Node b v q l r) \<Rightarrow>
          if hd q \<noteq> a then Some (plug c (Node b v (remove1 a q) l r))
          else if tl q \<noteq> [] then Some (plug c (Node b v (tl q) l r))
          else detach c (Node b v q l r))"

text \<open>
  \<^verbatim>\<open>popMin\<close> and \<^verbatim>\<open>popMax\<close> on one tree; the complementary node of the result, which lies in another
  tree, is popped by the callers below (\<open>MatchQueues\<close>).
\<close>

definition popMin :: "rbt \<Rightarrow> (addr option \<times> rbt) option" where
  "popMin t =
     (case peekMin t of
        None \<Rightarrow> Some (None, t)
      | Some a \<Rightarrow> do { t \<leftarrow> node_pop a t; Some (Some a, t) })"

definition popMax :: "rbt \<Rightarrow> (addr option \<times> rbt) option" where
  "popMax t =
     (case peekMax t of
        None \<Rightarrow> Some (None, t)
      | Some a \<Rightarrow> do { t \<leftarrow> node_pop a t; Some (Some a, t) })"

section \<open>The program's own checks\<close>

fun blackBalance :: "rbt \<Rightarrow> nat option" where
  "blackBalance Leaf = Some 0"
| "blackBalance (Node b v q l r) = do {
     lb \<leftarrow> blackBalance l;
     rb \<leftarrow> blackBalance r;
     if lb \<noteq> rb then None else Some (if \<not> isRed (Node b v q l r) then Suc lb else lb) }"

fun testReds :: "rbt \<Rightarrow> nat \<Rightarrow> bool" where
  "testReds Leaf depth = True"
| "testReds (Node b v q l r) depth =
     (\<not> (\<not> b \<and> (isRed l \<or> isRed r) \<and> depth \<noteq> 0) \<and>
      testReds l (depth + 1) \<and> testReds r (depth + 1))"

definition validateRBT :: "rbt \<Rightarrow> bool" where
  "validateRBT t = (blackBalance t \<noteq> None \<and> testReds t 0)"

section \<open>Contents and invariants\<close>

text \<open>The levels of a tree in ascending order of value, and what a chain of frames adds around a hole.\<close>

fun inorder :: "rbt \<Rightarrow> (u64 \<times> addr list) list" where
  "inorder Leaf = []"
| "inorder (Node b v q l r) = inorder l @ (v, q) # inorder r"

fun before :: "ctx \<Rightarrow> (u64 \<times> addr list) list" where
  "before [] = []"
| "before (LFrame b v q r # c) = before c"
| "before (RFrame b v q l # c) = before c @ inorder l @ [(v, q)]"

fun after :: "ctx \<Rightarrow> (u64 \<times> addr list) list" where
  "after [] = []"
| "after (LFrame b v q r # c) = (v, q) # inorder r @ after c"
| "after (RFrame b v q l # c) = after c"

lemma inorder_plug [simp]: "inorder (plug c t) = before c @ inorder t @ after c"
proof (induction c arbitrary: t)
  case (Cons f c)
  then show ?case by (cases f) auto
qed simp

text \<open>
  Black height, balance, and two colour conditions weaker than the usual one: at the root of a
  valid tree a red node may have red children (\<open>invroot\<close>), and during insertion the root of a
  subtree may be red with one red child (\<open>inv3\<close>).
\<close>

fun bheight :: "rbt \<Rightarrow> nat" where
  "bheight Leaf = 0"
| "bheight (Node b v q l r) = (if b then Suc (bheight l) else bheight l)"

fun invh :: "rbt \<Rightarrow> bool" where
  "invh Leaf = True"
| "invh (Node b v q l r) = (bheight l = bheight r \<and> invh l \<and> invh r)"

fun invc :: "rbt \<Rightarrow> bool" where
  "invc Leaf = True"
| "invc (Node b v q l r) = ((\<not> b \<longrightarrow> \<not> isRed l \<and> \<not> isRed r) \<and> invc l \<and> invc r)"

fun invroot :: "rbt \<Rightarrow> bool" where
  "invroot Leaf = True"
| "invroot (Node b v q l r) = (invc l \<and> invc r)"

fun inv3 :: "rbt \<Rightarrow> bool" where
  "inv3 Leaf = True"
| "inv3 (Node b v q l r) = (invc l \<and> invc r \<and> (\<not> b \<longrightarrow> \<not> (isRed l \<and> isRed r)))"

lemma invc_inv3: "invc t \<Longrightarrow> inv3 t"
  by (cases t) auto

lemma blackBalance_iff: "blackBalance t = (if invh t then Some (bheight t) else None)"
  by (induction t) auto

lemma testReds_Suc: "testReds t (Suc d) = invc t"
  by (induction t arbitrary: d) auto

lemma validateRBT_iff: "validateRBT t \<longleftrightarrow> invh t \<and> invroot t"
  by (cases t) (auto simp: validateRBT_def blackBalance_iff testReds_Suc)

lemma isRed_iff: "isRed t \<longleftrightarrow> (\<exists>v q l r. t = Node False v q l r)"
  by (cases t) auto

lemma flipReds_id: "isRed l \<longrightarrow> \<not> isRed r \<Longrightarrow> flipReds (Node b v q l r) = Some (Node b v q l r)"
  by (auto simp: flipReds_def)

lemma fixLeft_id:
  "isRed l \<longrightarrow> invc l \<Longrightarrow> fixLeft (Node b v q l r) = Some (Node b v q l r)"
  by (cases l) (auto simp: fixLeft_def)

lemma fixLeft_LL:
  "invc ll \<Longrightarrow> isRed ll \<Longrightarrow> fixLeft (Node b v q (Node False lv lq ll lr) r) = Some (Node b lv lq ll (Node False v q lr r))"
  by (cases ll) (auto simp: fixLeft_def)

lemma fixLeft_LR:
  "\<not> isRed ll \<Longrightarrow> fixLeft (Node b v q (Node False lv lq ll (Node False xv xq xl xr)) r) =
     Some (Node b xv xq (Node False lv lq ll xl) (Node False v q xr r))"
  by (simp add: fixLeft_def)

lemma fixRight_id:
  "isRed r \<longrightarrow> invc r \<Longrightarrow> fixRight (Node b v q l r) = Some (Node b v q l r)"
  by (cases r) (auto simp: fixRight_def)

lemma fixRight_RR:
  "invc rr \<Longrightarrow> isRed rr \<Longrightarrow> fixRight (Node b v q l (Node False rv rq rl rr)) = Some (Node b rv rq (Node False v q l rl) rr)"
  by (cases rr) (auto simp: fixRight_def)

lemma fixRight_RL:
  "\<not> isRed rr \<Longrightarrow> fixRight (Node b v q l (Node False rv rq (Node False xv xq xl xr) rr)) =
     Some (Node b xv xq (Node False v q l xl) (Node False rv rq xr rr))"
  by (simp add: fixRight_def)

text \<open>What one iteration does, over the shapes that insertion can leave.\<close>

fun pre_step :: "bool \<Rightarrow> rbt \<Rightarrow> bool" where
  "pre_step root Leaf = False"
| "pre_step root (Node b v q l r) =
     (((inv3 l \<and> invc r) \<or> (invc l \<and> inv3 r)) \<and>
      (\<not> b \<and> \<not> root \<longrightarrow> invc l \<and> invc r \<and> \<not> (isRed l \<and> isRed r)))"

definition step_ok :: "bool \<Rightarrow> rbt \<Rightarrow> rbt \<Rightarrow> bool" where
  "step_ok root n n' \<longleftrightarrow> inorder n' = inorder n \<and> (invh n \<longrightarrow> invh n') \<and> invroot n' \<and>
     (\<not> root \<and> invh n \<longrightarrow> bheight n' = bheight n) \<and> (\<not> root \<longrightarrow> inv3 n') \<and> (\<not> root \<and> \<not> isRed n \<longrightarrow> invc n')"

lemma step_flip:
  assumes "pre_step root n" "n = Node b v q l r" "isRed l" "isRed r"
  shows "\<exists>n'. repairInsertStep n = Some n' \<and> step_ok root n n'"
proof -
  obtain lv lq ll lr rv rq rl rr where "l = Node False lv lq ll lr" "r = Node False rv rq rl rr"
    using assms(3,4) by (auto simp: isRed_iff)
  then show ?thesis
    using assms by (auto simp: repairInsertStep_def flipReds_def fixLeft_id fixRight_id step_ok_def)
qed

lemma step_left:
  assumes "inv3 l" "invc r" "isRed l" "\<not> isRed r" "b \<or> root \<or> invc l"
  shows "\<exists>n'. repairInsertStep (Node b v q l r) = Some n' \<and> step_ok root (Node b v q l r) n'"
proof -
  obtain lv lq ll lr where l: "l = Node False lv lq ll lr"
    using assms(3) by (auto simp: isRed_iff)
  consider "isRed ll" | "\<not> isRed ll" "isRed lr" | "\<not> isRed ll" "\<not> isRed lr" by blast
  then show ?thesis
  proof cases
    case 1
    then show ?thesis
      using assms l by (auto simp: repairInsertStep_def flipReds_id fixLeft_LL fixRight_id step_ok_def)
  next
    case 2
    then obtain xv xq xl xr where "lr = Node False xv xq xl xr" by (auto simp: isRed_iff)
    then show ?thesis
      using assms l 2 by (auto simp: repairInsertStep_def flipReds_id fixLeft_LR fixRight_id step_ok_def)
  next
    case 3
    then show ?thesis
      using assms l by (auto simp: repairInsertStep_def flipReds_id fixLeft_id fixRight_id step_ok_def)
  qed
qed

lemma step_right:
  assumes "invc l" "inv3 r" "\<not> isRed l" "b \<or> root \<or> invc r"
  shows "\<exists>n'. repairInsertStep (Node b v q l r) = Some n' \<and> step_ok root (Node b v q l r) n'"
proof -
  show ?thesis
  proof (cases "isRed r")
    case False
    then have "invc r" using assms(2) by (cases r) auto
    with False show ?thesis
      using assms by (auto simp: repairInsertStep_def flipReds_id fixLeft_id fixRight_id step_ok_def)
  next
    case True
    then obtain rv rq rl rr where r: "r = Node False rv rq rl rr" by (auto simp: isRed_iff)
    consider "isRed rr" | "\<not> isRed rr" "isRed rl" | "\<not> isRed rl" "\<not> isRed rr" by blast
    then show ?thesis
    proof cases
      case 1
      then show ?thesis
        using assms r by (auto simp: repairInsertStep_def flipReds_id fixLeft_id fixRight_RR step_ok_def)
    next
      case 2
      then obtain xv xq xl xr where "rl = Node False xv xq xl xr" by (auto simp: isRed_iff)
      then show ?thesis
        using assms r 2 by (auto simp: repairInsertStep_def flipReds_id fixLeft_id fixRight_RL step_ok_def)
    next
      case 3
      then show ?thesis
        using assms r by (auto simp: repairInsertStep_def flipReds_id fixLeft_id fixRight_id step_ok_def)
    qed
  qed
qed

lemma step_correct:
  assumes "pre_step root n"
  shows "\<exists>n'. repairInsertStep n = Some n' \<and> step_ok root n n'"
proof (cases n)
  case Leaf
  with assms show ?thesis by simp
next
  case (Node b v q l r)
  consider "isRed l" "isRed r" | "isRed l" "\<not> isRed r" | "\<not> isRed l" by blast
  then show ?thesis
  proof cases
    case 1
    with Node assms show ?thesis by (auto intro: step_flip)
  next
    case 2
    with Node assms have "invc r" by (cases r) auto
    moreover from 2 Node assms have "inv3 l" by (auto intro: invc_inv3)
    ultimately show ?thesis
      using 2 Node assms by (auto intro!: step_left)
  next
    case 3
    with Node assms have "invc l" by (cases l) auto
    moreover from 3 Node assms have "inv3 r" by (auto intro: invc_inv3)
    ultimately show ?thesis
      using 3 Node assms by (auto intro!: step_right)
  qed
qed


section \<open>Insertion keeps the tree valid\<close>

text \<open>
  \<open>bctx c h\<close>: in a hole where a subtree of black height \<open>h\<close> is put, every node of the chain is
  balanced. \<open>okctx c red\<close>: the siblings are coloured correctly, and no node of the chain but the
  root is red with a red sibling of the hole or, when \<open>red\<close>, above a red hole.
\<close>

fun bctx :: "ctx \<Rightarrow> nat \<Rightarrow> bool" where
  "bctx [] h = True"
| "bctx (f # c) h =
     (invh (getSibling f) \<and> bheight (getSibling f) = h \<and> bctx c (if frameRed f then h else Suc h))"

fun okctx :: "ctx \<Rightarrow> bool \<Rightarrow> bool" where
  "okctx [] red = True"
| "okctx (f # c) red =
     (invc (getSibling f) \<and> (frameRed f \<and> c \<noteq> [] \<longrightarrow> \<not> isRed (getSibling f) \<and> \<not> red) \<and>
      okctx c (frameRed f))"

lemma invh_plug: "invh (plug c t) \<longleftrightarrow> invh t \<and> bctx c (bheight t)"
proof (induction c arbitrary: t)
  case (Cons f c)
  show ?case by (cases f) (auto simp: Cons.IH)
qed simp

lemma isRed_fill [simp]: "isRed (fill f t) = frameRed f"
  by (cases f) auto

lemma invroot_plug_Cons: "invroot (plug (f # c) t) \<longleftrightarrow> invc t \<and> okctx (f # c) (isRed t)"
proof (induction c arbitrary: f t)
  case Nil
  then show ?case by (cases f) auto
next
  case (Cons g c)
  have "invc (fill f t) \<longleftrightarrow> invc t \<and> invc (getSibling f) \<and> (frameRed f \<longrightarrow> \<not> isRed t \<and> \<not> isRed (getSibling f))"
    by (cases f) auto
  then show ?case using Cons [of g "fill f t"] by auto
qed

lemma invroot_plug:
  "invroot (plug c t) \<longleftrightarrow> (if c = [] then invroot t else invc t \<and> okctx c (isRed t))"
  by (cases c) (use invroot_plug_Cons in simp_all)

lemma okctx_mono: "okctx c True \<Longrightarrow> okctx c red"
  by (cases c) auto

lemma repairInsert_correct:
  assumes "pre_step (c = []) n" "invh n" "bctx c (bheight n)" "okctx c (isRed n)"
  shows "\<exists>t. repairInsert c n = Some t \<and> validateRBT t \<and> inorder t = before c @ inorder n @ after c"
  using assms
proof (induction c arbitrary: n)
  case Nil
  then show ?case
    using step_correct [of True n] by (auto simp: step_ok_def validateRBT_iff)
next
  case (Cons f c)
  obtain n' where n': "repairInsertStep n = Some n'" and ok: "step_ok False n n'"
    using step_correct [of False n] Cons.prems by auto
  have "pre_step (c = []) (fill f n')"
    using ok Cons.prems by (cases f) (auto simp: step_ok_def intro: invc_inv3)
  moreover have "invh (fill f n')" "bctx c (bheight (fill f n'))"
    using ok Cons.prems by (cases f; auto simp: step_ok_def)+
  moreover have "okctx c (isRed (fill f n'))"
    using Cons.prems by simp
  ultimately obtain t where t: "repairInsert c (fill f n') = Some t" "validateRBT t"
      "inorder t = before c @ inorder (fill f n') @ after c"
    using Cons.IH by blast
  have "inorder t = before (f # c) @ inorder n @ after (f # c)"
    using t(3) ok by (cases f) (auto simp: step_ok_def)
  with t n' show ?case by auto
qed

definition bst :: "rbt \<Rightarrow> bool" where
  "bst t \<longleftrightarrow> sorted_wrt (<) (map fst (inorder t))"

lemma node_push_correct:
  assumes "t \<noteq> Leaf" "validateRBT (plug c t)" "bst t"
  shows "\<exists>t'. node_push val a c t = Some t' \<and> validateRBT t' \<and>
           inorder t' = before c @ ins_level val a (inorder t) @ after c"
  using assms
proof (induction val a c t rule: node_push.induct)
  case (2 val a c b v q l r)
  let ?new = "Node False val [a] Leaf Leaf"
  have inv: "invh (Node b v q l r)" "bctx c (bheight (Node b v q l r))"
      "c \<noteq> [] \<Longrightarrow> invc (Node b v q l r)" "okctx c (\<not> b)" "invc l" "invc r"
    using "2.prems"(2) by (auto simp: validateRBT_iff invh_plug invroot_plug split: if_splits)
  have bst: "bst l" "bst r" and srt: "sorted_wrt (<) (map fst (inorder l @ (v, q) # inorder r))"
    using "2.prems"(3) by (auto simp: bst_def sorted_wrt_append)
  consider "val = v" | "val < v" "l = Leaf" | "val < v" "l \<noteq> Leaf" | "v < val" "r = Leaf" | "v < val" "r \<noteq> Leaf"
    by (metis linorder_cases)
  then show ?case
  proof cases
    case 1
    then show ?thesis
      using inv "2.prems"(2) srt
      by (auto simp: validateRBT_iff invh_plug invroot_plug ins_level_node split: if_splits)
  next
    case 2
    have "pre_step (c = []) (Node b v q ?new r)" "bctx c (bheight (Node b v q ?new r))"
      "invh (Node b v q ?new r)" "okctx c (isRed (Node b v q ?new r))" using inv 2 by auto
    from repairInsert_correct [OF this(1,3,2,4)] show ?thesis
      using 2 ins_level_node [OF srt, of val a] by auto
  next
    case 3
    have "validateRBT (plug (LFrame b v q r # c) l)" using "2.prems"(2) by simp
    then show ?thesis
      using "2.IH"(1) 3 bst ins_level_node [OF srt, of val a] by auto
  next
    case 4
    have "pre_step (c = []) (Node b v q l ?new)" "bctx c (bheight (Node b v q l ?new))"
      "invh (Node b v q l ?new)" "okctx c (isRed (Node b v q l ?new))" using inv 4 by auto
    from repairInsert_correct [OF this(1,3,2,4)] show ?thesis
      using 4 ins_level_node [OF srt, of val a] by auto
  next
    case 5
    have "validateRBT (plug (RFrame b v q l # c) r)" using "2.prems"(2) by simp
    then show ?thesis
      using "2.IH"(2) 5 bst ins_level_node [OF srt, of val a] by auto
  qed
qed simp

lemma rbtree_push_correct:
  assumes "validateRBT t" "bst t"
  shows "\<exists>t'. rbtree_push val a t = Some t' \<and> validateRBT t' \<and> inorder t' = ins_level val a (inorder t)"
proof (cases "t = Leaf")
  case True
  then show ?thesis by (simp add: rbtree_push_def validateRBT_iff)
next
  case False
  with assms node_push_correct [of t "[]" val a] show ?thesis by (simp add: rbtree_push_def)
qed


section \<open>Removal keeps the tree valid\<close>

definition bs_ok :: "frame \<Rightarrow> rbt \<Rightarrow> bool \<Rightarrow> rbt \<Rightarrow> bool" where
  "bs_ok f t ret p \<longleftrightarrow> inorder p = inorder (fill f t) \<and> invh p \<and> invc p \<and>
     (isRed p \<longrightarrow> frameRed f) \<and>
     (if ret then bheight p = (if frameRed f then Suc (bheight t) else Suc (Suc (bheight t)))
      else \<not> frameRed f \<and> \<not> isRed p \<and> bheight p = Suc (bheight t))"

lemma blackSibling_correct:
  assumes t: "invh t" "invc t" "\<not> isRed t"
    and s: "invh (getSibling f)" "invc (getSibling f)" "\<not> isRed (getSibling f)"
      "bheight (getSibling f) = Suc (bheight t)"
  shows "\<exists>ret p. blackSibling f t = Some (ret, p) \<and> bs_ok f t ret p"
proof -
  obtain sv sq sl sr where S: "getSibling f = Node True sv sq sl sr"
    using s by (cases "getSibling f") auto
  consider (none) "\<not> isRed sl" "\<not> isRed sr"
    | (both) lv lq ll lr rv rq rl rr where "sl = Node False lv lq ll lr" "sr = Node False rv rq rl rr"
    | (l) lv lq ll lr where "sl = Node False lv lq ll lr" "\<not> isRed sr"
    | (r) rv rq rl rr where "sr = Node False rv rq rl rr" "\<not> isRed sl"
    by (metis isRed_iff)
  then show ?thesis
  proof cases
    case none
    with S t s show ?thesis by (cases f) (auto simp: blackSibling_def bs_ok_def)
  next
    case both
    with S t s show ?thesis by (cases f) (auto simp: blackSibling_def recolour_def bs_ok_def)
  next
    case l
    with S t s show ?thesis by (cases f) (auto simp: blackSibling_def recolour_def bs_ok_def)
  next
    case r
    with S t s show ?thesis by (cases f) (auto simp: blackSibling_def recolour_def bs_ok_def)
  qed
qed

text \<open>A red sibling is rotated above the parent, which leaves a red parent with a black sibling.\<close>

lemma redSibling_red:
  assumes "isRed (getSibling f)" "invc (getSibling f)" "invh (getSibling f)" 
    "bheight (getSibling f) = Suc h" "bctx c (if frameRed f then Suc h else Suc (Suc h))"
    "frameRed f \<longrightarrow> c = []" "okctx c (frameRed f)"
  obtains f' u where "redSibling f = Some (f', [u])" "frameRed f'" "\<not> isRed (getSibling f')"
    "invh (getSibling f')" "invc (getSibling f')" "bheight (getSibling f') = Suc h"
    "bctx (u # c) (Suc h)" "okctx (u # c) True"
    "before (f' # u # c) = before (f # c)" "after (f' # u # c) = after (f # c)"
proof -
  obtain sv sq sl sr where S: "getSibling f = Node False sv sq sl sr"
    using assms(1) by (auto simp: isRed_iff)
  show thesis
  proof (cases f)
    case (LFrame b v q r)
    show thesis
      by (rule that [of "LFrame False v q sl" "LFrame b sv sq sr"])
         (use assms S LFrame in \<open>auto simp: redSibling_def\<close>)
  next
    case (RFrame b v q l)
    show thesis
      by (rule that [of "RFrame False v q sr" "RFrame b sv sq sl"])
         (use assms S RFrame in \<open>auto simp: redSibling_def\<close>)
  qed
qed

lemma before_after_fill:
  "before c @ inorder (fill f t) @ after c = before (f # c) @ inorder t @ after (f # c)"
  by (cases f) auto

lemma repairToRoot_correct:
  assumes "invh t" "invc t" "\<not> isRed t" "bctx c (Suc (bheight t))" "okctx c False"
  shows "\<exists>t'. repairToRoot c t = Some t' \<and> validateRBT t' \<and>
           inorder t' = before c @ inorder t @ after c"
  using assms
proof (induction c arbitrary: t)
  case Nil
  then show ?case by (cases t) (auto simp: validateRBT_iff)
next
  case (Cons f c)
  have sib: "getSibling f \<noteq> Leaf" using Cons.prems by auto
  show ?case
  proof (cases "isRed (getSibling f)")
    case True
    obtain f' u where rs: "redSibling f = Some (f', [u])" "frameRed f'" "\<not> isRed (getSibling f')"
        "invh (getSibling f')" "invc (getSibling f')" "bheight (getSibling f') = Suc (bheight t)"
        "bctx (u # c) (Suc (bheight t))" "okctx (u # c) True"
        "before (f' # u # c) = before (f # c)" "after (f' # u # c) = after (f # c)"
      by (rule redSibling_red [OF True, of "bheight t" c]) (use Cons.prems True in auto)
    obtain ret p where bs: "blackSibling f' t = Some (ret, p)" "bs_ok f' t ret p"
      using blackSibling_correct [of t f'] Cons.prems rs by blast
    have ret: "ret" using bs rs by (auto simp: bs_ok_def split: if_splits)
    have "validateRBT (plug (u # c) p)"
      using bs rs ret okctx_mono [OF rs(8), of "isRed p"]
      by (auto simp: validateRBT_iff invh_plug invroot_plug bs_ok_def simp del: plug.simps)
    moreover have "inorder (plug (u # c) p) = before (f # c) @ inorder t @ after (f # c)"
      using bs rs before_after_fill [of "u # c" f' t] by (auto simp: bs_ok_def simp del: plug.simps)
    ultimately show ?thesis
      using sib rs(1) bs(1) ret by auto
  next
    case False
    then have rs: "redSibling f = Some (f, [])" by (simp add: redSibling_def)
    obtain ret p where bs: "blackSibling f t = Some (ret, p)" "bs_ok f t ret p"
      using blackSibling_correct [of t f] Cons.prems False by auto
    have io: "before c @ inorder p @ after c = before (f # c) @ inorder t @ after (f # c)"
      using bs before_after_fill [of c f t] by (simp add: bs_ok_def)
    show ?thesis
    proof (cases ret)
      case True
      have "validateRBT (plug c p)"
        using bs True Cons.prems okctx_mono [of c "isRed p"]
        by (cases p; auto simp: validateRBT_iff invh_plug invroot_plug bs_ok_def split: if_splits)
      with True sib rs bs io show ?thesis by auto
    next
      case False
      have "invh p" "invc p" "\<not> isRed p" "bctx c (Suc (bheight p))" "okctx c False"
        using bs False Cons.prems by (auto simp: bs_ok_def)
      from Cons.IH [OF this] show ?thesis
        using False sib rs bs io by auto
    qed
  qed
qed


lemma repairDetach_correct:
  assumes "validateRBT (plug c (Node b v q l r))" "l = Leaf \<or> r = Leaf" "nn = (if r = Leaf then l else r)"
  shows "\<exists>t'. repairDetach c b nn = Some t' \<and> validateRBT t' \<and>
           inorder t' = before c @ inorder nn @ after c"
proof -
  have inv: "invh nn" "invc nn" "bheight nn = 0" "bctx c (if b then Suc 0 else 0)"
      "okctx c (\<not> b)" "\<not> b \<Longrightarrow> c \<noteq> [] \<Longrightarrow> \<not> isRed nn"
    using assms by (auto simp: validateRBT_iff invh_plug invroot_plug split: if_splits)
  show ?thesis
  proof (cases "\<not> b")
    case True
    then have "validateRBT (plug c nn)"
      using inv okctx_mono [of c "isRed nn"]
      by (cases nn) (auto simp: validateRBT_iff invh_plug invroot_plug)
    with True show ?thesis by (simp add: repairDetach_def)
  next
    case b: False
    show ?thesis
    proof (cases "isRed nn")
      case True
      then obtain nv nq nl nr where nn: "nn = Node False nv nq nl nr" by (auto simp: isRed_iff)
      have "validateRBT (plug c (Node True nv nq nl nr))"
        using inv nn b by (auto simp: validateRBT_iff invh_plug invroot_plug)
      with b nn show ?thesis by (simp add: repairDetach_def)
    next
      case False
      then show ?thesis
        using b inv repairToRoot_correct [of nn c] by (auto simp: repairDetach_def)
    qed
  qed
qed

lemma detachMax_correct:
  assumes "validateRBT (plug c t)" "t \<noteq> Leaf"
  shows "\<exists>nv nq t' xs. detachMax c t = Some (nv, nq, t') \<and> validateRBT t' \<and>
           inorder t = xs @ [(nv, nq)] \<and> inorder t' = before c @ xs @ after c"
  using assms
proof (induction t arbitrary: c)
  case (Node b v q l r)
  show ?case
  proof (cases "r = Leaf")
    case True
    obtain t' where "repairDetach c b l = Some t'" "validateRBT t'"
        "inorder t' = before c @ inorder l @ after c"
      using repairDetach_correct [OF Node.prems(1), of l] True by auto
    with True show ?thesis by auto
  next
    case False
    have "validateRBT (plug (RFrame b v q l # c) r)" using Node.prems by simp
    from Node.IH(2) [OF this False] False show ?thesis by auto
  qed
qed simp

lemma inorder_givePosition:
  "inorder (givePosition a nv nq t) = map (\<lambda>(v, q). if hd q = a then (nv, nq) else (v, q)) (inorder t)"
  by (induction t) auto

lemma givePosition_shape [simp]:
  "isRed (givePosition a nv nq t) = isRed t" "bheight (givePosition a nv nq t) = bheight t"
  by (induction t) auto

lemma givePosition_inv [simp]:
  "invh (givePosition a nv nq t) = invh t" "invc (givePosition a nv nq t) = invc t"
  by (induction t) auto

lemma validateRBT_givePosition [simp]: "validateRBT (givePosition a nv nq t) = validateRBT t"
  by (cases t) (auto simp: validateRBT_iff)

lemma map_other_heads:
  "\<forall>(w, p) \<in> set xs. hd p \<noteq> a \<Longrightarrow>
   map (\<lambda>(v, q). if hd q = a then (nv, nq) else (v, q)) xs = xs"
  by (induction xs) auto

lemma detach_correct:
  assumes "validateRBT (plug c (Node b v q l r))"
    and hds: "\<forall>(w, p) \<in> set (before c @ inorder l @ inorder r @ after c). hd p \<noteq> hd q"
  shows "\<exists>t'. detach c (Node b v q l r) = Some t' \<and> validateRBT t' \<and>
           inorder t' = before c @ inorder l @ inorder r @ after c"
proof (cases "l = Leaf \<or> r = Leaf")
  case True
  then show ?thesis
    using repairDetach_correct [OF assms(1) True refl] by (auto split: if_splits)
next
  case False
  have "validateRBT (plug (LFrame b v q r # c) l)" using assms by simp
  from detachMax_correct [OF this] False obtain nv nq t' xs where
    dm: "detachMax (LFrame b v q r # c) l = Some (nv, nq, t')" "validateRBT t'"
      "inorder l = xs @ [(nv, nq)]" "inorder t' = before c @ xs @ (v, q) # inorder r @ after c"
    by auto
  have "inorder (givePosition (hd q) nv nq t') = before c @ inorder l @ inorder r @ after c"
    using dm hds by (simp add: inorder_givePosition map_other_heads)
  with dm False show ?thesis by auto
qed

definition addrs :: "rbt \<Rightarrow> addr list" where
  "addrs t = concat (map snd (inorder t))"

definition rbt_inv :: "rbt \<Rightarrow> bool" where
  "rbt_inv t \<longleftrightarrow> validateRBT t \<and> bst t \<and> distinct (addrs t) \<and> (\<forall>(v, q) \<in> set (inorder t). q \<noteq> [])"

definition del_level :: "addr \<Rightarrow> (u64 \<times> addr list) list \<Rightarrow> (u64 \<times> addr list) list" where
  "del_level a xs = filter (\<lambda>(v, q). q \<noteq> []) (map (\<lambda>(v, q). (v, remove1 a q)) xs)"

lemma locate_Some:
  "locate a c t = Some (c', n) \<Longrightarrow>
   plug c' n = plug c t \<and> (\<exists>b v q l r. n = Node b v q l r \<and> a \<in> set q)"
  by (induction a c t arbitrary: c' n rule: locate.induct) (auto split: if_splits option.splits)

lemma locate_None: "locate a c t = None \<longleftrightarrow> a \<notin> set (addrs t)"
  by (induction a c t rule: locate.induct) (auto simp: addrs_def split: option.splits)

lemma del_level_append [simp]: "del_level a (xs @ ys) = del_level a xs @ del_level a ys"
  by (simp add: del_level_def)

lemma del_level_notin:
  "a \<notin> set (concat (map snd xs)) \<Longrightarrow> \<forall>(v, q) \<in> set xs. q \<noteq> [] \<Longrightarrow> del_level a xs = xs"
  by (induction xs) (auto simp: del_level_def remove1_idem)

lemma heads_other:
  "a \<notin> set (concat (map snd xs)) \<Longrightarrow> \<forall>(v, q) \<in> set xs. q \<noteq> [] \<Longrightarrow> \<forall>(w, p) \<in> set xs. hd p \<noteq> a"
  by (induction xs) auto

lemma set_del_level:
  "(v, q) \<in> set (del_level a xs) \<Longrightarrow> q \<noteq> [] \<and> v \<in> fst ` set xs"
  by (force simp: del_level_def)

lemma addrs_del_level:
  assumes "distinct (concat (map snd xs))"
  shows "concat (map snd (del_level a xs)) = remove1 a (concat (map snd xs))"
  using assms
proof (induction xs)
  case (Cons x xs)
  obtain v q where x: "x = (v, q)" by (cases x)
  have "remove1 a (concat (map snd xs)) = concat (map snd xs)" if "a \<in> set q"
    using Cons.prems x that by (auto intro!: remove1_idem)
  then show ?case
    using Cons x by (auto simp: del_level_def remove1_append remove1_idem)
qed (simp add: del_level_def)

lemma sorted_del_level:
  "sorted_wrt (<) (map fst xs) \<Longrightarrow> sorted_wrt (<) (map fst (del_level a xs))"
  by (induction xs) (auto dest: set_del_level simp: del_level_def)


lemma node_pop_correct:
  assumes "rbt_inv t"
  shows "\<exists>t'. node_pop a t = Some t' \<and> rbt_inv t' \<and> inorder t' = del_level a (inorder t)"
proof -
  have dist: "distinct (concat (map snd (inorder t)))" and ne: "\<forall>(v, q) \<in> set (inorder t). q \<noteq> []"
    and val: "validateRBT t" and bst: "bst t"
    using assms by (auto simp: rbt_inv_def addrs_def)
  have "\<exists>t'. node_pop a t = Some t' \<and> validateRBT t' \<and> inorder t' = del_level a (inorder t)"
  proof (cases "locate a [] t")
    case None
    then have "del_level a (inorder t) = inorder t"
      using ne by (intro del_level_notin) (auto simp: locate_None addrs_def)
    with None val show ?thesis by (simp add: node_pop_def)
  next
    case (Some cn)
    then obtain c b v q l r where loc: "locate a [] t = Some (c, Node b v q l r)" and a: "a \<in> set q"
      and t: "t = plug c (Node b v q l r)"
      using locate_Some [of a "[]" t] by (cases cn) fastforce
    have io: "inorder t = before c @ inorder l @ (v, q) # inorder r @ after c"
      by (simp add: t)
    have na: "a \<notin> set (concat (map snd (before c @ inorder l)))"
      "a \<notin> set (concat (map snd (inorder r @ after c)))"
      using dist a unfolding io by auto
    have ne': "\<forall>(v, q) \<in> set (before c @ inorder l). q \<noteq> []" "\<forall>(v, q) \<in> set (inorder r @ after c). q \<noteq> []"
      using ne unfolding io by auto
    have others: "del_level a (before c @ inorder l) = before c @ inorder l"
      "del_level a (inorder r @ after c) = inorder r @ after c"
      using na ne' by (blast intro: del_level_notin)+
    have dl: "del_level a (inorder t) =
        before c @ inorder l @ (if remove1 a q = [] then [] else [(v, remove1 a q)]) @ inorder r @ after c"
      using others unfolding io by (simp add: del_level_def)
    have shape: "validateRBT (plug c (Node b v q' l r))" for q'
      using val unfolding t by (auto simp: validateRBT_iff invh_plug invroot_plug)
    consider "hd q \<noteq> a" | "hd q = a" "tl q \<noteq> []" | "hd q = a" "tl q = []" by blast
    then show ?thesis
    proof cases
      case 1
      then have "remove1 a q \<noteq> []" using a by (cases q) auto
      with 1 loc shape dl show ?thesis by (simp add: node_pop_def)
    next
      case 2
      then have "remove1 a q = tl q" using a by (cases q) auto
      with 2 loc shape dl show ?thesis by (simp add: node_pop_def)
    next
      case 3
      then have q: "q = [a]" using a by (cases q) auto
      have "\<forall>(w, p) \<in> set (before c @ inorder l @ inorder r @ after c). hd p \<noteq> hd q"
        using heads_other [OF na(1) ne'(1)] heads_other [OF na(2) ne'(2)] q by auto
      from detach_correct [OF shape this] show ?thesis
        using 3 loc dl q by (auto simp: node_pop_def)
    qed
  qed
  then obtain t' where t': "node_pop a t = Some t'" "validateRBT t'" "inorder t' = del_level a (inorder t)"
    by blast
  moreover have "rbt_inv t'"
    using t' bst dist sorted_del_level [of "inorder t" a] addrs_del_level [OF dist, of a]
    by (auto simp: rbt_inv_def bst_def addrs_def dest: set_del_level)
  ultimately show ?thesis by blast
qed

lemma fst_ins_level: "fst ` set (ins_level v a xs) = insert v (fst ` set xs)"
  by (induction v a xs rule: ins_level.induct) auto

lemma sorted_ins_level:
  "sorted_wrt (<) (map fst xs) \<Longrightarrow> sorted_wrt (<) (map fst (ins_level v a xs))"
proof (induction v a xs rule: ins_level.induct)
  case (2 v a w q xs)
  have "\<forall>y \<in> fst ` set (ins_level v a xs). w < y" if "w < v"
    using "2.prems" that by (auto simp: fst_ins_level)
  with 2 show ?case by (auto simp: not_less less_le)
qed simp

lemma mset_ins_level: "mset (concat (map snd (ins_level v a xs))) = add_mset a (mset (concat (map snd xs)))"
  by (induction v a xs rule: ins_level.induct) auto

lemma ins_level_nonempty: "\<forall>(v, q) \<in> set xs. q \<noteq> [] \<Longrightarrow> \<forall>(v, q) \<in> set (ins_level v a xs). q \<noteq> []"
  by (induction v a xs rule: ins_level.induct) auto

lemma rbtree_push_inv:
  assumes "rbt_inv t" "a \<notin> set (addrs t)"
  shows "\<exists>t'. rbtree_push v a t = Some t' \<and> rbt_inv t' \<and> inorder t' = ins_level v a (inorder t)"
proof -
  obtain t' where t': "rbtree_push v a t = Some t'" "validateRBT t'" "inorder t' = ins_level v a (inorder t)"
    using rbtree_push_correct [of t v a] assms by (auto simp: rbt_inv_def)
  have "distinct (addrs t')"
    using assms t' mset_ins_level [of v a "inorder t"] distinct_count_atmost_1
    by (metis (no_types, lifting) addrs_def mset.simps(2) mset_eq_imp_distinct_iff distinct.simps(2) rbt_inv_def)
  then have "rbt_inv t'"
    using assms t' sorted_ins_level [of "inorder t" v a] ins_level_nonempty [of "inorder t" v a]
    by (auto simp: rbt_inv_def bst_def)
  with t' show ?thesis by blast
qed

section \<open>Price-time order\<close>

definition entries :: "rbt \<Rightarrow> (u64 \<times> addr) list" where
  "entries t = flat (inorder t)"

lemma map_snd_entries: "map snd (entries t) = addrs t"
  by (simp add: entries_def addrs_def map_snd_flat)

lemma flat_del_level:
  assumes "distinct (concat (map snd xs))"
  shows "flat (del_level a xs) = filter (\<lambda>(v, b). b \<noteq> a) (flat xs)"
  using assms
proof (induction xs)
  case (Cons x xs)
  obtain v q where x: "x = (v, q)" by (cases x)
  have "remove1 a q = filter (\<lambda>b. b \<noteq> a) q"
    using Cons.prems x by (simp add: distinct_remove1_removeAll removeAll_filter_not_eq) metis
  then show ?case
    using Cons x by (auto simp: del_level_def filter_map comp_def)
qed (simp add: del_level_def)

lemma inorder_Nil_iff [simp]: "inorder t = [] \<longleftrightarrow> t = Leaf"
  by (cases t) auto

lemma node_min_inorder: "node_min t = (case inorder t of [] \<Rightarrow> None | x # _ \<Rightarrow> Some x)"
  by (induction t) (auto split: list.splits)

lemma node_max_inorder: "node_max t = (if inorder t = [] then None else Some (last (inorder t)))"
  by (induction t) auto

lemma peekMin_entries: "rbt_inv t \<Longrightarrow> peekMin t = first_min (entries t)"
  by (auto simp: peekMin_def node_min_inorder first_min_def entries_def rbt_inv_def neq_Nil_conv split: list.splits)

lemma peekMax_entries:
  assumes "rbt_inv t"
  shows "peekMax t = first_max (entries t)"
proof (cases "inorder t = []")
  case True
  then show ?thesis by (simp add: peekMax_def node_max_inorder first_max_def entries_def)
next
  case False
  then obtain xs v q where io: "inorder t = xs @ [(v, q)]" by (metis prod.exhaust rev_exhaust)
  then have q: "q \<noteq> []" and lt: "\<forall>e \<in> set (flat xs). fst e \<noteq> v"
    using assms by (fastforce simp: rbt_inv_def bst_def sorted_wrt_append set_flat)+
  have "filter (\<lambda>e. fst e = v) (flat xs) = []" using lt by (simp add: filter_empty_conv)
  with q io show ?thesis
    by (cases q) (auto simp: peekMax_def node_max_inorder first_max_def entries_def last_map filter_True)
qed

lemma rbtree_get_inorder:
  "bst t \<Longrightarrow> rbtree_get val t = map_option hd (map_of (inorder t) val)"
proof (induction t)
  case (Node b v q l r)
  have srt: "sorted_wrt (<) (map fst (inorder l @ (v, q) # inorder r))"
    using Node.prems by (simp add: bst_def)
  have sub: "bst l" "bst r" using srt unfolding sorted_levels_append bst_def by blast+
  have "map_of (inorder l) val = None" if "v \<le> val"
    using srt that unfolding sorted_levels_append map_of_eq_None_iff by force
  moreover have "map_of (inorder r) val = None" if "val \<le> v"
    using srt that unfolding sorted_levels_append map_of_eq_None_iff by force
  ultimately show ?case
    using Node.IH sub by (auto simp: map_add_def split: option.splits)
qed simp


lemma map_of_levels:
  assumes "\<forall>(v, q) \<in> set xs. q \<noteq> []"
  shows "map_option hd (map_of xs val) = map_of (flat xs) val"
  using assms
proof (induction xs)
  case (Cons x xs)
  obtain v q where x: "x = (v, q)" by (cases x)
  then obtain a q' where "q = a # q'" using Cons.prems by (cases q) auto
  moreover have "val \<noteq> v \<Longrightarrow> map_of (map (Pair v) q' @ flat xs) val = map_of (flat xs) val"
    by (induction q') auto
  ultimately show ?case using Cons x by auto
qed simp

lemma rbtree_get_entries: "rbt_inv t \<Longrightarrow> rbtree_get val t = map_of (entries t) val"
  by (simp add: rbt_inv_def rbtree_get_inorder map_of_levels entries_def)

lemma entries_push:
  assumes "rbt_inv t" "a \<notin> snd ` set (entries t)"
  shows "\<exists>t'. rbtree_push v a t = Some t' \<and> rbt_inv t' \<and> entries t' = ins_fifo v a (entries t)"
proof -
  have "a \<notin> set (addrs t)" using assms(2) by (simp flip: map_snd_entries)
  from rbtree_push_inv [OF assms(1) this, of v] show ?thesis
    using assms(1) flat_ins_level [of "inorder t" v a] by (auto simp: entries_def rbt_inv_def bst_def)
qed

lemma entries_pop:
  assumes "rbt_inv t"
  shows "\<exists>t'. node_pop a t = Some t' \<and> rbt_inv t' \<and> entries t' = filter (\<lambda>(v, b). b \<noteq> a) (entries t)"
  using node_pop_correct [OF assms, of a] assms flat_del_level [of "inorder t" a]
  by (auto simp: entries_def rbt_inv_def addrs_def)

lemma sorted_entries: "rbt_inv t \<Longrightarrow> sorted (map fst (entries t)) \<and> distinct (map snd (entries t))"
  by (simp add: rbt_inv_def bst_def sorted_flat entries_def map_snd_flat addrs_def)

lemma rbt_inv_Leaf [simp]: "rbt_inv Leaf" "entries Leaf = []"
  by (simp_all add: rbt_inv_def validateRBT_def bst_def addrs_def entries_def)

lemma popMin_entries:
  assumes "rbt_inv t"
  shows "\<exists>t'. popMin t = Some (first_min (entries t), t') \<and> rbt_inv t' \<and>
           entries t' = del_entry (first_min (entries t)) (entries t)"
  using assms entries_pop [OF assms]
  by (cases "first_min (entries t)") (force simp: popMin_def peekMin_entries del_entry_def)+

lemma popMax_entries:
  assumes "rbt_inv t"
  shows "\<exists>t'. popMax t = Some (first_max (entries t), t') \<and> rbt_inv t' \<and>
           entries t' = del_entry (first_max (entries t)) (entries t)"
  using assms entries_pop [OF assms]
  by (cases "first_max (entries t)") (force simp: popMax_def peekMax_entries del_entry_def)+

interpretation rbq: price_time_queue rbt_inv entries "\<lambda>_ _. True" rbtree_push peekMin peekMax popMin popMax
proof
  fix q :: rbt and v :: u64 and a :: addr
  assume q: "rbt_inv q"
  show "sorted (map fst (entries q)) \<and> distinct (map snd (entries q))"
    using q by (rule sorted_entries)
  show "peekMin q = first_min (entries q)" "peekMax q = first_max (entries q)"
    using q by (simp_all add: peekMin_entries peekMax_entries)
  show "\<exists>q'. popMin q = Some (first_min (entries q), q') \<and> rbt_inv q' \<and> (\<lambda>_. True) = (\<lambda>_. True) \<and>
      entries q' = del_entry (first_min (entries q)) (entries q)"
    "\<exists>q'. popMax q = Some (first_max (entries q), q') \<and> rbt_inv q' \<and> (\<lambda>_. True) = (\<lambda>_. True) \<and>
      entries q' = del_entry (first_max (entries q)) (entries q)"
    using popMin_entries [OF q] popMax_entries [OF q] by simp_all
  assume "a \<notin> snd ` set (entries q)"
  from entries_push [OF q this, of v]
  show "\<exists>q'. rbtree_push v a q = Some q' \<and> rbt_inv q' \<and> (\<lambda>_. True) = (\<lambda>_. True) \<and>
      entries q' = ins_fifo v a (entries q)" by simp
qed

end
