(* ===== verification/RefPrioQ.thy ===== *)
theory RefPrioQ
  imports Price_Time
begin

text \<open>
  The engine's reference queue (\<^verbatim>\<open>matcher/pqueue/refprioq.go\<close>): an array with one slice of orders per
  price between \<^verbatim>\<open>lowPrice\<close> and \<^verbatim>\<open>highPrice\<close>. It provides the contract of \<open>Price_Time\<close> for the prices
  in its range; a push outside the range indexes outside the array and panics (\<open>None\<close>).
\<close>

section \<open>refprioq.go\<close>

record pqueue =
  prios :: "addr list list"
  lowPrice :: u64
  highPrice :: u64

definition mkPrioq :: "u64 \<Rightarrow> u64 \<Rightarrow> pqueue" where
  "mkPrioq low high =
     \<lparr>prios = replicate (unat (high - low + 1)) [], lowPrice = low, highPrice = high\<rparr>"

definition pqueue_push :: "u64 \<Rightarrow> addr \<Rightarrow> pqueue \<Rightarrow> pqueue option" where
  "pqueue_push price a q =
     (let idx = unat (price - lowPrice q) in
      if idx < length (prios q)
      then Some (q\<lparr>prios := (prios q)[idx := prios q ! idx @ [a]]\<rparr>)
      else None)"

text \<open>
  The loops over the array, downwards from \<open>i - 1\<close> and upwards from \<open>i\<close>: the index of the first
  slice that is not empty.
\<close>

fun scanDown :: "addr list list \<Rightarrow> nat \<Rightarrow> nat option" where
  "scanDown ps 0 = None"
| "scanDown ps (Suc i) = (if length (ps ! i) > 0 then Some i else scanDown ps i)"

function scanUp :: "addr list list \<Rightarrow> nat \<Rightarrow> nat option" where
  "scanUp ps i =
     (if i < length ps then (if length (ps ! i) > 0 then Some i else scanUp ps (i + 1)) else None)"
  by pat_completeness auto
termination
  by (relation "measure (\<lambda>(ps, i). length ps - i)") auto

declare scanUp.simps [simp del]

definition pqueue_pop :: "nat \<Rightarrow> pqueue \<Rightarrow> (addr option \<times> pqueue) option" where
  "pqueue_pop i q =
     (case prios q ! i of
        [] \<Rightarrow> None
      | a # prio \<Rightarrow> Some (Some a, q\<lparr>prios := (prios q)[i := prio]\<rparr>))"

definition pqueue_peekMax :: "pqueue \<Rightarrow> addr option" where
  "pqueue_peekMax q =
     (if length (prios q) = 0 then None
      else map_option (\<lambda>i. hd (prios q ! i)) (scanDown (prios q) (length (prios q))))"

definition pqueue_popMax :: "pqueue \<Rightarrow> (addr option \<times> pqueue) option" where
  "pqueue_popMax q =
     (if length (prios q) = 0 then Some (None, q)
      else (case scanDown (prios q) (length (prios q)) of
              Some i \<Rightarrow> pqueue_pop i q
            | None \<Rightarrow> Some (None, q)))"

definition pqueue_peekMin :: "pqueue \<Rightarrow> addr option" where
  "pqueue_peekMin q =
     (if length (prios q) = 0 then None
      else map_option (\<lambda>i. hd (prios q ! i)) (scanUp (prios q) 0))"

definition pqueue_popMin :: "pqueue \<Rightarrow> (addr option \<times> pqueue) option" where
  "pqueue_popMin q =
     (if length (prios q) = 0 then Some (None, q)
      else (case scanUp (prios q) 0 of
              Some i \<Rightarrow> pqueue_pop i q
            | None \<Rightarrow> Some (None, q)))"

text \<open>
  \<^verbatim>\<open>cancel\<close>: the loops over the slices and over the orders of a slice, with \<open>guidOf\<close> for \<^verbatim>\<open>o.Guid()\<close>.
\<close>

fun cancelPrio :: "(addr \<Rightarrow> u64) \<Rightarrow> u64 \<Rightarrow> addr list \<Rightarrow> (addr \<times> addr list) option" where
  "cancelPrio guidOf guid [] = None"
| "cancelPrio guidOf guid (a # prio) =
     (if guidOf a = guid then Some (a, prio)
      else map_option (\<lambda>(b, rest). (b, a # rest)) (cancelPrio guidOf guid prio))"

fun cancelPrios :: "(addr \<Rightarrow> u64) \<Rightarrow> u64 \<Rightarrow> addr list list \<Rightarrow> (addr \<times> addr list list) option" where
  "cancelPrios guidOf guid [] = None"
| "cancelPrios guidOf guid (prio # rest) =
     (case cancelPrio guidOf guid prio of
        Some (a, prio') \<Rightarrow> Some (a, prio' # rest)
      | None \<Rightarrow> map_option (\<lambda>(a, rest'). (a, prio # rest')) (cancelPrios guidOf guid rest))"

definition pqueue_cancel :: "(addr \<Rightarrow> u64) \<Rightarrow> u64 \<Rightarrow> pqueue \<Rightarrow> addr option \<times> pqueue" where
  "pqueue_cancel guidOf guid q =
     (case cancelPrios guidOf guid (prios q) of
        Some (a, ps) \<Rightarrow> (Some a, q\<lparr>prios := ps\<rparr>)
      | None \<Rightarrow> (None, q))"

section \<open>The contract\<close>

definition plevels :: "u64 \<Rightarrow> addr list list \<Rightarrow> (u64 \<times> addr list) list" where
  "plevels low ps = map (\<lambda>i. (low + of_nat i, ps ! i)) [0..<length ps]"

definition pentries :: "pqueue \<Rightarrow> pt_list" where
  "pentries q = flat (plevels (lowPrice q) (prios q))"

definition pinvar :: "pqueue \<Rightarrow> bool" where
  "pinvar q \<longleftrightarrow> lowPrice q \<le> highPrice q \<and>
     length (prios q) = Suc (unat (highPrice q - lowPrice q)) \<and> distinct (concat (prios q))"

definition pokprice :: "pqueue \<Rightarrow> u64 \<Rightarrow> bool" where
  "pokprice q v \<longleftrightarrow> lowPrice q \<le> v \<and> v \<le> highPrice q"

lemma length_plevels [simp]: "length (plevels low ps) = length ps"
  by (simp add: plevels_def)

lemma plevels_nth [simp]: "i < length ps \<Longrightarrow> plevels low ps ! i = (low + of_nat i, ps ! i)"
  by (simp add: plevels_def)

lemma map_snd_plevels [simp]: "map snd (plevels low ps) = ps"
  by (rule nth_equalityI) auto

lemma plevels_split:
  assumes "i < length ps"
  shows "plevels low (ps[i := q]) =
    take i (plevels low ps) @ (low + of_nat i, q) # drop (Suc i) (plevels low ps)"
proof (rule nth_equalityI)
  show "length (plevels low (ps[i := q])) =
      length (take i (plevels low ps) @ (low + of_nat i, q) # drop (Suc i) (plevels low ps))"
    using assms by simp
  fix j assume j: "j < length (plevels low (ps[i := q]))"
  show "plevels low (ps[i := q]) ! j =
      (take i (plevels low ps) @ (low + of_nat i, q) # drop (Suc i) (plevels low ps)) ! j"
    using assms j by (auto simp: nth_append nth_list_update nth_Cons' min_def)
qed

lemma low_add_less:
  assumes "i < j" "j \<le> unat (high - low)" "low \<le> high"
  shows "low + of_nat i < low + (of_nat j :: u64)"
proof -
  have hl: "unat low + unat (high - low) = unat high"
    using assms(3) by (metis add.commute diff_add_cancel le_add_diff_inverse unat_sub word_le_nat_alt)
  have "unat high < 2 ^ LENGTH(64)" by (rule unsigned_less)
  then have lt: "unat high < 2 ^ 64" by simp
  have "unat (low + of_nat k) = unat low + k" if "k \<le> unat (high - low)" for k
  proof -
    have "unat low + k < 2 ^ 64" using that hl lt by linarith
    then show ?thesis by (simp add: unat_word_ariths unat_of_nat take_bit_eq_mod)
  qed
  then show ?thesis using assms by (simp add: word_less_nat_alt)
qed

lemma sorted_plevels:
  assumes "pinvar q"
  shows "sorted_wrt (<) (map fst (plevels (lowPrice q) (prios q)))"
  using assms low_add_less [of _ _ "highPrice q" "lowPrice q"]
  by (auto simp: sorted_wrt_iff_nth_less pinvar_def)

lemma scanDown_Some:
  "scanDown ps n = Some i \<Longrightarrow> i < n \<and> ps ! i \<noteq> [] \<and> (\<forall>j. i < j \<and> j < n \<longrightarrow> ps ! j = [])"
  by (induction n) (auto split: if_splits simp: less_Suc_eq)

lemma scanDown_None: "scanDown ps n = None \<Longrightarrow> \<forall>j < n. ps ! j = []"
  by (induction n) (auto split: if_splits simp: less_Suc_eq)

lemma scanUp_Some:
  "scanUp ps k = Some i \<Longrightarrow> k \<le> i \<and> i < length ps \<and> ps ! i \<noteq> [] \<and> (\<forall>j. k \<le> j \<and> j < i \<longrightarrow> ps ! j = [])"
proof (induction ps k rule: scanUp.induct)
  case (1 ps k)
  show ?case
  proof (cases "k < length ps \<and> ps ! k = []")
    case True
    then have "scanUp ps (k + 1) = Some i" using "1.prems" by (simp add: scanUp.simps [of ps k])
    with "1.IH" True have "k + 1 \<le> i" "i < length ps" "ps ! i \<noteq> []" "\<forall>j. k + 1 \<le> j \<and> j < i \<longrightarrow> ps ! j = []"
      by simp_all
    with True show ?thesis by (metis Suc_eq_plus1 Suc_leI add_leD1 le_less)
  next
    case False
    with "1.prems" show ?thesis by (auto simp: scanUp.simps [of ps k] split: if_splits)
  qed
qed

lemma scanUp_None: "scanUp ps k = None \<Longrightarrow> \<forall>j. k \<le> j \<and> j < length ps \<longrightarrow> ps ! j = []"
proof (induction ps k rule: scanUp.induct)
  case (1 ps k)
  show ?case
  proof (cases "k < length ps \<and> ps ! k = []")
    case True
    then have "scanUp ps (k + 1) = None" using "1.prems" by (simp add: scanUp.simps [of ps k])
    with "1.IH" True show ?thesis by (metis Suc_eq_plus1 Suc_leI le_less length_greater_0_conv)
  next
    case False
    with "1.prems" show ?thesis by (auto simp: scanUp.simps [of ps k] split: if_splits)
  qed
qed

lemma flat_empty: "\<forall>(v, q) \<in> set xs. q = [] \<Longrightarrow> flat xs = []"
  by (induction xs) auto

lemma flat_take_plevels:
  "\<forall>j < i. ps ! j = [] \<Longrightarrow> i \<le> length ps \<Longrightarrow> flat (take i (plevels low ps)) = []"
  by (rule flat_empty) (auto simp: in_set_conv_nth)

lemma flat_drop_plevels:
  "\<forall>j. i \<le> j \<and> j < length ps \<longrightarrow> ps ! j = [] \<Longrightarrow> flat (drop i (plevels low ps)) = []"
  by (rule flat_empty) (auto simp: in_set_conv_nth)

text \<open>The contents around one slice of the array.\<close>

lemma pentries_split:
  assumes "i < length (prios q)"
  shows "pentries q = flat (take i (plevels (lowPrice q) (prios q))) @
      map (Pair (lowPrice q + of_nat i)) (prios q ! i) @
      flat (drop (Suc i) (plevels (lowPrice q) (prios q)))"
    and "pentries (q\<lparr>prios := (prios q)[i := qs]\<rparr>) =
      flat (take i (plevels (lowPrice q) (prios q))) @ map (Pair (lowPrice q + of_nat i)) qs @
      flat (drop (Suc i) (plevels (lowPrice q) (prios q)))"
proof -
  have "plevels (lowPrice q) (prios q) = take i (plevels (lowPrice q) (prios q)) @
      (lowPrice q + of_nat i, prios q ! i) # drop (Suc i) (plevels (lowPrice q) (prios q))"
    using plevels_split [OF assms, of "lowPrice q" "prios q ! i"] by simp
  from arg_cong [OF this, of flat] show "pentries q = flat (take i (plevels (lowPrice q) (prios q))) @
      map (Pair (lowPrice q + of_nat i)) (prios q ! i) @
      flat (drop (Suc i) (plevels (lowPrice q) (prios q)))"
    by (simp add: pentries_def)
  show "pentries (q\<lparr>prios := (prios q)[i := qs]\<rparr>) =
      flat (take i (plevels (lowPrice q) (prios q))) @ map (Pair (lowPrice q + of_nat i)) qs @
      flat (drop (Suc i) (plevels (lowPrice q) (prios q)))"
    by (simp add: pentries_def plevels_split [OF assms])
qed

lemma map_snd_pentries: "map snd (pentries q) = concat (prios q)"
  by (simp add: pentries_def map_snd_flat)

lemma del_entry_mid:
  assumes "distinct (map snd (xs @ (v, a) # ys))"
  shows "del_entry (Some a) (xs @ (v, a) # ys) = xs @ ys"
proof -
  have "\<forall>e \<in> set xs \<union> set ys. snd e \<noteq> a" using assms by force
  then have "filter (\<lambda>(v, b). b \<noteq> a) xs = xs" "filter (\<lambda>(v, b). b \<noteq> a) ys = ys"
    by (simp_all add: filter_id_conv case_prod_beta)
  then show ?thesis by (simp add: del_entry_def)
qed

lemma pinvar_update:
  assumes "pinvar q" "distinct (map snd (pentries (q\<lparr>prios := (prios q)[i := qs]\<rparr>)))"
  shows "pinvar (q\<lparr>prios := (prios q)[i := qs]\<rparr>)"
  using assms by (simp add: pinvar_def map_snd_pentries)

lemma pokprice_update [simp]: "pokprice (q\<lparr>prios := ps\<rparr>) = pokprice q"
  by (simp add: pokprice_def fun_eq_iff)

lemma pokprice_idx:
  assumes "pinvar q" "pokprice q v"
  shows "unat (v - lowPrice q) < length (prios q)" "lowPrice q + of_nat (unat (v - lowPrice q)) = v"
proof -
  have "v - lowPrice q \<le> highPrice q - lowPrice q"
    using assms(2) by (simp add: pokprice_def word_sub_le_iff word_le_nat_alt unat_sub diff_le_mono)
  then show "unat (v - lowPrice q) < length (prios q)"
    using assms(1) by (simp add: pinvar_def word_le_nat_alt)
qed simp

lemma pqueue_push_law:
  assumes inv: "pinvar q" and ok: "pokprice q v" and fresh: "a \<notin> snd ` set (pentries q)"
  shows "\<exists>q'. pqueue_push v a q = Some q' \<and> pinvar q' \<and> pokprice q' = pokprice q \<and>
           pentries q' = ins_fifo v a (pentries q)"
proof -
  let ?i = "unat (v - lowPrice q)" and ?ls = "plevels (lowPrice q) (prios q)"
  let ?q' = "q\<lparr>prios := (prios q)[?i := prios q ! ?i @ [a]]\<rparr>"
  note i = pokprice_idx [OF inv ok]
  have ls: "?ls = take ?i ?ls @ (v, prios q ! ?i) # drop (Suc ?i) ?ls"
    using plevels_split [OF i(1), of "lowPrice q" "prios q ! ?i"] i(2) by simp
  have "ins_level v a ?ls = take ?i ?ls @ (v, prios q ! ?i @ [a]) # drop (Suc ?i) ?ls"
    using ins_level_node [of "take ?i ?ls" v "prios q ! ?i" "drop (Suc ?i) ?ls" v a]
      sorted_plevels [OF inv] ls by (simp del: append_take_drop_id)
  then have e: "pentries ?q' = ins_fifo v a (pentries q)"
    using flat_ins_level [OF sorted_plevels [OF inv], of v a] plevels_split [OF i(1)] i(2)
    by (simp add: pentries_def)
  have "mset (map snd (pentries ?q')) = add_mset a (mset (map snd (pentries q)))"
    by (simp add: e)
  moreover have "distinct (map snd (pentries q))"
    using inv by (simp add: pinvar_def map_snd_pentries)
  ultimately have "distinct (map snd (pentries ?q'))"
    using fresh mset_eq_imp_distinct_iff [of "map snd (pentries ?q')" "a # map snd (pentries q)"] by simp
  from pinvar_update [OF inv this] e i show ?thesis
    by (auto simp: pqueue_push_def Let_def)
qed

text \<open>Popping the first order of one slice.\<close>

lemma pqueue_pop_law:
  assumes inv: "pinvar q" and i: "i < length (prios q)" "prios q ! i \<noteq> []"
  shows "\<exists>q'. pqueue_pop i q = Some (Some (hd (prios q ! i)), q') \<and> pinvar q' \<and>
           pokprice q' = pokprice q \<and> pentries q' = del_entry (Some (hd (prios q ! i))) (pentries q)"
proof -
  obtain a qs where aq: "prios q ! i = a # qs" using i by (cases "prios q ! i") auto
  let ?q' = "q\<lparr>prios := (prios q)[i := qs]\<rparr>"
  have d: "distinct (map snd (pentries q))"
    using inv by (simp add: pinvar_def map_snd_pentries)
  have e: "pentries ?q' = del_entry (Some a) (pentries q)"
    using d unfolding pentries_split [OF i(1)] aq list.map append_Cons by (subst del_entry_mid) simp_all
  have "distinct (map snd (pentries ?q'))"
    using d by (simp add: e del_entry_def distinct_map_filter)
  from pinvar_update [OF inv this] e aq show ?thesis
    by (auto simp: pqueue_pop_def)
qed

lemma scanUp_first_min:
  "first_min (pentries q) = map_option (\<lambda>i. hd (prios q ! i)) (scanUp (prios q) 0)"
proof (cases "scanUp (prios q) 0")
  case None
  then have "flat (drop 0 (plevels (lowPrice q) (prios q))) = []"
    using scanUp_None [OF None] by (intro flat_drop_plevels) auto
  then show ?thesis using None by (simp add: pentries_def first_min_def)
next
  case (Some i)
  from scanUp_Some [OF Some] have i: "i < length (prios q)" "prios q ! i \<noteq> []"
    and before: "flat (take i (plevels (lowPrice q) (prios q))) = []"
    by (auto intro: flat_take_plevels)
  then show ?thesis
    using Some by (cases "prios q ! i") (simp_all add: pentries_split(1) [OF i(1)] first_min_def)
qed

lemma scanDown_first_max:
  assumes "pinvar q"
  shows "first_max (pentries q) = map_option (\<lambda>i. hd (prios q ! i)) (scanDown (prios q) (length (prios q)))"
proof (cases "scanDown (prios q) (length (prios q))")
  case None
  then have "flat (drop 0 (plevels (lowPrice q) (prios q))) = []"
    using scanDown_None [OF None] by (intro flat_drop_plevels) auto
  then show ?thesis using None by (simp add: pentries_def first_max_def)
next
  case (Some i)
  let ?ls = "plevels (lowPrice q) (prios q)" and ?v = "lowPrice q + of_nat i"
  from scanDown_Some [OF Some] have i: "i < length (prios q)" "prios q ! i \<noteq> []"
    and after: "flat (drop (Suc i) ?ls) = []"
    by (auto intro!: flat_drop_plevels)
  then have e: "pentries q = flat (take i ?ls) @ map (Pair ?v) (prios q ! i)"
    by (simp add: pentries_split(1))
  have "w < ?v" if "(w, p) \<in> set (take i ?ls)" for w p
    using that i sorted_plevels [OF assms] by (fastforce simp: in_set_conv_nth sorted_wrt_iff_nth_less)
  then have "filter (\<lambda>e. fst e = ?v) (flat (take i ?ls)) = []"
    by (fastforce simp: filter_empty_conv set_flat)
  then show ?thesis
    using i e Some by (cases "prios q ! i") (auto simp: first_max_def last_map filter_True)
qed

interpretation pqq: price_time_queue pinvar pentries pokprice pqueue_push
  pqueue_peekMin pqueue_peekMax pqueue_popMin pqueue_popMax
proof
  fix q :: pqueue and v :: u64 and a :: addr
  assume q: "pinvar q"
  then show "sorted (map fst (pentries q)) \<and> distinct (map snd (pentries q))"
    using sorted_flat [OF sorted_plevels [OF q]] map_snd_pentries [of q]
    by (simp add: pentries_def pinvar_def)
  have ne: "length (prios q) \<noteq> 0" using q by (simp add: pinvar_def)
  show "pqueue_peekMin q = first_min (pentries q)" "pqueue_peekMax q = first_max (pentries q)"
    using ne q by (simp_all add: pqueue_peekMin_def pqueue_peekMax_def scanUp_first_min scanDown_first_max)
  show "\<exists>q'. pqueue_popMin q = Some (first_min (pentries q), q') \<and> pinvar q' \<and> pokprice q' = pokprice q \<and>
      pentries q' = del_entry (first_min (pentries q)) (pentries q)"
    using q ne pqueue_pop_law [OF q]
    by (auto simp: pqueue_popMin_def scanUp_first_min del_entry_def dest: scanUp_Some split: option.splits)
  show "\<exists>q'. pqueue_popMax q = Some (first_max (pentries q), q') \<and> pinvar q' \<and> pokprice q' = pokprice q \<and>
      pentries q' = del_entry (first_max (pentries q)) (pentries q)"
    using q ne pqueue_pop_law [OF q]
    by (auto simp: pqueue_popMax_def scanDown_first_max del_entry_def dest: scanDown_Some split: option.splits)
  assume "pokprice q v" "a \<notin> snd ` set (pentries q)"
  with q show "\<exists>q'. pqueue_push v a q = Some q' \<and> pinvar q' \<and> pokprice q' = pokprice q \<and>
      pentries q' = ins_fifo v a (pentries q)"
    by (rule pqueue_push_law)
qed

end
