(* ===== verification/MatchQueues.thy ===== *)
theory MatchQueues
  imports Msg RBTree RefPrioQ
begin

text \<open>
  Orders and where they live: the order nodes (\<^verbatim>\<open>matcher/pqueue/order.go\<close>), the slab that allocates
  and recycles them (\<^verbatim>\<open>slab.go\<close>), and the three trees of one stock (\<^verbatim>\<open>public_prioq.go\<close>). An order node
  is a cell of a store, named by its address; its \<^verbatim>\<open>priceNode\<close> and \<^verbatim>\<open>guidNode\<close> are the nodes with that
  owner in the price trees and in the tree of ids. The free list runs through the cells.
\<close>

section \<open>order.go\<close>

text \<open>
  The functions of the external package \<^verbatim>\<open>fmath\<close> that build and split an order's id. Casts between
  \<^verbatim>\<open>int32\<close>/\<^verbatim>\<open>uint32\<close> and \<^verbatim>\<open>int64\<close>/\<^verbatim>\<open>uint64\<close> keep the bits.
\<close>

record fmath =
  CombineInt32 :: "u32 \<Rightarrow> u32 \<Rightarrow> u64"
  HighInt32 :: "u64 \<Rightarrow> u32"
  LowInt32 :: "u64 \<Rightarrow> u32"

definition fmath_ok :: "fmath \<Rightarrow> bool" where
  "fmath_ok fm \<longleftrightarrow> (\<forall>h l. HighInt32 fm (CombineInt32 fm h l) = h \<and> LowInt32 fm (CombineInt32 fm h l) = l)"

record OrderNode =
  price :: u64     \<comment> \<open>\<open>priceNode.val\<close>\<close>
  guid :: u64      \<comment> \<open>\<open>guidNode.val\<close>\<close>
  amount :: u64
  stockId :: u64
  kind :: MsgKind
  nextFree :: "addr option"

definition zeroOrder :: OrderNode where
  "zeroOrder = \<lparr>price = 0, guid = 0, amount = 0, stockId = 0, kind = 0, nextFree = None\<rparr>"

definition CopyFrom :: "fmath \<Rightarrow> Message \<Rightarrow> OrderNode \<Rightarrow> OrderNode" where
  "CopyFrom fm from o' = o'\<lparr>amount := Amount from, stockId := StockId from, kind := Kind from,
     price := Price from, guid := CombineInt32 fm (TraderId from) (TradeId from)\<rparr>"

definition order_TraderId :: "fmath \<Rightarrow> OrderNode \<Rightarrow> u32" where
  "order_TraderId fm o' = HighInt32 fm (guid o')"

definition order_TradeId :: "fmath \<Rightarrow> OrderNode \<Rightarrow> u32" where
  "order_TradeId fm o' = LowInt32 fm (guid o')"

definition CopyTo :: "fmath \<Rightarrow> OrderNode \<Rightarrow> Message" where
  "CopyTo fm o' = \<lparr>Kind = kind o', Price = price o', Amount = amount o', StockId = stockId o',
     TraderId = order_TraderId fm o', TradeId = order_TradeId fm o'\<rparr>"

definition ReduceAmount :: "u64 \<Rightarrow> OrderNode \<Rightarrow> OrderNode" where
  "ReduceAmount s o' = o'\<lparr>amount := amount o' - s\<rparr>"

section \<open>slab.go\<close>

type_synonym store = "addr \<Rightarrow> OrderNode"

record Slab =
  cells :: store
  fresh :: addr             \<comment> \<open>the next address that a new \<open>OrderNode\<close> gets\<close>
  free :: "addr option"

definition NewSlab :: "int \<Rightarrow> Slab res" where
  "NewSlab sz =
     (if sz < 0 then Inl (Panic ''makeslice: len out of range'')
      else if sz = 0 then Inl IndexOutOfRange
      else Inr \<lparr>cells = fold (\<lambda>i c. c(i - 1 := (c (i - 1))\<lparr>nextFree := Some i\<rparr>))
                          [1..<nat sz] (\<lambda>_. zeroOrder),
                fresh = nat sz, free = Some 0\<rparr>)"

definition Malloc :: "Slab \<Rightarrow> addr \<times> Slab" where
  "Malloc s =
     (let (a, s) = (case free s of
                      Some a \<Rightarrow> (a, s)
                    | None \<Rightarrow> (fresh s, s\<lparr>fresh := Suc (fresh s), cells := (cells s)(fresh s := zeroOrder)\<rparr>));
          s = s\<lparr>free := nextFree (cells s a)\<rparr>;
          s = s\<lparr>cells := (cells s)(a := (cells s a)\<lparr>nextFree := Some a\<rparr>)\<rparr>
      in (a, s))"

definition Free :: "addr \<Rightarrow> Slab \<Rightarrow> Slab" where
  "Free a s =
     (if nextFree (cells s a) = Some a
      then s\<lparr>cells := (cells s)(a := (cells s a)\<lparr>nextFree := free s\<rparr>), free := Some a\<rparr>
      else s)"

section \<open>public\_prioq.go\<close>

record MatchQueues =
  buyTree :: rbt
  sellTree :: rbt
  orders :: rbt
  mq_size :: int

definition emptyMatchQueues :: MatchQueues where
  "emptyMatchQueues = \<lparr>buyTree = Leaf, sellTree = Leaf, orders = Leaf, mq_size = 0\<rparr>"

definition PushBuy :: "store \<Rightarrow> addr \<Rightarrow> MatchQueues \<Rightarrow> MatchQueues option" where
  "PushBuy st b m = do {
     let m = m\<lparr>mq_size := mq_size m + 1\<rparr>;
     bt \<leftarrow> rbtree_push (price (st b)) b (buyTree m);
     ot \<leftarrow> rbtree_push (guid (st b)) b (orders m);
     Some (m\<lparr>buyTree := bt, orders := ot\<rparr>) }"

definition PushSell :: "store \<Rightarrow> addr \<Rightarrow> MatchQueues \<Rightarrow> MatchQueues option" where
  "PushSell st s m = do {
     let m = m\<lparr>mq_size := mq_size m + 1\<rparr>;
     tt \<leftarrow> rbtree_push (price (st s)) s (sellTree m);
     ot \<leftarrow> rbtree_push (guid (st s)) s (orders m);
     Some (m\<lparr>sellTree := tt, orders := ot\<rparr>) }"

definition PeekBuy :: "MatchQueues \<Rightarrow> addr option" where
  "PeekBuy m = peekMax (buyTree m)"

definition PeekSell :: "MatchQueues \<Rightarrow> addr option" where
  "PeekSell m = peekMin (sellTree m)"

definition PopBuy :: "MatchQueues \<Rightarrow> (addr option \<times> MatchQueues) option" where
  "PopBuy m = do {
     let m = m\<lparr>mq_size := mq_size m - 1\<rparr>;
     (r, bt) \<leftarrow> popMax (buyTree m);
     ot \<leftarrow> (case r of None \<Rightarrow> Some (orders m) | Some a \<Rightarrow> node_pop a (orders m));
     Some (r, m\<lparr>buyTree := bt, orders := ot\<rparr>) }"

definition PopSell :: "MatchQueues \<Rightarrow> (addr option \<times> MatchQueues) option" where
  "PopSell m = do {
     let m = m\<lparr>mq_size := mq_size m - 1\<rparr>;
     (r, tt) \<leftarrow> popMin (sellTree m);
     ot \<leftarrow> (case r of None \<Rightarrow> Some (orders m) | Some a \<Rightarrow> node_pop a (orders m));
     Some (r, m\<lparr>sellTree := tt, orders := ot\<rparr>) }"

text \<open>\<^verbatim>\<open>priceNode.pop()\<close>, in whichever of the price trees the node is.\<close>

definition popPriceNode :: "addr \<Rightarrow> MatchQueues \<Rightarrow> MatchQueues option" where
  "popPriceNode a m = do {
     bt \<leftarrow> node_pop a (buyTree m);
     tt \<leftarrow> node_pop a (sellTree m);
     Some (m\<lparr>buyTree := bt, sellTree := tt\<rparr>) }"

definition popGuidNode :: "addr \<Rightarrow> MatchQueues \<Rightarrow> MatchQueues option" where
  "popGuidNode a m = do {
     ot \<leftarrow> node_pop a (orders m);
     Some (m\<lparr>orders := ot\<rparr>) }"

text \<open>\<^verbatim>\<open>OrderNode.Remove\<close>: it does not touch the size.\<close>

definition Remove :: "addr \<Rightarrow> MatchQueues \<Rightarrow> MatchQueues option" where
  "Remove a m = do { m \<leftarrow> popPriceNode a m; popGuidNode a m }"

text \<open>\<^verbatim>\<open>rbtree.cancel\<close> on the tree of ids, with the complementary node in a price tree.\<close>

definition Cancel :: "store \<Rightarrow> addr \<Rightarrow> MatchQueues \<Rightarrow> (addr option \<times> MatchQueues) option" where
  "Cancel st a m =
     (case rbtree_get (guid (st a)) (orders m) of
        None \<Rightarrow> Some (None, m)
      | Some n \<Rightarrow> do {
          m \<leftarrow> popGuidNode n m;
          m \<leftarrow> popPriceNode n m;
          Some (Some n, m\<lparr>mq_size := mq_size m - 1\<rparr>) })"

section \<open>public\_refprioq.go\<close>

record RefMatchQueues =
  buys :: pqueue
  sells :: pqueue
  rmq_size :: int

definition NewRefMatchQueues :: "u64 \<Rightarrow> u64 \<Rightarrow> RefMatchQueues" where
  "NewRefMatchQueues low high = \<lparr>buys = mkPrioq low high, sells = mkPrioq low high, rmq_size = 0\<rparr>"

definition Ref_PushBuy :: "store \<Rightarrow> addr \<Rightarrow> RefMatchQueues \<Rightarrow> RefMatchQueues option" where
  "Ref_PushBuy st b m = do {
     let m = m\<lparr>rmq_size := rmq_size m + 1\<rparr>;
     q \<leftarrow> pqueue_push (price (st b)) b (buys m);
     Some (m\<lparr>buys := q\<rparr>) }"

definition Ref_PushSell :: "store \<Rightarrow> addr \<Rightarrow> RefMatchQueues \<Rightarrow> RefMatchQueues option" where
  "Ref_PushSell st s m = do {
     let m = m\<lparr>rmq_size := rmq_size m + 1\<rparr>;
     q \<leftarrow> pqueue_push (price (st s)) s (sells m);
     Some (m\<lparr>sells := q\<rparr>) }"

definition Ref_PeekBuy :: "RefMatchQueues \<Rightarrow> addr option" where
  "Ref_PeekBuy m = pqueue_peekMax (buys m)"

definition Ref_PeekSell :: "RefMatchQueues \<Rightarrow> addr option" where
  "Ref_PeekSell m = pqueue_peekMin (sells m)"

definition Ref_PopBuy :: "RefMatchQueues \<Rightarrow> (addr option \<times> RefMatchQueues) option" where
  "Ref_PopBuy m = do {
     let m = m\<lparr>rmq_size := rmq_size m - 1\<rparr>;
     (r, q) \<leftarrow> pqueue_popMax (buys m);
     Some (r, m\<lparr>buys := q\<rparr>) }"

definition Ref_PopSell :: "RefMatchQueues \<Rightarrow> (addr option \<times> RefMatchQueues) option" where
  "Ref_PopSell m = do {
     let m = m\<lparr>rmq_size := rmq_size m - 1\<rparr>;
     (r, q) \<leftarrow> pqueue_popMin (sells m);
     Some (r, m\<lparr>sells := q\<rparr>) }"

definition Ref_Cancel :: "store \<Rightarrow> addr \<Rightarrow> RefMatchQueues \<Rightarrow> addr option \<times> RefMatchQueues" where
  "Ref_Cancel st a m =
     (let (c, q) = pqueue_cancel (guid \<circ> st) (guid (st a)) (buys m) in
      if c \<noteq> None then (c, m\<lparr>buys := q, rmq_size := rmq_size m - 1\<rparr>)
      else
        (let (c, q) = pqueue_cancel (guid \<circ> st) (guid (st a)) (sells m) in
         if c \<noteq> None then (c, m\<lparr>sells := q, rmq_size := rmq_size m - 1\<rparr>)
         else (None, m)))"

section \<open>The slab's invariant\<close>

text \<open>
  \<open>free_chain c x fl\<close>: from \<open>x\<close> the free list visits exactly \<open>fl\<close>. In a good slab the free cells are
  distinct, and every other cell that was handed out carries the marker that it is in use.
\<close>

fun free_chain :: "store \<Rightarrow> addr option \<Rightarrow> addr list \<Rightarrow> bool" where
  "free_chain c x [] = (x = None)"
| "free_chain c x (a # fl) = (x = Some a \<and> free_chain c (nextFree (c a)) fl)"

definition slab_inv :: "Slab \<Rightarrow> addr list \<Rightarrow> bool" where
  "slab_inv s fl \<longleftrightarrow> free_chain (cells s) (free s) fl \<and> distinct fl \<and> (\<forall>a \<in> set fl. a < fresh s) \<and>
     (\<forall>a < fresh s. a \<notin> set fl \<longrightarrow> nextFree (cells s a) = Some a)"

definition live :: "Slab \<Rightarrow> addr list \<Rightarrow> addr set" where
  "live s fl = {a. a < fresh s} - set fl"

lemma free_chain_cong:
  "(\<And>a. a \<in> set fl \<Longrightarrow> nextFree (c a) = nextFree (c' a)) \<Longrightarrow> free_chain c x fl = free_chain c' x fl"
  by (induction fl arbitrary: x) auto

lemma Malloc_correct:
  assumes "slab_inv s fl"
  obtains a s' fl' where "Malloc s = (a, s')" "slab_inv s' fl'" "a \<notin> live s fl"
    "live s' fl' = insert a (live s fl)" "\<And>x. x \<noteq> a \<Longrightarrow> cells s' x = cells s x"
proof (cases fl)
  case Nil
  let ?s' = "s\<lparr>fresh := Suc (fresh s), free := None,
    cells := (cells s)(fresh s := zeroOrder\<lparr>nextFree := Some (fresh s)\<rparr>)\<rparr>"
  have "free s = None" using assms Nil by (simp add: slab_inv_def)
  then have "Malloc s = (fresh s, ?s')" by (simp add: Malloc_def Let_def zeroOrder_def)
  moreover have "slab_inv ?s' []" "fresh s \<notin> live s fl" "live ?s' [] = insert (fresh s) (live s fl)"
    using assms Nil by (auto simp: slab_inv_def live_def)
  ultimately show thesis using that [of "fresh s" ?s' "[]"] by simp
next
  case (Cons a fl')
  let ?s' = "s\<lparr>free := nextFree (cells s a), cells := (cells s)(a := (cells s a)\<lparr>nextFree := Some a\<rparr>)\<rparr>"
  have fs: "free s = Some a" "a \<notin> set fl'" "a < fresh s" using assms Cons by (auto simp: slab_inv_def)
  then have "Malloc s = (a, ?s')" by (simp add: Malloc_def Let_def)
  moreover have "free_chain (cells ?s') (free ?s') fl' = free_chain (cells s) (nextFree (cells s a)) fl'"
    using fs by (auto intro!: free_chain_cong)
  then have "slab_inv ?s' fl'" using assms Cons by (auto simp: slab_inv_def)
  moreover have "a \<notin> live s fl" "live ?s' fl' = insert a (live s fl)"
    using fs Cons by (auto simp: live_def)
  ultimately show thesis using that [of a ?s' fl'] by simp
qed

lemma Free_correct:
  assumes "slab_inv s fl" "a \<in> live s fl"
  shows "slab_inv (Free a s) (a # fl)" "live (Free a s) (a # fl) = live s fl - {a}"
    "x \<noteq> a \<Longrightarrow> cells (Free a s) x = cells s x"
    "(cells (Free a s) a)\<lparr>nextFree := n\<rparr> = (cells s a)\<lparr>nextFree := n\<rparr>"
proof -
  have a: "nextFree (cells s a) = Some a" "a \<notin> set fl" "a < fresh s"
    using assms by (auto simp: slab_inv_def live_def)
  have "free_chain ((cells s)(a := (cells s a)\<lparr>nextFree := free s\<rparr>)) (free s) fl =
      free_chain (cells s) (free s) fl"
    using a by (intro free_chain_cong) auto
  then show "slab_inv (Free a s) (a # fl)" using assms a by (auto simp: slab_inv_def Free_def)
  show "live (Free a s) (a # fl) = live s fl - {a}" using a by (auto simp: live_def Free_def)
  show "x \<noteq> a \<Longrightarrow> cells (Free a s) x = cells s x"
    "(cells (Free a s) a)\<lparr>nextFree := n\<rparr> = (cells s a)\<lparr>nextFree := n\<rparr>"
    by (simp_all add: Free_def)
qed

text \<open>Freeing a node twice has no effect.\<close>

lemma free_chain_next:
  "free_chain c x fl \<Longrightarrow> distinct fl \<Longrightarrow> a \<in> set fl \<Longrightarrow> nextFree (c a) \<noteq> Some a"
proof (induction fl arbitrary: x)
  case (Cons b fl)
  then show ?case by (cases fl) auto
qed simp

lemma Free_idem: "slab_inv s fl \<Longrightarrow> a \<in> set fl \<Longrightarrow> Free a s = s"
  using free_chain_next [of "cells s" "free s" fl a] by (simp add: slab_inv_def Free_def)

section \<open>The invariant of the three trees\<close>

text \<open>
  A price tree files its orders under their prices, the tree of ids under their ids; the price trees
  share no order, and the tree of ids holds exactly the orders of both.
\<close>

definition tree_ok :: "(addr \<Rightarrow> u64) \<Rightarrow> rbt \<Rightarrow> bool" where
  "tree_ok f t \<longleftrightarrow> rbt_inv t \<and> (\<forall>e \<in> set (entries t). fst e = f (snd e))"

definition mq_addrs :: "MatchQueues \<Rightarrow> addr set" where
  "mq_addrs m = set (addrs (buyTree m)) \<union> set (addrs (sellTree m))"

definition mq_inv :: "store \<Rightarrow> MatchQueues \<Rightarrow> bool" where
  "mq_inv st m \<longleftrightarrow> tree_ok (price \<circ> st) (buyTree m) \<and> tree_ok (price \<circ> st) (sellTree m) \<and>
     tree_ok (guid \<circ> st) (orders m) \<and> set (addrs (buyTree m)) \<inter> set (addrs (sellTree m)) = {} \<and>
     set (addrs (orders m)) = mq_addrs m"

lemma set_addrs: "set (addrs t) = snd ` set (entries t)"
  by (simp flip: map_snd_entries)

lemma tree_push:
  assumes "tree_ok f t" "a \<notin> set (addrs t)"
  shows "\<exists>t'. rbtree_push (f a) a t = Some t' \<and> tree_ok f t' \<and>
    entries t' = ins_fifo (f a) a (entries t) \<and> set (addrs t') = insert a (set (addrs t))"
proof -
  have "rbt_inv t" "a \<notin> snd ` set (entries t)" using assms by (auto simp: tree_ok_def set_addrs)
  from entries_push [OF this, of "f a"] obtain t' where t': "rbtree_push (f a) a t = Some t'" "rbt_inv t'"
      "entries t' = ins_fifo (f a) a (entries t)" by blast
  moreover from t' assms have "tree_ok f t'" by (auto simp: tree_ok_def)
  moreover from t' have "set (addrs t') = insert a (set (addrs t))" by (auto simp: set_addrs)
  ultimately show ?thesis by blast
qed

lemma tree_pop:
  assumes "tree_ok f t"
  shows "\<exists>t'. node_pop a t = Some t' \<and> tree_ok f t' \<and>
    entries t' = filter (\<lambda>(v, b). b \<noteq> a) (entries t) \<and> set (addrs t') = set (addrs t) - {a}"
proof -
  have "rbt_inv t" using assms by (simp add: tree_ok_def)
  from entries_pop [OF this, of a] obtain t' where t': "node_pop a t = Some t'" "rbt_inv t'"
      "entries t' = filter (\<lambda>(v, b). b \<noteq> a) (entries t)" by blast
  moreover from t' assms have "tree_ok f t'" by (auto simp: tree_ok_def)
  moreover from t' have "set (addrs t') = set (addrs t) - {a}" by (force simp: set_addrs)
  ultimately show ?thesis by blast
qed

lemma tree_ok_cong:
  "tree_ok f t \<Longrightarrow> (\<And>a. a \<in> set (addrs t) \<Longrightarrow> g a = f a) \<Longrightarrow> tree_ok g t"
  by (simp add: tree_ok_def set_addrs)

lemma mq_inv_empty [simp]: "mq_inv st emptyMatchQueues" "mq_addrs emptyMatchQueues = {}"
  by (simp_all add: mq_inv_def emptyMatchQueues_def tree_ok_def mq_addrs_def set_addrs)

lemma mq_inv_cong:
  assumes "mq_inv st m" "\<And>a. a \<in> mq_addrs m \<Longrightarrow> price (st' a) = price (st a) \<and> guid (st' a) = guid (st a)"
  shows "mq_inv st' m"
  using assms unfolding mq_inv_def
  by (auto intro: tree_ok_cong simp: mq_addrs_def)

lemma mq_inv_size [simp]: "mq_inv st (m\<lparr>mq_size := n\<rparr>) = mq_inv st m" "mq_addrs (m\<lparr>mq_size := n\<rparr>) = mq_addrs m"
  by (simp_all add: mq_inv_def mq_addrs_def)

lemma PushBuy_correct:
  assumes "mq_inv st m" "b \<notin> mq_addrs m"
  obtains m' where "PushBuy st b m = Some m'" "mq_inv st m'" "mq_addrs m' = insert b (mq_addrs m)"
    "entries (buyTree m') = ins_fifo (price (st b)) b (entries (buyTree m))" "sellTree m' = sellTree m"
    "mq_size m' = mq_size m + 1"
proof -
  obtain bt where bt: "rbtree_push (price (st b)) b (buyTree m) = Some bt" "tree_ok (price \<circ> st) bt"
      "entries bt = ins_fifo (price (st b)) b (entries (buyTree m))" "set (addrs bt) = insert b (set (addrs (buyTree m)))"
    using assms tree_push [of "price \<circ> st" "buyTree m" b] by (auto simp: mq_inv_def mq_addrs_def)
  obtain ot where ot: "rbtree_push (guid (st b)) b (orders m) = Some ot" "tree_ok (guid \<circ> st) ot"
      "set (addrs ot) = insert b (set (addrs (orders m)))"
    using assms tree_push [of "guid \<circ> st" "orders m" b] by (auto simp: mq_inv_def)
  show thesis
    by (rule that [of "m\<lparr>mq_size := mq_size m + 1, buyTree := bt, orders := ot\<rparr>"])
       (use assms bt ot in \<open>auto simp: PushBuy_def Let_def mq_inv_def mq_addrs_def\<close>)
qed

lemma PushSell_correct:
  assumes "mq_inv st m" "s \<notin> mq_addrs m"
  obtains m' where "PushSell st s m = Some m'" "mq_inv st m'" "mq_addrs m' = insert s (mq_addrs m)"
    "entries (sellTree m') = ins_fifo (price (st s)) s (entries (sellTree m))" "buyTree m' = buyTree m"
    "mq_size m' = mq_size m + 1"
proof -
  obtain tt where tt: "rbtree_push (price (st s)) s (sellTree m) = Some tt" "tree_ok (price \<circ> st) tt"
      "entries tt = ins_fifo (price (st s)) s (entries (sellTree m))" "set (addrs tt) = insert s (set (addrs (sellTree m)))"
    using assms tree_push [of "price \<circ> st" "sellTree m" s] by (auto simp: mq_inv_def mq_addrs_def)
  obtain ot where ot: "rbtree_push (guid (st s)) s (orders m) = Some ot" "tree_ok (guid \<circ> st) ot"
      "set (addrs ot) = insert s (set (addrs (orders m)))"
    using assms tree_push [of "guid \<circ> st" "orders m" s] by (auto simp: mq_inv_def)
  show thesis
    by (rule that [of "m\<lparr>mq_size := mq_size m + 1, sellTree := tt, orders := ot\<rparr>"])
       (use assms tt ot in \<open>auto simp: PushSell_def Let_def mq_inv_def mq_addrs_def\<close>)
qed

lemma Remove_correct:
  assumes "mq_inv st m"
  obtains m' where "Remove a m = Some m'" "mq_inv st m'" "mq_addrs m' = mq_addrs m - {a}"
    "entries (buyTree m') = filter (\<lambda>(v, b). b \<noteq> a) (entries (buyTree m))"
    "entries (sellTree m') = filter (\<lambda>(v, b). b \<noteq> a) (entries (sellTree m))"
    "mq_size m' = mq_size m"
proof -
  from assms have ok: "tree_ok (price \<circ> st) (buyTree m)" "tree_ok (price \<circ> st) (sellTree m)"
      "tree_ok (guid \<circ> st) (orders m)" by (simp_all add: mq_inv_def)
  obtain bt where bt: "node_pop a (buyTree m) = Some bt" "tree_ok (price \<circ> st) bt"
      "entries bt = filter (\<lambda>(v, b). b \<noteq> a) (entries (buyTree m))" "set (addrs bt) = set (addrs (buyTree m)) - {a}"
    using tree_pop [OF ok(1)] by blast
  obtain tt where tt: "node_pop a (sellTree m) = Some tt" "tree_ok (price \<circ> st) tt"
      "entries tt = filter (\<lambda>(v, b). b \<noteq> a) (entries (sellTree m))" "set (addrs tt) = set (addrs (sellTree m)) - {a}"
    using tree_pop [OF ok(2)] by blast
  obtain ot where ot: "node_pop a (orders m) = Some ot" "tree_ok (guid \<circ> st) ot"
      "set (addrs ot) = set (addrs (orders m)) - {a}"
    using tree_pop [OF ok(3)] by blast
  show thesis
    by (rule that [of "m\<lparr>buyTree := bt, sellTree := tt, orders := ot\<rparr>"])
       (use assms bt tt ot in \<open>auto simp: Remove_def popPriceNode_def popGuidNode_def mq_inv_def mq_addrs_def\<close>)
qed

lemma Cancel_Remove:
  assumes "rbtree_get (guid (st a)) (orders m) = Some n" "Remove n m = Some m'"
  shows "Cancel st a m = Some (Some n, m'\<lparr>mq_size := mq_size m - 1\<rparr>)"
  using assms by (auto simp: Cancel_def Remove_def popPriceNode_def popGuidNode_def split: bind_splits)

text \<open>Which order a cancellation finds: the oldest queued order with the id, if there is one.\<close>

lemma get_order:
  assumes "mq_inv st m"
  shows "rbtree_get g (orders m) = None \<longleftrightarrow> (\<forall>a \<in> mq_addrs m. guid (st a) \<noteq> g)"
    and "rbtree_get g (orders m) = Some n \<Longrightarrow> n \<in> mq_addrs m \<and> guid (st n) = g"
proof -
  have e: "rbtree_get g (orders m) = map_of (entries (orders m)) g" and ad: "mq_addrs m = snd ` set (entries (orders m))"
    and f: "\<And>v a. (v, a) \<in> set (entries (orders m)) \<Longrightarrow> v = guid (st a)"
    using assms by (auto simp: mq_inv_def tree_ok_def rbtree_get_entries simp flip: set_addrs)
  show "rbtree_get g (orders m) = None \<longleftrightarrow> (\<forall>a \<in> mq_addrs m. guid (st a) \<noteq> g)"
    unfolding e ad map_of_eq_None_iff using f by force
  show "rbtree_get g (orders m) = Some n \<Longrightarrow> n \<in> mq_addrs m \<and> guid (st n) = g"
    unfolding e ad using f map_of_SomeD [of "entries (orders m)" g n] by force
qed

end
