(* ===== verification/Coordinator.thy ===== *)
theory Coordinator
  imports Matcher
begin

text \<open>
  The in-memory coordinator of the matching engine (\<^verbatim>\<open>coordinator/\<close>): the message readers and writers
  (\<^verbatim>\<open>readwrite.go\<close>) and the pipeline of three goroutines that \<^verbatim>\<open>InMemory\<close> starts (\<^verbatim>\<open>inmemory.go\<close>): a
  listener that turns the chunks of an \<^verbatim>\<open>io.ReadCloser\<close> into messages, the application (the matcher's
  \<^verbatim>\<open>Run\<close>), and a responder that writes the application's messages to an \<^verbatim>\<open>io.WriteCloser\<close>. They share
  two buffered channels. Each goroutine is a function from the shared state to its next atomic action;
  \<open>step\<close> lets any of them move, so a sequence of steps is an interleaving.
\<close>

section \<open>readwrite.go\<close>

text \<open>
  What \<^verbatim>\<open>MsgReader\<close> and \<^verbatim>\<open>MsgWriter\<close> promise to the two sides of a bounded queue. A read or a write
  that would block is \<open>None\<close>.
\<close>

locale msg_fifo =
  fixes rd :: "'q \<Rightarrow> ('m \<times> 'q) option"
    and wr :: "'m \<Rightarrow> 'q \<Rightarrow> 'q option"
    and items :: "'q \<Rightarrow> 'm list"
    and cap :: "'q \<Rightarrow> nat"
  assumes rd_None: "rd q = None \<longleftrightarrow> items q = []"
    and rd_Some: "rd q = Some (m, q') \<Longrightarrow> items q = m # items q' \<and> cap q' = cap q"
    and wr_None: "wr m q = None \<longleftrightarrow> cap q \<le> length (items q)"
    and wr_Some: "wr m q = Some q' \<Longrightarrow> items q' = items q @ [m] \<and> cap q' = cap q"
begin

text \<open>A queue with room for a message never blocks both of its sides.\<close>

lemma one_side_moves:
  assumes "0 < cap q"
  shows "rd q \<noteq> None \<or> wr m q \<noteq> None"
  using assms by (auto simp: rd_None wr_None)

text \<open>A reader and a writer do not disturb each other: in either order they leave the same messages.\<close>

lemma read_write_commute:
  assumes "rd q = Some (x, q1)" "wr m q = Some q2"
  shows "\<exists>q3 q4. rd q2 = Some (x, q3) \<and> wr m q1 = Some q4 \<and> items q3 = items q4"
proof -
  have q1: "items q = x # items q1" "cap q1 = cap q" using rd_Some [OF assms(1)] by simp_all
  have q2: "items q2 = items q @ [m]" using wr_Some [OF assms(2)] by simp
  have room: "\<not> cap q \<le> length (items q)" using assms(2) wr_None by (metis option.distinct(1))
  obtain q4 where q4: "wr m q1 = Some q4" using q1 room wr_None [of m q1] by auto
  obtain y q3 where q3: "rd q2 = Some (y, q3)" using q2 rd_None [of q2] by (cases "rd q2") auto
  show ?thesis using rd_Some [OF q3] wr_Some [OF q4] q3 q4 q2 q1 by auto
qed

end

text \<open>
  A channel of messages with a buffer of \<open>ch_size\<close> (positive wherever the code makes one: the
  rendezvous of an unbuffered channel does not occur).
\<close>

record ChanReaderWriter =
  inout :: "Message list"
  ch_size :: nat

definition NewChanReaderWriter :: "int \<Rightarrow> ChanReaderWriter res" where
  "NewChanReaderWriter sz =
     (if sz < 0 then Inl (Panic ''makechan: size out of range'')
      else Inr \<lparr>inout = [], ch_size = nat sz\<rparr>)"

definition Chan_Read :: "ChanReaderWriter \<Rightarrow> (Message \<times> ChanReaderWriter) option" where
  "Chan_Read rw = (case inout rw of [] \<Rightarrow> None | m # ms \<Rightarrow> Some (m, rw\<lparr>inout := ms\<rparr>))"

definition Chan_Write :: "Message \<Rightarrow> ChanReaderWriter \<Rightarrow> ChanReaderWriter option" where
  "Chan_Write m rw =
     (if length (inout rw) < ch_size rw then Some (rw\<lparr>inout := inout rw @ [m]\<rparr>) else None)"

interpretation chan: msg_fifo Chan_Read Chan_Write inout ch_size
  by unfold_locales (auto simp: Chan_Read_def Chan_Write_def split: list.splits if_splits)

text \<open>A reader of prepared messages: when they are used up it gives shutdown messages; writes are dropped.\<close>

record PreloadedReaderWriter =
  pre_idx :: nat
  pre_ms :: "Message list"

definition NewPreloadedReaderWriter :: "Message list \<Rightarrow> PreloadedReaderWriter" where
  "NewPreloadedReaderWriter ms = \<lparr>pre_idx = 0, pre_ms = ms\<rparr>"

definition Preloaded_Read :: "PreloadedReaderWriter \<Rightarrow> Message \<times> PreloadedReaderWriter" where
  "Preloaded_Read r =
     (if length (pre_ms r) \<le> pre_idx r then (zeroMessage\<lparr>Kind := SHUTDOWN\<rparr>, r)
      else (pre_ms r ! pre_idx r, r\<lparr>pre_idx := pre_idx r + 1\<rparr>))"

definition Preloaded_Write :: "Message \<Rightarrow> PreloadedReaderWriter \<Rightarrow> PreloadedReaderWriter" where
  "Preloaded_Write m r = r"

text \<open>A writer that passes only shutdown messages on, through a channel of one.\<close>

definition NewShutdownReaderWriter :: ChanReaderWriter where
  "NewShutdownReaderWriter = \<lparr>inout = [], ch_size = 1\<rparr>"

definition Shutdown_Write :: "Message \<Rightarrow> ChanReaderWriter \<Rightarrow> ChanReaderWriter option" where
  "Shutdown_Write m rw = (if Kind m = SHUTDOWN then Chan_Write m rw else Some rw)"

definition Noop_Read :: Message where
  "Noop_Read = zeroMessage"

section \<open>inmemory.go: the listener\<close>

text \<open>
  What one \<^verbatim>\<open>Read\<close> of the reader gives: bytes in the front of the buffer (at most its size), or an error.
\<close>

datatype read_result =
    ReadBytes "byte list"
  | ReadErr string

definition deserialise :: "read_result \<Rightarrow> Message res" where
  "deserialise r =
     (case r of
        ReadErr e \<Rightarrow> Inl (Panic (''Listener - UDP Read: '' @ e))
      | ReadBytes bs \<Rightarrow>
          (if length bs \<noteq> ByteSize then Inl (Panic ''Listener: Error incorrect number of bytes'')
           else (case Unmarshal zeroMessage bs of
                   Inl _ \<Rightarrow> Inl (Panic ''Wrong sized byte buffer'')
                 | Inr m \<Rightarrow> Inr m)))"

text \<open>Where a goroutine stands: before its next read, about to write a message, or returned.\<close>

datatype pc =
    Reading
  | Writing Message
  | Returned

record coord =
  input :: "read_result list"           \<comment> \<open>what the reader's next reads give\<close>
  reader_open :: bool
  listener :: pc
  fromListener :: ChanReaderWriter
  app :: M                              \<comment> \<open>\<open>Out\<close> of it: all the application writes, in order\<close>
  running :: bool                       \<comment> \<open>the application's loop has not returned\<close>
  sent :: nat                           \<comment> \<open>how many messages of \<open>Out\<close> went into the channel\<close>
  toResponder :: ChanReaderWriter
  responder :: pc
  written :: "byte list list"           \<comment> \<open>what was written to the writer\<close>
  writer_open :: bool
  logged :: "Message list"

text \<open>
  The next action of each goroutine: \<open>None\<close> when it is blocked or has returned, \<open>Some (Inl e)\<close> when it
  panics, which ends the program.
\<close>

definition listener_step :: "coord \<Rightarrow> coord res option" where
  "listener_step s =
     (case listener s of
        Reading \<Rightarrow>
          (case input s of
             [] \<Rightarrow> None
           | r # rs \<Rightarrow> Some (case deserialise r of
                                Inl e \<Rightarrow> Inl e
                              | Inr m \<Rightarrow> Inr (s\<lparr>input := rs, listener := Writing m\<rparr>)))
      | Writing m \<Rightarrow>
          (case Chan_Write m (fromListener s) of
             None \<Rightarrow> None
           | Some c \<Rightarrow>
               Some (Inr (if Kind m = SHUTDOWN
                          then s\<lparr>fromListener := c, listener := Returned, reader_open := False\<rparr>
                          else s\<lparr>fromListener := c, listener := Reading\<rparr>)))
      | Returned \<Rightarrow> None)"

section \<open>The application\<close>

text \<open>
  The loop of the matcher's \<^verbatim>\<open>Run\<close> with its blocking calls: it takes a message from the channel only
  when everything it wrote is in the other channel. The matcher's state is its own, so \<^verbatim>\<open>Submit\<close> is one
  action, and the messages it writes enter the channel one at a time after it.
\<close>

definition app_step :: "fmath \<Rightarrow> coord \<Rightarrow> coord res option" where
  "app_step fm s =
     (if sent s < length (Out (app s)) then
        (case Chan_Write (Out (app s) ! sent s) (toResponder s) of
           None \<Rightarrow> None
         | Some c \<Rightarrow> Some (Inr (s\<lparr>toResponder := c, sent := sent s + 1\<rparr>)))
      else if \<not> running s then None
      else
        (case Chan_Read (fromListener s) of
           None \<Rightarrow> None
         | Some (m, c) \<Rightarrow>
             Some (if Kind m = SHUTDOWN
                   then Inr (s\<lparr>fromListener := c, app := (app s)\<lparr>Out := Out (app s) @ [m]\<rparr>, running := False\<rparr>)
                   else (case Submit fm m (app s) of
                           Inl e \<Rightarrow> Inl e
                         | Inr a \<Rightarrow> Inr (s\<lparr>fromListener := c, app := a\<rparr>)))))"

section \<open>inmemory.go: the responder\<close>

text \<open>
  The writer is a parameter: after the writes \<open>h\<close>, writing \<open>b\<close> gives \<open>wr h b\<close>, a number of bytes and an
  error.
\<close>

definition responder_write :: "(byte list list \<Rightarrow> byte list \<Rightarrow> nat \<times> string option) \<Rightarrow> Message \<Rightarrow> coord \<Rightarrow> coord res" where
  "responder_write wr m s =
     (case Marshal m (replicate ByteSize 0) of
        Inl _ \<Rightarrow> Inl (Panic ''Wrong sized byte buffer'')
      | Inr b \<Rightarrow>
          (let (n, err) = wr (written s) b
           in case err of
                Some e \<Rightarrow> Inl (Panic e)
              | None \<Rightarrow>
                  (if n \<noteq> ByteSize then Inl (Panic ''Write Error: Wrong sized message'')
                   else Inr (s\<lparr>written := written s @ [b]\<rparr>))))"

definition responder_step ::
  "(byte list list \<Rightarrow> byte list \<Rightarrow> nat \<times> string option) \<Rightarrow> bool \<Rightarrow> coord \<Rightarrow> coord res option" where
  "responder_step wr lg s =
     (case responder s of
        Reading \<Rightarrow>
          (case Chan_Read (toResponder s) of
             None \<Rightarrow> None
           | Some (m, c) \<Rightarrow>
               Some (Inr (s\<lparr>toResponder := c, responder := Writing m,
                           logged := (if lg then logged s @ [m] else logged s)\<rparr>)))
      | Writing m \<Rightarrow>
          Some (case responder_write wr m s of
                  Inl e \<Rightarrow> Inl e
                | Inr s' \<Rightarrow> Inr (if Kind m = SHUTDOWN then s'\<lparr>responder := Returned, writer_open := False\<rparr>
                                 else s'\<lparr>responder := Reading\<rparr>))
      | Returned \<Rightarrow> None)"

section \<open>The three goroutines together\<close>

definition InMemory :: "read_result list \<Rightarrow> M \<Rightarrow> coord res" where
  "InMemory inp m =
     (case NewChanReaderWriter 1000 of
        Inl e \<Rightarrow> Inl e
      | Inr c1 \<Rightarrow>
          (case NewChanReaderWriter 1000 of
             Inl e \<Rightarrow> Inl e
           | Inr c2 \<Rightarrow>
               Inr \<lparr>input = inp, reader_open = True, listener = Reading, fromListener = c1,
                    app = m, running = True, sent = length (Out m), toResponder = c2,
                    responder = Reading, written = [], writer_open = True, logged = []\<rparr>))"

inductive step ::
  "fmath \<Rightarrow> (byte list list \<Rightarrow> byte list \<Rightarrow> nat \<times> string option) \<Rightarrow> bool \<Rightarrow> coord res \<Rightarrow> coord res \<Rightarrow> bool"
  for fm wr lg where
  listener_moves: "listener_step s = Some t \<Longrightarrow> step fm wr lg (Inr s) t"
| app_moves: "app_step fm s = Some t \<Longrightarrow> step fm wr lg (Inr s) t"
| responder_moves: "responder_step wr lg s = Some t \<Longrightarrow> step fm wr lg (Inr s) t"

inductive_simps step_Inr: "step fm wr lg (Inr s) t"
inductive_simps step_Inl: "step fm wr lg (Inl e) t"

end
