(* ===== verification/Matcher_Refine.thy ===== *)
theory Matcher_Refine
  imports Matcher
begin

text \<open>
  The engine refines the specification of \<open>Matcher\<close>: the loops \<open>fillableBuy\<close> and \<open>fillableSell\<close> return and
  do what \<open>match_buy\<close> and \<open>match_sell\<close> say, and \<open>Submit\<close> acts on the books as \<open>spec_submit\<close> does, with no
  order lost, leaked or used after it was freed.
\<close>

section \<open>One side of a stock's book\<close>

definition ask_list :: "MatchQueues \<Rightarrow> addr list" where
  "ask_list q = map snd (entries (sellTree q))"

definition bid_list :: "MatchQueues \<Rightarrow> addr list" where
  "bid_list q = bid_order (entries (buyTree q))"

lemma abs_sides: "abs_bids st q = map (order_val \<circ> st) (bid_list q)" "abs_asks st q = map (order_val \<circ> st) (ask_list q)"
  by (simp_all add: abs_bids_def abs_asks_def bid_list_def ask_list_def)

lemma mq_addrs_sides: "mq_addrs q = set (bid_list q) \<union> set (ask_list q)"
  by (simp add: mq_addrs_def bid_list_def ask_list_def set_addrs)

lemma mq_inv_sorted:
  assumes "mq_inv st q"
  shows "sorted (map fst (entries (buyTree q)))" "sorted (map fst (entries (sellTree q)))"
    "distinct (map snd (entries (buyTree q)))" "distinct (map snd (entries (sellTree q)))"
  using assms by (auto simp: mq_inv_def tree_ok_def dest: rbq.entries_sorted)

lemma PeekSell_list: "mq_inv st q \<Longrightarrow> PeekSell q = (case ask_list q of [] \<Rightarrow> None | a # _ \<Rightarrow> Some a)"
  by (auto simp: mq_inv_def tree_ok_def PeekSell_def ask_list_def rbq.peekMin_law first_min_def split: list.splits)

lemma PeekBuy_list: "mq_inv st q \<Longrightarrow> PeekBuy q = (case bid_list q of [] \<Rightarrow> None | a # _ \<Rightarrow> Some a)"
  using mq_inv_sorted(1) [of st q]
  by (auto simp: mq_inv_def tree_ok_def PeekBuy_def bid_list_def rbq.peekMax_law first_max_bid_order)

lemma distinct_sides:
  assumes "mq_inv st q"
  shows "distinct (bid_list q @ ask_list q)"
proof -
  have "mset (bid_list q) = mset (map snd (entries (buyTree q)))"
    by (simp add: bid_list_def bid_order_def)
  then have "distinct (bid_list q)" using mq_inv_sorted(3) [OF assms] mset_eq_imp_distinct_iff by blast
  moreover have "distinct (ask_list q)" using mq_inv_sorted(4) [OF assms] by (simp add: ask_list_def)
  moreover have "set (bid_list q) \<inter> set (ask_list q) = {}"
    using assms by (simp add: mq_inv_def bid_list_def ask_list_def set_addrs)
  ultimately show ?thesis by simp
qed

lemma Remove_sides:
  assumes "mq_inv st q"
  obtains q' where "Remove a q = Some q'" "mq_inv st q'" "mq_size q' = mq_size q"
    "bid_list q' = filter (\<lambda>b. b \<noteq> a) (bid_list q)" "ask_list q' = filter (\<lambda>b. b \<noteq> a) (ask_list q)"
proof -
  obtain q' where q': "Remove a q = Some q'" "mq_inv st q'" "mq_size q' = mq_size q"
    "entries (buyTree q') = filter (\<lambda>(v, b). b \<noteq> a) (entries (buyTree q))"
    "entries (sellTree q') = filter (\<lambda>(v, b). b \<noteq> a) (entries (sellTree q))"
    by (rule Remove_correct [OF assms, of a])
  have "bid_list q' = filter (\<lambda>b. b \<noteq> a) (bid_list q)"
    using q'(4) by (simp only: bid_list_def bid_order_filter)
  moreover have "ask_list q' = filter (\<lambda>b. b \<noteq> a) (ask_list q)"
    using q'(5) by (simp add: ask_list_def filter_map comp_def case_prod_unfold)
  ultimately show thesis using q' that by blast
qed

section \<open>The state of a matching loop\<close>

text \<open>
  The incoming order \<open>x\<close> is in use and not queued, the queued orders are in use. \<open>fixed\<close>: an order's
  fields other than its amount and marker.
\<close>

definition fixed :: "OrderNode \<Rightarrow> u64 \<times> u64 \<times> u64 \<times> MsgKind" where
  "fixed o' = (price o', guid o', stockId o', kind o')"

definition loop_inv :: "addr \<Rightarrow> MatchQueues \<Rightarrow> Slab \<Rightarrow> addr list \<Rightarrow> bool" where
  "loop_inv x q sl fl \<longleftrightarrow> slab_inv sl fl \<and> mq_inv (cells sl) q \<and>
     x \<in> live sl fl \<and> x \<notin> mq_addrs q \<and> mq_addrs q \<subseteq> live sl fl"

lemma fixed_simps [simp]:
  "fixed (o'\<lparr>amount := n\<rparr>) = fixed o'" "fixed (o'\<lparr>nextFree := p\<rparr>) = fixed o'"
  "fixed (order_val o') = fixed o'" "fixed (ReduceAmount n o') = fixed o'"
  by (simp_all add: fixed_def order_val_def ReduceAmount_def)

lemma mq_inv_fixed: "mq_inv st q \<Longrightarrow> (\<And>a. fixed (st' a) = fixed (st a)) \<Longrightarrow> mq_inv st' q"
  by (rule mq_inv_cong) (auto simp: fixed_def)

lemma cells_updCell [simp]:
  "cells (updCell a f s) = (cells s)(a := f (cells s a))" "free (updCell a f s) = free s"
  "fresh (updCell a f s) = fresh s" "live (updCell a f s) fl = live s fl"
  by (simp_all add: updCell_def live_def)

lemma slab_inv_updCell:
  assumes "\<And>c. nextFree (f c) = nextFree c"
  shows "slab_inv (updCell a f s) fl = slab_inv s fl"
proof -
  have "free_chain (cells (updCell a f s)) y fl = free_chain (cells s) y fl" for y
    by (rule free_chain_cong) (simp add: assms)
  then show ?thesis by (auto simp: slab_inv_def assms)
qed

lemma Free_updCell:
  "x \<noteq> r \<Longrightarrow> Free r (updCell x f s) = updCell x f (Free r s)"
  by (simp add: Free_def updCell_def fun_upd_twist)

lemma fixed_Free [simp]: "fixed (cells (Free a s) y) = fixed (cells s y)"
  by (simp add: Free_def)

lemma order_val_Free [simp]: "order_val (cells (Free a s) y) = order_val (cells s y)"
  by (simp add: Free_def order_val_def)

lemma order_val_Reduce [simp]: "order_val (ReduceAmount n c) = ReduceAmount n (order_val c)"
  by (simp add: order_val_def ReduceAmount_def)

lemma cells_Free [simp]: "y \<noteq> a \<Longrightarrow> cells (Free a s) y = cells s y"
  by (simp add: Free_def)

lemma completeTrade_fixed:
  "fixed b = fixed b' \<Longrightarrow> fixed s = fixed s' \<Longrightarrow>
   completeTrade fm k l b s pr n = completeTrade fm k l b' s' pr n"
  by (simp add: completeTrade_def fixed_def order_TraderId_def order_TradeId_def)

text \<open>What a matching loop leaves behind. \<open>side\<close> is the other side of the book, \<open>keep\<close> the incoming order's own.\<close>

definition loop_post ::
  "(MatchQueues \<Rightarrow> addr list) \<Rightarrow> (MatchQueues \<Rightarrow> addr list) \<Rightarrow> addr \<Rightarrow> MatchQueues \<Rightarrow> Slab \<Rightarrow> addr list \<Rightarrow>
   OrderNode option \<Rightarrow> OrderNode list \<Rightarrow> MatchQueues \<Rightarrow> Slab \<Rightarrow> addr list \<Rightarrow> bool" where
  "loop_post side keep x q sl fl rx ss q' sl' fl' \<longleftrightarrow>
     slab_inv sl' fl' \<and> mq_inv (cells sl') q' \<and> map (order_val \<circ> cells sl') (side q') = ss \<and>
     keep q' = keep q \<and> set (side q') \<subseteq> set (side q) \<and>
     live sl' fl' = live sl fl - (set (side q) - set (side q')) - (if rx = None then {x} else {}) \<and>
     (\<forall>r. rx = Some r \<longrightarrow> order_val (cells sl' x) = r) \<and>
     (\<forall>y. fixed (cells sl' y) = fixed (cells sl y)) \<and>
     (\<forall>y. y \<noteq> x \<and> y \<notin> set (side q) \<longrightarrow> cells sl' y = cells sl y)"

lemma loop_post_trans:
  assumes "loop_post side keep x q1 sl1 fl1 rx ss q' sl' fl'"
    and "keep q1 = keep q" "set (side q1) \<subseteq> set (side q)" "x \<notin> set (side q)"
    and "live sl1 fl1 = live sl fl - (set (side q) - set (side q1))"
    and "\<And>y. fixed (cells sl1 y) = fixed (cells sl y)"
    and "\<And>y. y \<noteq> x \<Longrightarrow> y \<notin> set (side q) \<Longrightarrow> cells sl1 y = cells sl y"
  shows "loop_post side keep x q sl fl rx ss q' sl' fl'"
proof -
  have "live sl' fl' = live sl fl - (set (side q) - set (side q')) - (if rx = None then {x} else {})"
    using assms(1,3,5) by (auto simp: loop_post_def)
  moreover have "\<forall>y. y \<noteq> x \<and> y \<notin> set (side q) \<longrightarrow> cells sl' y = cells sl y"
    using assms(1,3,7) unfolding loop_post_def by (metis subsetD)
  ultimately show ?thesis using assms(1,2,3,6) by (auto simp: loop_post_def)
qed

lemma order_val_sel [simp]:
  "price (order_val c) = price c" "amount (order_val c) = amount c" "guid (order_val c) = guid c"
  by (simp_all add: order_val_def)

text \<open>The two sides of a book behave alike; what one round of a matching loop does is shown once for both.\<close>

locale book_side =
  fixes side keep :: "MatchQueues \<Rightarrow> addr list"
  assumes sides: "mq_inv st q \<Longrightarrow> mq_addrs q = set (side q) \<union> set (keep q) \<and> distinct (side q @ keep q)"
    and remove: "mq_inv st q \<Longrightarrow> \<exists>q'. Remove a q = Some q' \<and> mq_inv st q' \<and>
      side q' = filter (\<lambda>b. b \<noteq> a) (side q) \<and> keep q' = filter (\<lambda>b. b \<noteq> a) (keep q)"
begin

lemma loop_invD:
  assumes "loop_inv x q sl fl" "side q = r # rs"
  shows "r \<in> live sl fl" "x \<in> live sl fl" "slab_inv sl fl" "mq_inv (cells sl) q" "x \<noteq> r" "x \<notin> set rs" "r \<notin> set rs"
    "r \<notin> set (keep q)" "x \<notin> set (keep q)" "mq_addrs q \<subseteq> live sl fl"
    "mq_addrs q = insert r (set rs \<union> set (keep q))"
  using assms sides [of "cells sl" q] by (auto simp: loop_inv_def)

lemma remove_best:
  assumes "loop_inv x q sl fl" "side q = r # rs"
  shows "\<exists>q'. Remove r q = Some q' \<and> mq_inv (cells sl) q' \<and> side q' = rs \<and> keep q' = keep q"
  using remove [OF loop_invD(4) [OF assms], of r] loop_invD(7,8) [OF assms] assms(2)
  by (auto simp: filter_id_conv)

lemma remove_unqueued:
  assumes "loop_inv x q sl fl"
  shows "\<exists>q'. Remove x q = Some q' \<and> mq_inv (cells sl) q' \<and> side q' = side q \<and> keep q' = keep q"
proof -
  have I: "mq_inv (cells sl) q" and "x \<notin> mq_addrs q" using assms by (auto simp: loop_inv_def)
  then have "filter (\<lambda>b. b \<noteq> x) (side q) = side q" "filter (\<lambda>b. b \<noteq> x) (keep q) = keep q"
    using sides [OF I] by (auto simp: filter_id_conv)
  with remove [OF I, of x] show ?thesis by auto
qed

lemma stays:
  assumes "loop_inv x q sl fl"
  shows "loop_post side keep x q sl fl (Some (order_val (cells sl x))) (map (order_val \<circ> cells sl) (side q)) q sl fl"
  using assms by (auto simp: loop_inv_def loop_post_def)

text \<open>The best resting order is used up, and the incoming order goes on with what is left of it.\<close>

lemma rest_used:
  assumes L: "loop_inv x q sl fl" "side q = r # rs"
    and sl1_def: "sl1 = updCell x (ReduceAmount n) (Free r sl)"
  shows "\<exists>q1. Remove r q = Some q1 \<and> side q1 = rs \<and> loop_inv x q1 sl1 (r # fl) \<and>
    map (order_val \<circ> cells sl1) rs = map (order_val \<circ> cells sl) rs \<and>
    order_val (cells sl1 x) = ReduceAmount n (order_val (cells sl x)) \<and>
    (\<forall>rx ss q' sl' fl'. loop_post side keep x q1 sl1 (r # fl) rx ss q' sl' fl' \<longrightarrow>
       loop_post side keep x q sl fl rx ss q' sl' fl')"
proof -
  note D = loop_invD [OF L]
  note F = Free_correct [OF D(3,1)]
  obtain q1 where q1: "Remove r q = Some q1" "mq_inv (cells sl) q1" "side q1 = rs" "keep q1 = keep q"
    using remove_best [OF L] by blast
  have fx: "fixed (cells sl1 y) = fixed (cells sl y)" for y
    using D(5) by (simp add: sl1_def)
  have "mq_inv (cells sl1) q1" using q1(2) fx by (rule mq_inv_fixed)
  moreover have ad: "mq_addrs q1 = mq_addrs q - {r}"
    using sides [OF q1(2)] q1(3,4) D(7,8,11) by auto
  ultimately have "loop_inv x q1 sl1 (r # fl)"
    using L(1) F(1,2) D(5) unfolding sl1_def by (auto simp: loop_inv_def slab_inv_updCell ReduceAmount_def)
  moreover have "loop_post side keep x q sl fl rx ss q' sl' fl'"
    if "loop_post side keep x q1 sl1 (r # fl) rx ss q' sl' fl'" for rx ss q' sl' fl'
    by (rule loop_post_trans [OF that]) (use q1 L(2) D F(2) fx in \<open>auto simp: sl1_def\<close>)
  moreover have "map (order_val \<circ> cells sl1) rs = map (order_val \<circ> cells sl) rs"
    using D(6,7) by (auto simp: sl1_def)
  moreover have "order_val (cells sl1 x) = ReduceAmount n (order_val (cells sl x))" by (simp add: sl1_def)
  ultimately show ?thesis using q1(1,3) by blast
qed

text \<open>The incoming order is used up.\<close>

lemma incoming_used:
  assumes L: "loop_inv x q sl fl" "side q = r # rs"
    and q': "mq_inv (cells sl) q'" "side q' = side q" "keep q' = keep q"
  shows "loop_post side keep x q sl fl None
    (ReduceAmount n (order_val (cells sl r)) # map (order_val \<circ> cells sl) rs) q'
    (Free x (updCell r (ReduceAmount n) sl)) (x # fl)"
proof -
  note D = loop_invD [OF L]
  let ?sl = "Free x (updCell r (ReduceAmount n) sl)"
  have "slab_inv ?sl (x # fl)" "live ?sl (x # fl) = live sl fl - {x}"
    using D(2,3) Free_correct [of "updCell r (ReduceAmount n) sl" fl x]
    by (auto simp: slab_inv_updCell ReduceAmount_def)
  moreover have "mq_inv (cells ?sl) q'" by (rule mq_inv_fixed [OF q'(1)]) simp
  moreover have "map (order_val \<circ> cells ?sl) (side q') =
      ReduceAmount n (order_val (cells sl r)) # map (order_val \<circ> cells sl) rs"
    using D q'(2) L(2) by auto
  ultimately show ?thesis using D(5) q'(2,3) L(2) by (auto simp: loop_post_def)
qed

text \<open>A queued order and the incoming one are freed together: both are used up, or the order is cancelled.\<close>

lemma pair_freed:
  assumes L: "loop_inv x q sl fl" "r \<in> set (side q)"
  shows "\<exists>q1. Remove r q = Some q1 \<and>
    loop_post side keep x q sl fl None (map (order_val \<circ> cells sl) (filter (\<lambda>a. a \<noteq> r) (side q))) q1
      (Free x (Free r sl)) (x # r # fl)"
proof -
  let ?sl = "Free x (Free r sl)" and ?rs = "filter (\<lambda>a. a \<noteq> r) (side q)"
  have I: "mq_inv (cells sl) q" "slab_inv sl fl" using L(1) by (auto simp: loop_inv_def)
  have D: "r \<notin> set (keep q)" "x \<notin> set (side q)" "r \<in> live sl fl" "x \<in> live sl fl" "x \<noteq> r"
    using L sides [OF I(1)] by (auto simp: loop_inv_def)
  obtain q1 where q1: "Remove r q = Some q1" "mq_inv (cells sl) q1" "side q1 = ?rs" "keep q1 = keep q"
    using remove [OF I(1), of r] D(1) by auto
  note F = Free_correct [OF I(2) D(3)]
  have "x \<in> live (Free r sl) (r # fl)" using F(2) D by simp
  note G = Free_correct [OF F(1) this]
  have "live ?sl (x # r # fl) = live sl fl - (set (side q) - set (side q1)) - {x}"
    using F(2) G(2) L(2) D by (auto simp: q1(3))
  moreover have "mq_inv (cells ?sl) q1" by (rule mq_inv_fixed [OF q1(2)]) simp
  moreover have "map (order_val \<circ> cells ?sl) (side q1) = map (order_val \<circ> cells sl) ?rs"
    using D q1(3) by auto
  moreover have "cells ?sl y = cells sl y" if "y \<noteq> x" "y \<notin> set (side q)" for y using that L(2) by (cases "y = r") auto
  ultimately have "loop_post side keep x q sl fl None (map (order_val \<circ> cells sl) ?rs) q1 ?sl (x # r # fl)"
    unfolding loop_post_def using G(1) q1(3,4) by simp
  with q1(1) show ?thesis by blast
qed

lemma both_used:
  assumes "loop_inv x q sl fl" "side q = r # rs"
  shows "\<exists>q1. Remove r q = Some q1 \<and>
    loop_post side keep x q sl fl None (map (order_val \<circ> cells sl) rs) q1 (Free x (Free r sl)) (x # r # fl)"
  using pair_freed [OF assms(1), of r] loop_invD(7) [OF assms] assms(2) by auto

end

interpretation ask: book_side ask_list bid_list
proof
  fix st q a assume I: "mq_inv st q"
  show "mq_addrs q = set (ask_list q) \<union> set (bid_list q) \<and> distinct (ask_list q @ bid_list q)"
    using distinct_sides [OF I] by (auto simp: mq_addrs_sides)
  show "\<exists>q'. Remove a q = Some q' \<and> mq_inv st q' \<and> ask_list q' = filter (\<lambda>b. b \<noteq> a) (ask_list q) \<and>
      bid_list q' = filter (\<lambda>b. b \<noteq> a) (bid_list q)"
    by (rule Remove_sides [OF I, of a]) blast
qed

interpretation bid: book_side bid_list ask_list
proof
  fix st q a assume I: "mq_inv st q"
  show "mq_addrs q = set (bid_list q) \<union> set (ask_list q) \<and> distinct (bid_list q @ ask_list q)"
    using distinct_sides [OF I] by (auto simp: mq_addrs_sides)
  show "\<exists>q'. Remove a q = Some q' \<and> mq_inv st q' \<and> bid_list q' = filter (\<lambda>b. b \<noteq> a) (bid_list q) \<and>
      ask_list q' = filter (\<lambda>b. b \<noteq> a) (ask_list q)"
    by (rule Remove_sides [OF I, of a]) blast
qed

section \<open>The matching loops\<close>

lemma match_cases:
  fixes b s :: OrderNode
  obtains (apart) "price b < price s"
    | (rest) "price s \<le> price b" "\<not> price b < price s" "amount s < amount b" "\<not> amount b < amount s"
    | (inc) "price s \<le> price b" "\<not> price b < price s" "amount b < amount s" "\<not> amount s < amount b"
    | (both) "price s \<le> price b" "\<not> price b < price s" "amount b = amount s"
  by (cases "price b < price s"; cases "amount b" "amount s" rule: linorder_cases)
     (auto simp: not_less intro: that less_imp_le)

lemma trade_fixed:
  assumes "fixed b' = fixed b" "fixed s' = fixed s"
  shows "completeTrade fm k l b' s' (trade_price (price b) (price s)) n = trade fm k l (order_val b) (order_val s) n"
  unfolding trade_def order_val_sel by (rule completeTrade_fixed) (simp_all add: assms)

lemma fillableBuy_refines:
  assumes "loop_inv b q sl fl"
    and "match_buy fm (order_val (cells sl b)) (map (order_val \<circ> cells sl) (ask_list q)) = (msgs, rb, ss)"
  shows "\<exists>q' sl' fl'. fillableBuy fm b q sl out = Some (rb = None, q', sl', out @ msgs) \<and>
    loop_post ask_list bid_list b q sl fl rb ss q' sl' fl'"
  using assms
proof (induction "ask_list q" arbitrary: q sl fl out msgs)
  case Nil
  then have "PeekSell q = None" by (auto simp: loop_inv_def dest: PeekSell_list)
  with Nil ask.stays [OF Nil(2)] show ?case by (subst fillableBuy.simps) auto
next
  case (Cons s as)
  let ?b = "cells sl b" and ?s = "cells sl s"
  note L = Cons.prems(1) Cons.hyps(2) [symmetric]
  note D = ask.loop_invD [OF L]
  have pk: "PeekSell q = Some s" using PeekSell_list [OF D(4)] L(2) by simp
  note mb = Cons.prems(2) [unfolded L(2)]
  from match_cases [of ?b ?s] show ?case
  proof cases
    case apart
    then show ?thesis using mb pk ask.stays [OF L(1)] L(2)
      by (subst fillableBuy.simps) auto
  next
    case rest
    let ?sl = "updCell b (ReduceAmount (amount ?s)) (Free s sl)"
    let ?t = "completeTrade fm PARTIAL FULL (cells ?sl b) (cells ?sl s) (trade_price (price ?b) (price ?s)) (amount ?s)"
    obtain q1 where q1: "Remove s q = Some q1" "ask_list q1 = as" "loop_inv b q1 ?sl (s # fl)"
      "map (order_val \<circ> cells ?sl) as = map (order_val \<circ> cells sl) as"
      "order_val (cells ?sl b) = ReduceAmount (amount ?s) (order_val ?b)"
      "\<And>rx ss q' sl' fl'. loop_post ask_list bid_list b q1 ?sl (s # fl) rx ss q' sl' fl' \<Longrightarrow>
        loop_post ask_list bid_list b q sl fl rx ss q' sl' fl'"
      using ask.rest_used [OF L refl, of "amount ?s"] by blast
    have t: "?t = trade fm PARTIAL FULL (order_val ?b) (order_val ?s) (amount ?s)"
      by (rule trade_fixed) (use D(5) in simp_all)
    obtain out' where m: "match_buy fm (ReduceAmount (amount ?s) (order_val ?b)) (map (order_val \<circ> cells sl) as) = (out', rb, ss)"
        "msgs = ?t @ out'"
      using mb rest unfolding t by (auto simp: Let_def split: prod.splits)
    from Cons.hyps(1) [OF q1(2) [symmetric] q1(3), of out' "out @ ?t"] m(1) q1(2,4,5)
    obtain q' sl' fl' where r: "fillableBuy fm b q1 ?sl (out @ ?t) = Some (rb = None, q', sl', (out @ ?t) @ out')"
      "loop_post ask_list bid_list b q1 ?sl (s # fl) rb ss q' sl' fl'"
      by metis
    moreover have "fillableBuy fm b q sl out = Some (rb = None, q', sl', out @ msgs)"
      using rest r(1) by (subst fillableBuy.simps) (simp add: pk q1(1) Let_def m(2) del: cells_updCell)
    ultimately show ?thesis using q1(6) by blast
  next
    case inc
    have t: "completeTrade fm FULL PARTIAL (cells (updCell s (ReduceAmount (amount ?b)) sl) b)
        (cells (updCell s (ReduceAmount (amount ?b)) sl) s) (trade_price (price ?b) (price ?s)) (amount ?b) =
        trade fm FULL PARTIAL (order_val ?b) (order_val ?s) (amount ?b)"
      by (rule trade_fixed) (use D(5) in simp_all)
    show ?thesis using mb inc ask.incoming_used [OF L D(4) refl refl, of "amount ?b"]
      by (subst fillableBuy.simps) (auto simp: pk Let_def t simp del: cells_updCell)
  next
    case both
    obtain q1 where q1: "Remove s q = Some q1"
        "loop_post ask_list bid_list b q sl fl None (map (order_val \<circ> cells sl) as) q1 (Free b (Free s sl)) (b # s # fl)"
      using ask.both_used [OF L] by blast
    have "fillableBuy fm b q sl out = Some (True, q1, Free b (Free s sl), out @ trade fm FULL FULL (order_val ?b) (order_val ?s) (amount ?b))"
      using both by (subst fillableBuy.simps) (simp add: pk q1(1) trade_fixed)
    moreover have "rb = None" "ss = map (order_val \<circ> cells sl) as"
       "msgs = trade fm FULL FULL (order_val ?b) (order_val ?s) (amount ?b)"
      using mb both by auto
    ultimately show ?thesis using q1(2) by auto
  qed
qed

lemma fillableSell_refines:
  assumes "loop_inv s q sl fl"
    and "match_sell fm (order_val (cells sl s)) (map (order_val \<circ> cells sl) (bid_list q)) = (msgs, rs, bs)"
  shows "\<exists>q' sl' fl'. fillableSell fm s q sl out = Some (rs = None, q', sl', out @ msgs) \<and>
    loop_post bid_list ask_list s q sl fl rs bs q' sl' fl'"
  using assms
proof (induction "bid_list q" arbitrary: q sl fl out msgs)
  case Nil
  then have "PeekBuy q = None" by (auto simp: loop_inv_def dest: PeekBuy_list)
  with Nil bid.stays [OF Nil(2)] show ?case by (subst fillableSell.simps) auto
next
  case (Cons b as)
  let ?b = "cells sl b" and ?s = "cells sl s"
  note L = Cons.prems(1) Cons.hyps(2) [symmetric]
  note D = bid.loop_invD [OF L]
  have pk: "PeekBuy q = Some b" using PeekBuy_list [OF D(4)] L(2) by simp
  note mb = Cons.prems(2) [unfolded L(2)]
  from match_cases [of ?b ?s] show ?case
  proof cases
    case apart
    then show ?thesis using mb pk bid.stays [OF L(1)] L(2)
      by (subst fillableSell.simps) auto
  next
    case inc
    let ?sl = "updCell s (ReduceAmount (amount ?b)) sl" and ?sl1 = "updCell s (ReduceAmount (amount ?b)) (Free b sl)"
    let ?t = "completeTrade fm FULL PARTIAL (cells ?sl b) (cells ?sl s) (trade_price (price ?b) (price ?s)) (amount ?b)"
    obtain q1 where q1: "Remove b q = Some q1" "bid_list q1 = as" "loop_inv s q1 ?sl1 (b # fl)"
      "map (order_val \<circ> cells ?sl1) as = map (order_val \<circ> cells sl) as"
      "order_val (cells ?sl1 s) = ReduceAmount (amount ?b) (order_val ?s)"
      "\<And>rx ss q' sl' fl'. loop_post bid_list ask_list s q1 ?sl1 (b # fl) rx ss q' sl' fl' \<Longrightarrow>
        loop_post bid_list ask_list s q sl fl rx ss q' sl' fl'"
      using bid.rest_used [OF L refl, of "amount ?b"] by blast
    have t: "?t = trade fm FULL PARTIAL (order_val ?b) (order_val ?s) (amount ?b)"
      by (rule trade_fixed) (use D(5) in simp_all)
    obtain out' where m: "match_sell fm (ReduceAmount (amount ?b) (order_val ?s)) (map (order_val \<circ> cells sl) as) = (out', rs, bs)"
        "msgs = ?t @ out'"
      using mb inc unfolding t by (auto simp: Let_def split: prod.splits)
    from Cons.hyps(1) [OF q1(2) [symmetric] q1(3), of out' "out @ ?t"] m(1) q1(2,4,5)
    obtain q' sl' fl' where r: "fillableSell fm s q1 ?sl1 (out @ ?t) = Some (rs = None, q', sl', (out @ ?t) @ out')"
      "loop_post bid_list ask_list s q1 ?sl1 (b # fl) rs bs q' sl' fl'"
      by metis
    moreover have "fillableSell fm s q sl out = Some (rs = None, q', sl', out @ msgs)"
      using inc r(1) by (subst fillableSell.simps) (simp add: pk q1(1) Let_def m(2) Free_updCell [OF D(5)] del: cells_updCell)
    ultimately show ?thesis using q1(6) by blast
  next
    case rest
    let ?sl = "updCell b (ReduceAmount (amount ?s)) sl"
    obtain q1 where q1: "Remove s q = Some q1" "mq_inv (cells sl) q1" "bid_list q1 = bid_list q" "ask_list q1 = ask_list q"
      using bid.remove_unqueued [OF L(1)] by blast
    have t: "completeTrade fm PARTIAL FULL (cells ?sl b) (cells ?sl s) (trade_price (price ?b) (price ?s)) (amount ?s) =
        trade fm PARTIAL FULL (order_val ?b) (order_val ?s) (amount ?s)"
      by (rule trade_fixed) (use D(5) in simp_all)
    show ?thesis using mb rest bid.incoming_used [OF L q1(2,3,4), of "amount ?s"]
      by (subst fillableSell.simps) (auto simp: pk q1(1) Let_def t simp del: cells_updCell)
  next
    case both
    obtain q1 where q1: "Remove b q = Some q1"
        "loop_post bid_list ask_list s q sl fl None (map (order_val \<circ> cells sl) as) q1 (Free s (Free b sl)) (s # b # fl)"
      using bid.both_used [OF L] by blast
    have "fillableSell fm s q sl out = Some (True, q1, Free s (Free b sl), out @ trade fm FULL FULL (order_val ?b) (order_val ?s) (amount ?b))"
      using both by (subst fillableSell.simps) (simp add: pk q1(1) trade_fixed)
    moreover have "rs = None" "bs = map (order_val \<circ> cells sl) as"
       "msgs = trade fm FULL FULL (order_val ?b) (order_val ?s) (amount ?b)"
      using mb both by auto
    ultimately show ?thesis using q1(2) by auto
  qed
qed

section \<open>The engine's invariant\<close>

text \<open>
  The cells in use are exactly the queued orders of all stocks, and every queue holds orders of its
  own stock: no order is leaked, queued twice, or queued and free.
\<close>

definition M_inv :: "M \<Rightarrow> addr list \<Rightarrow> bool" where
  "M_inv m fl \<longleftrightarrow> slab_inv (slab m) fl \<and> (\<forall>sid. mq_inv (cells (slab m)) (getMatchQueues sid m)) \<and>
     (\<forall>sid. \<forall>a \<in> mq_addrs (getMatchQueues sid m). stockId (cells (slab m) a) = sid) \<and>
     live (slab m) fl = (\<Union>sid. mq_addrs (getMatchQueues sid m))"

text \<open>The state in which a handler starts: the new order \<open>x\<close> is allocated and not queued.\<close>

definition H_inv :: "addr \<Rightarrow> M \<Rightarrow> addr list \<Rightarrow> bool" where
  "H_inv x m fl \<longleftrightarrow> slab_inv (slab m) fl \<and> (\<forall>sid. mq_inv (cells (slab m)) (getMatchQueues sid m)) \<and>
     (\<forall>sid. \<forall>a \<in> mq_addrs (getMatchQueues sid m). stockId (cells (slab m) a) = sid) \<and>
     live (slab m) fl = insert x (\<Union>sid. mq_addrs (getMatchQueues sid m)) \<and>
     (\<forall>sid. x \<notin> mq_addrs (getMatchQueues sid m))"

lemma getMatchQueues_upd [simp]:
  "getMatchQueues sid (m\<lparr>matchQueues := (matchQueues m)(t \<mapsto> q), slab := s, Out := out\<rparr>) =
     (if sid = t then q else getMatchQueues sid m)"
  "getMatchQueues sid (m\<lparr>matchQueues := (matchQueues m)(t \<mapsto> q)\<rparr>) =
     (if sid = t then q else getMatchQueues sid m)"
  "getMatchQueues sid (m\<lparr>slab := s\<rparr>) = getMatchQueues sid m"
  "getMatchQueues sid (m\<lparr>Out := out\<rparr>) = getMatchQueues sid m"
  by (simp_all add: getMatchQueues_def)

lemma Submit_allocates:
  assumes "M_inv m fl"
  obtains x s fl' where "Malloc (slab m) = (x, s)"
    "H_inv x (m\<lparr>slab := updCell x (CopyFrom fm o') s\<rparr>) fl'"
    "order_val (cells (updCell x (CopyFrom fm o') s) x) = order_of fm o'"
    "\<And>sid. book_of sid (m\<lparr>slab := updCell x (CopyFrom fm o') s\<rparr>) = book_of sid m"
proof -
  have I: "slab_inv (slab m) fl" using assms by (simp add: M_inv_def)
  obtain x s fl' where M: "Malloc (slab m) = (x, s)" "slab_inv s fl'" "x \<notin> live (slab m) fl"
      "live s fl' = insert x (live (slab m) fl)" "\<And>y. y \<noteq> x \<Longrightarrow> cells s y = cells (slab m) y"
    by (rule Malloc_correct [OF I]) blast
  let ?s = "updCell x (CopyFrom fm o') s"
  have x: "x \<notin> mq_addrs (getMatchQueues sid m)" for sid
    using M(3) assms by (auto simp: M_inv_def)
  have c: "cells ?s a = cells (slab m) a" if "a \<in> mq_addrs (getMatchQueues sid m)" for a sid
    using that x [of sid] M(5) by auto
  have s: "slab_inv ?s fl'" using M(2) by (simp add: slab_inv_updCell CopyFrom_def)
  have q: "mq_inv (cells ?s) (getMatchQueues sid m)" for sid
    by (rule mq_inv_cong [of "cells (slab m)"]) (use assms c in \<open>auto simp: M_inv_def\<close>)
  have "H_inv x (m\<lparr>slab := ?s\<rparr>) fl'"
    using s q x c M(4) assms unfolding H_inv_def by (auto simp: M_inv_def simp del: cells_updCell(1))
  moreover have "order_val (cells ?s x) = order_of fm o'"
    by (simp add: order_val_def order_of_def CopyFrom_def zeroOrder_def)
  moreover have "book_of sid (m\<lparr>slab := ?s\<rparr>) = book_of sid m" for sid
    using c [of _ sid] by (auto simp: book_of_def abs_sides mq_addrs_sides simp del: cells_updCell(1))
  ultimately show thesis using M(1) that by blast
qed

lemma H_loop: "H_inv x m fl \<Longrightarrow> loop_inv x (getMatchQueues sid m) (slab m) fl"
  by (auto simp: H_inv_def loop_inv_def)


context book_side
begin

lemma handler_done:
  assumes H: "H_inv x m fl" and sid: "stockId (cells (slab m) x) = sid"
    and P: "loop_post side keep x (getMatchQueues sid m) (slab m) fl rx ss q' sl' fl'"
    and q'': "mq_inv (cells sl') q''" "mq_addrs q'' = mq_addrs q' \<union> (if rx = None then {} else {x})"
    and m'_def: "m' = m\<lparr>matchQueues := (matchQueues m)(sid \<mapsto> q''), slab := sl', Out := out\<rparr>"
  shows "M_inv m' fl'" "t \<noteq> sid \<Longrightarrow> book_of t m' = book_of t m"
proof -
  let ?q = "\<lambda>t. getMatchQueues t m"
  have L: "slab_inv sl' fl'" "mq_inv (cells sl') q'" "keep q' = keep (?q sid)" "set (side q') \<subseteq> set (side (?q sid))"
    "live sl' fl' = live (slab m) fl - (set (side (?q sid)) - set (side q')) - (if rx = None then {x} else {})"
    "\<And>y. fixed (cells sl' y) = fixed (cells (slab m) y)"
    "\<And>y. y \<noteq> x \<Longrightarrow> y \<notin> set (side (?q sid)) \<Longrightarrow> cells sl' y = cells (slab m) y"
    using P by (auto simp: loop_post_def)
  have Q: "mq_inv (cells (slab m)) (?q t)" "x \<notin> mq_addrs (?q t)" "a \<in> mq_addrs (?q t) \<Longrightarrow> stockId (cells (slab m) a) = t" for t a
    using H by (auto simp: H_inv_def)
  have A: "mq_addrs (?q sid) = set (side (?q sid)) \<union> set (keep (?q sid))" "distinct (side (?q sid) @ keep (?q sid))"
    "mq_addrs q' = set (side q') \<union> set (keep q')"
    using sides [OF Q(1) [of sid]] sides [OF L(2)] by auto
  have same: "cells sl' a = cells (slab m) a" if "a \<in> mq_addrs (?q t)" "t \<noteq> sid" for a t
    using that Q(2) [of t] Q(3) [of a t] Q(3) [of a sid] A(1) by (intro L(7)) auto
  have st: "stockId (cells sl' y) = stockId (cells (slab m) y)" for y using L(6) [of y] by (simp add: fixed_def)
  have qs: "getMatchQueues t m' = (if t = sid then q'' else ?q t)" for t by (simp add: m'_def)
  have "mq_inv (cells sl') (getMatchQueues t m')" for t
    using mq_inv_fixed [OF Q(1) L(6)] q''(1) by (simp add: qs)
  moreover have "stockId (cells sl' a) = t" if "a \<in> mq_addrs (getMatchQueues t m')" for a t
    using that Q(3) [of a t] sid A L(3,4) q''(2) by (auto simp: qs st split: if_splits)
  moreover have "live sl' fl' = (\<Union>t. mq_addrs (getMatchQueues t m'))"
  proof -
    have lv: "live (slab m) fl = insert x (\<Union>t. mq_addrs (?q t))" using H by (simp add: H_inv_def)
    have "a \<in> live sl' fl' \<longleftrightarrow> (\<exists>t. a \<in> mq_addrs (getMatchQueues t m'))" for a
    proof (cases "a \<in> mq_addrs (?q sid)")
      case True
      then have a: "a \<noteq> x" "stockId (cells (slab m) a) = sid" "a \<in> live (slab m) fl" using Q(2) [of sid] Q(3) [of a sid] lv by auto
      then have "(\<exists>t. a \<in> mq_addrs (getMatchQueues t m')) \<longleftrightarrow> a \<in> mq_addrs q''"
        unfolding qs using Q(3) [of a] by (metis (full_types))
      moreover have "a \<in> mq_addrs q'' \<longleftrightarrow> a \<in> set (side q') \<or> a \<in> set (keep (?q sid))"
        using a(1) A(3) L(3) q''(2) by simp
      moreover have "a \<in> live sl' fl' \<longleftrightarrow> a \<notin> set (side (?q sid)) \<or> a \<in> set (side q')"
        using a L(5) by simp
      ultimately show ?thesis using True A(1,2) L(4) by auto
    next
      case False
      then have "a \<in> mq_addrs q'' \<longleftrightarrow> a = x \<and> rx \<noteq> None" using A L(3,4) q''(2) by auto
      moreover have "a \<in> live sl' fl' \<longleftrightarrow> (a = x \<and> rx \<noteq> None) \<or> (\<exists>t. a \<in> mq_addrs (?q t))"
        using False A(1) L(5) lv Q(2) by auto
      ultimately show ?thesis using False unfolding qs by (metis (full_types))
    qed
    then show ?thesis by blast
  qed
  ultimately show "M_inv m' fl'" using L(1) unfolding M_inv_def by (simp add: m'_def)
  show "book_of t m' = book_of t m" if "t \<noteq> sid"
    using that same [of _ t] by (auto simp: book_of_def qs abs_sides mq_addrs_sides m'_def)
qed

end

lemma book_sides:
  "bids (book_of sid m) = abs_bids (cells (slab m)) (getMatchQueues sid m)"
  "asks (book_of sid m) = abs_asks (cells (slab m)) (getMatchQueues sid m)"
  by (simp_all add: book_of_def)

lemma mq_files_price:
  assumes "mq_inv st q"
  shows "\<forall>e \<in> set (entries (buyTree q)). fst e = price (st (snd e))" "\<forall>e \<in> set (entries (sellTree q)). fst e = price (st (snd e))"
  using assms by (auto simp: mq_inv_def tree_ok_def)

lemma PushBuy_rests:
  assumes "mq_inv st q" "b \<notin> mq_addrs q"
  shows "\<exists>q'. PushBuy st b q = Some q' \<and> mq_inv st q' \<and> mq_addrs q' = insert b (mq_addrs q) \<and>
    abs_bids st q' = rest_bid (order_val (st b)) (abs_bids st q) \<and> abs_asks st q' = abs_asks st q"
proof -
  obtain q' where "PushBuy st b q = Some q'" "mq_inv st q'" "mq_addrs q' = insert b (mq_addrs q)"
    "entries (buyTree q') = ins_fifo (price (st b)) b (entries (buyTree q))" "sellTree q' = sellTree q"
    by (rule PushBuy_correct [OF assms])
  then show ?thesis using rest_bid_abs [OF mq_inv_sorted(1) [OF assms(1)] mq_files_price(1) [OF assms(1)], of b]
    by (auto simp: abs_bids_def abs_asks_def)
qed

lemma PushSell_rests:
  assumes "mq_inv st q" "s \<notin> mq_addrs q"
  shows "\<exists>q'. PushSell st s q = Some q' \<and> mq_inv st q' \<and> mq_addrs q' = insert s (mq_addrs q) \<and>
    abs_asks st q' = rest_ask (order_val (st s)) (abs_asks st q) \<and> abs_bids st q' = abs_bids st q"
proof -
  obtain q' where "PushSell st s q = Some q'" "mq_inv st q'" "mq_addrs q' = insert s (mq_addrs q)"
    "entries (sellTree q') = ins_fifo (price (st s)) s (entries (sellTree q))" "buyTree q' = buyTree q"
    by (rule PushSell_correct [OF assms])
  then show ?thesis using rest_ask_abs [OF mq_files_price(2) [OF assms(1)], of s]
    by (auto simp: abs_bids_def abs_asks_def)
qed

lemma addBuy_refines:
  assumes H: "H_inv b m fl" and p: "price (cells (slab m) b) \<noteq> MARKET_PRICE"
    and sid: "stockId (cells (slab m) b) = sid"
    and spec: "spec_buy fm (order_val (cells (slab m) b)) (book_of sid m) = (msgs, bk)"
  shows "\<exists>m' fl'. addBuy fm b m = Inr m' \<and> M_inv m' fl' \<and> Out m' = Out m @ msgs \<and> book_of sid m' = bk \<and>
    (\<forall>t. t \<noteq> sid \<longrightarrow> book_of t m' = book_of t m)"
proof -
  let ?q = "getMatchQueues sid m"
  obtain rb ss where mb: "match_buy fm (order_val (cells (slab m) b)) (abs_asks (cells (slab m)) ?q) = (msgs, rb, ss)"
    and bk: "bk = (book_of sid m)\<lparr>asks := ss, bids := (case rb of None \<Rightarrow> bids (book_of sid m) | Some b' \<Rightarrow> rest_bid b' (bids (book_of sid m)))\<rparr>"
    using spec by (auto simp: spec_buy_def book_sides split: prod.splits)
  obtain q' sl' fl' where F: "fillableBuy fm b ?q (slab m) (Out m) = Some (rb = None, q', sl', Out m @ msgs)"
      "loop_post ask_list bid_list b ?q (slab m) fl rb ss q' sl' fl'"
    using fillableBuy_refines [OF H_loop [OF H] mb [unfolded abs_sides]] by blast
  have b: "b \<notin> mq_addrs q'" "mq_inv (cells sl') q'" "abs_asks (cells sl') q' = ss"
    "abs_bids (cells sl') q' = abs_bids (cells (slab m)) ?q"
    using F(2) H distinct_sides [of "cells (slab m)" ?q] unfolding loop_post_def H_inv_def abs_sides
    by (auto simp: mq_addrs_sides)
  have "\<exists>q''. (if rb = None then Some q' else PushBuy (cells sl') b q') = Some q'' \<and> mq_inv (cells sl') q'' \<and>
      mq_addrs q'' = mq_addrs q' \<union> (if rb = None then {} else {b}) \<and> abs_asks (cells sl') q'' = ss \<and>
      abs_bids (cells sl') q'' = bids bk"
    using PushBuy_rests [OF b(2,1)] b F(2) bk by (cases rb) (auto simp: loop_post_def book_of_def)
  then obtain q'' where q'': "(if rb = None then Some q' else PushBuy (cells sl') b q') = Some q''" "mq_inv (cells sl') q''"
      "mq_addrs q'' = mq_addrs q' \<union> (if rb = None then {} else {b})" "abs_asks (cells sl') q'' = ss"
      "abs_bids (cells sl') q'' = bids bk" by blast
  let ?m = "m\<lparr>matchQueues := (matchQueues m)(sid \<mapsto> q''), slab := sl', Out := Out m @ msgs\<rparr>"
  have "addBuy fm b m = Inr ?m"
    using p q''(1) by (auto simp: addBuy_def Let_def sid F(1) split: if_splits)
  moreover have "book_of sid ?m = bk" using q''(4,5) by (simp add: book_of_def bk)
  ultimately show ?thesis
    using ask.handler_done [OF H sid F(2) q''(2,3) refl] by (intro exI [of _ ?m] exI [of _ fl']) simp
qed

lemma addSell_refines:
  assumes H: "H_inv s m fl" and sid: "stockId (cells (slab m) s) = sid"
    and spec: "spec_sell fm (order_val (cells (slab m) s)) (book_of sid m) = (msgs, bk)"
  shows "\<exists>m' fl'. addSell fm s m = Inr m' \<and> M_inv m' fl' \<and> Out m' = Out m @ msgs \<and> book_of sid m' = bk \<and>
    (\<forall>t. t \<noteq> sid \<longrightarrow> book_of t m' = book_of t m)"
proof -
  let ?q = "getMatchQueues sid m"
  obtain rs bs where mb: "match_sell fm (order_val (cells (slab m) s)) (abs_bids (cells (slab m)) ?q) = (msgs, rs, bs)"
    and bk: "bk = (book_of sid m)\<lparr>bids := bs, asks := (case rs of None \<Rightarrow> asks (book_of sid m) | Some s' \<Rightarrow> rest_ask s' (asks (book_of sid m)))\<rparr>"
    using spec by (auto simp: spec_sell_def book_sides split: prod.splits)
  obtain q' sl' fl' where F: "fillableSell fm s ?q (slab m) (Out m) = Some (rs = None, q', sl', Out m @ msgs)"
      "loop_post bid_list ask_list s ?q (slab m) fl rs bs q' sl' fl'"
    using fillableSell_refines [OF H_loop [OF H] mb [unfolded abs_sides]] by blast
  have b: "s \<notin> mq_addrs q'" "mq_inv (cells sl') q'" "abs_bids (cells sl') q' = bs"
    "abs_asks (cells sl') q' = abs_asks (cells (slab m)) ?q"
    using F(2) H distinct_sides [of "cells (slab m)" ?q] unfolding loop_post_def H_inv_def abs_sides
    by (auto simp: mq_addrs_sides)
  have "\<exists>q''. (if rs = None then Some q' else PushSell (cells sl') s q') = Some q'' \<and> mq_inv (cells sl') q'' \<and>
      mq_addrs q'' = mq_addrs q' \<union> (if rs = None then {} else {s}) \<and> abs_bids (cells sl') q'' = bs \<and>
      abs_asks (cells sl') q'' = asks bk"
    using PushSell_rests [OF b(2,1)] b F(2) bk by (cases rs) (auto simp: loop_post_def book_of_def)
  then obtain q'' where q'': "(if rs = None then Some q' else PushSell (cells sl') s q') = Some q''" "mq_inv (cells sl') q''"
      "mq_addrs q'' = mq_addrs q' \<union> (if rs = None then {} else {s})" "abs_bids (cells sl') q'' = bs"
      "abs_asks (cells sl') q'' = asks bk" by blast
  let ?m = "m\<lparr>matchQueues := (matchQueues m)(sid \<mapsto> q''), slab := sl', Out := Out m @ msgs\<rparr>"
  have "addSell fm s m = Inr ?m"
    using q''(1) by (auto simp: addSell_def Let_def sid F(1) split: if_splits)
  moreover have "book_of sid ?m = bk" using q''(4,5) by (simp add: book_of_def bk)
  ultimately show ?thesis
    using bid.handler_done [OF H sid F(2) q''(2,3) refl] by (intro exI [of _ ?m] exI [of _ fl']) simp
qed

section \<open>Cancellation\<close>

definition ids :: "book \<Rightarrow> u64 list" where
  "ids bk = map guid (bids bk @ asks bk)"

text \<open>The specification of a cancellation, for a book in which no two orders have the same id.\<close>

definition spec_cancel :: "fmath \<Rightarrow> OrderNode \<Rightarrow> book \<Rightarrow> Message list \<times> book" where
  "spec_cancel fm c bk =
     (case find (\<lambda>r. guid r = guid c) (bids bk @ asks bk) of
        None \<Rightarrow> ([completeNotCancelled fm c], bk)
      | Some r \<Rightarrow> ([completeCancelled fm r],
          bk\<lparr>bids := filter (\<lambda>r. guid r \<noteq> guid c) (bids bk), asks := filter (\<lambda>r. guid r \<noteq> guid c) (asks bk)\<rparr>))"

lemma complete_order_val [simp]:
  "completeCancelled fm (order_val c) = completeCancelled fm c"
  "completeNotCancelled fm (order_val c) = completeNotCancelled fm c"
  by (simp_all add: completeCancelled_def completeNotCancelled_def CopyTo_def order_val_def
      order_TraderId_def order_TradeId_def)

lemma set_ids: "set (ids (book_of sid m)) = (\<lambda>a. guid (cells (slab m) a)) ` mq_addrs (getMatchQueues sid m)"
  by (simp add: ids_def book_of_def abs_sides mq_addrs_sides image_Un image_image)

lemma M_inv_free_incoming:
  assumes "H_inv x m fl"
  shows "M_inv (m\<lparr>matchQueues := (matchQueues m)(sid \<mapsto> getMatchQueues sid m), Out := out, slab := Free x (slab m)\<rparr>) (x # fl)"
    (is "M_inv ?m _")
proof -
  have q: "getMatchQueues t ?m = getMatchQueues t m" for t by (simp add: getMatchQueues_def)
  have x: "x \<in> live (slab m) fl" "slab_inv (slab m) fl" using assms by (auto simp: H_inv_def)
  have "mq_inv (cells (Free x (slab m))) (getMatchQueues t m)" for t
    by (rule mq_inv_fixed [of "cells (slab m)"]) (use assms in \<open>auto simp: H_inv_def\<close>)
  moreover have "stockId (cells (Free x (slab m)) a) = stockId (cells (slab m) a)" for a
    using fixed_Free [of x "slab m" a] by (simp add: fixed_def del: fixed_Free)
  ultimately show ?thesis using Free_correct(1,2) [OF x(2,1)] assms
    unfolding M_inv_def q by (auto simp: H_inv_def)
qed

lemma cancel_none:
  assumes H: "H_inv x m fl" and sid: "stockId (cells (slab m) x) = sid"
    and none: "guid (cells (slab m) x) \<notin> set (ids (book_of sid m))"
  shows "\<exists>m' fl'. cancel fm x m = Inr m' \<and> M_inv m' fl' \<and>
    Out m' = Out m @ [completeNotCancelled fm (cells (slab m) x)] \<and> (\<forall>t. book_of t m' = book_of t m)"
proof -
  let ?q = "getMatchQueues sid m"
  let ?m = "m\<lparr>matchQueues := (matchQueues m)(sid \<mapsto> ?q), Out := Out m @ [completeNotCancelled fm (cells (slab m) x)], slab := Free x (slab m)\<rparr>"
  have I: "mq_inv (cells (slab m)) ?q" using H by (simp add: H_inv_def)
  have "\<forall>a \<in> mq_addrs ?q. guid (cells (slab m) a) \<noteq> guid (cells (slab m) x)"
    using none by (metis set_ids image_eqI)
  then have "rbtree_get (guid (cells (slab m) x)) (orders ?q) = None" using get_order(1) [OF I] by blast
  then have "Cancel (cells (slab m)) x ?q = Some (None, ?q)" by (simp add: Cancel_def)
  then have "cancel fm x m = Inr ?m" by (simp add: cancel_def Let_def sid)
  moreover have "book_of t ?m = book_of t m" for t
    by (simp add: book_of_def getMatchQueues_def abs_sides)
  ultimately show ?thesis using M_inv_free_incoming [OF H] by (intro exI [of _ ?m]) auto
qed

text \<open>With several orders of one id, a cancellation takes exactly one of them.\<close>

lemma cancel_one:
  assumes H: "H_inv x m fl" and sid: "stockId (cells (slab m) x) = sid"
    and some: "guid (cells (slab m) x) \<in> set (ids (book_of sid m))"
  shows "\<exists>m' fl' n. cancel fm x m = Inr m' \<and> M_inv m' fl' \<and>
    n \<in> mq_addrs (getMatchQueues sid m) \<and> guid (cells (slab m) n) = guid (cells (slab m) x) \<and>
    Out m' = Out m @ [completeCancelled fm (cells (slab m) n)] \<and>
    bids (book_of sid m') = map (order_val \<circ> cells (slab m)) (filter (\<lambda>a. a \<noteq> n) (bid_list (getMatchQueues sid m))) \<and>
    asks (book_of sid m') = map (order_val \<circ> cells (slab m)) (filter (\<lambda>a. a \<noteq> n) (ask_list (getMatchQueues sid m))) \<and>
    (\<forall>t. t \<noteq> sid \<longrightarrow> book_of t m' = book_of t m)"
proof -
  let ?q = "getMatchQueues sid m" and ?g = "guid (cells (slab m) x)"
  have I: "mq_inv (cells (slab m)) ?q" using H by (simp add: H_inv_def)
  have "\<exists>a \<in> mq_addrs ?q. guid (cells (slab m) a) = ?g"
    using some unfolding set_ids by (metis imageE)
  then obtain n where n: "rbtree_get ?g (orders ?q) = Some n" "n \<in> mq_addrs ?q" "guid (cells (slab m) n) = ?g"
    using get_order [OF I, of ?g] by (metis option.exhaust)
  let ?sl = "Free x (Free n (slab m))" and ?out = "Out m @ [completeCancelled fm (cells (slab m) n)]"
  obtain q1 where q1: "Remove n ?q = Some q1" "mq_inv (cells (slab m)) q1"
      "bid_list q1 = filter (\<lambda>b. b \<noteq> n) (bid_list ?q)" "ask_list q1 = filter (\<lambda>b. b \<noteq> n) (ask_list ?q)"
    by (rule Remove_sides [OF I, of n])
  let ?q1 = "q1\<lparr>mq_size := mq_size ?q - 1\<rparr>"
  let ?m = "m\<lparr>matchQueues := (matchQueues m)(sid \<mapsto> ?q1), slab := ?sl, Out := ?out\<rparr>"
  have eq: "cancel fm x m = Inr ?m"
    using Cancel_Remove [of "cells (slab m)" x ?q, OF n(1) q1(1)] by (simp add: cancel_def Let_def sid)
  have q1': "mq_inv (cells ?sl) ?q1" "mq_addrs ?q1 = mq_addrs q1 \<union> (if None = None then {} else {x})"
    using mq_inv_fixed [OF q1(2), of "cells ?sl"] by simp_all
  have "M_inv ?m (x # n # fl) \<and> (\<forall>t. t \<noteq> sid \<longrightarrow> book_of t ?m = book_of t m)"
  proof (cases "n \<in> set (ask_list ?q)")
    case True
    from ask.pair_freed [OF H_loop [OF H] this] q1(1) ask.handler_done [OF H sid _ q1' refl]
    show ?thesis by auto
  next
    case False
    then have "n \<in> set (bid_list ?q)" using n(2) by (simp add: mq_addrs_sides)
    from bid.pair_freed [OF H_loop [OF H] this] q1(1) bid.handler_done [OF H sid _ q1' refl]
    show ?thesis by auto
  qed
  moreover have "bids (book_of sid ?m) = map (order_val \<circ> cells (slab m)) (filter (\<lambda>a. a \<noteq> n) (bid_list ?q))"
    "asks (book_of sid ?m) = map (order_val \<circ> cells (slab m)) (filter (\<lambda>a. a \<noteq> n) (ask_list ?q))"
    using q1(3,4) by (simp_all add: book_of_def abs_bids_def abs_asks_def bid_list_def ask_list_def)
  ultimately show ?thesis using eq n by (intro exI [of _ ?m] exI [of _ "x # n # fl"] exI [of _ n]) simp
qed

lemma cancel_refines:
  assumes H: "H_inv x m fl" and sid: "stockId (cells (slab m) x) = sid"
    and unique: "distinct (ids (book_of sid m))"
    and spec: "spec_cancel fm (order_val (cells (slab m) x)) (book_of sid m) = (msgs, bk)"
  shows "\<exists>m' fl'. cancel fm x m = Inr m' \<and> M_inv m' fl' \<and> Out m' = Out m @ msgs \<and> book_of sid m' = bk \<and>
    (\<forall>t. t \<noteq> sid \<longrightarrow> book_of t m' = book_of t m)"
proof (cases "guid (cells (slab m) x) \<in> set (ids (book_of sid m))")
  case False
  then have "find (\<lambda>r. guid r = guid (cells (slab m) x)) (bids (book_of sid m) @ asks (book_of sid m)) = None"
    by (simp add: find_None_iff ids_def) (metis image_eqI)
  with cancel_none [OF H sid False, of fm] spec show ?thesis by (auto simp: spec_cancel_def)
next
  case True
  let ?c = "cells (slab m)" and ?q = "getMatchQueues sid m"
  from cancel_one [OF H sid True, of fm] obtain m' fl' n where n: "cancel fm x m = Inr m'" "M_inv m' fl'"
    "n \<in> mq_addrs ?q" "guid (?c n) = guid (?c x)" "Out m' = Out m @ [completeCancelled fm (?c n)]"
    "bids (book_of sid m') = map (order_val \<circ> ?c) (filter (\<lambda>a. a \<noteq> n) (bid_list ?q))"
    "asks (book_of sid m') = map (order_val \<circ> ?c) (filter (\<lambda>a. a \<noteq> n) (ask_list ?q))"
    "\<forall>t. t \<noteq> sid \<longrightarrow> book_of t m' = book_of t m" by blast
  have inj: "inj_on (guid \<circ> ?c) (mq_addrs ?q)"
    using unique by (simp add: ids_def book_of_def abs_sides comp_def distinct_map mq_addrs_sides image_Un flip: map_append)
  then have eq: "a = n \<longleftrightarrow> guid (?c a) = guid (?c x)" if "a \<in> mq_addrs ?q" for a
    using that n(3,4) by (auto simp: inj_on_def)
  have "filter (\<lambda>a. a \<noteq> n) xs = filter (\<lambda>a. guid (?c a) \<noteq> guid (?c x)) xs" if "set xs \<subseteq> mq_addrs ?q" for xs
    using that eq by (intro filter_cong) auto
  then have bk: "bids (book_of sid m') = filter (\<lambda>r. guid r \<noteq> guid (?c x)) (bids (book_of sid m))"
    "asks (book_of sid m') = filter (\<lambda>r. guid r \<noteq> guid (?c x)) (asks (book_of sid m))"
    using n(6,7) by (simp_all add: book_of_def abs_sides mq_addrs_sides filter_map comp_def)
  have "find (\<lambda>r. guid r = guid (?c x)) (map (order_val \<circ> ?c) xs) = Some (order_val (?c n))"
    if "set xs \<subseteq> mq_addrs ?q" "n \<in> set xs" for xs
    using that eq by (induction xs) (auto simp: n(4))
  from this [of "bid_list ?q @ ask_list ?q"] n(3)
  have "find (\<lambda>r. guid r = guid (?c x)) (bids (book_of sid m) @ asks (book_of sid m)) = Some (order_val (?c n))"
    by (simp add: book_of_def abs_sides mq_addrs_sides)
  then show ?thesis using n bk spec by (intro exI [of _ m'] exI [of _ fl']) (auto simp: spec_cancel_def)
qed

section \<open>Submit and Run\<close>

text \<open>
  What the engine does to the books of all stocks. \<open>None\<close>: the message is not one the engine accepts
  (it panics), or a cancellation for a stock that has several orders with the same id.
\<close>

definition spec_submit :: "fmath \<Rightarrow> Message \<Rightarrow> (u64 \<Rightarrow> book) \<Rightarrow> (Message list \<times> (u64 \<Rightarrow> book)) option" where
  "spec_submit fm o' bks =
     (let c = order_of fm o'; sid = StockId o';
          upd = (\<lambda>(msgs, bk). Some (msgs, bks(sid := bk)))
      in if Kind o' = BUY then
           (if Price o' = MARKET_PRICE then None else upd (spec_buy fm c (bks sid)))
         else if Kind o' = SELL then upd (spec_sell fm c (bks sid))
         else if Kind o' = CANCEL then
           (if distinct (ids (bks sid)) then upd (spec_cancel fm c (bks sid)) else None)
         else None)"

fun spec_run_msgs :: "fmath \<Rightarrow> Message list \<Rightarrow> (u64 \<Rightarrow> book) \<Rightarrow> (Message list \<times> (u64 \<Rightarrow> book)) option" where
  "spec_run_msgs fm [] bks = Some ([], bks)"
| "spec_run_msgs fm (o' # os) bks =
     (if Kind o' = SHUTDOWN then Some ([o'], bks)
      else do {
        (msgs, bks) \<leftarrow> spec_submit fm o' bks;
        (msgs', bks) \<leftarrow> spec_run_msgs fm os bks;
        Some (msgs @ msgs', bks) })"

definition books :: "M \<Rightarrow> u64 \<Rightarrow> book" where
  "books m sid = book_of sid m"

lemma order_val_fields:
  assumes "order_val c = order_of fm o'"
  shows "kind c = Kind o'" "price c = Price o'" "stockId c = StockId o'" "amount c = Amount o'"
    "guid c = CombineInt32 fm (TraderId o') (TradeId o')"
  using arg_cong [OF assms, of kind] arg_cong [OF assms, of price] arg_cong [OF assms, of stockId]
    arg_cong [OF assms, of amount] arg_cong [OF assms, of guid]
  by (simp_all add: order_val_def order_of_def CopyFrom_def)

lemma Submit_step:
  assumes I: "M_inv m fl" and spec: "spec_submit fm o' (books m) = Some (msgs, bks)"
  shows "\<exists>m' fl'. Submit fm o' m = Inr m' \<and> M_inv m' fl' \<and> Out m' = Out m @ msgs \<and> books m' = bks"
proof -
  obtain x s fl0 where x: "Malloc (slab m) = (x, s)" "H_inv x (m\<lparr>slab := updCell x (CopyFrom fm o') s\<rparr>) fl0"
    "order_val (cells (updCell x (CopyFrom fm o') s) x) = order_of fm o'"
    "\<And>sid. book_of sid (m\<lparr>slab := updCell x (CopyFrom fm o') s\<rparr>) = book_of sid m"
    by (rule Submit_allocates [OF I, of fm o']) blast
  let ?m = "m\<lparr>slab := updCell x (CopyFrom fm o') s\<rparr>"
  note f = order_val_fields [OF x(3)]
  have ov: "order_val (cells (slab ?m) x) = order_of fm o'" and bo: "\<And>sid. book_of sid ?m = books m sid"
    using x(3,4) by (simp_all add: books_def)
  have fin: "\<exists>m' fl'. h = Inr m' \<and> M_inv m' fl' \<and> Out m' = Out m @ msgs \<and> books m' = bks"
    if "\<exists>m' fl'. h = Inr m' \<and> M_inv m' fl' \<and> Out m' = Out ?m @ msgs \<and> book_of (StockId o') m' = bk \<and>
      (\<forall>t. t \<noteq> StockId o' \<longrightarrow> book_of t m' = book_of t ?m)" "bks = (books m)(StockId o' := bk)" for h bk
    using that by (fastforce simp: bo fun_eq_iff books_def)
  have st: "stockId (cells (slab ?m) x) = StockId o'" "price (cells (slab ?m) x) = Price o'" "kind (cells (slab ?m) x) = Kind o'"
    using f by simp_all
  have sub: "Submit fm o' m = (if Kind o' = BUY then addBuy fm x ?m else if Kind o' = SELL then addSell fm x ?m
      else if Kind o' = CANCEL then cancel fm x ?m else Inl (Panic ''MsgKind not supported''))"
    using st(3) by (simp add: Submit_def x(1) Let_def del: cells_updCell)
  consider (buy) "Kind o' = BUY" "Price o' \<noteq> MARKET_PRICE" | (sell) "Kind o' = SELL" "Kind o' \<noteq> BUY"
    | (canc) "Kind o' = CANCEL" "Kind o' \<noteq> BUY" "Kind o' \<noteq> SELL" "distinct (ids (books m (StockId o')))"
    using spec by (auto simp: spec_submit_def Let_def split: if_splits)
  then show ?thesis
  proof cases
    case buy
    then obtain bk where "spec_buy fm (order_of fm o') (books m (StockId o')) = (msgs, bk)" "bks = (books m)(StockId o' := bk)"
      using spec by (auto simp: spec_submit_def Let_def split: prod.splits)
    from fin [OF addBuy_refines [OF x(2) _ st(1)] this(2)] this(1) buy st(2) ov bo show ?thesis
      by (simp add: sub del: cells_updCell)
  next
    case sell
    then obtain bk where "spec_sell fm (order_of fm o') (books m (StockId o')) = (msgs, bk)" "bks = (books m)(StockId o' := bk)"
      using spec by (auto simp: spec_submit_def Let_def split: prod.splits)
    from fin [OF addSell_refines [OF x(2) st(1)] this(2)] this(1) sell ov bo show ?thesis
      by (simp add: sub del: cells_updCell)
  next
    case canc
    then obtain bk where "spec_cancel fm (order_of fm o') (books m (StockId o')) = (msgs, bk)" "bks = (books m)(StockId o' := bk)"
      using spec by (auto simp: spec_submit_def Let_def split: prod.splits if_splits)
    from fin [OF cancel_refines [OF x(2) st(1)] this(2)] this(1) canc ov bo show ?thesis
      by (simp add: sub del: cells_updCell)
  qed
qed

lemma Run_step:
  assumes "M_inv m fl" "spec_run_msgs fm os (books m) = Some (msgs, bks)"
  shows "\<exists>m' fl'. Run fm os m = Inr m' \<and> M_inv m' fl' \<and> Out m' = Out m @ msgs \<and> books m' = bks"
  using assms
proof (induction os arbitrary: m fl msgs)
  case (Cons o' os)
  show ?case
  proof (cases "Kind o' = SHUTDOWN")
    case True
    have "M_inv (m\<lparr>Out := Out m @ [o']\<rparr>) fl" "books (m\<lparr>Out := Out m @ [o']\<rparr>) = books m"
      using Cons.prems(1) by (simp_all add: M_inv_def books_def book_of_def fun_eq_iff)
    then show ?thesis using Cons.prems True by auto
  next
    case False
    then obtain m1 b1 m2 where s: "spec_submit fm o' (books m) = Some (m1, b1)"
      "spec_run_msgs fm os b1 = Some (m2, bks)" "msgs = m1 @ m2"
      using Cons.prems(2) by (auto split: bind_splits)
    obtain m' fl' where m': "Submit fm o' m = Inr m'" "M_inv m' fl'" "Out m' = Out m @ m1" "books m' = b1"
      using Submit_step [OF Cons.prems(1) s(1)] by blast
    from Cons.IH [OF m'(2), of m2] s(2) m' s(3) False show ?thesis by auto
  qed
qed auto

section \<open>A new engine\<close>

lemma NewSlab_chain:
  assumes "j \<le> n"
  shows "fold (\<lambda>i c. c(i - 1 := (c (i - 1))\<lparr>nextFree := Some i\<rparr>)) [1..<n] (\<lambda>_. zeroOrder) i =
    (if Suc i < n then zeroOrder\<lparr>nextFree := Some (Suc i)\<rparr> else zeroOrder)"
  by (induction n) (auto simp: zeroOrder_def)

lemma free_chain_upt:
  assumes "\<And>i. i < n \<Longrightarrow> nextFree (c i) = (if Suc i < n then Some (Suc i) else None)" "j \<le> n"
  shows "free_chain c (if j < n then Some j else None) [j..<n]"
  using assms(2)
proof (induction "n - j" arbitrary: j)
  case (Suc k)
  then have j: "j < n" by simp
  with Suc.hyps(1) [of "Suc j"] Suc.hyps(2) assms(1) [OF j] show ?case
    by (simp add: upt_conv_Cons)
qed simp

lemma NewSlab_correct:
  assumes "0 < sz"
  obtains s where "NewSlab sz = Inr s" "slab_inv s [0..<nat sz]" "live s [0..<nat sz] = {}"
proof -
  let ?c = "fold (\<lambda>i c. c(i - 1 := (c (i - 1))\<lparr>nextFree := Some i\<rparr>)) [1..<nat sz] (\<lambda>_. zeroOrder)"
  have "nextFree (?c i) = (if Suc i < nat sz then Some (Suc i) else None)" for i
    by (subst NewSlab_chain [OF order_refl]) (simp add: zeroOrder_def)
  then have "free_chain ?c (if 0 < nat sz then Some 0 else None) [0..<nat sz]" by (intro free_chain_upt) auto
  then show thesis using assms by (intro that [of "\<lparr>cells = ?c, fresh = nat sz, free = Some 0\<rparr>"]) (auto simp: NewSlab_def slab_inv_def live_def)
qed

lemma NewMatcher_correct:
  assumes "0 < sz"
  obtains m where "NewMatcher sz = Inr m" "M_inv m [0..<nat sz]" "Out m = []" "books m = (\<lambda>_. \<lparr>bids = [], asks = []\<rparr>)"
proof -
  obtain s where "NewSlab sz = Inr s" "slab_inv s [0..<nat sz]" "live s [0..<nat sz] = {}"
    by (rule NewSlab_correct [OF assms])
  moreover have "abs_bids st emptyMatchQueues = []" "abs_asks st emptyMatchQueues = []" for st
    by (simp_all add: abs_bids_def abs_asks_def emptyMatchQueues_def bid_order_def)
  ultimately show thesis
    by (intro that [of "\<lparr>matchQueues = Map.empty, slab = s, Out = []\<rparr>"])
       (auto simp: NewMatcher_def M_inv_def getMatchQueues_def books_def book_of_def fun_eq_iff)
qed

end
