(* ===== verification/Matcher_Props.thy ===== *)
theory Matcher_Props
  imports Matcher_Refine
begin

text \<open>
  What the specification of the matching engine guarantees (accepted prices, conserved volume, books
  that are sorted and not crossed), and the properties of the engine that follow from the refinement.
\<close>

section \<open>The trade price\<close>

lemma unat_lt2p_64: "unat (w :: u64) < 2 ^ 64"
  using unsigned_less [of w] by simp

lemma trade_price_le:
  assumes "s \<le> b"
  shows "s \<le> trade_price b s" "trade_price b s \<le> b"
proof -
  have s: "unat s \<le> unat b" using assms by (simp add: word_le_nat_alt)
  then have d: "unat (b - s) = unat b - unat s" by (simp add: unat_sub assms)
  have "unat (s + (b - s) div 2) = unat s + (unat b - unat s) div 2"
  proof -
    have "unat s + unat ((b - s) div 2) < 2 ^ LENGTH(64)"
      using s d unat_lt2p_64 [of b] by (simp add: unat_div)
    then show ?thesis by (simp add: unat_add_lem [THEN iffD1] unat_div d)
  qed
  with s assms show "s \<le> trade_price b s" "trade_price b s \<le> b"
    by (auto simp: trade_price_def Let_def word_le_nat_alt)
qed

lemma trade_price_mid:
  assumes "s \<le> b" "s \<noteq> MARKET_PRICE"
  shows "uint (trade_price b s) = (uint b + uint s) div 2"
proof -
  have s: "uint s \<le> uint b" using assms(1) by (simp add: word_le_def)
  then have d: "uint (b - s) = uint b - uint s" using assms(1) by (simp add: uint_minus_simple_alt)
  have "uint s + uint ((b - s) div 2) < 2 ^ LENGTH(64)"
    using s d uint_lt2p [of b] by (simp add: uint_div)
  then have "uint (s + (b - s) div 2) = uint s + (uint b - uint s) div 2"
    by (simp add: uint_add_lem [THEN iffD1] uint_div d)
  then show ?thesis using assms(2) s by (simp add: trade_price_def Let_def)
qed

section \<open>What a match keeps\<close>

definition vol :: "OrderNode list \<Rightarrow> nat" where
  "vol os = sum_list (map (unat \<circ> amount) os)"

definition traded :: "Message list \<Rightarrow> nat" where
  "traded ms = sum_list (map (unat \<circ> Amount) ms)"

lemma vol_simps [simp]: "vol [] = 0" "vol (x # xs) = unat (amount x) + vol xs" "vol (xs @ ys) = vol xs + vol ys"
  by (simp_all add: vol_def)

lemma traded_simps [simp]:
  "traded [] = 0" "traded (xs @ ys) = traded xs + traded ys" "traded (trade fm k l b s n) = 2 * unat n"
  by (simp_all add: traded_def trade_def completeTrade_def)

lemma ReduceAmount_sel [simp]:
  "price (ReduceAmount n c) = price c" "guid (ReduceAmount n c) = guid c" "stockId (ReduceAmount n c) = stockId c"
  "kind (ReduceAmount n c) = kind c"
  by (simp_all add: ReduceAmount_def)

lemma unat_ReduceAmount: "n \<le> amount c \<Longrightarrow> unat (amount (ReduceAmount n c)) = unat (amount c) - unat n"
  by (simp add: ReduceAmount_def unat_sub)

text \<open>Induction over a match: one case per way a round can go.\<close>

lemma match_buy_induct [consumes 1, case_names Nil apart rest inc both]:
  assumes "match_buy fm b ss = (out, rb, ss')"
    and "\<And>b. P b [] [] (Some b) []"
    and "\<And>b s ss. price b < price s \<Longrightarrow> P b (s # ss) [] (Some b) (s # ss)"
    and "\<And>b s ss out rb ss'. price s \<le> price b \<Longrightarrow> amount s < amount b \<Longrightarrow>
      P (ReduceAmount (amount s) b) ss out rb ss' \<Longrightarrow>
      P b (s # ss) (trade fm PARTIAL FULL b s (amount s) @ out) rb ss'"
    and "\<And>b s ss. price s \<le> price b \<Longrightarrow> amount b < amount s \<Longrightarrow>
      P b (s # ss) (trade fm FULL PARTIAL b s (amount b)) None (ReduceAmount (amount b) s # ss)"
    and "\<And>b s ss. price s \<le> price b \<Longrightarrow> amount b = amount s \<Longrightarrow>
      P b (s # ss) (trade fm FULL FULL b s (amount b)) None ss"
  shows "P b ss out rb ss'"
  using assms(1)
proof (induction ss arbitrary: b out)
  case (Cons s ss)
  show ?case
  proof (cases rule: match_cases [of b s])
    case rest
    with Cons.prems obtain o2 where "match_buy fm (ReduceAmount (amount s) b) ss = (o2, rb, ss')"
        "out = trade fm PARTIAL FULL b s (amount s) @ o2"
      by (auto split: prod.splits)
    with Cons.IH rest assms(4) show ?thesis by blast
  qed (use Cons.prems assms(3,5,6) in auto)
qed (use assms(2) in auto)

lemma match_sell_induct [consumes 1, case_names Nil apart inc rest both]:
  assumes "match_sell fm s bs = (out, rs, bs')"
    and "\<And>s. P s [] [] (Some s) []"
    and "\<And>b s bs. price b < price s \<Longrightarrow> P s (b # bs) [] (Some s) (b # bs)"
    and "\<And>b s bs. price s \<le> price b \<Longrightarrow> amount s < amount b \<Longrightarrow>
      P s (b # bs) (trade fm PARTIAL FULL b s (amount s)) None (ReduceAmount (amount s) b # bs)"
    and "\<And>b s bs out rs bs'. price s \<le> price b \<Longrightarrow> amount b < amount s \<Longrightarrow>
      P (ReduceAmount (amount b) s) bs out rs bs' \<Longrightarrow>
      P s (b # bs) (trade fm FULL PARTIAL b s (amount b) @ out) rs bs'"
    and "\<And>b s bs. price s \<le> price b \<Longrightarrow> amount b = amount s \<Longrightarrow>
      P s (b # bs) (trade fm FULL FULL b s (amount b)) None bs"
  shows "P s bs out rs bs'"
  using assms(1)
proof (induction bs arbitrary: s out)
  case (Cons b bs)
  show ?case
  proof (cases rule: match_cases [of b s])
    case inc
    with Cons.prems obtain o2 where "match_sell fm (ReduceAmount (amount b) s) bs = (o2, rs, bs')"
        "out = trade fm FULL PARTIAL b s (amount b) @ o2"
      by (auto split: prod.splits)
    with Cons.IH inc assms(5) show ?thesis by blast
  qed (use Cons.prems assms(3,4,6) in auto)
qed (use assms(2) in auto)

lemma match_buy_volume:
  "match_buy fm b ss = (out, rb, ss') \<Longrightarrow> traded out + 2 * vol ss' = 2 * vol ss \<and>
     traded out + 2 * vol (case rb of None \<Rightarrow> [] | Some b' \<Rightarrow> [b']) = 2 * unat (amount b)"
  by (induction rule: match_buy_induct) (auto simp: unat_ReduceAmount word_less_nat_alt word_le_nat_alt)

lemma match_sell_volume:
  "match_sell fm s bs = (out, rs, bs') \<Longrightarrow> traded out + 2 * vol bs' = 2 * vol bs \<and>
     traded out + 2 * vol (case rs of None \<Rightarrow> [] | Some s' \<Rightarrow> [s']) = 2 * unat (amount s)"
  by (induction rule: match_sell_induct) (auto simp: unat_ReduceAmount word_less_nat_alt word_le_nat_alt)

text \<open>The orders that are left are a suffix of the queue, the first of them perhaps with a smaller amount.\<close>

lemma drop_Suc_exI: "\<exists>k. ys = drop k xs \<Longrightarrow> \<exists>k. ys = drop k (x # xs)"
  by (metis drop_Suc_Cons)

lemma match_buy_suffix:
  "match_buy fm b ss = (out, rb, ss') \<Longrightarrow> \<exists>k. map fixed ss' = drop k (map fixed ss)"
  by (induction rule: match_buy_induct) (auto intro: exI [of _ 0] drop_Suc_exI [OF exI [of _ 0]] drop_Suc_exI)

lemma match_sell_suffix:
  "match_sell fm s bs = (out, rs, bs') \<Longrightarrow> \<exists>k. map fixed bs' = drop k (map fixed bs)"
  by (induction rule: match_sell_induct) (auto intro: exI [of _ 0] drop_Suc_exI [OF exI [of _ 0]] drop_Suc_exI)

text \<open>What is left of the incoming order does not cross the best order that is left.\<close>

lemma match_buy_rest:
  "match_buy fm b ss = (out, rb, ss') \<Longrightarrow> rb = Some b' \<Longrightarrow>
     fixed b' = fixed b \<and> (case ss' of [] \<Rightarrow> True | s # _ \<Rightarrow> price b < price s)"
  by (induction rule: match_buy_induct) (auto split: list.splits)

lemma match_sell_rest:
  "match_sell fm s bs = (out, rs, bs') \<Longrightarrow> rs = Some s' \<Longrightarrow>
     fixed s' = fixed s \<and> (case bs' of [] \<Rightarrow> True | b # _ \<Rightarrow> price b < price s)"
  by (induction rule: match_sell_induct) (auto split: list.splits)

text \<open>Every trade is at a price that both sides accept.\<close>

lemma trade_reduced [simp]:
  "trade fm k l (ReduceAmount n b) s m = trade fm k l b s m" "trade fm k l b (ReduceAmount n s) m = trade fm k l b s m"
  by (simp_all add: trade_def completeTrade_def order_TraderId_def order_TradeId_def)

lemma trade_limits: "x \<in> set (trade fm k l b s n) \<Longrightarrow> price s \<le> price b \<Longrightarrow> price s \<le> Price x \<and> Price x \<le> price b"
  using trade_price_le [of "price s" "price b"] by (auto simp: trade_def completeTrade_def)

lemma match_buy_limits:
  "match_buy fm b ss = (out, rb, ss') \<Longrightarrow> x \<in> set out \<Longrightarrow>
     \<exists>s \<in> set ss. \<exists>k l n. x \<in> set (trade fm k l b s n) \<and> price s \<le> Price x \<and> Price x \<le> price b"
  by (induction rule: match_buy_induct) (auto dest: trade_limits)

lemma match_sell_limits:
  "match_sell fm s bs = (out, rs, bs') \<Longrightarrow> x \<in> set out \<Longrightarrow>
     \<exists>b \<in> set bs. \<exists>k l n. x \<in> set (trade fm k l b s n) \<and> price s \<le> Price x \<and> Price x \<le> price b"
  by (induction rule: match_sell_induct) (auto dest: trade_limits)

section \<open>Books in order, and not crossed\<close>

definition good_book :: "book \<Rightarrow> bool" where
  "good_book bk \<longleftrightarrow> sorted_wrt (\<lambda>x y. price y \<le> price x) (bids bk) \<and> sorted_wrt (\<lambda>x y. price x \<le> price y) (asks bk) \<and>
     (\<forall>b \<in> set (bids bk). \<forall>s \<in> set (asks bk). price b < price s)"

lemma price_fixed: "price = fst \<circ> fixed"
  by (simp add: fixed_def fun_eq_iff)

lemma suffix_prices:
  assumes "map fixed xs = drop k (map fixed ys)"
  shows "map price xs = drop k (map price ys)" "price ` set xs \<subseteq> price ` set ys"
proof -
  have "map fst (map fixed xs) = map fst (drop k (map fixed ys))" using assms by simp
  then show m: "map price xs = drop k (map price ys)" by (simp add: drop_map price_fixed)
  show "price ` set xs \<subseteq> price ` set ys"
    using set_drop_subset [of k "map price ys"] unfolding m [symmetric] by simp
qed

lemma sorted_wrt_price: "sorted_wrt (\<lambda>x y. R (price x) (price y)) os = sorted_wrt R (map price os)"
  by (simp add: sorted_wrt_map)

lemma suffix_sorted:
  assumes "map fixed xs = drop k (map fixed ys)" "sorted_wrt (\<lambda>x y. R (price x) (price y)) ys"
  shows "sorted_wrt (\<lambda>x y. R (price x) (price y)) xs"
  using assms unfolding sorted_wrt_price suffix_prices(1) [OF assms(1)] by (rule_tac sorted_wrt_drop)

lemma rest_sorted:
  "sorted_wrt (\<lambda>x y. price x \<le> price y) ss \<Longrightarrow> sorted_wrt (\<lambda>x y. price x \<le> price y) (rest_ask s ss)"
  "sorted_wrt (\<lambda>x y. price y \<le> price x) bs \<Longrightarrow> sorted_wrt (\<lambda>x y. price y \<le> price x) (rest_bid b bs)"
proof -
  show "sorted_wrt (\<lambda>x y. price x \<le> price y) ss \<Longrightarrow> sorted_wrt (\<lambda>x y. price x \<le> price y) (rest_ask s ss)"
    unfolding rest_ask_def by (induction ss) (auto dest: set_takeWhileD set_dropWhileD)
  show "sorted_wrt (\<lambda>x y. price y \<le> price x) bs \<Longrightarrow> sorted_wrt (\<lambda>x y. price y \<le> price x) (rest_bid b bs)"
    unfolding rest_bid_def by (induction bs) (auto dest: set_takeWhileD set_dropWhileD)
qed

lemma set_rest [simp]: "set (rest_ask s ss) = insert s (set ss)" "set (rest_bid b bs) = insert b (set bs)"
proof -
  have "set (takeWhile P xs) \<union> set (dropWhile P xs) = set xs" for P and xs :: "OrderNode list"
    by (metis set_append takeWhile_dropWhile_id)
  then show "set (rest_ask s ss) = insert s (set ss)" "set (rest_bid b bs) = insert b (set bs)"
    unfolding rest_ask_def rest_bid_def by auto
qed


lemma spec_buy_good:
  assumes "good_book bk" "spec_buy fm b bk = (out, bk')"
  shows "good_book bk'"
proof -
  obtain rb ss where m: "match_buy fm b (asks bk) = (out, rb, ss)"
    and bk': "bk' = bk\<lparr>asks := ss, bids := (case rb of None \<Rightarrow> bids bk | Some b' \<Rightarrow> rest_bid b' (bids bk))\<rparr>"
    using assms(2) by (auto simp: spec_buy_def split: prod.splits)
  obtain k where k: "map fixed ss = drop k (map fixed (asks bk))" using match_buy_suffix [OF m] by blast
  have sub: "price ` set ss \<subseteq> price ` set (asks bk)" using suffix_prices(2) [OF k] .
  have srt: "sorted_wrt (\<lambda>x y. price x \<le> price y) ss"
    using suffix_sorted [OF k, of "(\<le>)"] assms(1) by (simp add: good_book_def)
  have "price x < price s" if "x \<in> set (bids bk)" "s \<in> set ss" for x s
    using that sub assms(1) by (fastforce simp: good_book_def)
  moreover have "price b' < price s" if "rb = Some b'" "s \<in> set ss" for b' s
  proof -
    have "price b' = price b" "case ss of [] \<Rightarrow> True | s # _ \<Rightarrow> price b < price s"
      using match_buy_rest [OF m that(1)] by (auto simp: fixed_def)
    then show ?thesis using that(2) srt by (cases ss) auto
  qed
  ultimately show ?thesis using assms(1) srt rest_sorted(2) [of "bids bk"]
    by (auto simp: good_book_def bk' split: option.splits)
qed

lemma spec_sell_good:
  assumes "good_book bk" "spec_sell fm s bk = (out, bk')"
  shows "good_book bk'"
proof -
  obtain rs bs where m: "match_sell fm s (bids bk) = (out, rs, bs)"
    and bk': "bk' = bk\<lparr>bids := bs, asks := (case rs of None \<Rightarrow> asks bk | Some s' \<Rightarrow> rest_ask s' (asks bk))\<rparr>"
    using assms(2) by (auto simp: spec_sell_def split: prod.splits)
  obtain k where k: "map fixed bs = drop k (map fixed (bids bk))" using match_sell_suffix [OF m] by blast
  have sub: "price ` set bs \<subseteq> price ` set (bids bk)" using suffix_prices(2) [OF k] .
  have srt: "sorted_wrt (\<lambda>x y. price y \<le> price x) bs"
    using suffix_sorted [OF k, of "(\<ge>)"] assms(1) by (simp add: good_book_def)
  have "price b < price x" if "x \<in> set (asks bk)" "b \<in> set bs" for x b
    using that sub assms(1) by (fastforce simp: good_book_def)
  moreover have "price b < price s'" if "rs = Some s'" "b \<in> set bs" for s' b
  proof -
    have "price s' = price s" "case bs of [] \<Rightarrow> True | b # _ \<Rightarrow> price b < price s"
      using match_sell_rest [OF m that(1)] by (auto simp: fixed_def)
    then show ?thesis using that(2) srt by (cases bs) auto
  qed
  ultimately show ?thesis using assms(1) srt rest_sorted(1) [of "asks bk"]
    by (auto simp: good_book_def bk' split: option.splits)
qed

lemma spec_cancel_good:
  assumes "good_book bk" "spec_cancel fm c bk = (out, bk')"
  shows "good_book bk'"
  using assms by (auto simp: spec_cancel_def good_book_def sorted_wrt_filter split: option.splits)

lemma spec_submit_good:
  assumes "\<And>sid. good_book (bks sid)" "spec_submit fm o' bks = Some (out, bks')"
  shows "good_book (bks' sid)"
  using assms spec_buy_good [OF assms(1)] spec_sell_good [OF assms(1)] spec_cancel_good [OF assms(1)]
  by (auto simp: spec_submit_def Let_def split: if_splits prod.splits)

lemma spec_run_good:
  assumes "\<And>sid. good_book (bks sid)" "spec_run_msgs fm os bks = Some (out, bks')"
  shows "good_book (bks' sid)"
  using assms
proof (induction os arbitrary: bks out)
  case (Cons o' os)
  show ?case
  proof (cases "Kind o' = SHUTDOWN")
    case False
    then obtain m1 b1 m2 where s: "spec_submit fm o' bks = Some (m1, b1)" "spec_run_msgs fm os b1 = Some (m2, bks')"
      using Cons.prems(2) by (auto split: bind_splits)
    have "good_book (b1 t)" for t by (rule spec_submit_good [OF Cons.prems(1) s(1)])
    from Cons.IH [OF this s(2)] show ?thesis .
  qed (use Cons.prems in auto)
qed auto

section \<open>Properties of the engine\<close>

lemma Submit_handlers:
  assumes "M_inv m fl"
  obtains x m1 fl1 where "H_inv x m1 fl1" "Out m1 = Out m" "\<And>sid. book_of sid m1 = book_of sid m"
    "order_val (cells (slab m1) x) = order_of fm o'"
    "Submit fm o' m = (if Kind o' = BUY then addBuy fm x m1 else if Kind o' = SELL then addSell fm x m1
      else if Kind o' = CANCEL then cancel fm x m1 else Inl (Panic ''MsgKind not supported''))"
proof -
  obtain x s fl1 where x: "Malloc (slab m) = (x, s)" "H_inv x (m\<lparr>slab := updCell x (CopyFrom fm o') s\<rparr>) fl1"
    "order_val (cells (updCell x (CopyFrom fm o') s) x) = order_of fm o'"
    "\<And>sid. book_of sid (m\<lparr>slab := updCell x (CopyFrom fm o') s\<rparr>) = book_of sid m"
    by (rule Submit_allocates [OF assms, of fm o']) blast
  show thesis
    by (rule that [OF x(2)]) (use x(3,4) order_val_fields(1) [OF x(3)] in
      \<open>simp_all add: Submit_def x(1) Let_def del: cells_updCell\<close>)
qed

lemma Submit_buy_spec:
  assumes "M_inv m fl" "Kind o' = BUY" "Submit fm o' m = Inr m'"
  shows "\<exists>msgs. Out m' = Out m @ msgs \<and>
    spec_buy fm (order_of fm o') (book_of (StockId o') m) = (msgs, book_of (StockId o') m')"
proof -
  obtain x m1 fl1 where x: "H_inv x m1 fl1" "Out m1 = Out m" "\<And>sid. book_of sid m1 = book_of sid m"
    "order_val (cells (slab m1) x) = order_of fm o'" "Submit fm o' m = addBuy fm x m1"
    by (rule Submit_handlers [OF assms(1), of fm o']) (use assms(2) in \<open>simp add: MsgKind_defs\<close>)
  note f = order_val_fields [OF x(4)]
  have "price (cells (slab m1) x) \<noteq> MARKET_PRICE"
    using assms(3) x(5) by (auto simp: addBuy_def)
  from addBuy_refines [OF x(1) this f(3) prod.collapse [symmetric], of fm] assms(3) x show ?thesis by auto
qed

lemma Submit_sell_spec:
  assumes "M_inv m fl" "Kind o' = SELL" "Submit fm o' m = Inr m'"
  shows "\<exists>msgs. Out m' = Out m @ msgs \<and>
    spec_sell fm (order_of fm o') (book_of (StockId o') m) = (msgs, book_of (StockId o') m')"
proof -
  obtain x m1 fl1 where x: "H_inv x m1 fl1" "Out m1 = Out m" "\<And>sid. book_of sid m1 = book_of sid m"
    "order_val (cells (slab m1) x) = order_of fm o'" "Submit fm o' m = addSell fm x m1"
    by (rule Submit_handlers [OF assms(1), of fm o']) (use assms(2) in \<open>simp add: MsgKind_defs\<close>)
  note f = order_val_fields [OF x(4)]
  from addSell_refines [OF x(1) f(3) prod.collapse [symmetric], of fm] assms(3) x show ?thesis by auto
qed

lemma price_order_of [simp]: "price (order_of fm o') = Price o'" "amount (order_of fm o') = Amount o'"
  by (simp_all add: order_of_def CopyFrom_def)

lemma vol_rest: "vol (rest_bid b bs) = unat (amount b) + vol bs" "vol (rest_ask s ss) = unat (amount s) + vol ss"
proof -
  have "vol (takeWhile P xs) + vol (dropWhile P xs) = vol xs" for P xs
    by (metis vol_simps(3) takeWhile_dropWhile_id)
  then show "vol (rest_bid b bs) = unat (amount b) + vol bs" "vol (rest_ask s ss) = unat (amount s) + vol ss"
    unfolding rest_bid_def rest_ask_def by simp_all
qed

lemma spec_buy_volume:
  assumes "spec_buy fm b bk = (msgs, bk')"
  shows "traded msgs + 2 * vol (asks bk') = 2 * vol (asks bk)"
    "traded msgs + 2 * vol (bids bk') = 2 * (vol (bids bk) + unat (amount b))"
proof -
  obtain rb ss where m: "match_buy fm b (asks bk) = (msgs, rb, ss)"
    and bk': "bk' = bk\<lparr>asks := ss, bids := (case rb of None \<Rightarrow> bids bk | Some b' \<Rightarrow> rest_bid b' (bids bk))\<rparr>"
    using assms by (auto simp: spec_buy_def split: prod.splits)
  from match_buy_volume [OF m] show "traded msgs + 2 * vol (asks bk') = 2 * vol (asks bk)"
    "traded msgs + 2 * vol (bids bk') = 2 * (vol (bids bk) + unat (amount b))"
    by (auto simp: bk' vol_rest split: option.splits)
qed

lemma spec_sell_volume:
  assumes "spec_sell fm s bk = (msgs, bk')"
  shows "traded msgs + 2 * vol (bids bk') = 2 * vol (bids bk)"
    "traded msgs + 2 * vol (asks bk') = 2 * (vol (asks bk) + unat (amount s))"
proof -
  obtain rs bs where m: "match_sell fm s (bids bk) = (msgs, rs, bs)"
    and bk': "bk' = bk\<lparr>bids := bs, asks := (case rs of None \<Rightarrow> asks bk | Some s' \<Rightarrow> rest_ask s' (asks bk))\<rparr>"
    using assms by (auto simp: spec_sell_def split: prod.splits)
  from match_sell_volume [OF m] show "traded msgs + 2 * vol (bids bk') = 2 * vol (bids bk)"
    "traded msgs + 2 * vol (asks bk') = 2 * (vol (asks bk) + unat (amount s))"
    by (auto simp: bk' vol_rest split: option.splits)
qed

lemma filter_neq_nth:
  "distinct xs \<Longrightarrow> n \<in> set xs \<Longrightarrow> \<exists>i < length (map f xs). map f xs ! i = f n \<and>
     map f (filter (\<lambda>a. a \<noteq> n) xs) = take i (map f xs) @ drop (Suc i) (map f xs)"
proof (induction xs)
  case (Cons x xs)
  show ?case
  proof (cases "x = n")
    case True
    with Cons.prems show ?thesis by (intro exI [of _ 0]) auto
  next
    case False
    with Cons obtain i where "i < length (map f xs)" "map f xs ! i = f n"
        "map f (filter (\<lambda>a. a \<noteq> n) xs) = take i (map f xs) @ drop (Suc i) (map f xs)" by auto
    with False show ?thesis by (intro exI [of _ "Suc i"]) auto
  qed
qed simp

text \<open>An instance of \<open>fmath\<close>: the first id in the high half of the word, the second in the low half.\<close>

definition std_fmath :: fmath where
  "std_fmath = \<lparr>CombineInt32 = (\<lambda>h l. or (push_bit 32 (ucast h)) (ucast l)),
     HighInt32 = (\<lambda>w. ucast (drop_bit 32 w)), LowInt32 = (\<lambda>w. ucast w)\<rparr>"

lemma std_fmath_ok: "fmath_ok std_fmath"
proof -
  have "(ucast (drop_bit 32 (or (push_bit 32 (ucast h :: u64)) (ucast l))) :: u32) = h"
    "(ucast (or (push_bit 32 (ucast h :: u64)) (ucast l)) :: u32) = l" for h l :: u32
    by (rule bit_word_eqI, auto simp: bit_simps dest: bit_imp_le_length)+
  then show ?thesis by (simp add: fmath_ok_def std_fmath_def)
qed

definition no_book :: book where
  "no_book = \<lparr>bids = [], asks = []\<rparr>"

text \<open>A short session: a sell of 10 at 4, a buy of 4 at 8, the cancellation of the rest of the sell.\<close>

definition demo :: "Message list" where
  "demo = [\<lparr>Kind = SELL, Price = 4, Amount = 10, StockId = 1, TraderId = 1, TradeId = 1\<rparr>,
           \<lparr>Kind = BUY, Price = 8, Amount = 4, StockId = 1, TraderId = 2, TradeId = 1\<rparr>,
           \<lparr>Kind = CANCEL, Price = 4, Amount = 10, StockId = 1, TraderId = 1, TradeId = 1\<rparr>]"

lemma demo_run:
  "\<exists>bks. spec_run_msgs std_fmath demo (\<lambda>_. no_book) =
     Some ([\<lparr>Kind = FULL, Price = 6, Amount = 4, StockId = 1, TraderId = 2, TradeId = 1\<rparr>,
            \<lparr>Kind = PARTIAL, Price = 6, Amount = 4, StockId = 1, TraderId = 1, TradeId = 1\<rparr>,
            \<lparr>Kind = CANCELLED, Price = 4, Amount = 6, StockId = 1, TraderId = 1, TradeId = 1\<rparr>], bks)"
  by (simp add: demo_def no_book_def spec_submit_def spec_buy_def spec_sell_def spec_cancel_def order_of_def
      CopyFrom_def zeroOrder_def MsgKind_defs rest_ask_def trade_def completeTrade_def trade_price_def
      order_TraderId_def order_TradeId_def std_fmath_def ReduceAmount_def ids_def completeCancelled_def CopyTo_def MARKET_PRICE_def)

text \<open>The state of the short session before and after its second message.\<close>

lemma demo_second:
  "\<exists>m1 m2 fl1. M_inv m1 fl1 \<and> Submit std_fmath (demo ! 1) m1 = Inr m2 \<and> Out m1 = [] \<and>
     Out m2 = [\<lparr>Kind = FULL, Price = 6, Amount = 4, StockId = 1, TraderId = 2, TradeId = 1\<rparr>,
               \<lparr>Kind = PARTIAL, Price = 6, Amount = 4, StockId = 1, TraderId = 1, TradeId = 1\<rparr>]"
proof -
  let ?o = "demo ! 0" and ?b = "demo ! 1"
  let ?bk = "\<lparr>bids = [], asks = [order_of std_fmath ?o]\<rparr>"
  obtain m0 where m0: "NewMatcher 2 = Inr m0" "M_inv m0 [0..<nat 2]" "Out m0 = []" "books m0 = (\<lambda>_. \<lparr>bids = [], asks = []\<rparr>)"
    by (rule NewMatcher_correct [of 2]) simp
  have "spec_submit std_fmath ?o (books m0) = Some ([], (books m0)(1 := ?bk))"
    unfolding m0(4) by (simp add: spec_submit_def spec_sell_def demo_def MsgKind_defs rest_ask_def)
  from Submit_step [OF m0(2) this] m0(3) obtain m1 fl1 where
    m1: "M_inv m1 fl1" "Out m1 = []" "books m1 = (books m0)(1 := ?bk)" by auto
  have "\<exists>bks. spec_submit std_fmath ?b (books m1) = Some (trade std_fmath FULL PARTIAL (order_of std_fmath ?b) (order_of std_fmath ?o) 4, bks)"
    unfolding m1(3) by (simp add: spec_submit_def spec_buy_def demo_def MsgKind_defs MARKET_PRICE_def)
  then obtain bks where "spec_submit std_fmath ?b (books m1) = Some (trade std_fmath FULL PARTIAL (order_of std_fmath ?b) (order_of std_fmath ?o) 4, bks)" ..
  from Submit_step [OF m1(1) this] m1(1,2) show ?thesis
    by (fastforce simp: trade_def completeTrade_def demo_def order_of_def CopyFrom_def trade_price_def MARKET_PRICE_def
      order_TraderId_def order_TradeId_def std_fmath_def)
qed

text \<open>
  C1. A new engine that is run on any messages the specification accepts returns, writes exactly the
  messages of the specification and leaves every stock with the book of the specification: price-time
  matching with the trees, the slab and the loops is price-time matching on two sorted lists.
\<close>

theorem engine_refines_spec:
  assumes "0 < sz" "spec_run_msgs fm os (\<lambda>_. no_book) = Some (msgs, bks)"
  shows "\<exists>m0 m. NewMatcher sz = Inr m0 \<and> Run fm os m0 = Inr m \<and> Out m = msgs \<and> books m = bks"
proof -
  obtain m0 where m0: "NewMatcher sz = Inr m0" "M_inv m0 [0..<nat sz]" "Out m0 = []" "books m0 = (\<lambda>_. no_book)"
    using NewMatcher_correct [OF assms(1)] unfolding no_book_def by blast
  from Run_step [OF m0(2), of fm os msgs bks] assms(2) m0 show ?thesis by auto
qed

theorem engine_refines_spec_witness:
  "\<exists>m0 m. NewMatcher 2 = Inr m0 \<and> Run std_fmath demo m0 = Inr m \<and>
     map Kind (Out m) = [FULL, PARTIAL, CANCELLED]"
  using demo_run engine_refines_spec [of 2 std_fmath demo] by fastforce



text \<open>
  C8. The engine neither leaks order nodes nor uses a freed one: after any accepted run the nodes that
  are in use are exactly the queued ones, each queued once and in the trees of its own stock, the three
  trees of every stock agree, and the free list is intact.
\<close>

theorem engine_memory_safe:
  assumes "0 < sz" "spec_run_msgs fm os (\<lambda>_. no_book) = Some (msgs, bks)"
  shows "\<exists>m0 m fl. NewMatcher sz = Inr m0 \<and> Run fm os m0 = Inr m \<and> M_inv m fl"
proof -
  obtain m0 where m0: "NewMatcher sz = Inr m0" "M_inv m0 [0..<nat sz]" "books m0 = (\<lambda>_. no_book)"
    using NewMatcher_correct [OF assms(1)] unfolding no_book_def by blast
  from Run_step [OF m0(2), of fm os msgs bks] assms(2) m0 show ?thesis by auto
qed

theorem engine_memory_safe_witness:
  "\<exists>m0 m fl. NewMatcher 2 = Inr m0 \<and> Run std_fmath demo m0 = Inr m \<and> M_inv m fl"
  using demo_run engine_memory_safe [of 2 std_fmath demo] by fastforce


text \<open>
  C14. From a good state the engine accepts exactly the sells, the cancellations and the buys that are not
  at market price; every other message makes it panic.
\<close>

theorem Submit_outcome:
  assumes "M_inv m fl"
  shows "if Kind o' = SELL \<or> Kind o' = CANCEL \<or> Kind o' = BUY \<and> Price o' \<noteq> MARKET_PRICE
    then \<exists>m'. Submit fm o' m = Inr m'
    else Submit fm o' m = Inl (Panic (if Kind o' = BUY then ''It is illegal to send a buy at market price''
                                      else ''MsgKind not supported''))"
proof -
  obtain x m1 fl1 where x: "H_inv x m1 fl1" "order_val (cells (slab m1) x) = order_of fm o'"
    "Submit fm o' m = (if Kind o' = BUY then addBuy fm x m1 else if Kind o' = SELL then addSell fm x m1
      else if Kind o' = CANCEL then cancel fm x m1 else Inl (Panic ''MsgKind not supported''))"
    by (rule Submit_handlers [OF assms, of fm o'])
  have p: "price (cells (slab m1) x) = Price o'" using order_val_fields [OF x(2)] by simp
  have "\<exists>m'. addBuy fm x m1 = Inr m'" if "Price o' \<noteq> MARKET_PRICE"
    using addBuy_refines [OF x(1) _ refl prod.collapse [symmetric], of fm] that p by auto
  moreover have "\<exists>m'. addSell fm x m1 = Inr m'"
    using addSell_refines [OF x(1) refl prod.collapse [symmetric], of fm] by auto
  moreover have "\<exists>m'. cancel fm x m1 = Inr m'"
    using cancel_none [OF x(1) refl, of fm] cancel_one [OF x(1) refl, of fm] by blast
  moreover have "addBuy fm x m1 = Inl (Panic ''It is illegal to send a buy at market price'')" if "Price o' = MARKET_PRICE"
    using that p by (simp add: addBuy_def)
  ultimately show ?thesis unfolding x(3) by (auto simp: MsgKind_defs)
qed

theorem Submit_outcome_witness:
  "\<exists>m m'. NewMatcher 1 = Inr m \<and> Submit std_fmath (hd demo) m = Inr m' \<and>
     Submit std_fmath zeroMessage m = Inl (Panic ''MsgKind not supported'')"
proof -
  obtain m where m: "NewMatcher 1 = Inr m" "M_inv m [0..<nat 1]" by (rule NewMatcher_correct [of 1]) simp
  show ?thesis using m(1) Submit_outcome [OF m(2), of "hd demo" std_fmath] Submit_outcome [OF m(2), of zeroMessage std_fmath]
    by (auto simp: demo_def zeroMessage_def MsgKind_defs)
qed



text \<open>
  C11. Volume is conserved. Each trade of an incoming buy is reported to both sides; what was traded is
  what the asks lost, and what the buy brought in either was traded or is now in the bids. Likewise for a
  sell. No amount wraps around.
\<close>

theorem volume_conserved:
  assumes "M_inv m fl" "Submit fm o' m = Inr m'" "Kind o' = BUY \<or> Kind o' = SELL"
  shows "\<exists>msgs. Out m' = Out m @ msgs \<and>
    (let bk = book_of (StockId o') m; bk' = book_of (StockId o') m'; n = unat (Amount o') in
     traded msgs + 2 * vol (bids bk') = 2 * (vol (bids bk) + (if Kind o' = BUY then n else 0)) \<and>
     traded msgs + 2 * vol (asks bk') = 2 * (vol (asks bk) + (if Kind o' = SELL then n else 0)))"
proof (cases "Kind o' = BUY")
  case True
  from Submit_buy_spec [OF assms(1) this assms(2)] spec_buy_volume True show ?thesis
    by (fastforce simp: MsgKind_defs Let_def)
next
  case False
  with assms(3) have s: "Kind o' = SELL" by simp
  from Submit_sell_spec [OF assms(1) this assms(2)] spec_sell_volume s show ?thesis
    by (fastforce simp: MsgKind_defs Let_def)
qed

theorem volume_conserved_witness:
  "\<exists>m1 m2. Submit std_fmath (demo ! 1) m1 = Inr m2 \<and> vol (asks (book_of 1 m1)) = vol (asks (book_of 1 m2)) + 4"
proof -
  obtain m1 m2 fl1 where m: "M_inv m1 fl1" "Submit std_fmath (demo ! 1) m1 = Inr m2" "Out m1 = []" "traded (Out m2) = 8"
    using demo_second by (fastforce simp: traded_def)
  have d: "Kind (demo ! 1) = BUY" "Amount (demo ! 1) = 4" "StockId (demo ! 1) = 1" by (simp_all add: demo_def)
  from volume_conserved [OF m(1,2) disjI1 [OF d(1)]] m(3,4) d
  have "vol (asks (book_of 1 m1)) = vol (asks (book_of 1 m2)) + 4" by (simp add: MsgKind_defs Let_def)
  with m(2) show ?thesis by blast
qed

text \<open>
  C13. A cancellation for an id that is not queued changes no book and sends the request back as
  \<open>NOT_CANCELLED\<close>. Otherwise exactly one queued order with the id leaves its side of the book, the other
  orders keep their places, and the order as it was is sent back as \<open>CANCELLED\<close>.
\<close>

theorem cancel_outcome:
  assumes "M_inv m fl" "fmath_ok fm" "Kind o' = CANCEL"
  shows "\<exists>m'. Submit fm o' m = Inr m' \<and> (\<forall>t. t \<noteq> StockId o' \<longrightarrow> book_of t m' = book_of t m) \<and>
    (let bk = book_of (StockId o') m; bk' = book_of (StockId o') m'; g = CombineInt32 fm (TraderId o') (TradeId o') in
     if g \<in> set (ids bk) then
       \<exists>i < length (bids bk @ asks bk). let r = (bids bk @ asks bk) ! i in
         guid r = g \<and> Out m' = Out m @ [(CopyTo fm r)\<lparr>Kind := CANCELLED\<rparr>] \<and>
         bids bk' @ asks bk' = take i (bids bk @ asks bk) @ drop (Suc i) (bids bk @ asks bk)
     else bk' = bk \<and> Out m' = Out m @ [o'\<lparr>Kind := NOT_CANCELLED\<rparr>])"
proof -
  obtain x m1 fl1 where x: "H_inv x m1 fl1" "Out m1 = Out m" "\<And>sid. book_of sid m1 = book_of sid m"
    "order_val (cells (slab m1) x) = order_of fm o'" "Submit fm o' m = cancel fm x m1"
    by (rule Submit_handlers [OF assms(1), of fm o']) (use assms(3) in \<open>simp add: MsgKind_defs\<close>)
  note f = order_val_fields [OF x(4)]
  let ?bk = "book_of (StockId o') m" and ?g = "CombineInt32 fm (TraderId o') (TradeId o')"
  show ?thesis
  proof (cases "?g \<in> set (ids ?bk)")
    case False
    then have "guid (cells (slab m1) x) \<notin> set (ids (book_of (StockId o') m1))" using x(3) f(5) by simp
    moreover have "completeNotCancelled fm (cells (slab m1) x) = o'\<lparr>Kind := NOT_CANCELLED\<rparr>"
      using f assms(2) by (simp add: completeNotCancelled_def CopyTo_def order_TraderId_def order_TradeId_def fmath_ok_def)
    ultimately show ?thesis using cancel_none [OF x(1) f(3), of fm] False x by (auto simp: Let_def)
  next
    case True
    let ?c = "cells (slab m1)" and ?q = "getMatchQueues (StockId o') m1"
    have "guid (?c x) \<in> set (ids (book_of (StockId o') m1))" using True x(3) f(5) by simp
    from cancel_one [OF x(1) f(3) this, of fm] obtain m' n where
      n: "cancel fm x m1 = Inr m'" "n \<in> mq_addrs ?q" "guid (?c n) = ?g" "Out m' = Out m @ [completeCancelled fm (?c n)]"
        "bids (book_of (StockId o') m') @ asks (book_of (StockId o') m') =
          map (order_val \<circ> ?c) (filter (\<lambda>a. a \<noteq> n) (bid_list ?q @ ask_list ?q))"
        "\<forall>t. t \<noteq> StockId o' \<longrightarrow> book_of t m' = book_of t m"
      using x(2,3) f(5) by auto
    let ?as = "bid_list ?q @ ask_list ?q"
    have bk: "bids ?bk @ asks ?bk = map (order_val \<circ> ?c) ?as"
      unfolding x(3) [symmetric] by (simp add: book_of_def abs_sides)
    have "distinct ?as" "n \<in> set ?as" using x(1) distinct_sides [of ?c ?q] n(2) by (auto simp: H_inv_def mq_addrs_sides)
    from filter_neq_nth [OF this, of "order_val \<circ> ?c"] obtain i where
      "i < length (bids ?bk @ asks ?bk)" "(bids ?bk @ asks ?bk) ! i = order_val (?c n)"
      "bids (book_of (StockId o') m') @ asks (book_of (StockId o') m') =
        take i (bids ?bk @ asks ?bk) @ drop (Suc i) (bids ?bk @ asks ?bk)"
      unfolding bk n(5) by auto
    moreover have "completeCancelled fm (?c n) = (CopyTo fm (order_val (?c n)))\<lparr>Kind := CANCELLED\<rparr>"
      by (simp add: completeCancelled_def CopyTo_def order_TraderId_def order_TradeId_def order_val_def)
    ultimately have "\<exists>i < length (bids ?bk @ asks ?bk). let r = (bids ?bk @ asks ?bk) ! i in guid r = ?g \<and>
        Out m' = Out m @ [(CopyTo fm r)\<lparr>Kind := CANCELLED\<rparr>] \<and>
        bids (book_of (StockId o') m') @ asks (book_of (StockId o') m') =
          take i (bids ?bk @ asks ?bk) @ drop (Suc i) (bids ?bk @ asks ?bk)"
      using n(3,4) by (intro exI [of _ i]) (simp only: Let_def order_val_sel simp_thms)
    then show ?thesis using True n(1,6) x(5) by (auto simp: Let_def)
  qed
qed

theorem cancel_outcome_witness:
  "\<exists>m m'. NewMatcher 1 = Inr m \<and> Submit std_fmath (demo ! 2) m = Inr m' \<and>
     Out m' = [(demo ! 2)\<lparr>Kind := NOT_CANCELLED\<rparr>]"
proof -
  obtain m where m: "NewMatcher 1 = Inr m" "M_inv m [0..<nat 1]" "Out m = []" "books m = (\<lambda>_. \<lparr>bids = [], asks = []\<rparr>)"
    by (rule NewMatcher_correct [of 1]) simp
  have "ids (book_of 1 m) = []" using fun_cong [OF m(4), of 1] by (simp add: ids_def books_def)
  moreover have "Kind (demo ! 2) = CANCEL" "StockId (demo ! 2) = 1" by (simp_all add: demo_def)
  ultimately show ?thesis using cancel_outcome [OF m(2) std_fmath_ok, of "demo ! 2"] m(1,3) by (auto simp: Let_def)
qed

text \<open>
  C15. The price of a trade is the exact midpoint of the two limits, rounded down, for all 64-bit prices:
  the computation does not overflow. A sell at market price trades at the buyer's limit.
\<close>

theorem trade_price_midpoint:
  assumes "s \<le> b"
  shows "uint (trade_price b s) = (if s = MARKET_PRICE then uint b else (uint b + uint s) div 2)"
  using trade_price_mid [OF assms] by (auto simp: trade_price_def)

theorem trade_price_midpoint_witness:
  "uint (trade_price 18446744073709551615 18446744073709551612) = 18446744073709551613"
  using trade_price_midpoint [of 18446744073709551612 18446744073709551615] by (simp add: MARKET_PRICE_def)

end
