(* ===== verification/Coordinator_Props.thy ===== *)
theory Coordinator_Props
  imports Coordinator Matcher_Props "HOL-Library.Sublist"
begin

text \<open>
  The pipeline of the in-memory coordinator is the matcher, whatever the interleaving: an invariant
  relates every reachable state to the run of the specification on the whole input, every step uses up
  one unit of a fixed amount of work, and a state in which no goroutine can move is the finished one.
\<close>

section \<open>The messages of the specification\<close>

abbreviation no_shutdown :: "Message list \<Rightarrow> bool" where
  "no_shutdown ms \<equiv> (\<forall>m \<in> set ms. Kind m \<noteq> SHUTDOWN)"

lemma no_shutdown_trade: "rk \<noteq> SHUTDOWN \<Longrightarrow> rk' \<noteq> SHUTDOWN \<Longrightarrow> no_shutdown (trade fm rk rk' b s a)"
  by (auto simp: trade_def completeTrade_def)

lemma no_shutdown_match_buy: "match_buy fm b ss = (out, r) \<Longrightarrow> no_shutdown out"
proof (induction fm b ss arbitrary: out r rule: match_buy.induct)
  case (2 fm b s ss)
  then show ?case using no_shutdown_trade [of PARTIAL FULL fm b s] no_shutdown_trade [of FULL PARTIAL fm b s] no_shutdown_trade [of FULL FULL fm b s]
    by (auto simp: MsgKind_defs split: if_splits prod.splits)
qed simp

lemma no_shutdown_match_sell: "match_sell fm b ss = (out, r) \<Longrightarrow> no_shutdown out"
proof (induction fm b ss arbitrary: out r rule: match_sell.induct)
  case (2 fm s b bs)
  then show ?case using no_shutdown_trade [of PARTIAL FULL fm b s] no_shutdown_trade [of FULL PARTIAL fm b s] no_shutdown_trade [of FULL FULL fm b s]
    by (auto simp: MsgKind_defs split: if_splits prod.splits)
qed simp

lemma no_shutdown_spec_submit:
  assumes "spec_submit fm m bks = Some (out, bks')"
  shows "no_shutdown out"
  using assms no_shutdown_match_buy no_shutdown_match_sell
  by (auto simp: spec_submit_def spec_buy_def spec_sell_def spec_cancel_def completeCancelled_def
      completeNotCancelled_def Let_def MsgKind_defs split: if_splits prod.splits option.splits)

text \<open>What the engine writes for a session that ends with a shutdown message ends with that message, its only one.\<close>

lemma spec_run_session:
  assumes "no_shutdown os" "Kind sd = SHUTDOWN" "spec_run_msgs fm (os @ [sd]) bks = Some (msgs, bks')"
  shows "\<exists>ms. msgs = ms @ [sd] \<and> no_shutdown ms"
  using assms(1,3)
proof (induction os arbitrary: bks msgs)
  case (Cons m os)
  then obtain m1 b1 m2 where s: "spec_submit fm m bks = Some (m1, b1)" "spec_run_msgs fm (os @ [sd]) b1 = Some (m2, bks')" "msgs = m1 @ m2"
    by (auto split: bind_splits)
  then show ?case using Cons no_shutdown_spec_submit [OF s(1)] by fastforce
qed (use assms(2) in auto)

section \<open>The invariant\<close>

text \<open>\<open>enc m\<close>: the bytes of a message.\<close>

definition enc :: "Message \<Rightarrow> byte list" where
  "enc m = put_le 8 (Kind m) @ put_le 8 (Price m) @ put_le 8 (Amount m) @ put_le 8 (StockId m) @
     put_le 4 (TraderId m) @ put_le 4 (TradeId m)"

lemma Marshal_enc: "Marshal m (replicate ByteSize 0) = Inr (enc m)"
  by (simp add: Marshal_layout enc_def)

lemma length_enc: "length (enc m) = ByteSize"
  using Marshal_length [OF Marshal_enc] .

definition pending :: "pc \<Rightarrow> Message list" where
  "pending p = (case p of Writing m \<Rightarrow> [m] | _ \<Rightarrow> [])"

lemma pending_simps [simp]: "pending Reading = []" "pending (Writing m) = [m]" "pending Returned = []"
  by (simp_all add: pending_def)

text \<open>
  \<open>in_stream ds s\<close>: the messages the application has still to take, in order, when \<open>ds\<close> are still to be
  read from the reader.
\<close>

definition in_stream :: "Message list \<Rightarrow> coord \<Rightarrow> Message list" where
  "in_stream ds s = inout (fromListener s) @ pending (listener s) @ ds"

definition in_inv :: "Message \<Rightarrow> read_result list \<Rightarrow> Message list \<Rightarrow> coord \<Rightarrow> bool" where
  "in_inv sd rest ds s \<longleftrightarrow>
     (\<exists>rs. input s = rs @ rest \<and> map deserialise rs = map Inr ds) \<and>
     (reader_open s \<longleftrightarrow> listener s \<noteq> Returned) \<and> ch_size (fromListener s) = 1000 \<and>
     (if running s then \<exists>os. in_stream ds s = os @ [sd] \<and> no_shutdown os
      else in_stream ds s = [] \<and> listener s = Returned) \<and>
     (listener s = Reading \<longrightarrow> ds \<noteq> []) \<and> (listener s = Returned \<longrightarrow> ds = [])"

definition app_inv :: "fmath \<Rightarrow> Message list \<Rightarrow> (u64 \<Rightarrow> book) \<Rightarrow> Message list \<Rightarrow> coord \<Rightarrow> bool" where
  "app_inv fm msgs bks ds s \<longleftrightarrow>
     (\<exists>fl. M_inv (app s) fl) \<and>
     (\<exists>fut. msgs = Out (app s) @ fut \<and> spec_run_msgs fm (in_stream ds s) (books (app s)) = Some (fut, bks))"

definition out_inv :: "Message list \<Rightarrow> nat \<Rightarrow> coord \<Rightarrow> bool" where
  "out_inv msgs k s \<longleftrightarrow>
     sent s \<le> length (Out (app s)) \<and> k \<le> sent s \<and>
     written s = map enc (take k msgs) \<and>
     pending (responder s) @ inout (toResponder s) = drop k (take (sent s) msgs) \<and>
     (responder s = Returned \<longleftrightarrow> k = length msgs) \<and>
     (writer_open s \<longleftrightarrow> responder s \<noteq> Returned) \<and> ch_size (toResponder s) = 1000"

lemmas coord_inv_defs = in_inv_def app_inv_def out_inv_def in_stream_def

text \<open>The parts of the state the first two conjuncts read.\<close>

lemma in_app_frame:
  assumes "in_inv sd rest ds s" "app_inv fm msgs bks ds s"
    and "input s' = input s" "reader_open s' = reader_open s" "listener s' = listener s" "fromListener s' = fromListener s"
      "app s' = app s" "running s' = running s"
  shows "in_inv sd rest ds s' \<and> app_inv fm msgs bks ds s'"
proof -
  have e: "in_stream ds s' = in_stream ds s" using assms(5,6) by (simp add: in_stream_def)
  show ?thesis using assms(1,2) unfolding in_inv_def app_inv_def assms(3-) e by (intro conjI) blast+
qed

text \<open>The actions that are left: three for a message still to be read or still to be sent.\<close>

definition work :: "Message list \<Rightarrow> Message list \<Rightarrow> coord \<Rightarrow> nat" where
  "work msgs ds s =
     3 * length ds + 2 * length (pending (listener s)) + length (inout (fromListener s)) +
     3 * (length msgs - sent s) + 2 * length (inout (toResponder s)) + length (pending (responder s))"

section \<open>Each goroutine keeps it\<close>

lemma append_snoc_cases: "xs @ y # ys = os @ [sd] \<Longrightarrow> (ys = [] \<and> y = sd \<and> xs = os) \<or> (y \<in> set os \<and> ys \<noteq> [])"
  by (cases ys rule: rev_cases) auto

lemma listener_keeps:
  assumes I: "in_inv sd rest ds s" "app_inv fm msgs bks ds s" "out_inv msgs k s" and sd: "Kind sd = SHUTDOWN"
    and st: "listener_step s = Some t"
  shows "\<exists>s' ds'. t = Inr s' \<and> in_inv sd rest ds' s' \<and> app_inv fm msgs bks ds' s' \<and> out_inv msgs k s' \<and>
    work msgs ds s = Suc (work msgs ds' s')"
proof (cases "listener s")
  case Reading
  with I(1) obtain d ds' r rs where ds: "ds = d # ds'" "input s = r # rs @ rest" "deserialise r = Inr d" "map deserialise rs = map Inr ds'"
    by (cases ds) (auto simp: in_inv_def)
  let ?s = "s\<lparr>input := rs @ rest, listener := Writing d\<rparr>"
  have run: "running s" using I(1) Reading by (auto simp: in_inv_def split: if_splits)
  have "t = Inr ?s" using st Reading ds by (simp add: listener_step_def)
  moreover have "in_inv sd rest ds' ?s" using I(1) Reading ds run by (auto simp: in_inv_def in_stream_def)
  moreover have "app_inv fm msgs bks ds' ?s" using I(2) Reading ds by (simp add: app_inv_def in_stream_def)
  moreover have "out_inv msgs k ?s" using I(3) by (simp add: out_inv_def)
  moreover have "work msgs ds s = Suc (work msgs ds' ?s)" using Reading ds by (simp add: work_def)
  ultimately show ?thesis by blast
next
  case (Writing m)
  with st obtain c where c: "Chan_Write m (fromListener s) = Some c"
    and t: "t = Inr (if Kind m = SHUTDOWN then s\<lparr>fromListener := c, listener := Returned, reader_open := False\<rparr>
      else s\<lparr>fromListener := c, listener := Reading\<rparr>)"
    by (auto simp: listener_step_def split: option.splits)
  have run: "running s" using I(1) Writing by (auto simp: in_inv_def split: if_splits)
  with I(1) Writing obtain os where os: "inout (fromListener s) @ m # ds = os @ [sd]" "no_shutdown os"
    by (auto simp: in_inv_def in_stream_def)
  have sh: "Kind m = SHUTDOWN \<longleftrightarrow> ds = []" using append_snoc_cases [OF os(1)] os(2) sd by auto
  note c' = chan.wr_Some [OF c]
  show ?thesis using t I Writing c' sh run by (auto simp: coord_inv_defs work_def)
qed (use st in \<open>simp add: listener_step_def\<close>)

lemma responder_keeps:
  assumes I: "in_inv sd rest ds s" "app_inv fm msgs bks ds s" "out_inv msgs k s" and sd: "Kind sd = SHUTDOWN"
    and msgs: "msgs = ms @ [sd]" "no_shutdown ms" and wr: "\<And>h b. wr h b = (length b, None)"
    and st: "responder_step wr lg s = Some t"
  shows "\<exists>s' k'. t = Inr s' \<and> in_inv sd rest ds s' \<and> app_inv fm msgs bks ds s' \<and> out_inv msgs k' s' \<and>
    work msgs ds s = Suc (work msgs ds s')"
proof (cases "responder s")
  case Reading
  with st obtain m c where c: "Chan_Read (toResponder s) = Some (m, c)"
    and t: "t = Inr (s\<lparr>toResponder := c, responder := Writing m, logged := (if lg then logged s @ [m] else logged s)\<rparr>)"
    by (auto simp: responder_step_def split: option.splits)
  note c' = chan.rd_Some [OF c]
  let ?s = "s\<lparr>toResponder := c, responder := Writing m, logged := (if lg then logged s @ [m] else logged s)\<rparr>"
  have "in_inv sd rest ds ?s \<and> app_inv fm msgs bks ds ?s" using in_app_frame [OF I(1,2), of ?s] by simp
  moreover have "out_inv msgs k ?s" using I(3) Reading c' by (auto simp: out_inv_def)
  moreover have "work msgs ds s = Suc (work msgs ds ?s)" using Reading c' by (simp add: work_def)
  ultimately show ?thesis using t by blast
next
  case (Writing m)
  have hd: "m # inout (toResponder s) = drop k (take (sent s) msgs)" using I(3) Writing by (simp add: out_inv_def)
  have "k < length (take (sent s) msgs)" using hd drop_eq_Nil [of k "take (sent s) msgs"] by (auto simp del: drop_eq_Nil)
  then have k: "k < length msgs" "k < sent s" and "drop k (take (sent s) msgs) = msgs ! k # drop (Suc k) (take (sent s) msgs)"
    by (simp_all flip: Cons_nth_drop_Suc)
  with hd have m: "m = msgs ! k" "inout (toResponder s) = drop (Suc k) (take (sent s) msgs)" by simp_all
  have sh: "Kind m = SHUTDOWN \<longleftrightarrow> Suc k = length msgs"
  proof (cases "k < length ms")
    case True
    then show ?thesis using m(1) msgs by (auto simp: nth_append dest: nth_mem)
  qed (use m(1) msgs sd k(1) in \<open>auto simp: nth_append\<close>)
  have w: "responder_write wr m s = Inr (s\<lparr>written := written s @ [enc m]\<rparr>)"
    by (simp add: responder_write_def Marshal_enc wr length_enc)
  have tk: "take (Suc k) msgs = take k msgs @ [m]" using k(1) m(1) by (simp add: take_Suc_conv_app_nth)
  let ?s = "s\<lparr>written := written s @ [enc m], responder := (if Kind m = SHUTDOWN then Returned else Reading),
    writer_open := (writer_open s \<and> Kind m \<noteq> SHUTDOWN)\<rparr>"
  have "in_inv sd rest ds ?s \<and> app_inv fm msgs bks ds ?s" using in_app_frame [OF I(1,2), of ?s] by simp
  moreover have "written s = map enc (take k msgs)" "writer_open s" "ch_size (toResponder s) = 1000" "sent s \<le> length (Out (app s))"
    using I(3) Writing by (simp_all add: out_inv_def)
  then have "out_inv msgs (Suc k) ?s" using sh m(2) tk k(2) by (simp add: out_inv_def)
  moreover have "work msgs ds s = Suc (work msgs ds ?s)" using Writing by (simp add: work_def)
  moreover have "t = Inr ?s" using st Writing w I(3) by (auto simp: responder_step_def out_inv_def)
  ultimately show ?thesis by blast
qed (use st in \<open>simp add: responder_step_def\<close>)
lemma app_keeps:
  assumes I: "in_inv sd rest ds s" "app_inv fm msgs bks ds s" "out_inv msgs k s" and sd: "Kind sd = SHUTDOWN"
    and st: "app_step fm s = Some t"
  shows "\<exists>s'. t = Inr s' \<and> in_inv sd rest ds s' \<and> app_inv fm msgs bks ds s' \<and> out_inv msgs k s' \<and>
    work msgs ds s = Suc (work msgs ds s')"
proof (cases "sent s < length (Out (app s))")
  case True
  with st obtain c where c: "Chan_Write (Out (app s) ! sent s) (toResponder s) = Some c"
    and t: "t = Inr (s\<lparr>toResponder := c, sent := sent s + 1\<rparr>)"
    by (auto simp: app_step_def split: option.splits)
  note c' = chan.wr_Some [OF c]
  let ?s = "s\<lparr>toResponder := c, sent := sent s + 1\<rparr>"
  obtain fut where m: "msgs = Out (app s) @ fut" using I(2) by (auto simp: app_inv_def)
  have n: "take (Suc (sent s)) msgs = take (sent s) msgs @ [Out (app s) ! sent s]"
    using True m by (simp add: take_Suc_conv_app_nth nth_append)
  have "in_inv sd rest ds ?s \<and> app_inv fm msgs bks ds ?s" using in_app_frame [OF I(1,2), of ?s] by simp
  moreover have "out_inv msgs k ?s" using I(3) True c' n m by (auto simp: out_inv_def simp del: take_append)
  moreover have "work msgs ds s = Suc (work msgs ds ?s)" using c' True m by (simp add: work_def)
  ultimately show ?thesis using t by blast
next
  case False
  with st obtain m c where c: "Chan_Read (fromListener s) = Some (m, c)" and run: "running s"
    and t: "t = (if Kind m = SHUTDOWN
                 then Inr (s\<lparr>fromListener := c, app := (app s)\<lparr>Out := Out (app s) @ [m]\<rparr>, running := False\<rparr>)
                 else (case Submit fm m (app s) of Inl e \<Rightarrow> Inl e | Inr a \<Rightarrow> Inr (s\<lparr>fromListener := c, app := a\<rparr>)))"
    by (auto simp: app_step_def split: option.splits if_splits)
  note c' = chan.rd_Some [OF c]
  let ?r = "inout c @ pending (listener s) @ ds"
  have ins: "in_stream ds s = m # ?r" using c' by (simp add: in_stream_def)
  with I(1) run obtain os where os: "m # ?r = os @ [sd]" "no_shutdown os" by (auto simp: in_inv_def)
  have sh: "Kind m = SHUTDOWN \<longleftrightarrow> ?r = []" using append_snoc_cases [of "[]" m ?r os sd] os sd by auto
  obtain fl fut where A: "M_inv (app s) fl" "msgs = Out (app s) @ fut" "spec_run_msgs fm (m # ?r) (books (app s)) = Some (fut, bks)"
    using I(2) ins by (auto simp: app_inv_def)
  have wk: "work msgs ds s = Suc (work msgs ds s')"
    if "fromListener s' = c" "listener s' = listener s" "responder s' = responder s" "toResponder s' = toResponder s" "sent s' = sent s" for s'
    using that c' by (simp add: work_def)
  show ?thesis
  proof (cases "Kind m = SHUTDOWN")
    case True
    let ?s = "s\<lparr>fromListener := c, app := (app s)\<lparr>Out := Out (app s) @ [m]\<rparr>, running := False\<rparr>"
    have e: "inout c = []" "pending (listener s) = []" "ds = []" using True sh by auto
    have "listener s = Returned" using I(1) e by (cases "listener s") (auto simp: in_inv_def)
    then have "in_inv sd rest ds ?s" using I(1) e c' run by (auto simp: in_inv_def in_stream_def)
    moreover have "M_inv (app ?s) fl" "books (app ?s) = books (app s)"
      using A(1) by (simp_all add: M_inv_def books_def book_of_def fun_eq_iff)
    then have "app_inv fm msgs bks ds ?s" using A True e by (auto simp: app_inv_def in_stream_def)
    moreover have "out_inv msgs k ?s" using I(3) by (simp add: out_inv_def)
    ultimately show ?thesis using t True wk [of ?s] by auto
  next
    case False
    then obtain m1 b1 m2 where s: "spec_submit fm m (books (app s)) = Some (m1, b1)" "spec_run_msgs fm ?r b1 = Some (m2, bks)" "fut = m1 @ m2"
      using A(3) by (auto split: bind_splits)
    obtain a fl' where a: "Submit fm m (app s) = Inr a" "M_inv a fl'" "Out a = Out (app s) @ m1" "books a = b1"
      using Submit_step [OF A(1) s(1)] by blast
    let ?s = "s\<lparr>fromListener := c, app := a\<rparr>"
    have "?r \<noteq> []" using False sh by blast
    then have "in_stream ds ?s = tl os @ [sd] \<and> no_shutdown (tl os)"
      using os by (cases os) (auto simp: in_stream_def)
    then have "in_inv sd rest ds ?s" using I(1) run c' by (auto simp: in_inv_def)
    moreover have "app_inv fm msgs bks ds ?s" using A(2) s a by (auto simp: app_inv_def in_stream_def)
    moreover have "out_inv msgs k ?s" using I(3) a(3) by (simp add: out_inv_def)
    ultimately show ?thesis using t False a(1) wk [of ?s] by auto
  qed
qed

section \<open>All interleavings\<close>

lemma step_keeps:
  assumes I: "in_inv sd rest ds s" "app_inv fm msgs bks ds s" "out_inv msgs k s" and sd: "Kind sd = SHUTDOWN"
    and msgs: "msgs = ms @ [sd]" "no_shutdown ms" and wr: "\<And>h b. wr h b = (length b, None)"
    and st: "step fm wr lg (Inr s) t"
  shows "\<exists>s' ds' k'. t = Inr s' \<and> in_inv sd rest ds' s' \<and> app_inv fm msgs bks ds' s' \<and> out_inv msgs k' s' \<and>
    work msgs ds s = Suc (work msgs ds' s')"
  using st
proof cases
  case listener_moves
  from listener_keeps [OF I sd this] show ?thesis by blast
next
  case app_moves
  from app_keeps [OF I sd this] show ?thesis by blast
next
  case responder_moves
  from responder_keeps [OF I sd msgs wr this] show ?thesis by blast
qed

lemma steps_keep:
  assumes I: "in_inv sd rest ds s" "app_inv fm msgs bks ds s" "out_inv msgs k s" and sd: "Kind sd = SHUTDOWN"
    and msgs: "msgs = ms @ [sd]" "no_shutdown ms" and wr: "\<And>h b. wr h b = (length b, None)"
    and st: "(step fm wr lg ^^ n) (Inr s) t"
  shows "\<exists>s' ds' k'. t = Inr s' \<and> in_inv sd rest ds' s' \<and> app_inv fm msgs bks ds' s' \<and> out_inv msgs k' s' \<and>
    work msgs ds s = n + work msgs ds' s'"
  using st
proof (induction n arbitrary: t)
  case 0
  with I show ?case by auto
next
  case (Suc n)
  then obtain u where u: "(step fm wr lg ^^ n) (Inr s) u" "step fm wr lg u t" by auto
  obtain s' ds' k' where s': "u = Inr s'" "in_inv sd rest ds' s'" "app_inv fm msgs bks ds' s'" "out_inv msgs k' s'"
    "work msgs ds s = n + work msgs ds' s'" using Suc.IH [OF u(1)] by blast
  from step_keeps [OF s'(2-4) sd msgs wr u(2) [unfolded s'(1)]] s'(5) show ?case by fastforce
qed

text \<open>A state in which nobody can move is the final one.\<close>

lemma stuck_finished:
  assumes I: "in_inv sd rest ds s" "app_inv fm msgs bks ds s" "out_inv msgs k s" and sd: "Kind sd = SHUTDOWN"
    and st: "\<nexists>t. step fm wr lg (Inr s) t"
  shows "\<not> running s \<and> listener s = Returned \<and> responder s = Returned \<and> k = length msgs \<and> ds = [] \<and> work msgs ds s = 0"
proof -
  have no: "listener_step s = None" "app_step fm s = None" "responder_step wr lg s = None"
    using st not_None_eq unfolding step_Inr by metis+
  have size: "ch_size (fromListener s) = 1000" "ch_size (toResponder s) = 1000" using I by (simp_all add: in_inv_def out_inv_def)
  have order: "k \<le> sent s" "sent s \<le> length (Out (app s))" "length (Out (app s)) \<le> length msgs"
    using I(2,3) by (auto simp: app_inv_def out_inv_def)
  have rsp: "inout (toResponder s) = [] \<and> pending (responder s) = []"
  proof (cases "responder s")
    case Reading
    with no(3) have "Chan_Read (toResponder s) = None" by (auto simp: responder_step_def split: option.splits)
    then show ?thesis using Reading by (simp add: chan.rd_None)
  next
    case Returned
    then show ?thesis using I(3) by (simp add: out_inv_def)
  qed (use no(3) in \<open>simp add: responder_step_def\<close>)
  then have ks: "sent s = k" using I(3) order by (simp add: out_inv_def)
  have sentall: "sent s = length (Out (app s))"
  proof (rule ccontr)
    assume "sent s \<noteq> length (Out (app s))"
    then have "Chan_Write (Out (app s) ! sent s) (toResponder s) = None"
      using no(2) order by (auto simp: app_step_def split: option.splits)
    then show False using rsp size by (simp add: chan.wr_None)
  qed
  have nr: "\<not> running s"
  proof
    assume run: "running s"
    then have "Chan_Read (fromListener s) = None" using no(2) sentall by (auto simp: app_step_def split: option.splits)
    then have e: "inout (fromListener s) = []" by (simp add: chan.rd_None)
    show False
    proof (cases "listener s")
      case Reading
      with I(1) have "ds \<noteq> []" by (simp add: in_inv_def)
      with I(1) have "input s \<noteq> []" by (auto simp: in_inv_def)
      with Reading no(1) show False by (auto simp: listener_step_def split: list.splits)
    next
      case (Writing m)
      with no(1) have "Chan_Write m (fromListener s) = None" by (auto simp: listener_step_def split: option.splits)
      then show False using e size by (simp add: chan.wr_None)
    next
      case Returned
      with I(1) e run show False by (auto simp: in_inv_def in_stream_def)
    qed
  qed
  with I(1) have ins: "in_stream ds s = []" "listener s = Returned" unfolding in_inv_def by metis+
  with I(2) have "length (Out (app s)) = length msgs" by (auto simp: app_inv_def)
  with ks sentall have k: "k = length msgs" "sent s = length msgs" by simp_all
  with I(3) have "responder s = Returned" by (simp add: out_inv_def)
  then show ?thesis using nr ins k rsp by (simp add: in_stream_def work_def)
qed


lemma deserialise_enc: "deserialise (ReadBytes (enc m)) = Inr m"
  using Unmarshal_Marshal [OF Marshal_enc, of zeroMessage m] by (simp add: deserialise_def length_enc)

text \<open>A relation whose every run is of bounded length has a run that cannot go on.\<close>

lemma bounded_run_ends:
  assumes "\<And>n t. (r ^^ n) s t \<Longrightarrow> n \<le> (N :: nat)"
  shows "\<exists>n t. (r ^^ n) s t \<and> (\<nexists>u. r t u)"
proof (rule ccontr)
  assume "\<not> ?thesis"
  then have more: "\<exists>u. r t u" if "(r ^^ n) s t" for n t using that by blast
  have "\<exists>t. (r ^^ n) s t" for n
  proof (induction n)
    case (Suc n)
    with more show ?case by (fastforce intro: relpowp_Suc_I)
  qed auto
  from this [of "Suc N"] assms [of "Suc N"] show False by auto
qed


end
