(* ===== verification/Queue_Props.thy ===== *)
theory Queue_Props
  imports MatchQueues
begin

text \<open>
  The properties of the order queues and of the slab: the red-black tree keeps its shape and its
  order over any sequence of operations, it answers as the program's reference queue does, and the
  slab recycles nodes.
\<close>

section \<open>The tree and the reference queue\<close>

interpretation rbt_ref: price_time_pair
  rbt_inv entries "\<lambda>_ _. True" rbtree_push peekMin peekMax popMin popMax
  pinvar pentries pokprice pqueue_push pqueue_peekMin pqueue_peekMax pqueue_popMin pqueue_popMax
  by unfold_locales

lemma mkPrioq_empty:
  assumes "low \<le> high" "high - low \<noteq> -1"
  shows "pinvar (mkPrioq low high)" "pentries (mkPrioq low high) = []" "pokprice (mkPrioq low high) = (\<lambda>v. low \<le> v \<and> v \<le> high)"
proof -
  have "unat (high - low + 1) = Suc (unat (high - low))"
    using assms(2) by (metis add.commute add_eq_0_iff2 unatSuc)
  with assms(1) show "pinvar (mkPrioq low high)" by (simp add: pinvar_def mkPrioq_def)
  have "flat (plevels low (replicate n [])) = []" for n
    by (simp add: flat_def plevels_def)
  then show "pentries (mkPrioq low high) = []" by (simp add: pentries_def mkPrioq_def)
  show "pokprice (mkPrioq low high) = (\<lambda>v. low \<le> v \<and> v \<le> high)"
    by (simp add: pokprice_def mkPrioq_def fun_eq_iff)
qed

text \<open>
  C10. The red-black tree answers every legal sequence of pushes, peeks and pops as the program's
  array-based reference queue does, for every price range the reference queue can have.
\<close>

theorem rbtree_equals_reference:
  assumes "low \<le> high" "high - low \<noteq> -1" "legal (\<lambda>v. low \<le> v \<and> v \<le> high) ops []"
  shows "\<exists>rs t q. queue_run rbtree_push peekMin peekMax popMin popMax ops Leaf = Some (rs, t) \<and>
    queue_run pqueue_push pqueue_peekMin pqueue_peekMax pqueue_popMin pqueue_popMax ops (mkPrioq low high) = Some (rs, q) \<and>
    entries t = pentries q"
  using rbt_ref.same_answers [of Leaf "mkPrioq low high" ops] mkPrioq_empty [OF assms(1,2)] assms(3) by auto

theorem rbtree_equals_reference_witness:
  "\<exists>t q. queue_run rbtree_push peekMin peekMax popMin popMax [Push 5 1, Push 7 2, Push 5 3, PopMin, PeekMax, PopMin] Leaf
       = Some ([None, None, None, Some 1, Some 2, Some 3], t) \<and>
     queue_run pqueue_push pqueue_peekMin pqueue_peekMax pqueue_popMin pqueue_popMax
       [Push 5 1, Push 7 2, Push 5 3, PopMin, PeekMax, PopMin] (mkPrioq 4 8)
       = Some ([None, None, None, Some 1, Some 2, Some 3], q)"
proof -
  let ?ops = "[Push 5 1, Push 7 2, Push 5 3, PopMin, PeekMax, PopMin]"
  have l: "legal (\<lambda>v. 4 \<le> v \<and> v \<le> 8) ?ops []" by (simp add: ins_fifo_def first_min_def first_max_def del_entry_def)
  have "(8 :: u64) - 4 \<noteq> -1" "(4 :: u64) \<le> 8" by simp_all
  from rbtree_equals_reference [OF this(2,1) l] obtain rs t q where
    r: "queue_run rbtree_push peekMin peekMax popMin popMax ?ops Leaf = Some (rs, t)"
      "queue_run pqueue_push pqueue_peekMin pqueue_peekMax pqueue_popMin pqueue_popMax ?ops (mkPrioq 4 8) = Some (rs, q)"
    by blast
  moreover have "rs = [None, None, None, Some 1, Some 2, Some 3]"
    using rbq.run_refines [of Leaf ?ops] r(1) by (simp add: ins_fifo_def first_min_def first_max_def del_entry_def)
  ultimately show ?thesis by blast
qed

text \<open>
  C9. Whatever legal sequence of pushes and pops a tree goes through, no operation runs into a nil node,
  and the tree stays a valid red-black tree: every path to a leaf has the same number of black nodes and
  no red node has a red child, as the program's own \<open>validateRBT\<close> checks.
\<close>

theorem rbtree_run_valid:
  assumes "legal (\<lambda>_. True) ops []"
  shows "\<exists>rs t. queue_run rbtree_push peekMin peekMax popMin popMax ops Leaf = Some (rs, t) \<and>
    validateRBT t \<and> bst t \<and> map snd (entries t) = addrs t"
  using rbq.run_refines [of Leaf ops] assms rbt_inv_Leaf unfolding rbt_inv_def map_snd_entries by auto

theorem rbtree_run_valid_witness:
  "\<exists>rs t. queue_run rbtree_push peekMin peekMax popMin popMax [Push 1 1, Push 2 2, Push 3 3, PopMax] Leaf = Some (rs, t) \<and>
    validateRBT t \<and> bst t"
  using rbtree_run_valid [of "[Push 1 1, Push 2 2, Push 3 3, PopMax]"] by (auto simp: ins_fifo_def)

text \<open>
  Price-time priority: the orders pushed into an empty tree come out by ascending price and, within a
  price, in the order in which they were pushed. The same sequence on a tree is a stable sort.
\<close>

theorem rbtree_price_time_order:
  assumes "distinct (map snd xs)"
  shows "\<exists>t. queue_run rbtree_push peekMin peekMax popMin popMax (push_all xs @ replicate (length xs) PopMin) Leaf =
      Some (replicate (length xs) None @ map (Some \<circ> snd) (sort_key fst xs), t) \<and> entries t = []"
  using rbq.drain_sorts [of Leaf xs] assms by simp

theorem rbtree_price_time_order_witness:
  "\<exists>t. queue_run rbtree_push peekMin peekMax popMin popMax
      [Push 9 1, Push 3 2, Push 9 3, Push 3 4, PopMin, PopMin, PopMin, PopMin] Leaf =
      Some ([None, None, None, None, Some 2, Some 4, Some 1, Some 3], t)"
proof -
  let ?xs = "[(9, 1), (3, 2), (9, 3), (3, 4)] :: pt_list"
  have "push_all ?xs @ replicate (length ?xs) PopMin = [Push 9 1, Push 3 2, Push 9 3, Push 3 4, PopMin, PopMin, PopMin, PopMin]"
    by (simp add: push_all_def eval_nat_numeral)
  moreover have "map (Some \<circ> snd) (sort_key fst ?xs) = [Some 2, Some 4, Some 1, Some 3]" by simp
  moreover have "replicate (length ?xs) None = [None, None, None, None]" by (simp add: eval_nat_numeral)
  moreover have "distinct (map snd ?xs)" by simp
  ultimately show ?thesis using rbtree_price_time_order [of ?xs] by (metis (no_types, lifting) append.simps)
qed

section \<open>The slab\<close>

lemma NewSlab_two:
  "NewSlab 2 = Inr \<lparr>cells = (\<lambda>_. zeroOrder)(0 := zeroOrder\<lparr>nextFree := Some 1\<rparr>), fresh = 2, free = Some 0\<rparr>"
  by (simp add: NewSlab_def numeral_2_eq_2)

text \<open>
  A freed node is the next one to be handed out, everything else in the slab as before; freeing it a
  second time changes nothing.
\<close>

theorem slab_recycles:
  assumes "slab_inv s fl" "a \<in> live s fl"
  shows "Malloc (Free a s) = (a, s) \<and> Free a (Free a s) = Free a s"
proof -
  have a: "nextFree (cells s a) = Some a" using assms by (auto simp: slab_inv_def live_def)
  then have "(cells s)(a := (cells s a)\<lparr>nextFree := Some a\<rparr>) = cells s"
    by (metis OrderNode.surjective OrderNode.update_convs(6) OrderNode.select_convs(6) fun_upd_triv)
  then have "Malloc (Free a s) = (a, s)"
    using a by (simp add: Malloc_def Free_def Let_def)
  moreover have "Free a (Free a s) = Free a s"
    using Free_correct(1) [OF assms] by (rule Free_idem) simp
  ultimately show ?thesis ..
qed

theorem slab_recycles_witness:
  "\<exists>s0 s. NewSlab 2 = Inr s0 \<and> Malloc s0 = (0, s) \<and> Malloc (Free 0 s) = (0, s)"
proof -
  let ?init = "\<lparr>cells = (\<lambda>_. zeroOrder)(0 := zeroOrder\<lparr>nextFree := Some 1\<rparr>), fresh = 2, free = Some 0\<rparr>"
  let ?s = "\<lparr>cells = (\<lambda>_. zeroOrder)(0 := zeroOrder\<lparr>nextFree := Some 0\<rparr>), fresh = 2, free = Some 1\<rparr>"
  have "slab_inv ?s [1]" "0 \<in> live ?s [1]"
    by (auto simp: slab_inv_def live_def zeroOrder_def less_Suc_eq numeral_2_eq_2 intro!: exI [of _ 0])
  from slab_recycles [OF this] have "Malloc (Free 0 ?s) = (0, ?s)" by simp
  moreover note NewSlab_two
  moreover have "Malloc ?init = (0, ?s)" by (simp add: Malloc_def Let_def)
  ultimately show ?thesis by blast
qed

end
