(* ===== verification/Nsq_Heap.thy ===== *)
theory Nsq_Heap
  imports Go_Prelude
begin

text \<open>
  The two priority queues of nsqd: the queue of in-flight messages (\<^verbatim>\<open>nsqd/in_flight_pqueue.go\<close>), a
  hand-written array heap, and the queue of deferred messages (\<^verbatim>\<open>internal/pqueue/pqueue.go\<close>), which goes
  through the standard library's \<^verbatim>\<open>container/heap\<close>. Both are lists of addresses with a capacity, ordered
  by a priority, and write each item's current position into the item. The two differ in how they
  choose between children of equal priority; the order lemmas are proved once for both.
\<close>

section \<open>Array heaps\<close>

text \<open>
  \<open>items\<close> is the slice and \<open>capac\<close> its capacity; \<open>index\<close> is the field of the items that holds the
  position. Positions are far below the range of Go's \<^verbatim>\<open>int\<close>, so they are \<open>nat\<close>. \<open>None\<close> is a panic.
\<close>

record pq =
  items :: "addr list"
  capac :: nat
  index :: "addr \<Rightarrow> int"

definition Swap :: "nat \<Rightarrow> nat \<Rightarrow> pq \<Rightarrow> pq option" where
  "Swap i j q =
     (if i < length (items q) \<and> j < length (items q) then
        (let xs = (items q)[i := items q ! j, j := items q ! i]
         in Some (q\<lparr>items := xs, index := (index q)(xs ! i := int i, xs ! j := int j)\<rparr>))
      else None)"

text \<open>The parent of a position; Go's division truncates, so that the parent of 0 is 0.\<close>

abbreviation parent :: "nat \<Rightarrow> nat" where
  "parent j \<equiv> (j - 1) div 2"

lemma parent_simps [simp]: "(j - Suc 0) div 2 = j \<longleftrightarrow> j = 0" "(j - Suc 0) div 2 < j \<longleftrightarrow> 0 < j"
  by linarith+

function up :: "(addr \<Rightarrow> int) \<Rightarrow> nat \<Rightarrow> pq \<Rightarrow> pq option" where
  "up pri j q =
     (let i = parent j in
      if i = j then Some q
      else if \<not> j < length (items q) then None
      else if pri (items q ! j) \<ge> pri (items q ! i) then Some q
      else do { q \<leftarrow> Swap i j q; up pri i q })"
  by pat_completeness auto
termination
  by (relation "measure (\<lambda>(pri, j, q). j)") auto

text \<open>\<open>ge\<close> decides whether the right child is taken: on ties in the in-flight queue, not in \<^verbatim>\<open>container/heap\<close>.\<close>

function down :: "(int \<Rightarrow> int \<Rightarrow> bool) \<Rightarrow> (addr \<Rightarrow> int) \<Rightarrow> nat \<Rightarrow> nat \<Rightarrow> pq \<Rightarrow> pq option" where
  "down right pri i n q =
     (let j1 = 2 * i + 1; j2 = j1 + 1 in
      if j1 \<ge> n then Some q
      else if \<not> (j1 < length (items q) \<and> (j2 < n \<longrightarrow> j2 < length (items q))) then None
      else
        (let j = (if j2 < n \<and> right (pri (items q ! j1)) (pri (items q ! j2)) then j2 else j1) in
         if pri (items q ! j) \<ge> pri (items q ! i) then Some q
         else do { q \<leftarrow> Swap i j q; down right pri j n q }))"
  by pat_completeness auto
termination
  by (relation "measure (\<lambda>(right, pri, i, n, q). n - i)") (auto split: if_splits)

declare up.simps [simp del] down.simps [simp del]

section \<open>The heap order\<close>

definition edge :: "(addr \<Rightarrow> int) \<Rightarrow> addr list \<Rightarrow> nat \<Rightarrow> bool" where
  "edge pri xs k \<longleftrightarrow> pri (xs ! parent k) \<le> pri (xs ! k)"

definition heap_order :: "(addr \<Rightarrow> int) \<Rightarrow> addr list \<Rightarrow> nat \<Rightarrow> bool" where
  "heap_order pri xs n \<longleftrightarrow> (\<forall>k < n. edge pri xs k)"

text \<open>Below \<open>i\<close> nothing is smaller than the parent of \<open>i\<close>.\<close>

definition grand :: "(addr \<Rightarrow> int) \<Rightarrow> addr list \<Rightarrow> nat \<Rightarrow> nat \<Rightarrow> bool" where
  "grand pri xs n i \<longleftrightarrow> (\<forall>k < n. 0 < k \<and> parent k = i \<and> 0 < i \<longrightarrow> pri (xs ! parent i) \<le> pri (xs ! k))"

definition good_idx :: "pq \<Rightarrow> bool" where
  "good_idx q \<longleftrightarrow> distinct (items q) \<and> (\<forall>k < length (items q). index q (items q ! k) = int k)"

text \<open>What a sift changes besides the order: nothing but positions among the first \<open>n\<close> items.\<close>

definition sifted :: "pq \<Rightarrow> pq \<Rightarrow> bool" where
  "sifted q q' \<longleftrightarrow> good_idx q' \<and> capac q' = capac q \<and> mset (items q') = mset (items q) \<and>
     (\<forall>x. x \<notin> set (items q) \<longrightarrow> index q' x = index q x)"

lemma Swap_correct:
  assumes "good_idx q" "i < length (items q)" "j < length (items q)"
  shows "\<exists>q'. Swap i j q = Some q' \<and> items q' = (items q)[i := items q ! j, j := items q ! i] \<and> sifted q q'"
proof -
  let ?xs = "(items q)[i := items q ! j, j := items q ! i]"
  let ?q = "q\<lparr>items := ?xs, index := (index q)(?xs ! i := int i, ?xs ! j := int j)\<rparr>"
  have m: "mset ?xs = mset (items q)" using assms by (simp add: mset_swap)
  then have d: "distinct ?xs" "set ?xs = set (items q)"
    using assms(1) mset_eq_imp_distinct_iff [OF m] mset_eq_setD [OF m] by (simp_all add: good_idx_def)
  have "index ?q (?xs ! k) = int k" if k: "k < length (items q)" for k
  proof -
    have "?xs ! k = ?xs ! i \<longleftrightarrow> k = i" "?xs ! k = ?xs ! j \<longleftrightarrow> k = j"
      by (rule nth_eq_iff_index_eq [OF d(1)]; use k assms in simp)+
    then show ?thesis using assms k by (auto simp: good_idx_def nth_list_update)
  qed
  moreover have "?xs ! i \<in> set (items q)" "?xs ! j \<in> set (items q)"
    using assms d(2) by (metis length_list_update nth_mem)+
  ultimately show ?thesis using assms m d by (auto simp: Swap_def Let_def good_idx_def sifted_def)
qed

lemma sifted_refl: "good_idx q \<Longrightarrow> sifted q q"
  by (simp add: sifted_def)

lemma sifted_trans: "sifted q r \<Longrightarrow> sifted r s \<Longrightarrow> sifted q s"
  by (auto simp: sifted_def dest: mset_eq_setD)

lemma sifted_length: "sifted q q' \<Longrightarrow> length (items q') = length (items q)" "sifted q q' \<Longrightarrow> set (items q') = set (items q)"
  by (auto simp: sifted_def dest: mset_eq_length mset_eq_setD)

lemma up_correct:
  assumes "good_idx q" "j < n" "n \<le> length (items q)"
    and "\<forall>k < n. k \<noteq> j \<longrightarrow> edge pri (items q) k" "grand pri (items q) n j"
  shows "\<exists>q'. up pri j q = Some q' \<and> sifted q q' \<and> heap_order pri (items q') n \<and>
    (\<forall>k \<ge> n. k < length (items q) \<longrightarrow> items q' ! k = items q ! k)"
  using assms
proof (induction pri j q rule: up.induct)
  case (1 pri j q)
  let ?i = "parent j" and ?xs = "items q"
  show ?case
  proof (cases "?i = j \<or> pri (?xs ! j) \<ge> pri (?xs ! ?i)")
    case True
    then have "edge pri ?xs j" by (metis edge_def order_refl)
    with 1 have "heap_order pri ?xs n" by (auto simp: heap_order_def)
    moreover have "up pri j q = Some q" using True 1 by (subst up.simps) (auto simp: Let_def)
    ultimately show ?thesis using 1 by (auto simp: sifted_refl)
  next
    case False
    then have ij: "?i < j" "pri (?xs ! j) < pri (?xs ! ?i)" "0 < j" by (auto intro: le_neq_trans)
    obtain q1 where q1: "Swap ?i j q = Some q1" "items q1 = ?xs[?i := ?xs ! j, j := ?xs ! ?i]" "sifted q q1"
      using Swap_correct [OF 1(2), of ?i j] less_le_trans [OF 1(3,4)] less_trans [OF ij(1)] by blast
    let ?ys = "items q1"
    have ys: "?ys ! k = (if k = ?i then ?xs ! j else if k = j then ?xs ! ?i else ?xs ! k)" if "k < n" for k
      using that ij 1(3,4) by (simp add: q1(2) nth_list_update)
    have E: "pri (?xs ! parent k) \<le> pri (?xs ! k)" if "k < n" "k \<noteq> j" for k
      using 1(5) that by (auto simp: edge_def)
    have G: "pri (?xs ! ?i) \<le> pri (?xs ! k)" if "k < n" "0 < k" "parent k = j" for k
      using 1(6) that ij by (auto simp: grand_def)
    have edges: "edge pri ?ys k" if "k < n" "k \<noteq> ?i" for k
    proof -
      have pk: "parent k < n" using that by simp
      consider "k = j" | "k \<noteq> j" "parent k = j" | "k \<noteq> j" "parent k = ?i" "parent k \<noteq> j" | "parent k \<noteq> ?i" "parent k \<noteq> j" "k \<noteq> j" by blast
      then show ?thesis
      proof cases
        case 1
        then show ?thesis using ij that ys pk by (simp add: edge_def)
      next
        case 2
        then show ?thesis using that G [of k] ij ys [of k] ys [of j] by (cases k) (auto simp: edge_def)
      next
        case 3
        then show ?thesis using that E [of k] ij ys [of k] ys [OF pk] by (auto simp: edge_def)
      next
        case 4
        then show ?thesis using that E [of k] ys [of k] ys [OF pk] by (auto simp: edge_def)
      qed
    qed
    have gr: "grand pri ?ys n ?i"
      unfolding grand_def
    proof (intro allI impI)
      fix k assume k: "k < n" "0 < k \<and> parent k = ?i \<and> 0 < ?i"
      have pi: "parent ?i < ?i" using k by linarith
      have "pri (?xs ! parent ?i) \<le> pri (?xs ! ?i)" using E [of ?i] ij 1(3) by simp
      moreover have "pri (?xs ! ?i) \<le> pri (?ys ! k)"
        using k ij ys [of k] E [of k] by (cases "k = j") auto
      moreover have "parent ?i < n" "parent ?i \<noteq> ?i" "parent ?i \<noteq> j" using pi ij(1) 1(3) by linarith+
      then have "?ys ! parent ?i = ?xs ! parent ?i" using ys [of "parent ?i"] by metis
      ultimately show "pri (?ys ! parent ?i) \<le> pri (?ys ! k)" by simp
    qed
    have len: "length ?ys = length ?xs" and gi: "good_idx q1" using q1(3) by (auto simp: sifted_def dest: mset_eq_length)
    have lt: "\<not> \<not> j < length ?xs" using 1(3,4) by simp
    have ilt: "?i < n" using ij(1) 1(3) by linarith
    from "1.IH" [OF refl _ lt _ q1(1) gi ilt _ _ gr] False edges 1(4) len obtain q' where
      q': "up pri ?i q1 = Some q'" "sifted q1 q'" "heap_order pri (items q') n"
        "\<forall>k \<ge> n. k < length ?ys \<longrightarrow> items q' ! k = ?ys ! k" by auto
    moreover have "up pri j q = Some q'"
      using False lt q1(1) q'(1) by (subst up.simps) (simp add: Let_def)
    moreover have "?ys ! k = ?xs ! k" if "k \<ge> n" "k < length ?xs" for k
      using that ij 1(3) by (simp add: q1(2))
    ultimately show ?thesis using sifted_trans [OF q1(3)] len by auto
  qed
qed


text \<open>
  A choice between children: the right one is taken only if it is not larger, and always if it is smaller.
\<close>

definition picks :: "(int \<Rightarrow> int \<Rightarrow> bool) \<Rightarrow> bool" where
  "picks right \<longleftrightarrow> (\<forall>l r. (right l r \<longrightarrow> r \<le> l) \<and> (\<not> right l r \<longrightarrow> l \<le> r))"

lemma child_cases: "0 < k \<Longrightarrow> parent k = i \<longleftrightarrow> k = 2 * i + 1 \<or> k = 2 * i + 2"
  by linarith

text \<open>Whether \<open>down\<close> moves the item it starts with.\<close>

definition moves :: "(int \<Rightarrow> int \<Rightarrow> bool) \<Rightarrow> (addr \<Rightarrow> int) \<Rightarrow> nat \<Rightarrow> nat \<Rightarrow> pq \<Rightarrow> bool" where
  "moves right pri i n q =
     (let j1 = 2 * i + 1; j2 = j1 + 1;
          j = (if j2 < n \<and> right (pri (items q ! j1)) (pri (items q ! j2)) then j2 else j1)
      in j1 < n \<and> pri (items q ! j) < pri (items q ! i))"

lemma down_correct:
  assumes "picks right" "good_idx q" "i < n" "n \<le> length (items q)"
    and "\<forall>k < n. k \<noteq> i \<longrightarrow> parent k \<noteq> i \<longrightarrow> edge pri (items q) k" "grand pri (items q) n i"
  shows "\<exists>q'. down right pri i n q = Some q' \<and> sifted q q' \<and>
    (\<forall>k < n. k \<noteq> i \<longrightarrow> edge pri (items q') k) \<and> grand pri (items q') n i \<and>
    (\<forall>k < length (items q). k < i \<or> n \<le> k \<longrightarrow> items q' ! k = items q ! k) \<and>
    (\<forall>b. b \<le> pri (items q ! i) \<longrightarrow> (\<forall>k < n. 0 < k \<and> parent k = i \<longrightarrow> b \<le> pri (items q ! k)) \<longrightarrow> b \<le> pri (items q' ! i)) \<and>
    (moves right pri i n q \<longrightarrow> edge pri (items q') i)"
  using assms(2-)
proof (induction "n - i" arbitrary: i q rule: less_induct)
  case less
  let ?xs = "items q" and ?j1 = "2 * i + 1" and ?j2 = "2 * i + 2"
  let ?j = "if ?j2 < n \<and> right (pri (?xs ! ?j1)) (pri (?xs ! ?j2)) then ?j2 else ?j1"
  have E: "pri (?xs ! parent k) \<le> pri (?xs ! k)" if "k < n" "k \<noteq> i" "parent k \<noteq> i" for k
    using less.prems(4) that by (auto simp: edge_def)
  have D: "down right pri i n q = (if ?j1 \<ge> n then Some q
      else if pri (?xs ! ?j) \<ge> pri (?xs ! i) then Some q else do { q \<leftarrow> Swap i ?j q; down right pri ?j n q })"
    using less.prems(3) by (subst down.simps) (auto simp: Let_def)
  have jmin: "pri (?xs ! ?j) \<le> pri (?xs ! k)" if "k < n" "0 < k" "parent k = i" for k
    using that assms(1) unfolding child_cases [OF that(2)] picks_def by (auto simp: not_less)
  show ?case
  proof (cases "?j1 \<ge> n \<or> pri (?xs ! ?j) \<ge> pri (?xs ! i)")
    case True
    have "edge pri ?xs k" if k: "k < n" "k \<noteq> i" for k
    proof (cases "0 < k \<and> parent k = i")
      case c: True
      then have "\<not> ?j1 \<ge> n" using k child_cases by fastforce
      then have "pri (?xs ! i) \<le> pri (?xs ! ?j)" using True by simp
      then show ?thesis using jmin [of k] c k by (auto simp: edge_def intro: order_trans)
    next
      case False
      then show ?thesis using E [of k] k by (cases "k = 0") (auto simp: edge_def)
    qed
    moreover have "down right pri i n q = Some q" using D True by auto
    moreover have "\<not> moves right pri i n q" using True by (auto simp: moves_def Let_def)
    ultimately show ?thesis using less.prems by (auto simp: sifted_refl)
  next
    case False
    have j: "?j < n" "i < ?j" "0 < ?j" "parent ?j = i" "pri (?xs ! ?j) < pri (?xs ! i)" using False by auto
    define j where "j = ?j"
    note j = j [folded j_def] and jmin = jmin [folded j_def]
    obtain q1 where q1: "Swap i j q = Some q1" "items q1 = ?xs[i := ?xs ! j, j := ?xs ! i]" "sifted q q1"
      using Swap_correct [OF less.prems(1), of i j] less.prems(2,3) j(1) by auto
    let ?ys = "items q1"
    have ys: "?ys ! k = (if k = i then ?xs ! j else if k = j then ?xs ! i else ?xs ! k)" if "k < length ?xs" for k
      using that j less.prems(2,3) by (simp add: q1(2) nth_list_update)
    have len: "length ?ys = length ?xs" and gi: "good_idx q1" using q1(3) sifted_length(1) by (auto simp: sifted_def)
    have ch: "pri (?xs ! j) \<le> pri (?xs ! k)" if "k < n" "0 < k" "parent k = j" for k
      using E [of k] that j(2,4) by auto
    have up_i: "pri (?xs ! parent i) \<le> pri (?xs ! j)" if "0 < i"
      using less.prems(5) that j by (auto simp: grand_def)
    have pre: "edge pri ?ys k" if k: "k < n" "k \<noteq> j" "parent k \<noteq> j" for k
    proof -
      have pk: "parent k < length ?xs" "k < length ?xs" using k less.prems(3) by linarith+
      consider "k = i" "i = 0" | "k = i" "0 < i" | "k \<noteq> i" "0 < k" "parent k = i" | "k \<noteq> i" "parent k \<noteq> i"
        by (cases "k = 0") auto
      then show ?thesis
      proof cases
        case 2
        then have "parent i \<noteq> i" by simp
        then show ?thesis using up_i ys [OF pk(1)] ys [OF pk(2)] 2 k unfolding edge_def by metis
      next
        case 3
        then show ?thesis using jmin [OF k(1)] ys [OF pk(1)] ys [OF pk(2)] k unfolding edge_def by metis
      next
        case 4
        then show ?thesis using E [OF k(1)] ys [OF pk(1)] ys [OF pk(2)] k unfolding edge_def by metis
      qed (simp add: edge_def)
    qed
    have gr: "grand pri ?ys n j"
      unfolding grand_def
    proof (intro allI impI)
      fix k assume k: "k < n" "0 < k \<and> parent k = j \<and> 0 < j"
      then have "k \<noteq> i" "k \<noteq> j" using j(2) by auto
      then show "pri (?ys ! parent j) \<le> pri (?ys ! k)"
        using ch [of k] k ys [of i] ys [of k] less.prems(2,3) j(4) by auto
    qed
    have "n - j < n - i" "n \<le> length ?ys" using j(1,2) less.prems(3) len by linarith+
    from less.hyps [OF this(1) gi j(1) this(2) _ gr] pre obtain q' where
      q': "down right pri j n q1 = Some q'" "sifted q1 q'" "\<forall>k < n. k \<noteq> j \<longrightarrow> edge pri (items q') k"
        "\<forall>k < length ?ys. k < j \<or> n \<le> k \<longrightarrow> items q' ! k = ?ys ! k"
        "\<And>b. b \<le> pri (?ys ! j) \<Longrightarrow> (\<forall>k < n. 0 < k \<and> parent k = j \<longrightarrow> b \<le> pri (?ys ! k)) \<Longrightarrow> b \<le> pri (items q' ! j)"
      by auto
    have same: "items q' ! k = ?xs ! k" if "k < length ?xs" "k < i \<or> n \<le> k" for k
      using that q'(4) ys [OF that(1)] len j(1,2) by auto
    have qi: "items q' ! i = ?xs ! j" using q'(4) ys [of i] len j(2) less.prems(2,3) by auto
    have yj: "?ys ! j = ?xs ! i" using ys [of j] j(1,2) less.prems(3) by auto
    have low: "b \<le> pri (items q' ! j)" if "b \<le> pri (?xs ! j)" for b
    proof (rule q'(5))
      show "b \<le> pri (?ys ! j)" using that j(5) yj by simp
      show "\<forall>k < n. 0 < k \<and> parent k = j \<longrightarrow> b \<le> pri (?ys ! k)"
        using ch ys that less.prems(3) j(2) by (auto intro: order_trans)
    qed
    have ej: "edge pri (items q') j" using low [of "pri (?xs ! j)"] qi j(4) by (simp add: edge_def)
    have edges: "edge pri (items q') k" if "k < n" "k \<noteq> i" for k using q'(3) ej that by (cases "k = j") auto
    have par: "items q' ! parent i = ?xs ! parent i" if "0 < i"
      using that same [of "parent i"] less.prems(2,3) parent_simps(2) [of i] by (metis One_nat_def less_trans order_less_le_trans)
    then have "edge pri (items q') i" using up_i qi by (cases "i = 0") (auto simp: edge_def)
    moreover have "grand pri (items q') n i"
      unfolding grand_def
    proof (intro allI impI)
      fix k assume k: "k < n" "0 < k \<and> parent k = i \<and> 0 < i"
      then have "k \<noteq> i" by auto
      from edges [OF k(1) this] k qi have "pri (?xs ! j) \<le> pri (items q' ! k)" by (simp add: edge_def)
      then show "pri (items q' ! parent i) \<le> pri (items q' ! k)" using up_i k par by simp
    qed
    moreover have "down right pri i n q = Some q'" using D [folded j_def] q1(1) q'(1) False [folded j_def] by simp
    ultimately show ?thesis using sifted_trans [OF q1(3) q'(2)] edges same qi j by (intro exI [of _ q']) auto
  qed
qed


section \<open>in\_flight\_pqueue.go\<close>

definition newInFlightPqueue :: "nat \<Rightarrow> pq" where
  "newInFlightPqueue capacity = \<lparr>items = [], capac = capacity, index = (\<lambda>_. 0)\<rparr>"

text \<open>\<^verbatim>\<open>append\<close> by hand: the new slice is twice as large, and slicing beyond the capacity panics.\<close>

definition grow :: "pq \<Rightarrow> pq option" where
  "grow q =
     (let n = length (items q);
          c = (if n + 1 > capac q then capac q * 2 else capac q)
      in if n + 1 \<le> c then Some (q\<lparr>capac := c\<rparr>) else None)"

definition shrink :: "pq \<Rightarrow> pq" where
  "shrink q =
     (if length (items q) < capac q div 2 \<and> capac q > 25 then q\<lparr>capac := capac q div 2\<rparr> else q)"

definition ifq_Push :: "(addr \<Rightarrow> int) \<Rightarrow> addr \<Rightarrow> pq \<Rightarrow> pq option" where
  "ifq_Push pri x q = do {
     let n = length (items q);
     q \<leftarrow> grow q;
     up pri n (q\<lparr>items := items q @ [x], index := (index q)(x := int n)\<rparr>) }"

text \<open>The end of \<^verbatim>\<open>Pop\<close> and \<^verbatim>\<open>Remove\<close>: the last item leaves the slice and its index becomes -1.\<close>

definition dropLast :: "pq \<Rightarrow> (addr \<times> pq) option" where
  "dropLast q =
     (if items q = [] then None
      else (let x = last (items q) in Some (x, q\<lparr>items := butlast (items q), index := (index q)(x := -1)\<rparr>)))"

definition ifq_right :: "int \<Rightarrow> int \<Rightarrow> bool" where
  "ifq_right l r \<longleftrightarrow> l \<ge> r"

definition ifq_down :: "(addr \<Rightarrow> int) \<Rightarrow> nat \<Rightarrow> nat \<Rightarrow> pq \<Rightarrow> pq option" where
  "ifq_down = down ifq_right"

definition ifq_Pop :: "(addr \<Rightarrow> int) \<Rightarrow> pq \<Rightarrow> (addr \<times> pq) option" where
  "ifq_Pop pri q =
     (let n = length (items q) in
      if n = 0 then None
      else do {
        q \<leftarrow> Swap 0 (n - 1) q;
        q \<leftarrow> ifq_down pri 0 (n - 1) q;
        dropLast (shrink q) })"

definition ifq_Remove :: "(addr \<Rightarrow> int) \<Rightarrow> nat \<Rightarrow> pq \<Rightarrow> (addr \<times> pq) option" where
  "ifq_Remove pri i q =
     (let n = length (items q) in
      if n = 0 then None
      else do {
        q \<leftarrow> (if n - 1 \<noteq> i then do {
                q \<leftarrow> Swap i (n - 1) q;
                q \<leftarrow> ifq_down pri i (n - 1) q;
                up pri i q }
              else Some q);
        dropLast q })"

text \<open>The second result is the time to wait, a subtraction of \<^verbatim>\<open>int64\<close>.\<close>

definition int64 :: "int \<Rightarrow> int" where
  "int64 x = signed_take_bit 63 x"

definition ifq_PeekAndShift :: "(addr \<Rightarrow> int) \<Rightarrow> int \<Rightarrow> pq \<Rightarrow> ((addr option \<times> int) \<times> pq) option" where
  "ifq_PeekAndShift pri mx q =
     (if items q = [] then Some ((None, 0), q)
      else
        (let x = hd (items q) in
         if pri x > mx then Some ((None, int64 (pri x - mx)), q)
         else do { (_, q) \<leftarrow> ifq_Pop pri q; Some ((Some x, 0), q) }))"

section \<open>pqueue.go, with the standard library's container/heap\<close>

definition pqueue_New :: "nat \<Rightarrow> pq" where
  "pqueue_New capacity = \<lparr>items = [], capac = capacity, index = (\<lambda>_. 0)\<rparr>"

definition Less :: "(addr \<Rightarrow> int) \<Rightarrow> pq \<Rightarrow> nat \<Rightarrow> nat \<Rightarrow> bool" where
  "Less pri q i j \<longleftrightarrow> pri (items q ! i) < pri (items q ! j)"

definition pqueue_Push :: "addr \<Rightarrow> pq \<Rightarrow> pq option" where
  "pqueue_Push x q = do {
     let n = length (items q);
     q \<leftarrow> grow q;
     Some (q\<lparr>items := items q @ [x], index := (index q)(x := int n)\<rparr>) }"

definition pqueue_Pop :: "pq \<Rightarrow> (addr \<times> pq) option" where
  "pqueue_Pop q = dropLast (shrink q)"

text \<open>\<^verbatim>\<open>heap.Push\<close> and \<^verbatim>\<open>heap.Remove\<close>; \<^verbatim>\<open>down\<close> reports whether it moved the item.\<close>

definition heap_right :: "int \<Rightarrow> int \<Rightarrow> bool" where
  "heap_right l r \<longleftrightarrow> r < l"

definition heap_Push :: "(addr \<Rightarrow> int) \<Rightarrow> addr \<Rightarrow> pq \<Rightarrow> pq option" where
  "heap_Push pri x q = do { q \<leftarrow> pqueue_Push x q; up pri (length (items q) - 1) q }"

definition heap_Remove :: "(addr \<Rightarrow> int) \<Rightarrow> nat \<Rightarrow> pq \<Rightarrow> (addr \<times> pq) option" where
  "heap_Remove pri i q =
     (if items q = [] then None
      else do {
        let n = length (items q) - 1;
        q \<leftarrow> (if n \<noteq> i then do {
                q \<leftarrow> Swap i n q;
                q' \<leftarrow> down heap_right pri i n q;
                if moves heap_right pri i n q then Some q' else up pri i q' }
              else Some q);
        pqueue_Pop q })"

definition pqueue_PeekAndShift :: "(addr \<Rightarrow> int) \<Rightarrow> int \<Rightarrow> pq \<Rightarrow> ((addr option \<times> int) \<times> pq) option" where
  "pqueue_PeekAndShift pri mx q =
     (if items q = [] then Some ((None, 0), q)
      else
        (let x = hd (items q) in
         if pri x > mx then Some ((None, int64 (pri x - mx)), q)
         else do { (_, q) \<leftarrow> heap_Remove pri 0 q; Some ((Some x, 0), q) }))"

section \<open>The invariant and what each operation does\<close>

definition pq_inv :: "(addr \<Rightarrow> int) \<Rightarrow> pq \<Rightarrow> bool" where
  "pq_inv pri q \<longleftrightarrow> good_idx q \<and> 0 < capac q \<and> length (items q) \<le> capac q \<and> heap_order pri (items q) (length (items q))"

lemma picks_right: "picks ifq_right" "picks heap_right"
  by (auto simp: picks_def ifq_right_def heap_right_def)

text \<open>The root of a heap is smallest.\<close>

lemma heap_root:
  assumes "heap_order pri xs n" "k < n"
  shows "pri (xs ! 0) \<le> pri (xs ! k)"
  using assms(2)
proof (induction k rule: less_induct)
  case (less k)
  show ?case
  proof (cases "k = 0")
    case False
    then have p: "parent k < k" by simp
    then have "pri (xs ! 0) \<le> pri (xs ! parent k)" using less by (meson order.strict_trans)
    also have "\<dots> \<le> pri (xs ! k)" using assms(1) less.prems by (auto simp: heap_order_def edge_def)
    finally show ?thesis .
  qed simp
qed


text \<open>Bringing the item at \<open>i\<close> to the end and restoring the order of the others.\<close>

lemma sift_out:
  assumes pk: "picks right" and q: "good_idx q" "heap_order pri (items q) (Suc n)" and n: "length (items q) = Suc n" "i < n"
  shows "\<exists>q1 q2 q3. Swap i n q = Some q1 \<and> down right pri i n q1 = Some q2 \<and> up pri i q2 = Some q3 \<and>
    sifted q q3 \<and> heap_order pri (items q3) n \<and> items q3 ! n = items q ! i \<and>
    (moves right pri i n q1 \<or> i = 0 \<longrightarrow> sifted q q2 \<and> heap_order pri (items q2) n \<and> items q2 ! n = items q ! i)"
proof -
  let ?xs = "items q"
  obtain q1 where q1: "Swap i n q = Some q1" "items q1 = ?xs[i := ?xs ! n, n := ?xs ! i]" "sifted q q1"
    using Swap_correct [OF q(1), of i n] n by auto
  let ?ys = "items q1"
  have len: "length ?ys = Suc n" using sifted_length [OF q1(3)] n by simp
  have gi: "good_idx q1" using q1(3) by (simp add: sifted_def)
  have ys: "?ys ! k = ?xs ! k" if "k < n" "k \<noteq> i" for k using that n by (simp add: q1(2))
  have E: "pri (?xs ! parent k) \<le> pri (?xs ! k)" if "k < n" for k
    using q(2) that by (simp add: heap_order_def edge_def)
  have hole: "\<forall>k < n. k \<noteq> i \<longrightarrow> parent k \<noteq> i \<longrightarrow> edge pri ?ys k"
    using E ys by (auto simp: edge_def)
  have "grand pri ?ys n i"
    unfolding grand_def
  proof (intro allI impI)
    fix k assume k: "k < n" "0 < k \<and> parent k = i \<and> 0 < i"
    then have "k \<noteq> i" "parent i < n" "parent i \<noteq> i" using n by auto
    then show "pri (?ys ! parent i) \<le> pri (?ys ! k)"
      using E [of k] E [of i] n k ys [of "parent i"] ys [of k] by auto
  qed
  from down_correct [OF pk gi n(2) _ hole this] len obtain q2 where
    q2: "down right pri i n q1 = Some q2" "sifted q1 q2" "\<forall>k < n. k \<noteq> i \<longrightarrow> edge pri (items q2) k" "grand pri (items q2) n i"
      "items q2 ! n = ?ys ! n" "moves right pri i n q1 \<longrightarrow> edge pri (items q2) i" by auto
  have len2: "length (items q2) = Suc n" "good_idx q2" using sifted_length [OF q2(2)] len q2(2) by (auto simp: sifted_def)
  from up_correct [OF len2(2) n(2) _ q2(3,4)] len2 obtain q3 where
    q3: "up pri i q2 = Some q3" "sifted q2 q3" "heap_order pri (items q3) n" "items q3 ! n = items q2 ! n" by auto
  have last: "?ys ! n = ?xs ! i" using n by (simp add: q1(2))
  have "heap_order pri (items q2) n" if "moves right pri i n q1 \<or> i = 0"
  proof -
    have "edge pri (items q2) i" using that q2(6) by (auto simp: edge_def)
    then show ?thesis using q2(3) by (auto simp: heap_order_def)
  qed
  then show ?thesis
    using q1(1) q2(1,5) q3 last sifted_trans [OF q1(3) q2(2)] sifted_trans [OF _ q3(2)] by auto
qed

text \<open>An item \<open>x\<close> has left the queue.\<close>

definition removed :: "(addr \<Rightarrow> int) \<Rightarrow> pq \<Rightarrow> addr \<Rightarrow> pq \<Rightarrow> bool" where
  "removed pri q x q' \<longleftrightarrow> pq_inv pri q' \<and> mset (items q) = add_mset x (mset (items q')) \<and> index q' x = -1 \<and>
     (\<forall>y. y \<notin> set (items q) \<longrightarrow> index q' y = index q y)"

lemma dropLast_correct:
  assumes q2: "sifted q q2" "heap_order pri (items q2) n" "items q2 ! n = x"
    and q: "length (items q) = Suc n" "length (items q) \<le> capac q" "0 < capac q"
    and q3: "q3 = q2 \<or> q3 = shrink q2"
  shows "\<exists>q'. dropLast q3 = Some (x, q') \<and> removed pri q x q'"
proof -
  have it: "items q3 = items q2" "index q3 = index q2" using q3 by (auto simp: shrink_def)
  have len: "length (items q2) = Suc n" using sifted_length [OF q2(1)] q by simp
  then have ne: "items q2 \<noteq> []" by auto
  have last: "last (items q2) = x" using q2(3) len by (simp add: last_conv_nth [OF ne])
  let ?q = "q3\<lparr>items := butlast (items q3), index := (index q3)(x := -1)\<rparr>"
  have d: "distinct (items q2)" "\<forall>k < Suc n. index q2 (items q2 ! k) = int k" using q2(1) len by (auto simp: sifted_def good_idx_def)
  have bl: "butlast (items q2) ! k = items q2 ! k" if "k < n" for k using that len by (simp add: nth_butlast)
  have xn: "items q2 ! k \<noteq> x" if "k < n" for k
    using that d(1) len nth_eq_iff_index_eq [of "items q2" k n] q2(3) by auto
  have "heap_order pri (butlast (items q2)) n"
    using q2(2) bl by (auto simp: heap_order_def edge_def)
  moreover have "length (items q2) \<le> capac q2" "0 < capac q2" using q q2(1) len by (auto simp: sifted_def)
  then have "n \<le> capac q3" "0 < capac q3" using q3 len by (auto simp: shrink_def)
  ultimately have "pq_inv pri ?q"
    using len d bl xn by (auto simp: pq_inv_def good_idx_def it distinct_butlast)
  moreover have "mset (items q) = add_mset x (mset (butlast (items q2)))"
    using q2(1) ne last by (metis append_butlast_last_id mset.simps(1) mset.simps(2) sifted_def union_code mset_append add_mset_add_single)
  moreover have "x \<in> set (items q)" using sifted_length(2) [OF q2(1)] last ne last_in_set by metis
  ultimately have "removed pri q x ?q" using q2(1) it by (auto simp: removed_def sifted_def)
  moreover have "dropLast q3 = Some (x, ?q)" using ne last it by (simp add: dropLast_def Let_def)
  ultimately show ?thesis by blast
qed


lemma ifq_Remove_correct:
  assumes "pq_inv pri q" "i < length (items q)"
  shows "\<exists>q'. ifq_Remove pri i q = Some (items q ! i, q') \<and> removed pri q (items q ! i) q'"
proof -
  obtain n where n: "length (items q) = Suc n" using assms(2) by (cases "length (items q)") auto
  have I: "good_idx q" "heap_order pri (items q) (Suc n)" "length (items q) \<le> capac q" "0 < capac q"
    using assms(1) n by (auto simp: pq_inv_def)
  show ?thesis
  proof (cases "i = n")
    case True
    have "heap_order pri (items q) n" using I(2) by (simp add: heap_order_def)
    from dropLast_correct [OF sifted_refl [OF I(1)] this refl n I(3,4) disjI1 [OF refl]] True n show ?thesis
      by (auto simp: ifq_Remove_def)
  next
    case False
    then have "i < n" using assms(2) n by simp
    from sift_out [OF picks_right(1) I(1,2) n this] obtain q1 q2 q3 where
      s: "Swap i n q = Some q1" "down ifq_right pri i n q1 = Some q2" "up pri i q2 = Some q3" "sifted q q3"
        "heap_order pri (items q3) n" "items q3 ! n = items q ! i" by blast
    from dropLast_correct [OF s(4,5,6) n I(3,4) disjI1 [OF refl]] s False n show ?thesis
      by (auto simp: ifq_Remove_def ifq_down_def)
  qed
qed

lemma ifq_Pop_correct:
  assumes "pq_inv pri q" "items q \<noteq> []"
  shows "\<exists>q'. ifq_Pop pri q = Some (hd (items q), q') \<and> removed pri q (hd (items q)) q'"
proof -
  obtain n where n: "length (items q) = Suc n" using assms(2) by (cases "length (items q)") auto
  have I: "good_idx q" "heap_order pri (items q) (Suc n)" "length (items q) \<le> capac q" "0 < capac q"
    using assms(1) n by (auto simp: pq_inv_def)
  have hd: "hd (items q) = items q ! 0" using assms(2) by (simp add: hd_conv_nth)
  show ?thesis
  proof (cases "n = 0")
    case True
    have "Swap 0 0 q = Some (q\<lparr>index := (index q)(items q ! 0 := 0)\<rparr>)" using n by (simp add: Swap_def)
    moreover have "index q (items q ! 0) = 0" using I(1) n by (simp add: good_idx_def)
    then have "(index q)(items q ! 0 := 0) = index q" by auto
    ultimately have sw: "Swap 0 0 q = Some q" by simp
    moreover have "ifq_down pri 0 0 q = Some q" by (simp add: ifq_down_def down.simps)
    moreover have "heap_order pri (items q) 0" by (simp add: heap_order_def)
    ultimately show ?thesis
      using dropLast_correct [OF sifted_refl [OF I(1)], of pri n "items q ! 0" "shrink q"] n I True hd
      by (auto simp: ifq_Pop_def)
  next
    case False
    from sift_out [OF picks_right(1) I(1,2) n, of 0] False obtain q1 q2 where
      s: "Swap 0 n q = Some q1" "down ifq_right pri 0 n q1 = Some q2" "sifted q q2"
        "heap_order pri (items q2) n" "items q2 ! n = items q ! 0" by blast
    from dropLast_correct [OF s(3,4,5) n I(3,4) disjI2 [OF refl]] s n hd show ?thesis
      by (auto simp: ifq_Pop_def ifq_down_def)
  qed
qed

lemma heap_Remove_correct:
  assumes "pq_inv pri q" "i < length (items q)"
  shows "\<exists>q'. heap_Remove pri i q = Some (items q ! i, q') \<and> removed pri q (items q ! i) q'"
proof -
  obtain n where n: "length (items q) = Suc n" using assms(2) by (cases "length (items q)") auto
  have ne: "items q \<noteq> []" using n by auto
  have I: "good_idx q" "heap_order pri (items q) (Suc n)" "length (items q) \<le> capac q" "0 < capac q"
    using assms(1) n by (auto simp: pq_inv_def)
  show ?thesis
  proof (cases "i = n")
    case True
    have "heap_order pri (items q) n" using I(2) by (simp add: heap_order_def)
    from dropLast_correct [OF sifted_refl [OF I(1)] this refl n I(3,4) disjI2 [OF refl]] True n ne show ?thesis
      by (auto simp: heap_Remove_def pqueue_Pop_def)
  next
    case False
    then have "i < n" using assms(2) n by simp
    from sift_out [OF picks_right(2) I(1,2) n this] obtain q1 q2 q3 where
      s: "Swap i n q = Some q1" "down heap_right pri i n q1 = Some q2" "up pri i q2 = Some q3" "sifted q q3"
        "heap_order pri (items q3) n" "items q3 ! n = items q ! i"
        "moves heap_right pri i n q1 \<Longrightarrow> sifted q q2 \<and> heap_order pri (items q2) n \<and> items q2 ! n = items q ! i" by blast
    show ?thesis
    proof (cases "moves heap_right pri i n q1")
      case True
      with dropLast_correct [of q q2 pri n "items q ! i" "shrink q2"] s n I False ne show ?thesis
        by (auto simp: heap_Remove_def pqueue_Pop_def)
    next
      case nm: False
      with dropLast_correct [OF s(4,5,6) n I(3,4) disjI2 [OF refl]] s n False ne show ?thesis
        by (auto simp: heap_Remove_def pqueue_Pop_def)
    qed
  qed
qed

text \<open>An item \<open>x\<close> has been added.\<close>

definition added :: "(addr \<Rightarrow> int) \<Rightarrow> pq \<Rightarrow> addr \<Rightarrow> pq \<Rightarrow> bool" where
  "added pri q x q' \<longleftrightarrow> pq_inv pri q' \<and> mset (items q') = add_mset x (mset (items q)) \<and>
     (\<forall>y. y \<notin> insert x (set (items q)) \<longrightarrow> index q' y = index q y)"

lemma push_correct:
  assumes "pq_inv pri q" "x \<notin> set (items q)"
  shows "\<exists>q1 q'. grow q = Some q1 \<and> items q1 = items q \<and>
    up pri (length (items q)) (q1\<lparr>items := items q @ [x], index := (index q1)(x := int (length (items q)))\<rparr>) = Some q' \<and>
    added pri q x q'"
proof -
  let ?n = "length (items q)" and ?c = "if length (items q) + 1 > capac q then capac q * 2 else capac q"
  have I: "good_idx q" "heap_order pri (items q) ?n" "?n \<le> capac q" "0 < capac q" using assms(1) by (auto simp: pq_inv_def)
  let ?q1 = "q\<lparr>capac := ?c\<rparr>"
  let ?q2 = "q\<lparr>capac := ?c, items := items q @ [x], index := (index q)(x := int ?n)\<rparr>"
  have g: "grow q = Some ?q1" using I(3,4) by (auto simp: grow_def Let_def)
  have gi: "good_idx ?q2" using I(1) assms(2) by (auto simp: good_idx_def nth_append less_Suc_eq)
  have ed: "\<forall>k < Suc ?n. k \<noteq> ?n \<longrightarrow> edge pri (items ?q2) k"
    using I(2) by (auto simp: heap_order_def edge_def nth_append less_Suc_eq)
  have "grand pri (items ?q2) (Suc ?n) ?n" by (auto simp: grand_def)
  from up_correct [OF gi _ _ ed this] obtain q' where
    q': "up pri ?n ?q2 = Some q'" "sifted ?q2 q'" "heap_order pri (items q') (Suc ?n)" by auto
  have len: "length (items q') = Suc ?n" using sifted_length(1) [OF q'(2)] by simp
  have "added pri q x q'"
    using q'(2,3) len I(3,4) by (auto simp: added_def pq_inv_def sifted_def)
  then show ?thesis using g q'(1) by auto
qed

lemma ifq_Push_correct:
  "pq_inv pri q \<Longrightarrow> x \<notin> set (items q) \<Longrightarrow> \<exists>q'. ifq_Push pri x q = Some q' \<and> added pri q x q'"
  using push_correct [of pri q x] by (auto simp: ifq_Push_def)

lemma heap_Push_correct:
  "pq_inv pri q \<Longrightarrow> x \<notin> set (items q) \<Longrightarrow> \<exists>q'. heap_Push pri x q = Some q' \<and> added pri q x q'"
  using push_correct [of pri q x] by (auto simp: heap_Push_def pqueue_Push_def)

lemma pq_min: "pq_inv pri q \<Longrightarrow> y \<in> set (items q) \<Longrightarrow> pri (hd (items q)) \<le> pri y"
  using heap_root [of pri "items q" "length (items q)"] hd_conv_nth [of "items q"]
  by (auto simp: pq_inv_def in_set_conv_nth) (metis length_greater_0_conv less_nat_zero_code gr0I)


section \<open>The contract of a timer queue\<close>

text \<open>
  What the channel relies on, for either queue: it holds a set of items, knows where each of them is, and
  gives out the items that are due, earliest first.
\<close>

locale timer_queue =
  fixes inv :: "(addr \<Rightarrow> int) \<Rightarrow> 'q \<Rightarrow> bool"
    and contents :: "'q \<Rightarrow> addr set"
    and position :: "'q \<Rightarrow> addr \<Rightarrow> int"
    and push :: "(addr \<Rightarrow> int) \<Rightarrow> addr \<Rightarrow> 'q \<Rightarrow> 'q option"
    and remove :: "(addr \<Rightarrow> int) \<Rightarrow> nat \<Rightarrow> 'q \<Rightarrow> (addr \<times> 'q) option"
    and shift :: "(addr \<Rightarrow> int) \<Rightarrow> int \<Rightarrow> 'q \<Rightarrow> ((addr option \<times> int) \<times> 'q) option"
  assumes finite_contents: "inv p q \<Longrightarrow> finite (contents q)"
    and inv_cong: "inv p q \<Longrightarrow> (\<And>x. x \<in> contents q \<Longrightarrow> p' x = p x) \<Longrightarrow> inv p' q"
    and push_law: "inv p q \<Longrightarrow> x \<notin> contents q \<Longrightarrow>
      \<exists>q'. push p x q = Some q' \<and> inv p q' \<and> contents q' = insert x (contents q) \<and>
           (\<forall>y. y \<notin> insert x (contents q) \<longrightarrow> position q' y = position q y)"
    and remove_law: "inv p q \<Longrightarrow> x \<in> contents q \<Longrightarrow>
      0 \<le> position q x \<and> (\<exists>q'. remove p (nat (position q x)) q = Some (x, q') \<and> inv p q' \<and>
        contents q' = contents q - {x} \<and> position q' x = -1 \<and> (\<forall>y. y \<notin> contents q \<longrightarrow> position q' y = position q y))"
    and shift_due: "inv p q \<Longrightarrow> y \<in> contents q \<Longrightarrow> p y \<le> mx \<Longrightarrow>
      \<exists>x q'. shift p mx q = Some ((Some x, 0), q') \<and> x \<in> contents q \<and> p x \<le> mx \<and> (\<forall>y \<in> contents q. p x \<le> p y) \<and>
        inv p q' \<and> contents q' = contents q - {x} \<and> position q' x = -1 \<and>
        (\<forall>y. y \<notin> contents q \<longrightarrow> position q' y = position q y)"
    and shift_none: "inv p q \<Longrightarrow> (\<And>y. y \<in> contents q \<Longrightarrow> mx < p y) \<Longrightarrow> \<exists>d. shift p mx q = Some ((None, d), q)"

text \<open>Taking everything that is due.\<close>

partial_function (option) shift_all ::
  "((addr \<Rightarrow> int) \<Rightarrow> int \<Rightarrow> 'q \<Rightarrow> ((addr option \<times> int) \<times> 'q) option) \<Rightarrow> (addr \<Rightarrow> int) \<Rightarrow> int \<Rightarrow> 'q \<Rightarrow> (addr list \<times> 'q) option" where
  "shift_all shift p mx q = do {
     ((r, _), q) \<leftarrow> shift p mx q;
     (case r of
        None \<Rightarrow> Some ([], q)
      | Some x \<Rightarrow> do { (xs, q) \<leftarrow> shift_all shift p mx q; Some (x # xs, q) }) }"

context timer_queue
begin

lemma shift_all_correct:
  assumes "inv p q"
  shows "\<exists>xs q'. shift_all shift p mx q = Some (xs, q') \<and> inv p q' \<and> set xs = {x \<in> contents q. p x \<le> mx} \<and>
    distinct xs \<and> sorted (map p xs) \<and> contents q' = {x \<in> contents q. mx < p x}"
  using assms
proof (induction "card (contents q)" arbitrary: q rule: less_induct)
  case less
  show ?case
  proof (cases "\<exists>y \<in> contents q. p y \<le> mx")
    case False
    then have "mx < p y" if "y \<in> contents q" for y using that by force
    from shift_none [OF less.prems this] obtain d where "shift p mx q = Some ((None, d), q)" by blast
    then show ?thesis using False less.prems by (subst shift_all.simps) (auto simp: not_le)
  next
    case True
    then obtain y where y: "y \<in> contents q" "p y \<le> mx" by blast
    from shift_due [OF less.prems y] obtain x q1 where
      x: "shift p mx q = Some ((Some x, 0), q1)" "x \<in> contents q" "p x \<le> mx" "\<forall>y \<in> contents q. p x \<le> p y"
        "inv p q1" "contents q1 = contents q - {x}" by blast
    have "card (contents q1) < card (contents q)"
      using x(2,6) finite_contents [OF less.prems] by (metis card_Diff1_less)
    from less.hyps [OF this x(5)] obtain xs q' where
      r: "shift_all shift p mx q1 = Some (xs, q')" "inv p q'" "set xs = {x \<in> contents q1. p x \<le> mx}" "distinct xs"
        "sorted (map p xs)" "contents q' = {x \<in> contents q1. mx < p x}" by blast
    have "shift_all shift p mx q = Some (x # xs, q')" using x(1) r(1) by (subst shift_all.simps) simp
    moreover have "distinct (x # xs)" "sorted (map p (x # xs))" using r(4,5) x(4) unfolding r(3) x(6) by (auto simp: r(3) x(6))
    moreover have "set (x # xs) = {x \<in> contents q. p x \<le> mx}" using x(2,3) unfolding list.set r(3) x(6) by auto
    moreover have "contents q' = {x \<in> contents q. mx < p x}" using x(3) unfolding r(6) x(6) by auto
    ultimately show ?thesis using r(2) by blast
  qed
qed

end

abbreviation pq_set :: "pq \<Rightarrow> addr set" where
  "pq_set q \<equiv> set (items q)"

lemma removed_set:
  assumes "removed pri q x q'" "pq_inv pri q"
  shows "pq_set q' = pq_set q - {x}" "x \<in> pq_set q"
proof -
  have m: "mset (items q) = add_mset x (mset (items q'))" using assms(1) by (simp add: removed_def)
  then have "distinct (x # items q')" using assms(2) mset_eq_imp_distinct_iff [of "items q" "x # items q'"]
    by (simp add: pq_inv_def good_idx_def)
  moreover have "set (items q) = insert x (set (items q'))" using m mset_eq_setD [of "items q" "x # items q'"] by simp
  ultimately show "pq_set q' = pq_set q - {x}" "x \<in> pq_set q" by auto
qed

lemma pq_inv_cong: "pq_inv p q \<Longrightarrow> (\<And>x. x \<in> pq_set q \<Longrightarrow> p' x = p x) \<Longrightarrow> pq_inv p' q"
  by (auto simp: pq_inv_def heap_order_def edge_def)

lemma index_item:
  assumes "pq_inv p q" "x \<in> pq_set q"
  shows "0 \<le> index q x" "nat (index q x) < length (items q)" "items q ! nat (index q x) = x"
proof -
  obtain k where "k < length (items q)" "items q ! k = x" using assms(2) by (auto simp: in_set_conv_nth)
  then show "0 \<le> index q x" "nat (index q x) < length (items q)" "items q ! nat (index q x) = x"
    using assms(1) by (auto simp: pq_inv_def good_idx_def)
qed

lemma not_due: "pq_inv p q \<Longrightarrow> y \<in> pq_set q \<Longrightarrow> p y \<le> mx \<Longrightarrow> items q \<noteq> [] \<and> p (hd (items q)) \<le> mx \<and> hd (items q) \<in> pq_set q"
  using pq_min [of p q y] by (cases "items q") auto

lemma added_set: "added p q x q' \<Longrightarrow> pq_set q' = insert x (pq_set q)"
  by (metis added_def mset.simps(2) mset_eq_setD list.simps(15))

lemma removed_hd:
  assumes "pq_inv p q" "removed p q (hd (items q)) q'"
  shows "(\<forall>y \<in> pq_set q. p (hd (items q)) \<le> p y) \<and> pq_inv p q' \<and> pq_set q' = pq_set q - {hd (items q)} \<and>
    index q' (hd (items q)) = -1 \<and> (\<forall>y. y \<notin> pq_set q \<longrightarrow> index q' y = index q y)"
  using assms removed_set(1) [OF assms(2,1)] pq_min [OF assms(1)] by (simp add: removed_def)

interpretation ifq: timer_queue pq_inv pq_set index ifq_Push ifq_Remove ifq_PeekAndShift
proof
  fix p p' :: "addr \<Rightarrow> int" and q :: pq and x y :: addr and mx :: int
  assume I: "pq_inv p q"
  show "finite (pq_set q)" by simp
  show "pq_inv p' q" if "\<And>x. x \<in> pq_set q \<Longrightarrow> p' x = p x" using I that by (rule pq_inv_cong)
  show "\<exists>q'. ifq_Push p x q = Some q' \<and> pq_inv p q' \<and> pq_set q' = insert x (pq_set q) \<and>
      (\<forall>y. y \<notin> insert x (pq_set q) \<longrightarrow> index q' y = index q y)" if "x \<notin> pq_set q"
    using ifq_Push_correct [OF I that] added_set by (metis added_def)
  show "0 \<le> index q x \<and> (\<exists>q'. ifq_Remove p (nat (index q x)) q = Some (x, q') \<and> pq_inv p q' \<and>
      pq_set q' = pq_set q - {x} \<and> index q' x = -1 \<and> (\<forall>y. y \<notin> pq_set q \<longrightarrow> index q' y = index q y))" if "x \<in> pq_set q"
    using ifq_Remove_correct [OF I index_item(2) [OF I that]] index_item [OF I that] removed_set [OF _ I]
    by (metis removed_def)
  show "\<exists>x q'. ifq_PeekAndShift p mx q = Some ((Some x, 0), q') \<and> x \<in> pq_set q \<and> p x \<le> mx \<and> (\<forall>y \<in> pq_set q. p x \<le> p y) \<and>
      pq_inv p q' \<and> pq_set q' = pq_set q - {x} \<and> index q' x = -1 \<and> (\<forall>y. y \<notin> pq_set q \<longrightarrow> index q' y = index q y)"
    if y: "y \<in> pq_set q" "p y \<le> mx"
  proof -
    note d = not_due [OF I y]
    obtain q' where "ifq_Pop p q = Some (hd (items q), q')" "removed p q (hd (items q)) q'"
      using ifq_Pop_correct [OF I] d by blast
    moreover from this have "ifq_PeekAndShift p mx q = Some ((Some (hd (items q)), 0), q')"
      using d by (simp add: ifq_PeekAndShift_def Let_def)
    ultimately show ?thesis using removed_hd [OF I] d by blast
  qed
  show "\<exists>d. ifq_PeekAndShift p mx q = Some ((None, d), q)" if "\<And>y. y \<in> pq_set q \<Longrightarrow> mx < p y"
    using that by (auto simp: ifq_PeekAndShift_def Let_def)
qed

interpretation dfq: timer_queue pq_inv pq_set index heap_Push heap_Remove pqueue_PeekAndShift
proof
  fix p p' :: "addr \<Rightarrow> int" and q :: pq and x y :: addr and mx :: int
  assume I: "pq_inv p q"
  show "finite (pq_set q)" by simp
  show "pq_inv p' q" if "\<And>x. x \<in> pq_set q \<Longrightarrow> p' x = p x" using I that by (rule pq_inv_cong)
  show "\<exists>q'. heap_Push p x q = Some q' \<and> pq_inv p q' \<and> pq_set q' = insert x (pq_set q) \<and>
      (\<forall>y. y \<notin> insert x (pq_set q) \<longrightarrow> index q' y = index q y)" if "x \<notin> pq_set q"
    using heap_Push_correct [OF I that] added_set by (metis added_def)
  show "0 \<le> index q x \<and> (\<exists>q'. heap_Remove p (nat (index q x)) q = Some (x, q') \<and> pq_inv p q' \<and>
      pq_set q' = pq_set q - {x} \<and> index q' x = -1 \<and> (\<forall>y. y \<notin> pq_set q \<longrightarrow> index q' y = index q y))" if "x \<in> pq_set q"
    using heap_Remove_correct [OF I index_item(2) [OF I that]] index_item [OF I that] removed_set [OF _ I]
    by (metis removed_def)
  show "\<exists>x q'. pqueue_PeekAndShift p mx q = Some ((Some x, 0), q') \<and> x \<in> pq_set q \<and> p x \<le> mx \<and> (\<forall>y \<in> pq_set q. p x \<le> p y) \<and>
      pq_inv p q' \<and> pq_set q' = pq_set q - {x} \<and> index q' x = -1 \<and> (\<forall>y. y \<notin> pq_set q \<longrightarrow> index q' y = index q y)"
    if y: "y \<in> pq_set q" "p y \<le> mx"
  proof -
    note d = not_due [OF I y]
    obtain q' where "heap_Remove p 0 q = Some (hd (items q), q')" "removed p q (hd (items q)) q'"
      using heap_Remove_correct [OF I, of 0] d by (auto simp: hd_conv_nth)
    moreover from this have "pqueue_PeekAndShift p mx q = Some ((Some (hd (items q)), 0), q')"
      using d by (simp add: pqueue_PeekAndShift_def Let_def)
    ultimately show ?thesis using removed_hd [OF I] d by blast
  qed
  show "\<exists>d. pqueue_PeekAndShift p mx q = Some ((None, d), q)" if "\<And>y. y \<in> pq_set q \<Longrightarrow> mx < p y"
    using that by (auto simp: pqueue_PeekAndShift_def Let_def)
qed

end
