(* ===== verification/Nsq_Message.thy ===== *)
theory Nsq_Message
  imports Nsq_Heap "HOL-Library.Char_ord"
begin

text \<open>
  The data of nsqd: messages and their stored form (\<^verbatim>\<open>nsqd/message.go\<close>), message ids (\<^verbatim>\<open>nsqd/guid.go\<close>), the
  backend that discards (\<^verbatim>\<open>nsqd/dummy_backend_queue.go\<close>), backend names (\<^verbatim>\<open>nsqd/dqname.go\<close>), and the small
  pieces of the wire protocol (\<^verbatim>\<open>internal/protocol\<close>).
\<close>

unbundle bit_operations_syntax

section \<open>Writers\<close>

text \<open>
  An \<^verbatim>\<open>io.Writer\<close> is given by its \<^verbatim>\<open>Write\<close>: how many bytes were written, the error, the new state. The
  standard library's \<^verbatim>\<open>bytes.Buffer\<close> appends and never fails.
\<close>

type_synonym 'w writer = "byte list \<Rightarrow> 'w \<Rightarrow> nat \<times> go_error option \<times> 'w"

definition buffer_Write :: "byte list writer" where
  "buffer_Write bs w = (length bs, None, w @ bs)"

definition put_be :: "nat \<Rightarrow> 'a::len word \<Rightarrow> byte list" where
  "put_be n w = rev (put_le n w)"

definition get_be :: "byte list \<Rightarrow> 'a::len word" where
  "get_be bs = get_le (rev bs)"

lemma length_put_be [simp]: "length (put_be n w) = n"
  by (simp add: put_be_def)

lemma get_put_be [go_simps]: "LENGTH('a) = 8 * n \<Longrightarrow> get_be (put_be n w) = (w :: 'a::len word)"
  by (simp add: get_be_def put_be_def get_put_le)

section \<open>message.go\<close>

definition MsgIDLength :: nat where "MsgIDLength = 16"
definition minValidMsgLength :: nat where "minValidMsgLength = MsgIDLength + 8 + 2"

type_synonym MessageID = "byte list"  \<comment> \<open>16 bytes\<close>

text \<open>Times are nanoseconds; the position of a message in the in-flight queue is kept with the queue.\<close>

record Msg =
  ID :: MessageID
  Body :: "byte list"
  Timestamp :: u64
  Attempts :: "16 word"
  deliveryTS :: int
  clientID :: int
  pri :: int
  deferred :: int

definition NewMessage :: "u64 \<Rightarrow> MessageID \<Rightarrow> byte list \<Rightarrow> Msg" where
  "NewMessage now mid body = \<lparr>ID = mid, Body = body, Timestamp = now, Attempts = 0,
     deliveryTS = 0, clientID = 0, pri = 0, deferred = 0\<rparr>"

definition WriteTo :: "'w writer \<Rightarrow> Msg \<Rightarrow> 'w \<Rightarrow> nat \<times> go_error option \<times> 'w" where
  "WriteTo write m w =
     (let buf = put_be 8 (Timestamp m) @ put_be 2 (Attempts m);
          (n1, err, w) = write buf w
      in if err \<noteq> None then (n1, err, w)
         else
           (let (n2, err, w) = write (ID m) w
            in if err \<noteq> None then (n1 + n2, err, w)
               else
                 (let (n3, err, w) = write (Body m) w
                  in if err \<noteq> None then (n1 + n2 + n3, err, w) else (n1 + n2 + n3, None, w))))"

definition decodeMessage :: "byte list \<Rightarrow> Msg res" where
  "decodeMessage b =
     (if length b < minValidMsgLength then Inl (Err ''invalid message buffer size'')
      else Inr (\<lparr>ID = subslice b 10 (10 + MsgIDLength), Body = drop (10 + MsgIDLength) b,
                 Timestamp = get_be (take 8 b), Attempts = get_be (subslice b 8 10),
                 deliveryTS = 0, clientID = 0, pri = 0, deferred = 0\<rparr>))"

text \<open>The backend is external; a message goes to its \<^verbatim>\<open>Put\<close> through a buffer that is reset first.\<close>

definition writeMessageToBackend ::
  "(byte list \<Rightarrow> 'b \<Rightarrow> go_error option \<times> 'b) \<Rightarrow> Msg \<Rightarrow> 'b \<Rightarrow> go_error option \<times> 'b" where
  "writeMessageToBackend bqPut msg bq =
     (let (_, err, buf) = WriteTo buffer_Write msg []
      in if err \<noteq> None then (err, bq) else bqPut buf bq)"

definition encoded :: "Msg \<Rightarrow> byte list" where
  "encoded m = put_be 8 (Timestamp m) @ put_be 2 (Attempts m) @ ID m @ Body m"

lemma WriteTo_buffer: "WriteTo buffer_Write m w = (length (encoded m), None, w @ encoded m)"
  by (simp add: WriteTo_def buffer_Write_def encoded_def Let_def)

lemma writeMessageToBackend_put: "writeMessageToBackend bqPut m bq = bqPut (encoded m) bq"
  by (simp add: writeMessageToBackend_def WriteTo_buffer)

lemma decode_encoded:
  assumes "length (ID m) = MsgIDLength"
  shows "decodeMessage (encoded m) = Inr (m\<lparr>deliveryTS := 0, clientID := 0, pri := 0, deferred := 0\<rparr>)"
  using assms
  by (simp add: decodeMessage_def encoded_def minValidMsgLength_def MsgIDLength_def subslice_def go_simps)



section \<open>dummy\_backend\_queue.go\<close>

definition dummy_Put :: "byte list \<Rightarrow> unit \<Rightarrow> go_error option \<times> unit" where
  "dummy_Put bs d = (None, d)"

definition dummy_Depth :: "unit \<Rightarrow> int" where
  "dummy_Depth d = 0"

definition dummy_Close :: "unit \<Rightarrow> go_error option" where
  "dummy_Close d = None"

definition dummy_Delete :: "unit \<Rightarrow> go_error option" where
  "dummy_Delete d = None"

definition dummy_Empty :: "unit \<Rightarrow> go_error option" where
  "dummy_Empty d = None"

section \<open>guid.go\<close>

text \<open>Go's \<^verbatim>\<open>int64\<close> as 64-bit words with signed comparison.\<close>

definition nodeIDBits :: nat where "nodeIDBits = 10"
definition sequenceBits :: nat where "sequenceBits = 12"
definition nodeIDShift :: nat where "nodeIDShift = sequenceBits"
definition timestampShift :: nat where "timestampShift = sequenceBits + nodeIDBits"
definition sequenceMask :: u64 where "sequenceMask = xor (-1) (push_bit sequenceBits (-1))"
definition twepoch :: u64 where "twepoch = 1288834974288"

lemmas guid_consts = nodeIDBits_def sequenceBits_def nodeIDShift_def timestampShift_def twepoch_def

record guidFactory =
  nodeID :: u64
  sequence :: u64
  lastTimestamp :: u64
  lastID :: u64

definition NewGUIDFactory :: "u64 \<Rightarrow> guidFactory" where
  "NewGUIDFactory node = \<lparr>nodeID = node, sequence = 0, lastTimestamp = 0, lastID = 0\<rparr>"

definition compose_id :: "u64 \<Rightarrow> u64 \<Rightarrow> u64 \<Rightarrow> u64" where
  "compose_id ts node sq = or (or (push_bit timestampShift (ts - twepoch)) (push_bit nodeIDShift node)) sq"

text \<open>\<open>now\<close> is the clock in nanoseconds; the state is returned on errors too.\<close>

definition NewGUID :: "u64 \<Rightarrow> guidFactory \<Rightarrow> u64 res \<times> guidFactory" where
  "NewGUID now f =
     (let ts = signed_drop_bit 20 now in
      if ts <s lastTimestamp f then (Inl (Err ''time has gone backwards''), f)
      else
        (let expired = (lastTimestamp f = ts \<and> and (sequence f + 1) sequenceMask = 0);
             f = f\<lparr>sequence := (if lastTimestamp f = ts then and (sequence f + 1) sequenceMask else 0)\<rparr>
         in if expired then (Inl (Err ''sequence expired''), f)
            else
              (let f = f\<lparr>lastTimestamp := ts\<rparr>;
                   id = compose_id ts (nodeID f) (sequence f)
               in if id \<le>s lastID f then (Inl (Err ''ID went backward''), f)
                  else (Inr id, f\<lparr>lastID := id\<rparr>))))"

definition hex_digit :: "byte \<Rightarrow> byte" where
  "hex_digit d = (if d < 10 then 48 + d else 87 + d)"

definition Hex :: "u64 \<Rightarrow> MessageID" where
  "Hex g = concat (map (\<lambda>b. [hex_digit (drop_bit 4 b), hex_digit (and b 15)])
     [ucast (drop_bit 56 g), ucast (drop_bit 48 g), ucast (drop_bit 40 g), ucast (drop_bit 32 g),
      ucast (drop_bit 24 g), ucast (drop_bit 16 g), ucast (drop_bit 8 g), ucast g])"


fun guid_run :: "u64 list \<Rightarrow> guidFactory \<Rightarrow> u64 list" where
  "guid_run [] f = []"
| "guid_run (now # ts) f =
     (case NewGUID now f of
        (Inl e, f) \<Rightarrow> guid_run ts f
      | (Inr g, f) \<Rightarrow> g # guid_run ts f)"

lemma sequenceMask_eq: "sequenceMask = mask 12"
  by (rule bit_word_eqI) (auto simp: sequenceMask_def sequenceBits_def bit_simps)

text \<open>The sequence number stays within its 12 bits.\<close>

definition guid_inv :: "guidFactory \<Rightarrow> bool" where
  "guid_inv f \<longleftrightarrow> and (sequence f) (mask 12) = sequence f"

lemma NewGUID_step:
  assumes "NewGUID now f = (r, f')" "guid_inv f"
  shows "nodeID f' = nodeID f" "guid_inv f'"
    "r = Inr g \<Longrightarrow> lastID f <s g \<and> lastID f' = g \<and> (\<exists>ts. g = compose_id ts (nodeID f) (sequence f'))"
    "r = Inl e \<Longrightarrow> lastID f' = lastID f"
proof -
  have m: "and (and x (mask 12)) (mask 12) = and x (mask 12)" for x :: u64
    by (simp add: and.assoc)
  have "(r, f') = NewGUID now f" using assms(1) by simp
  then show "nodeID f' = nodeID f" "guid_inv f'" "r = Inl e \<Longrightarrow> lastID f' = lastID f"
    "r = Inr g \<Longrightarrow> lastID f <s g \<and> lastID f' = g \<and> (\<exists>ts. g = compose_id ts (nodeID f) (sequence f'))"
    using assms(2) m
    by (auto simp: NewGUID_def Let_def sequenceMask_eq word_sless_alt word_sle_eq guid_inv_def split: if_splits)
qed

lemma guid_run_props:
  assumes "guid_inv f"
  shows "sorted_wrt (<s) (lastID f # guid_run ts f) \<and>
    (\<forall>g \<in> set (guid_run ts f). \<exists>t sq. g = compose_id t (nodeID f) sq \<and> and sq (mask 12) = sq)"
  using assms
proof (induction ts arbitrary: f)
  case (Cons now ts)
  obtain r f' where r: "NewGUID now f = (r, f')" by (cases "NewGUID now f")
  note step = NewGUID_step [OF r Cons.prems]
  note IH = Cons.IH [OF step(2)]
  show ?case
  proof (cases r)
    case (Inl e)
    then show ?thesis using IH step(1,4) r by simp
  next
    case (Inr g)
    from step(3) [OF this] have g: "lastID f <s g" "lastID f' = g" "\<exists>t sq. g = compose_id t (nodeID f) sq \<and> and sq (mask 12) = sq"
      using step(2) unfolding guid_inv_def by metis+
    have "\<forall>h \<in> set (guid_run ts f'). lastID f <s h"
      using IH g(1,2) by (auto simp: word_sless_alt)
    then show ?thesis using IH step(1) r Inr g by simp
  qed
qed simp

lemma compose_node:
  assumes "and sq (mask 12) = sq" "and sq' (mask 12) = sq'" "and node (mask 10) = node" "and node' (mask 10) = node'"
    and "compose_id ts node sq = compose_id ts' node' sq'"
  shows "node = node'"
proof (rule bit_word_eqI)
  fix k assume k: "k < LENGTH(64)"
  have sq: "\<not> bit sq (k + 12)" "\<not> bit sq' (k + 12)"
    using arg_cong [OF assms(1), of "\<lambda>w. bit w (k + 12)"] arg_cong [OF assms(2), of "\<lambda>w. bit w (k + 12)"] by (auto simp: bit_simps)
  have nd: "bit node k \<Longrightarrow> k < 10" "bit node' k \<Longrightarrow> k < 10"
    using arg_cong [OF assms(3), of "\<lambda>w. bit w k"] arg_cong [OF assms(4), of "\<lambda>w. bit w k"] by (auto simp: bit_simps)
  have "k < 10 \<Longrightarrow> bit node k \<longleftrightarrow> bit node' k"
    using arg_cong [OF assms(5), of "\<lambda>w. bit w (k + 12)"] sq by (simp add: compose_id_def guid_consts bit_simps)
  then show "bit node k \<longleftrightarrow> bit node' k" using nd by blast
qed

text \<open>
  C20. Message ids do not repeat: whatever the clocks do, one factory gives out strictly increasing ids, and
  two factories with different node ids (of 10 bits) never give out the same id.
\<close>

theorem guids_unique:
  assumes "and n1 (mask 10) = n1" "and n2 (mask 10) = n2" "n1 \<noteq> n2"
  shows "distinct (guid_run ts1 (NewGUIDFactory n1) @ guid_run ts2 (NewGUIDFactory n2)) \<and>
    sorted_wrt (<s) (guid_run ts1 (NewGUIDFactory n1))"
proof -
  have inv: "guid_inv (NewGUIDFactory n)" "nodeID (NewGUIDFactory n) = n" for n by (simp_all add: NewGUIDFactory_def guid_inv_def)
  note run = guid_run_props [OF inv(1), unfolded inv(2)]
  have srt: "sorted_wrt (<s) (guid_run ts (NewGUIDFactory n))" for ts n using run [of n ts] by simp
  have "distinct xs" if "sorted_wrt (<s) xs" for xs :: "u64 list"
    using that by (induction xs) (auto simp: word_sless_alt)
  then have "distinct (guid_run ts1 (NewGUIDFactory n1))" "distinct (guid_run ts2 (NewGUIDFactory n2))" using srt by auto
  moreover have "g \<notin> set (guid_run ts2 (NewGUIDFactory n2))" if "g \<in> set (guid_run ts1 (NewGUIDFactory n1))" for g
    using that run [of n1 ts1] run [of n2 ts2] compose_node [OF _ _ assms(1,2)] assms(3) by metis
  ultimately show ?thesis using srt by auto
qed

theorem guids_unique_witness:
  "distinct (guid_run [2 ^ 61, 2 ^ 61, 2 ^ 62] (NewGUIDFactory 1) @ guid_run [2 ^ 61, 2 ^ 62] (NewGUIDFactory 2))"
  using guids_unique [of 1 2 "[2 ^ 61, 2 ^ 61, 2 ^ 62]" "[2 ^ 61, 2 ^ 62]"] by (simp add: mask_eq_exp_minus_1)

text \<open>The hexadecimal form of an id has 16 bytes and determines it.\<close>

lemma Hex_put_be: "Hex g = concat (map (\<lambda>b. [hex_digit (drop_bit 4 b), hex_digit (and b 15)]) (put_be 8 g))"
proof -
  have "[0..<8] = [0, 1, 2, 3, 4, 5, 6, 7 :: nat]" by (simp add: upt_rec)
  then show ?thesis by (simp add: Hex_def put_be_def put_le_def)
qed

lemma hex_digit_inj: "x < 16 \<Longrightarrow> y < 16 \<Longrightarrow> hex_digit x = hex_digit y \<Longrightarrow> x = y"
proof -
  assume a: "x < 16" "y < 16" "hex_digit x = hex_digit y"
  have n: "unat (hex_digit z) = (if unat z < 10 then 48 + unat z else 87 + unat z)" if "z < 16" for z
    using that by (auto simp: hex_digit_def word_less_nat_alt unat_word_ariths)
  show "x = y" using a n [OF a(1)] n [OF a(2)] by (auto simp: word_less_nat_alt word_unat_eq_iff split: if_splits)
qed

lemma byte_nibbles:
  assumes "drop_bit 4 b = drop_bit 4 c" "and b 15 = and c (15 :: byte)"
  shows "b = c"
proof -
  have m: "(15 :: byte) = mask 4" by (simp add: mask_eq_exp_minus_1)
  have "b = or (push_bit 4 (drop_bit 4 b)) (and b (mask 4))" for b :: byte
    by (rule bit_word_eqI) (auto simp: bit_simps)
  from this [of b] this [of c] show ?thesis using assms unfolding m by metis
qed

lemma Hex_inj: "Hex g = Hex g' \<Longrightarrow> g = g'"
proof -
  let ?h = "\<lambda>b. [hex_digit (drop_bit 4 b), hex_digit (and b 15)]"
  assume "Hex g = Hex g'"
  then have e: "concat (map ?h (put_be 8 g)) = concat (map ?h (put_be 8 g'))" by (simp add: Hex_put_be)
  have lt: "drop_bit 4 b < 16" "and b 15 < 16" for b :: byte
  proof -
    have "unat b < 256" using unsigned_less [of b] by simp
    then have "unat (drop_bit 4 b) < 16" by (simp add: drop_bit_eq_div unat_div)
    then show "drop_bit 4 b < 16" by (simp add: word_less_nat_alt)
    have "and b 15 \<le> (15 :: byte)" by (rule word_and_le1)
    then show "and b 15 < 16" by (simp add: word_le_nat_alt word_less_nat_alt)
  qed
  have "xs = ys" if "length xs = length ys" "concat (map ?h xs) = concat (map ?h ys)" for xs ys
    using that
  proof (induction xs ys rule: list_induct2)
    case (Cons x xs y ys)
    have h: "hex_digit (drop_bit 4 x) = hex_digit (drop_bit 4 y)" "hex_digit (and x 15) = hex_digit (and y 15)"
      "concat (map ?h xs) = concat (map ?h ys)" using Cons.prems by simp_all
    have "x = y" by (rule byte_nibbles [OF hex_digit_inj [OF lt(1) lt(1) h(1)] hex_digit_inj [OF lt(2) lt(2) h(2)]])
    with Cons.IH h(3) show ?case by simp
  qed simp
  from this [OF _ e] have "put_be 8 g = put_be 8 g'" by simp
  then have "(get_be (put_be 8 g) :: u64) = get_be (put_be 8 g')" by simp
  then show "g = g'" by (simp add: get_put_be)
qed


section \<open>Backend names and name checks\<close>

definition getBackendName :: "string \<Rightarrow> string \<Rightarrow> string" where
  "getBackendName topicName channelName = topicName @ '':'' @ channelName"

definition getBackendName_windows :: "string \<Rightarrow> string \<Rightarrow> string" where
  "getBackendName_windows topicName channelName = topicName @ '';'' @ channelName"

definition name_char :: "char \<Rightarrow> bool" where
  "name_char c \<longleftrightarrow> c = CHR ''.'' \<or> c = CHR ''_'' \<or> c = CHR ''-'' \<or>
     (CHR ''a'' \<le> c \<and> c \<le> CHR ''z'') \<or> (CHR ''A'' \<le> c \<and> c \<le> CHR ''Z'') \<or> (CHR ''0'' \<le> c \<and> c \<le> CHR ''9'')"

text \<open>The regular expression \<^verbatim>\<open>^[\.a-zA-Z0-9_-]+(#ephemeral)?$\<close>.\<close>

definition name_regex :: "string \<Rightarrow> bool" where
  "name_regex s =
     (let p = takeWhile name_char s; r = dropWhile name_char s
      in p \<noteq> [] \<and> (r = [] \<or> r = ''#ephemeral''))"

definition isValidName :: "string \<Rightarrow> bool" where
  "isValidName name = (if length name > 64 \<or> length name < 1 then False else name_regex name)"

definition IsValidTopicName :: "string \<Rightarrow> bool" where
  "IsValidTopicName name = isValidName name"

definition IsValidChannelName :: "string \<Rightarrow> bool" where
  "IsValidChannelName name = isValidName name"

lemma valid_no_separator:
  assumes "isValidName s" "c \<in> {CHR '':'', CHR '';''}"
  shows "c \<notin> set s"
proof -
  have "s = takeWhile name_char s @ dropWhile name_char s" by simp
  moreover have "\<not> name_char c" using assms(2) by (auto simp: name_char_def less_eq_char_def)
  then have "c \<notin> set (takeWhile name_char s)" by (auto dest: set_takeWhileD)
  moreover have "dropWhile name_char s = [] \<or> dropWhile name_char s = ''#ephemeral''"
    using assms(1) by (auto simp: isValidName_def name_regex_def Let_def split: if_splits)
  then have "c \<notin> set (dropWhile name_char s)" using assms(2) by (elim disjE; simp only: list.set; auto)
  ultimately show ?thesis by (metis Un_iff set_append)
qed

lemma split_unique:
  "c \<notin> set t \<Longrightarrow> c \<notin> set t' \<Longrightarrow> t @ c # s = t' @ c # s' \<Longrightarrow> t = t' \<and> s = s'"
proof (induction t arbitrary: t')
  case Nil
  then show ?case by (cases t') auto
next
  case (Cons a t)
  then show ?case by (cases t') auto
qed

text \<open>
  Backend queues have names of their own: for valid names, two different pairs of topic and channel
  never share a backend name, and no channel's backend name is the name of a topic (which names the
  topic's own backend). The same holds for the names used on Windows.
\<close>

theorem backend_names_distinct:
  assumes "IsValidTopicName t" "IsValidTopicName t'" "IsValidChannelName c" "IsValidChannelName c'"
  shows "(getBackendName t c = getBackendName t' c' \<longleftrightarrow> t = t' \<and> c = c') \<and> getBackendName t c \<noteq> t' \<and>
    (getBackendName_windows t c = getBackendName_windows t' c' \<longleftrightarrow> t = t' \<and> c = c') \<and> getBackendName_windows t c \<noteq> t'"
proof -
  have v: "isValidName t" "isValidName t'" using assms by (simp_all add: IsValidTopicName_def)
  have n: "CHR '':'' \<notin> set t" "CHR '':'' \<notin> set t'" "CHR '';'' \<notin> set t" "CHR '';'' \<notin> set t'"
    using valid_no_separator [OF v(1)] valid_no_separator [OF v(2)] by blast+
  show ?thesis
    using n split_unique [of "CHR '':''" t t' c c'] split_unique [of "CHR '';''" t t' c c']
    by (auto simp: getBackendName_def getBackendName_windows_def)
qed

theorem backend_names_distinct_witness:
  "getBackendName ''a.b'' ''c'' \<noteq> getBackendName ''a'' ''b-c#ephemeral''"
proof -
  have "IsValidTopicName ''a.b''" "IsValidTopicName ''a''" "IsValidChannelName ''c''" "IsValidChannelName ''b-c#ephemeral''"
    by code_simp+
  from backend_names_distinct [OF this] show ?thesis by simp
qed

section \<open>byte\_base10.go and protocol.go\<close>

fun base10_loop :: "byte list \<Rightarrow> u64 \<Rightarrow> u64 res" where
  "base10_loop [] n = Inr n"
| "base10_loop (d # b) n =
     (if 48 \<le> d \<and> d \<le> 57 then base10_loop b (n * 10 + ucast (d - 48))
      else Inl (Err ''failed to convert to Base10''))"

definition ByteToBase10 :: "byte list \<Rightarrow> u64 res" where
  "ByteToBase10 b = base10_loop b 0"

definition SendResponse :: "'w writer \<Rightarrow> byte list \<Rightarrow> 'w \<Rightarrow> nat \<times> go_error option \<times> 'w" where
  "SendResponse write data w =
     (let (_, err, w) = write (put_be 4 (of_nat (length data) :: u32)) w
      in if err \<noteq> None then (0, err, w)
         else
           (let (n, err, w) = write data w
            in if err \<noteq> None then (0, err, w) else (n + 4, None, w)))"

definition SendFramedResponse :: "'w writer \<Rightarrow> u32 \<Rightarrow> byte list \<Rightarrow> 'w \<Rightarrow> nat \<times> go_error option \<times> 'w" where
  "SendFramedResponse write frameType data w =
     (let size = of_nat (length data) + 4 :: u32;
          (n, err, w) = write (put_be 4 size) w
      in if err \<noteq> None then (n, err, w)
         else
           (let (n, err, w) = write (put_be 4 frameType) w
            in if err \<noteq> None then (n + 4, err, w)
               else (let (n, err, w) = write data w in (n + 8, err, w))))"

definition digits_value :: "byte list \<Rightarrow> nat" where
  "digits_value b = foldl (\<lambda>n d. n * 10 + (unat d - 48)) 0 b"

lemma base10_loop_value:
  "\<forall>d \<in> set b. 48 \<le> d \<and> d \<le> 57 \<Longrightarrow>
   base10_loop b (of_nat n) = Inr (of_nat (foldl (\<lambda>n d. n * 10 + (unat d - 48)) n b))"
proof (induction b arbitrary: n)
  case (Cons d b)
  then have "unat (d - 48) = unat d - 48" by (simp add: unat_sub)
  then have "(ucast (d - 48) :: u64) = of_nat (unat d - 48)" by (metis of_nat_unat)
  then have "of_nat n * 10 + ucast (d - 48) = (of_nat (n * 10 + (unat d - 48)) :: u64)" by simp
  with Cons show ?case by (simp del: of_nat_add of_nat_mult)
qed simp

lemma base10_loop_error: "\<exists>d \<in> set b. \<not> (48 \<le> d \<and> d \<le> 57) \<Longrightarrow> base10_loop b n = Inl (Err ''failed to convert to Base10'')"
  by (induction b arbitrary: n) auto

text \<open>
  Parsing a decimal number: a byte string of digits gives its value modulo 2 to the 64 (longer numbers
  wrap around without an error, the empty string gives 0), and any other byte makes it fail.
\<close>

theorem ByteToBase10_value:
  "ByteToBase10 b = (if list_all (\<lambda>d. 48 \<le> d \<and> d \<le> 57) b then Inr (of_nat (digits_value b))
                     else Inl (Err ''failed to convert to Base10''))"
  using base10_loop_value [of b 0] base10_loop_error [of b 0] by (auto simp: ByteToBase10_def digits_value_def list_all_iff)

text \<open>
  A framed response written to a buffer is its size (frame type and data), the frame type and the data,
  and the count that is returned is the number of bytes written.
\<close>

theorem framed_response_format:
  "SendFramedResponse buffer_Write ft data w =
     (8 + length data, None, w @ put_be 4 (of_nat (4 + length data) :: u32) @ put_be 4 ft @ data)"
  by (simp add: SendFramedResponse_def buffer_Write_def Let_def add.commute)

end
