(* ===== verification/Nsq_Channel.thy ===== *)
theory Nsq_Channel
  imports Nsq_Message
begin

text \<open>
  A channel of nsqd (\<^verbatim>\<open>nsqd/channel.go\<close>): the memory queue with the backend behind it, the messages in
  flight and the deferred ones, each kept in a map by id and in a timer queue, and the clients. Messages
  and deferred items are cells of a store, named by their addresses.
\<close>

section \<open>State\<close>

text \<open>The backend (a disk queue outside this program, or the discarding one) and the options used here.\<close>

record 'b backend_ops =
  bq_Put :: "byte list \<Rightarrow> 'b \<Rightarrow> go_error option \<times> 'b"
  bq_Close :: "'b \<Rightarrow> go_error option \<times> 'b"
  bq_Delete :: "'b \<Rightarrow> go_error option \<times> 'b"
  bq_Depth :: "'b \<Rightarrow> int"
  bq_Empty :: "'b \<Rightarrow> go_error option \<times> 'b"

record chan_opts =
  MemQueueSize :: int
  MaxMsgTimeout :: int
  MaxChannelConsumers :: int
  E2EProcessingLatency :: bool  \<comment> \<open>whether percentiles are configured\<close>

text \<open>A client is known by the calls it received through the \<^verbatim>\<open>Consumer\<close> interface.\<close>

datatype ccall = CPause | CUnPause | CClose | CTimedOutMessage | CEmpty

record Item =
  Value :: addr
  Priority :: int

record 'b Channel =
  requeueCount :: u64
  messageCount :: u64
  timeoutCount :: u64
  backend :: 'b
  memoryMsgChan :: "addr list"
  memCap :: nat            \<comment> \<open>0: the channel is nil\<close>
  exitFlag :: bool
  clients :: "int \<Rightarrow> ccall list option"
  paused :: bool
  ephemeral :: bool
  deleteScheduled :: bool  \<comment> \<open>the delete callback was started\<close>
  e2eStream :: "u64 list option"
  deferredMessages :: "MessageID \<Rightarrow> addr option"
  deferredPQ :: pq
  inFlightMessages :: "MessageID \<Rightarrow> addr option"
  inFlightPQ :: pq
  msgs :: "addr \<Rightarrow> Msg"
  dItems :: "addr \<Rightarrow> Item"
  nextItem :: addr
  health :: "go_error option"
  notified :: nat

abbreviation mpri :: "'b Channel \<Rightarrow> addr \<Rightarrow> int" where
  "mpri c \<equiv> (\<lambda>a. pri (msgs c a))"

abbreviation ipri :: "'b Channel \<Rightarrow> addr \<Rightarrow> int" where
  "ipri c \<equiv> (\<lambda>i. Priority (dItems c i))"

section \<open>Operations\<close>

text \<open>The old items keep their index fields.\<close>

definition initPQ :: "chan_opts \<Rightarrow> 'b Channel \<Rightarrow> 'b Channel" where
  "initPQ opts c =
     (let pqSize = nat (max 1 (MemQueueSize opts div 10)) in
      c\<lparr>inFlightMessages := Map.empty, inFlightPQ := (newInFlightPqueue pqSize)\<lparr>index := index (inFlightPQ c)\<rparr>,
        deferredMessages := Map.empty, deferredPQ := (pqueue_New pqSize)\<lparr>index := index (deferredPQ c)\<rparr>\<rparr>)"

definition hasSuffix :: "string \<Rightarrow> string \<Rightarrow> bool" where
  "hasSuffix s suf \<longleftrightarrow> length suf \<le> length s \<and> drop (length s - length suf) s = suf"

text \<open>\<open>newBackend\<close> makes the backend: the discarding one if its argument holds, a disk queue otherwise.\<close>

definition NewChannel :: "chan_opts \<Rightarrow> (bool \<Rightarrow> 'b) \<Rightarrow> string \<Rightarrow> (addr \<Rightarrow> Msg) \<Rightarrow> 'b Channel" where
  "NewChannel opts newBackend channelName store =
     (let eph = hasSuffix channelName ''#ephemeral'';
          c = \<lparr>requeueCount = 0, messageCount = 0, timeoutCount = 0, backend = newBackend eph,
               memoryMsgChan = [], memCap = nat (MemQueueSize opts), exitFlag = False,
               clients = Map.empty, paused = False, ephemeral = eph, deleteScheduled = False,
               e2eStream = (if E2EProcessingLatency opts then Some [] else None),
               deferredMessages = Map.empty, deferredPQ = pqueue_New 0,
               inFlightMessages = Map.empty, inFlightPQ = newInFlightPqueue 0,
               msgs = store, dItems = (\<lambda>_. \<lparr>Value = 0, Priority = 0\<rparr>), nextItem = 0,
               health = None, notified = 0\<rparr>;
          c = initPQ opts c
      in c\<lparr>notified := notified c + 1\<rparr>)"

definition Exiting :: "'b Channel \<Rightarrow> bool" where
  "Exiting c = exitFlag c"

definition toClients :: "ccall \<Rightarrow> 'b Channel \<Rightarrow> 'b Channel" where
  "toClients x c = c\<lparr>clients := (\<lambda>i. map_option (\<lambda>l. l @ [x]) (clients c i))\<rparr>"

definition Depth :: "'b backend_ops \<Rightarrow> 'b Channel \<Rightarrow> int" where
  "Depth ops c = int (length (memoryMsgChan c)) + bq_Depth ops (backend c)"

definition doPause :: "bool \<Rightarrow> 'b Channel \<Rightarrow> 'b Channel" where
  "doPause p c = toClients (if p then CPause else CUnPause) (c\<lparr>paused := p\<rparr>)"

definition IsPaused :: "'b Channel \<Rightarrow> bool" where
  "IsPaused c = paused c"

definition put :: "'b backend_ops \<Rightarrow> addr \<Rightarrow> 'b Channel \<Rightarrow> go_error option \<times> 'b Channel" where
  "put ops m c =
     (if length (memoryMsgChan c) < memCap c then (None, c\<lparr>memoryMsgChan := memoryMsgChan c @ [m]\<rparr>)
      else
        (let (err, b) = writeMessageToBackend (bq_Put ops) (msgs c m) (backend c)
         in (err, c\<lparr>backend := b, health := err\<rparr>)))"

definition PutMessage :: "'b backend_ops \<Rightarrow> addr \<Rightarrow> 'b Channel \<Rightarrow> go_error option \<times> 'b Channel" where
  "PutMessage ops m c =
     (if Exiting c then (Some (Err ''exiting''), c)
      else
        (let (err, c) = put ops m c
         in if err \<noteq> None then (err, c) else (None, c\<lparr>messageCount := messageCount c + 1\<rparr>)))"

definition pushInFlightMessage :: "addr \<Rightarrow> 'b Channel \<Rightarrow> go_error option \<times> 'b Channel" where
  "pushInFlightMessage m c =
     (if inFlightMessages c (ID (msgs c m)) \<noteq> None then (Some (Err ''ID already in flight''), c)
      else (None, c\<lparr>inFlightMessages := (inFlightMessages c)(ID (msgs c m) \<mapsto> m)\<rparr>))"

definition popInFlightMessage :: "int \<Rightarrow> MessageID \<Rightarrow> 'b Channel \<Rightarrow> addr res \<times> 'b Channel" where
  "popInFlightMessage cid mid c =
     (case inFlightMessages c mid of
        None \<Rightarrow> (Inl (Err ''ID not in flight''), c)
      | Some m \<Rightarrow>
          if clientID (msgs c m) \<noteq> cid then (Inl (Err ''client does not own message''), c)
          else (Inr m, c\<lparr>inFlightMessages := (inFlightMessages c)(mid := None)\<rparr>))"

definition addToInFlightPQ :: "addr \<Rightarrow> 'b Channel \<Rightarrow> 'b Channel option" where
  "addToInFlightPQ m c = do {
     q \<leftarrow> ifq_Push (mpri c) m (inFlightPQ c);
     Some (c\<lparr>inFlightPQ := q\<rparr>) }"

definition removeFromInFlightPQ :: "addr \<Rightarrow> 'b Channel \<Rightarrow> 'b Channel option" where
  "removeFromInFlightPQ m c =
     (let i = index (inFlightPQ c) m in
      if i = -1 then Some c
      else if i < 0 then None
      else do {
        (_, q) \<leftarrow> ifq_Remove (mpri c) (nat i) (inFlightPQ c);
        Some (c\<lparr>inFlightPQ := q\<rparr>) })"

definition pushDeferredMessage :: "addr \<Rightarrow> 'b Channel \<Rightarrow> go_error option \<times> 'b Channel" where
  "pushDeferredMessage i c =
     (let mid = ID (msgs c (Value (dItems c i))) in
      if deferredMessages c mid \<noteq> None then (Some (Err ''ID already deferred''), c)
      else (None, c\<lparr>deferredMessages := (deferredMessages c)(mid \<mapsto> i)\<rparr>))"

definition popDeferredMessage :: "MessageID \<Rightarrow> 'b Channel \<Rightarrow> addr res \<times> 'b Channel" where
  "popDeferredMessage mid c =
     (case deferredMessages c mid of
        None \<Rightarrow> (Inl (Err ''ID not deferred''), c)
      | Some i \<Rightarrow> (Inr i, c\<lparr>deferredMessages := (deferredMessages c)(mid := None)\<rparr>))"

definition addToDeferredPQ :: "addr \<Rightarrow> 'b Channel \<Rightarrow> 'b Channel option" where
  "addToDeferredPQ i c = do {
     q \<leftarrow> heap_Push (ipri c) i (deferredPQ c);
     Some (c\<lparr>deferredPQ := q\<rparr>) }"

definition StartInFlightTimeout ::
  "int \<Rightarrow> addr \<Rightarrow> int \<Rightarrow> int \<Rightarrow> 'b Channel \<Rightarrow> (go_error option \<times> 'b Channel) option" where
  "StartInFlightTimeout now m cid timeout c = do {
     let c = c\<lparr>msgs := (msgs c)(m := (msgs c m)\<lparr>clientID := cid, deliveryTS := now, pri := int64 (now + timeout)\<rparr>)\<rparr>;
     let (err, c) = pushInFlightMessage m c;
     if err \<noteq> None then Some (err, c)
     else do { c \<leftarrow> addToInFlightPQ m c; Some (None, c) } }"

definition StartDeferredTimeout ::
  "int \<Rightarrow> addr \<Rightarrow> int \<Rightarrow> 'b Channel \<Rightarrow> (go_error option \<times> 'b Channel) option" where
  "StartDeferredTimeout now m timeout c = do {
     let i = nextItem c;
     let c = c\<lparr>nextItem := Suc i, dItems := (dItems c)(i := \<lparr>Value = m, Priority = int64 (now + timeout)\<rparr>)\<rparr>;
     let (err, c) = pushDeferredMessage i c;
     if err \<noteq> None then Some (err, c)
     else do { c \<leftarrow> addToDeferredPQ i c; Some (None, c) } }"

definition PutMessageDeferred :: "int \<Rightarrow> addr \<Rightarrow> int \<Rightarrow> 'b Channel \<Rightarrow> 'b Channel option" where
  "PutMessageDeferred now m timeout c = do {
     (_, c) \<leftarrow> StartDeferredTimeout now m timeout (c\<lparr>messageCount := messageCount c + 1\<rparr>);
     Some c }"

definition TouchMessage ::
  "chan_opts \<Rightarrow> int \<Rightarrow> int \<Rightarrow> MessageID \<Rightarrow> int \<Rightarrow> 'b Channel \<Rightarrow> (go_error option \<times> 'b Channel) option" where
  "TouchMessage opts now cid mid clientMsgTimeout c =
     (case popInFlightMessage cid mid c of
        (Inl e, c) \<Rightarrow> Some (Some e, c)
      | (Inr m, c) \<Rightarrow> do {
          c \<leftarrow> removeFromInFlightPQ m c;
          let newTimeout = now + clientMsgTimeout;
          let newTimeout = (if newTimeout - deliveryTS (msgs c m) \<ge> MaxMsgTimeout opts
                            then deliveryTS (msgs c m) + MaxMsgTimeout opts else newTimeout);
          let c = c\<lparr>msgs := (msgs c)(m := (msgs c m)\<lparr>pri := int64 newTimeout\<rparr>)\<rparr>;
          let (err, c) = pushInFlightMessage m c;
          if err \<noteq> None then Some (err, c)
          else do { c \<leftarrow> addToInFlightPQ m c; Some (None, c) } })"

definition FinishMessage :: "int \<Rightarrow> MessageID \<Rightarrow> 'b Channel \<Rightarrow> (go_error option \<times> 'b Channel) option" where
  "FinishMessage cid mid c =
     (case popInFlightMessage cid mid c of
        (Inl e, c) \<Rightarrow> Some (Some e, c)
      | (Inr m, c) \<Rightarrow> do {
          c \<leftarrow> removeFromInFlightPQ m c;
          Some (None, c\<lparr>e2eStream := map_option (\<lambda>l. l @ [Timestamp (msgs c m)]) (e2eStream c)\<rparr>) })"

definition RequeueMessage ::
  "'b backend_ops \<Rightarrow> int \<Rightarrow> int \<Rightarrow> MessageID \<Rightarrow> int \<Rightarrow> 'b Channel \<Rightarrow> (go_error option \<times> 'b Channel) option" where
  "RequeueMessage ops now cid mid timeout c =
     (case popInFlightMessage cid mid c of
        (Inl e, c) \<Rightarrow> Some (Some e, c)
      | (Inr m, c) \<Rightarrow> do {
          c \<leftarrow> removeFromInFlightPQ m c;
          let c = c\<lparr>requeueCount := requeueCount c + 1\<rparr>;
          if timeout = 0 then
            (if Exiting c then Some (Some (Err ''exiting''), c) else Some (put ops m c))
          else StartDeferredTimeout now m timeout c })"

definition AddClient :: "chan_opts \<Rightarrow> int \<Rightarrow> 'b Channel \<Rightarrow> go_error option \<times> 'b Channel" where
  "AddClient opts cid c =
     (if clients c cid \<noteq> None then (None, c)
      else if MaxChannelConsumers opts \<noteq> 0 \<and> int (card (dom (clients c))) \<ge> MaxChannelConsumers opts
      then (Some (Err ''E_TOO_MANY_CHANNEL_CONSUMERS''), c)
      else (None, c\<lparr>clients := (clients c)(cid \<mapsto> [])\<rparr>))"

definition RemoveClient :: "int \<Rightarrow> 'b Channel \<Rightarrow> 'b Channel" where
  "RemoveClient cid c =
     (if clients c cid = None then c
      else
        (let c = c\<lparr>clients := (clients c)(cid := None)\<rparr>
         in if clients c = Map.empty \<and> ephemeral c then c\<lparr>deleteScheduled := True\<rparr> else c))"

definition EmptyChannel :: "'b backend_ops \<Rightarrow> chan_opts \<Rightarrow> 'b Channel \<Rightarrow> go_error option \<times> 'b Channel" where
  "EmptyChannel ops opts c =
     (let c = toClients CEmpty (initPQ opts c);
          c = c\<lparr>memoryMsgChan := []\<rparr>;
          (err, b) = bq_Empty ops (backend c)
      in (err, c\<lparr>backend := b\<rparr>))"

text \<open>
  \<open>infl\<close> and \<open>defd\<close> are the messages in flight and the deferred items in the order in which Go iterates
  over the maps. Errors of the backend are logged.
\<close>

definition writeAll :: "'b backend_ops \<Rightarrow> addr list \<Rightarrow> 'b Channel \<Rightarrow> 'b Channel" where
  "writeAll ops ms c =
     fold (\<lambda>m c. c\<lparr>backend := snd (writeMessageToBackend (bq_Put ops) (msgs c m) (backend c))\<rparr>) ms c"

definition flush :: "'b backend_ops \<Rightarrow> addr list \<Rightarrow> addr list \<Rightarrow> 'b Channel \<Rightarrow> 'b Channel" where
  "flush ops infl defd c =
     (let c = (writeAll ops (memoryMsgChan c) c)\<lparr>memoryMsgChan := []\<rparr>;
          c = writeAll ops infl c
      in writeAll ops (map (\<lambda>i. Value (dItems c i)) defd) c)"

definition exit ::
  "'b backend_ops \<Rightarrow> chan_opts \<Rightarrow> addr list \<Rightarrow> addr list \<Rightarrow> bool \<Rightarrow> 'b Channel \<Rightarrow> go_error option \<times> 'b Channel" where
  "exit ops opts infl defd deleted c =
     (if exitFlag c then (Some (Err ''exiting''), c)
      else
        (let c = c\<lparr>exitFlag := True\<rparr>;
             c = (if deleted then c\<lparr>notified := notified c + 1\<rparr> else c);
             c = toClients CClose c
         in if deleted then
              (let (_, c) = EmptyChannel ops opts c;
                   (err, b) = bq_Delete ops (backend c)
               in (err, c\<lparr>backend := b\<rparr>))
            else
              (let c = flush ops infl defd c;
                   (err, b) = bq_Close ops (backend c)
               in (err, c\<lparr>backend := b\<rparr>))))"

text \<open>The loops that return due messages to the queue. \<open>None\<close> is a panic or a loop without end.\<close>

partial_function (option) processDeferredLoop ::
  "'b backend_ops \<Rightarrow> int \<Rightarrow> bool \<Rightarrow> 'b Channel \<Rightarrow> (bool \<times> 'b Channel) option" where
  "processDeferredLoop ops t dirty c = do {
     ((item, _), q) \<leftarrow> pqueue_PeekAndShift (ipri c) t (deferredPQ c);
     let c = c\<lparr>deferredPQ := q\<rparr>;
     (case item of
        None \<Rightarrow> Some (dirty, c)
      | Some i \<Rightarrow>
          let m = Value (dItems c i) in
          (case popDeferredMessage (ID (msgs c m)) c of
             (Inl e, c) \<Rightarrow> Some (True, c)
           | (Inr _, c) \<Rightarrow> processDeferredLoop ops t True (snd (put ops m c)))) }"

definition processDeferredQueue :: "'b backend_ops \<Rightarrow> int \<Rightarrow> 'b Channel \<Rightarrow> (bool \<times> 'b Channel) option" where
  "processDeferredQueue ops t c = (if Exiting c then Some (False, c) else processDeferredLoop ops t False c)"

definition timedOut :: "int \<Rightarrow> 'b Channel \<Rightarrow> 'b Channel" where
  "timedOut cid c =
     c\<lparr>timeoutCount := timeoutCount c + 1,
       clients := (case clients c cid of None \<Rightarrow> clients c
                   | Some l \<Rightarrow> (clients c)(cid \<mapsto> l @ [CTimedOutMessage]))\<rparr>"

partial_function (option) processInFlightLoop ::
  "'b backend_ops \<Rightarrow> int \<Rightarrow> bool \<Rightarrow> 'b Channel \<Rightarrow> (bool \<times> 'b Channel) option" where
  "processInFlightLoop ops t dirty c = do {
     ((msg, _), q) \<leftarrow> ifq_PeekAndShift (mpri c) t (inFlightPQ c);
     let c = c\<lparr>inFlightPQ := q\<rparr>;
     (case msg of
        None \<Rightarrow> Some (dirty, c)
      | Some m \<Rightarrow>
          (case popInFlightMessage (clientID (msgs c m)) (ID (msgs c m)) c of
             (Inl e, c) \<Rightarrow> Some (True, c)
           | (Inr _, c) \<Rightarrow> processInFlightLoop ops t True (snd (put ops m (timedOut (clientID (msgs c m)) c))))) }"

definition processInFlightQueue :: "'b backend_ops \<Rightarrow> int \<Rightarrow> 'b Channel \<Rightarrow> (bool \<times> 'b Channel) option" where
  "processInFlightQueue ops t c = (if Exiting c then Some (False, c) else processInFlightLoop ops t False c)"

end
