(* ===== verification/Nsq_Channel_Inv.thy ===== *)
theory Nsq_Channel_Inv
  imports Nsq_Channel
begin

text \<open>
  The channel's invariant, and what its operations do: messages move between the memory queue, the
  backend, the in-flight set and the deferred set without being held twice; a client can only act on
  its own messages; the timer loops end and return exactly the messages that are due.
\<close>

section \<open>The invariant\<close>

text \<open>The messages that the channel holds in memory, with their multiplicity.\<close>

definition in_flight :: "'b Channel \<Rightarrow> addr set" where
  "in_flight c = pq_set (inFlightPQ c)"

abbreviation dvalue :: "'b Channel \<Rightarrow> addr \<Rightarrow> addr" where
  "dvalue c \<equiv> (\<lambda>i. Value (dItems c i))"

definition held :: "'b Channel \<Rightarrow> addr multiset" where
  "held c = mset (memoryMsgChan c) + mset_set (in_flight c) + image_mset (dvalue c) (mset_set (pq_set (deferredPQ c)))"

definition once :: "'a multiset \<Rightarrow> bool" where
  "once M \<longleftrightarrow> (\<forall>a. count M a \<le> 1)"

lemma once_add [simp]: "once (add_mset m M) \<longleftrightarrow> m \<notin># M \<and> once M"
proof
  assume *: "once (add_mset m M)"
  have "count M a \<le> count (add_mset m M) a" for a by simp
  with * have "once M" unfolding once_def by (meson le_trans)
  moreover have "count (add_mset m M) m \<le> 1" using * unfolding once_def by blast
  ultimately show "m \<notin># M \<and> once M" by (simp add: not_in_iff)
qed (auto simp: once_def not_in_iff)

text \<open>
  Maps and timer queues agree, ids are right, queues are in order, and no message is held twice.
\<close>

definition chan_inv :: "'b Channel \<Rightarrow> bool" where
  "chan_inv c \<longleftrightarrow>
     pq_inv (mpri c) (inFlightPQ c) \<and> in_flight c = ran (inFlightMessages c) \<and>
     (\<forall>mid a. inFlightMessages c mid = Some a \<longrightarrow> ID (msgs c a) = mid) \<and>
     pq_inv (ipri c) (deferredPQ c) \<and> pq_set (deferredPQ c) = ran (deferredMessages c) \<and>
     (\<forall>mid i. deferredMessages c mid = Some i \<longrightarrow> ID (msgs c (dvalue c i)) = mid \<and> i < nextItem c) \<and>
     once (held c)"

lemma finite_in_flight [simp]: "finite (in_flight c)"
  by (simp add: in_flight_def)

lemma in_flight_held: "a \<in> in_flight c \<Longrightarrow> a \<in># held c"
  by (simp add: held_def)

section \<open>Taking a message out of flight\<close>

lemma take_in_flight:
  assumes I: "chan_inv c" and m: "inFlightMessages c mid = Some m" "clientID (msgs c m) = cid"
  obtains q where "popInFlightMessage cid mid c = (Inr m, c\<lparr>inFlightMessages := (inFlightMessages c)(mid := None)\<rparr>)"
    "removeFromInFlightPQ m (c\<lparr>inFlightMessages := (inFlightMessages c)(mid := None)\<rparr>) =
       Some (c\<lparr>inFlightMessages := (inFlightMessages c)(mid := None), inFlightPQ := q\<rparr>)"
    "chan_inv (c\<lparr>inFlightMessages := (inFlightMessages c)(mid := None), inFlightPQ := q\<rparr>)"
    "held c = add_mset m (held (c\<lparr>inFlightMessages := (inFlightMessages c)(mid := None), inFlightPQ := q\<rparr>))"
    "pq_set q = in_flight c - {m}" "index q m = -1"
proof -
  let ?c = "c\<lparr>inFlightMessages := (inFlightMessages c)(mid := None)\<rparr>"
  have pq: "pq_inv (mpri c) (inFlightPQ c)" and mem: "m \<in> pq_set (inFlightPQ c)"
    using I m(1) by (auto simp: chan_inv_def in_flight_def ran_def)
  from ifq.remove_law [OF pq mem] obtain q where
    q: "0 \<le> index (inFlightPQ c) m" "ifq_Remove (mpri c) (nat (index (inFlightPQ c) m)) (inFlightPQ c) = Some (m, q)"
      "pq_inv (mpri c) q" "pq_set q = pq_set (inFlightPQ c) - {m}" "index q m = -1" by blast
  let ?c' = "c\<lparr>inFlightMessages := (inFlightMessages c)(mid := None), inFlightPQ := q\<rparr>"
  have "removeFromInFlightPQ m ?c = Some ?c'" using q(1,2) by (simp add: removeFromInFlightPQ_def Let_def)
  moreover have h: "held c = add_mset m (held ?c')"
    using mem q(4) mset_set.remove [of "in_flight c" m]
    by (simp add: held_def in_flight_def)
  moreover have ids: "\<forall>mid a. inFlightMessages c mid = Some a \<longrightarrow> ID (msgs c a) = mid" using I by (simp add: chan_inv_def)
  then have "ran ((inFlightMessages c)(mid := None)) = ran (inFlightMessages c) - {m}"
    using m(1) by (auto simp: ran_def) (metis option.inject)
  then have "chan_inv ?c'"
    using I q(3,4) h by (auto simp: chan_inv_def in_flight_def)
  ultimately show thesis using that [of q] m q(4,5) by (simp add: popInFlightMessage_def in_flight_def)
qed


section \<open>Putting a message in flight\<close>

lemma add_in_flight:
  assumes I: "chan_inv c" and m: "m \<notin># held c" "inFlightMessages c (ID (msgs c m)) = None"
    and x: "ID x = ID (msgs c m)"
  obtains c' where "pushInFlightMessage m (c\<lparr>msgs := (msgs c)(m := x)\<rparr>) =
      (None, c\<lparr>msgs := (msgs c)(m := x), inFlightMessages := (inFlightMessages c)(ID x \<mapsto> m)\<rparr>)"
    "addToInFlightPQ m (c\<lparr>msgs := (msgs c)(m := x), inFlightMessages := (inFlightMessages c)(ID x \<mapsto> m)\<rparr>) = Some c'"
    "chan_inv c'" "held c' = add_mset m (held c)" "msgs c' = (msgs c)(m := x)" "in_flight c' = insert m (in_flight c)"
    "memoryMsgChan c' = memoryMsgChan c" "backend c' = backend c" "deferredMessages c' = deferredMessages c"
    "dItems c' = dItems c" "inFlightMessages c' = (inFlightMessages c)(ID x \<mapsto> m)" "exitFlag c' = exitFlag c" "memCap c' = memCap c"
    "deferredPQ c' = deferredPQ c"
proof -
  let ?c = "c\<lparr>msgs := (msgs c)(m := x)\<rparr>"
  have nm: "m \<notin> pq_set (inFlightPQ c)" using m(1) in_flight_held by (auto simp: in_flight_def)
  have "pq_inv (mpri ?c) (inFlightPQ c)"
    by (rule ifq.inv_cong [of "mpri c"]) (use I nm in \<open>auto simp: chan_inv_def\<close>)
  from ifq.push_law [OF this nm] obtain q where
    q: "ifq_Push (mpri ?c) m (inFlightPQ c) = Some q" "pq_inv (mpri ?c) q" "pq_set q = insert m (pq_set (inFlightPQ c))" by blast
  let ?c' = "c\<lparr>msgs := (msgs c)(m := x), inFlightMessages := (inFlightMessages c)(ID x \<mapsto> m), inFlightPQ := q\<rparr>"
  have h: "held ?c' = add_mset m (held c)" using q(3) nm by (simp add: held_def in_flight_def)
  have r: "ran ((inFlightMessages c)(ID x \<mapsto> m)) = insert m (ran (inFlightMessages c))" using m(2) x by simp
  have "m \<notin> dvalue c ` pq_set (deferredPQ c)" using m(1) by (auto simp: held_def)
  then have "ID (msgs ?c (dvalue c i)) = mid" if "deferredMessages c mid = Some i" for mid i
    using I that x by (auto simp: chan_inv_def ran_def)
  then have "chan_inv ?c'"
    using I q(2,3) r h m(1) x nm unfolding chan_inv_def by (auto simp: in_flight_def)
  then show thesis
    using that [of ?c'] q h m(2) x by (simp add: pushInFlightMessage_def addToInFlightPQ_def in_flight_def)
qed

section \<open>Deferring a message\<close>

lemma add_deferred:
  assumes I: "chan_inv c" and m: "m \<notin># held c"
  obtains (already) "deferredMessages c (ID (msgs c m)) \<noteq> None" "StartDeferredTimeout now m timeout c =
      Some (Some (Err ''ID already deferred''), c\<lparr>nextItem := Suc (nextItem c),
        dItems := (dItems c)(nextItem c := \<lparr>Value = m, Priority = int64 (now + timeout)\<rparr>)\<rparr>)"
      "chan_inv (c\<lparr>nextItem := Suc (nextItem c), dItems := (dItems c)(nextItem c := \<lparr>Value = m, Priority = int64 (now + timeout)\<rparr>)\<rparr>)"
      "held (c\<lparr>nextItem := Suc (nextItem c), dItems := (dItems c)(nextItem c := \<lparr>Value = m, Priority = int64 (now + timeout)\<rparr>)\<rparr>) = held c"
    | (fresh) c' where "deferredMessages c (ID (msgs c m)) = None"
      "StartDeferredTimeout now m timeout c = Some (None, c')" "chan_inv c'" "held c' = add_mset m (held c)"
      "deferredMessages c' = (deferredMessages c)(ID (msgs c m) \<mapsto> nextItem c)"
      "dItems c' = (dItems c)(nextItem c := \<lparr>Value = m, Priority = int64 (now + timeout)\<rparr>)"
      "msgs c' = msgs c" "inFlightPQ c' = inFlightPQ c" "inFlightMessages c' = inFlightMessages c"
      "memoryMsgChan c' = memoryMsgChan c" "backend c' = backend c"
proof -
  let ?i = "nextItem c" and ?x = "\<lparr>Value = m, Priority = int64 (now + timeout)\<rparr>"
  let ?c = "c\<lparr>nextItem := Suc ?i, dItems := (dItems c)(?i := ?x)\<rparr>"
  have rn: "i < ?i" if "i \<in> pq_set (deferredPQ c)" for i
    using I that by (fastforce simp: chan_inv_def ran_def)
  then have ni: "?i \<notin> pq_set (deferredPQ c)" by blast
  have img: "image_mset (dvalue ?c) (mset_set (pq_set (deferredPQ c))) = image_mset (dvalue c) (mset_set (pq_set (deferredPQ c)))"
    using ni by (intro image_mset_cong) auto
  have h0: "held ?c = held c" using img by (simp add: held_def in_flight_def)
  have pq: "pq_inv (ipri ?c) (deferredPQ c)"
    by (rule dfq.inv_cong [of "ipri c"]) (use I ni in \<open>auto simp: chan_inv_def\<close>)
  have ne: "i < ?i" if "deferredMessages c mid = Some i" for mid i using I that by (simp add: chan_inv_def)
  have I0: "chan_inv ?c"
    using I pq h0 ne unfolding chan_inv_def in_flight_def by (auto simp: less_SucI dest: less_not_refl2)
  show thesis
  proof (cases "deferredMessages c (ID (msgs c m)) = None")
    case False
    then show thesis using already h0 I0 by (simp add: StartDeferredTimeout_def pushDeferredMessage_def Let_def)
  next
    case True
    from dfq.push_law [OF pq ni] obtain q where
      q: "heap_Push (ipri ?c) ?i (deferredPQ c) = Some q" "pq_inv (ipri ?c) q" "pq_set q = insert ?i (pq_set (deferredPQ c))" by blast
    let ?c' = "?c\<lparr>deferredMessages := (deferredMessages c)(ID (msgs c m) \<mapsto> ?i), deferredPQ := q\<rparr>"
    have h: "held ?c' = add_mset m (held c)" using q(3) ni img by (simp add: held_def in_flight_def)
    have "ran ((deferredMessages c)(ID (msgs c m) \<mapsto> ?i)) = insert ?i (ran (deferredMessages c))" using True by simp
    then have "chan_inv ?c'"
      using I0 q(2,3) h m unfolding chan_inv_def h0 in_flight_def by auto
    moreover have "StartDeferredTimeout now m timeout c = Some (None, ?c')"
      using True q(1) by (simp add: StartDeferredTimeout_def pushDeferredMessage_def addToDeferredPQ_def Let_def)
    ultimately show thesis using fresh [of ?c'] True h by simp
  qed
qed

section \<open>Queueing a message\<close>

text \<open>What \<open>put\<close> does, on the memory queue and the backend only.\<close>

definition room :: "'b Channel \<Rightarrow> nat" where
  "room c = memCap c - length (memoryMsgChan c)"

definition bput :: "'b backend_ops \<Rightarrow> (addr \<Rightarrow> Msg) \<Rightarrow> addr \<Rightarrow> 'b \<Rightarrow> 'b" where
  "bput ops ms m b = snd (bq_Put ops (encoded (ms m)) b)"

definition enqueued :: "'b backend_ops \<Rightarrow> addr list \<Rightarrow> 'b Channel \<Rightarrow> 'b Channel \<Rightarrow> bool" where
  "enqueued ops ms c c' \<longleftrightarrow> memoryMsgChan c' = memoryMsgChan c @ take (room c) ms \<and>
     backend c' = fold (bput ops (msgs c)) (drop (room c) ms) (backend c)"

lemma put_cases:
  obtains (memory) "0 < room c" "put ops m c = (None, c\<lparr>memoryMsgChan := memoryMsgChan c @ [m]\<rparr>)"
  | (disk) err b where "room c = 0" "bq_Put ops (encoded (msgs c m)) (backend c) = (err, b)"
      "put ops m c = (err, c\<lparr>backend := b, health := err\<rparr>)"
proof (cases "0 < room c")
  case True
  then show thesis by (intro memory) (simp_all add: put_def room_def)
next
  case False
  obtain err b where "bq_Put ops (encoded (msgs c m)) (backend c) = (err, b)" by fastforce
  with False show thesis by (intro disk [of err b]) (simp_all add: put_def room_def writeMessageToBackend_put)
qed

lemma put_enqueued: "enqueued ops [m] c (snd (put ops m c))"
  by (rule put_cases [of c ops m]) (auto simp: enqueued_def bput_def)

lemma put_frame [simp]:
  "inFlightPQ (snd (put ops m c)) = inFlightPQ c" "inFlightMessages (snd (put ops m c)) = inFlightMessages c"
  "deferredPQ (snd (put ops m c)) = deferredPQ c" "deferredMessages (snd (put ops m c)) = deferredMessages c"
  "msgs (snd (put ops m c)) = msgs c" "dItems (snd (put ops m c)) = dItems c" "nextItem (snd (put ops m c)) = nextItem c"
  "memCap (snd (put ops m c)) = memCap c" "exitFlag (snd (put ops m c)) = exitFlag c"
  by (simp_all add: put_def split: prod.splits)

lemma put_inv:
  assumes "chan_inv c" "m \<notin># held c"
  shows "chan_inv (snd (put ops m c))"
    "held (snd (put ops m c)) = (if 0 < room c then add_mset m (held c) else held c)"
proof -
  show h: "held (snd (put ops m c)) = (if 0 < room c then add_mset m (held c) else held c)"
    by (rule put_cases [of c ops m]) (auto simp: held_def in_flight_def)
  show "chan_inv (snd (put ops m c))"
    using assms unfolding chan_inv_def h by (simp add: in_flight_def)
qed

lemma enqueued_Cons:
  assumes "enqueued ops [m] c c1" "enqueued ops ms c1 c2" "memCap c1 = memCap c" "msgs c1 = msgs c"
  shows "enqueued ops (m # ms) c c2"
proof (cases "room c")
  case 0
  then have "room c1 = 0" using assms(1,3) by (simp add: enqueued_def room_def)
  with 0 assms show ?thesis by (simp add: enqueued_def)
next
  case (Suc k)
  then have "room c1 = k" using assms(1,3) by (simp add: enqueued_def room_def)
  with Suc assms show ?thesis by (simp add: enqueued_def)
qed

section \<open>The timer loops\<close>

lemma enqueued_cong:
  "enqueued ops ms c c' \<Longrightarrow> memoryMsgChan d = memoryMsgChan c \<Longrightarrow> memCap d = memCap c \<Longrightarrow> backend d = backend c \<Longrightarrow>
   msgs d = msgs c \<Longrightarrow> enqueued ops ms d c'"
  by (simp add: enqueued_def room_def)

lemma ran_delete:
  assumes "f k = Some v" "\<And>k'. f k' = Some v \<Longrightarrow> k' = k"
  shows "ran (f(k := None)) = ran f - {v}"
proof
  show "ran (f(k := None)) \<subseteq> ran f - {v}"
  proof
    fix x assume "x \<in> ran (f(k := None))"
    then obtain k' where k': "(f(k := None)) k' = Some x" unfolding ran_def by blast
    then have "k' \<noteq> k" "f k' = Some x" by (auto split: if_splits)
    with assms(2) [of k'] show "x \<in> ran f - {v}" by (metis Diff_iff ranI singletonD)
  qed
  show "ran f - {v} \<subseteq> ran (f(k := None))"
  proof
    fix x assume "x \<in> ran f - {v}"
    then obtain k' where "f k' = Some x" "x \<noteq> v" by (auto simp: ran_def)
    then have "(f(k := None)) k' = Some x" using assms(1) by auto
    then show "x \<in> ran (f(k := None))" by (rule ranI)
  qed
qed

lemma leave_flight:
  assumes I: "chan_inv c" and m: "m \<in> in_flight c" and q: "pq_inv (mpri c) q" "pq_set q = in_flight c - {m}"
  defines "c' \<equiv> c\<lparr>inFlightPQ := q, inFlightMessages := (inFlightMessages c)(ID (msgs c m) := None)\<rparr>"
  shows "inFlightMessages c (ID (msgs c m)) = Some m" "chan_inv c'" "held c = add_mset m (held c')"
proof -
  have ids: "\<forall>mid a. inFlightMessages c mid = Some a \<longrightarrow> ID (msgs c a) = mid" using I by (simp add: chan_inv_def)
  have "\<exists>mid. inFlightMessages c mid = Some m" using I m by (auto simp: chan_inv_def ran_def)
  then show mid: "inFlightMessages c (ID (msgs c m)) = Some m" using ids by metis
  show h: "held c = add_mset m (held c')"
    using m q(2) mset_set.remove [of "in_flight c" m] by (simp add: held_def in_flight_def c'_def)
  have "ran ((inFlightMessages c)(ID (msgs c m) := None)) = ran (inFlightMessages c) - {m}"
    by (rule ran_delete, rule mid, metis ids)
  then show "chan_inv c'"
    using I q h unfolding chan_inv_def by (simp add: in_flight_def c'_def)
qed

lemma timedOut_inv [simp]: "chan_inv (timedOut cid c) = chan_inv c" "held (timedOut cid c) = held c"
  by (simp_all add: chan_inv_def held_def in_flight_def timedOut_def)

lemma processInFlightLoop_correct:
  assumes "chan_inv c"
  shows "\<exists>ms c'. processInFlightLoop ops t d c = Some (d \<or> ms \<noteq> [], c') \<and> chan_inv c' \<and>
    set ms = {m \<in> in_flight c. mpri c m \<le> t} \<and> distinct ms \<and> sorted (map (mpri c) ms) \<and>
    in_flight c' = {m \<in> in_flight c. t < mpri c m} \<and> enqueued ops ms c c' \<and>
    msgs c' = msgs c \<and> deferredPQ c' = deferredPQ c \<and> deferredMessages c' = deferredMessages c \<and> dItems c' = dItems c \<and>
    timeoutCount c' = timeoutCount c + of_nat (length ms)"
  using assms
proof (induction "card (in_flight c)" arbitrary: c d rule: less_induct)
  case less
  have pq: "pq_inv (mpri c) (inFlightPQ c)" using less.prems by (simp add: chan_inv_def)
  show ?case
  proof (cases "\<exists>y \<in> in_flight c. mpri c y \<le> t")
    case False
    then have none: "t < mpri c y" if "y \<in> pq_set (inFlightPQ c)" for y using that by (force simp: in_flight_def)
    from ifq.shift_none [OF pq, of t] none obtain w where
      "ifq_PeekAndShift (mpri c) t (inFlightPQ c) = Some ((None, w), inFlightPQ c)" by blast
    then have "processInFlightLoop ops t d c = Some (d, c)" by (subst processInFlightLoop.simps) simp
    moreover have "enqueued ops [] c c" by (simp add: enqueued_def)
    ultimately show ?thesis using False less.prems by (intro exI [of _ "[]"] exI [of _ c]) (auto simp: not_le)
  next
    case True
    then obtain y where y: "y \<in> pq_set (inFlightPQ c)" "mpri c y \<le> t" by (auto simp: in_flight_def)
    from ifq.shift_due [OF pq y] obtain m q where
      m: "ifq_PeekAndShift (mpri c) t (inFlightPQ c) = Some ((Some m, 0), q)" "m \<in> pq_set (inFlightPQ c)" "mpri c m \<le> t"
        "\<forall>y \<in> pq_set (inFlightPQ c). mpri c m \<le> mpri c y" "pq_inv (mpri c) q" "pq_set q = pq_set (inFlightPQ c) - {m}" by blast
    let ?c1 = "c\<lparr>inFlightPQ := q, inFlightMessages := (inFlightMessages c)(ID (msgs c m) := None)\<rparr>"
    let ?c2 = "timedOut (clientID (msgs c m)) ?c1"
    let ?c3 = "snd (put ops m ?c2)"
    note lf = leave_flight [OF less.prems m(2) [folded in_flight_def] m(5) m(6) [folded in_flight_def]]
    have mid: "inFlightMessages c (ID (msgs c m)) = Some m" by (rule lf(1))
    have "once (held c)" using less.prems by (simp add: chan_inv_def)
    then have c2: "chan_inv ?c2" "m \<notin># held ?c2" using lf(2,3) by simp_all
    note c3 = put_inv(1) [OF c2, of ops]
    have f3: "in_flight ?c3 = in_flight c - {m}" "msgs ?c3 = msgs c" "memCap ?c3 = memCap c"
      using m(6) by (simp_all add: in_flight_def timedOut_def)
    have "card (in_flight ?c3) < card (in_flight c)"
      using m(2) f3(1) by (metis card_Diff1_less finite_in_flight in_flight_def)
    from less.hyps [OF this c3, of True] f3(1,2) obtain ms c' where
      r: "processInFlightLoop ops t True ?c3 = Some (True, c')" "chan_inv c'"
        "set ms = {m' \<in> in_flight c - {m}. mpri c m' \<le> t}" "distinct ms" "sorted (map (mpri c) ms)"
        "in_flight c' = {m' \<in> in_flight c - {m}. t < mpri c m'}" "enqueued ops ms ?c3 c'"
        "msgs c' = msgs c" "deferredPQ c' = deferredPQ c" "deferredMessages c' = deferredMessages c" "dItems c' = dItems c"
        "timeoutCount c' = timeoutCount ?c3 + of_nat (length ms)"
      by (auto simp: timedOut_def)
    have tc: "timeoutCount ?c3 = timeoutCount c + 1" by (simp add: put_def timedOut_def split: prod.splits)
    have eq: "processInFlightLoop ops t d c = Some (True, c')"
      using m(1) mid r(1) by (subst processInFlightLoop.simps) (simp add: popInFlightMessage_def)
    have e: "enqueued ops (m # ms) c c'"
      by (rule enqueued_Cons [OF enqueued_cong [OF put_enqueued] r(7) f3(3,2)]) (simp_all add: timedOut_def)
    have "sorted (map (mpri c) (m # ms))" "distinct (m # ms)" "set (m # ms) = {m \<in> in_flight c. mpri c m \<le> t}"
      using m(2,3,4) r(4,5) unfolding list.set r(3) by (auto simp: r(3) in_flight_def)
    moreover have "in_flight c' = {m \<in> in_flight c. t < mpri c m}" using m(3) unfolding r(6) by auto
    ultimately show ?thesis using eq e r tc by (intro exI [of _ "m # ms"] exI [of _ c']) (simp add: algebra_simps)
  qed
qed

lemma leave_deferred:
  assumes I: "chan_inv c" and i: "i \<in> pq_set (deferredPQ c)" and q: "pq_inv (ipri c) q" "pq_set q = pq_set (deferredPQ c) - {i}"
  defines "c' \<equiv> c\<lparr>deferredPQ := q, deferredMessages := (deferredMessages c)(ID (msgs c (dvalue c i)) := None)\<rparr>"
  shows "deferredMessages c (ID (msgs c (dvalue c i))) = Some i" "chan_inv c'" "held c = add_mset (dvalue c i) (held c')"
proof -
  have ids: "\<forall>mid i. deferredMessages c mid = Some i \<longrightarrow> ID (msgs c (dvalue c i)) = mid \<and> i < nextItem c" using I by (simp add: chan_inv_def)
  have "\<exists>mid. deferredMessages c mid = Some i" using I i by (auto simp: chan_inv_def ran_def)
  then show mid: "deferredMessages c (ID (msgs c (dvalue c i))) = Some i" using ids by metis
  show h: "held c = add_mset (dvalue c i) (held c')"
    using i q(2) mset_set.remove [of "pq_set (deferredPQ c)" i] by (simp add: held_def in_flight_def c'_def)
  have "ran ((deferredMessages c)(ID (msgs c (dvalue c i)) := None)) = ran (deferredMessages c) - {i}"
    by (rule ran_delete, rule mid, metis ids)
  then show "chan_inv c'"
    using I q h unfolding chan_inv_def by (simp add: in_flight_def c'_def)
qed

lemma processDeferredLoop_correct:
  assumes "chan_inv c"
  shows "\<exists>is c'. processDeferredLoop ops t d c = Some (d \<or> is \<noteq> [], c') \<and> chan_inv c' \<and>
    set is = {i \<in> pq_set (deferredPQ c). ipri c i \<le> t} \<and> distinct is \<and> sorted (map (ipri c) is) \<and>
    pq_set (deferredPQ c') = {i \<in> pq_set (deferredPQ c). t < ipri c i} \<and> enqueued ops (map (dvalue c) is) c c' \<and>
    msgs c' = msgs c \<and> inFlightPQ c' = inFlightPQ c \<and> inFlightMessages c' = inFlightMessages c \<and> dItems c' = dItems c"
  using assms
proof (induction "card (pq_set (deferredPQ c))" arbitrary: c d rule: less_induct)
  case less
  have pq: "pq_inv (ipri c) (deferredPQ c)" using less.prems by (simp add: chan_inv_def)
  show ?case
  proof (cases "\<exists>y \<in> pq_set (deferredPQ c). ipri c y \<le> t")
    case False
    then have none: "t < ipri c y" if "y \<in> pq_set (deferredPQ c)" for y using that by force
    from dfq.shift_none [OF pq, of t] none obtain w where
      "pqueue_PeekAndShift (ipri c) t (deferredPQ c) = Some ((None, w), deferredPQ c)" by blast
    then have "processDeferredLoop ops t d c = Some (d, c)" by (subst processDeferredLoop.simps) simp
    moreover have "enqueued ops [] c c" by (simp add: enqueued_def)
    ultimately show ?thesis using False less.prems by (intro exI [of _ "[]"] exI [of _ c]) (auto simp: not_le)
  next
    case True
    then obtain y where y: "y \<in> pq_set (deferredPQ c)" "ipri c y \<le> t" by blast
    from dfq.shift_due [OF pq y] obtain i q where
      i: "pqueue_PeekAndShift (ipri c) t (deferredPQ c) = Some ((Some i, 0), q)" "i \<in> pq_set (deferredPQ c)" "ipri c i \<le> t"
        "\<forall>y \<in> pq_set (deferredPQ c). ipri c i \<le> ipri c y" "pq_inv (ipri c) q" "pq_set q = pq_set (deferredPQ c) - {i}" by blast
    let ?m = "dvalue c i"
    let ?c1 = "c\<lparr>deferredPQ := q, deferredMessages := (deferredMessages c)(ID (msgs c ?m) := None)\<rparr>"
    let ?c3 = "snd (put ops ?m ?c1)"
    note ld = leave_deferred [OF less.prems i(2,5,6)]
    have "once (held c)" using less.prems by (simp add: chan_inv_def)
    then have c1: "chan_inv ?c1" "?m \<notin># held ?c1" using ld(2,3) by simp_all
    note c3 = put_inv(1) [OF c1, of ops]
    have f3: "pq_set (deferredPQ ?c3) = pq_set (deferredPQ c) - {i}" "msgs ?c3 = msgs c" "memCap ?c3 = memCap c" "dItems ?c3 = dItems c"
      using i(6) by simp_all
    have "card (pq_set (deferredPQ ?c3)) < card (pq_set (deferredPQ c))"
      using i(2) f3(1) by (metis card_Diff1_less List.finite_set)
    from less.hyps [OF this c3, of True] f3 obtain js c' where
      r: "processDeferredLoop ops t True ?c3 = Some (True, c')" "chan_inv c'"
        "set js = {i' \<in> pq_set (deferredPQ c) - {i}. ipri c i' \<le> t}" "distinct js" "sorted (map (ipri c) js)"
        "pq_set (deferredPQ c') = {i' \<in> pq_set (deferredPQ c) - {i}. t < ipri c i'}" "enqueued ops (map (dvalue c) js) ?c3 c'"
        "msgs c' = msgs c" "inFlightPQ c' = inFlightPQ c" "inFlightMessages c' = inFlightMessages c" "dItems c' = dItems c"
      by auto
    have eq: "processDeferredLoop ops t d c = Some (True, c')"
      using i(1) ld(1) r(1) by (subst processDeferredLoop.simps) (simp add: popDeferredMessage_def)
    have e: "enqueued ops (?m # map (dvalue c) js) c c'"
      by (rule enqueued_Cons [OF enqueued_cong [OF put_enqueued] r(7) f3(3,2)]) simp_all
    have "sorted (map (ipri c) (i # js))" "distinct (i # js)" "set (i # js) = {i \<in> pq_set (deferredPQ c). ipri c i \<le> t}"
      using i(2,3,4) r(4,5) unfolding list.set r(3) by (auto simp: r(3))
    moreover have "pq_set (deferredPQ c') = {i \<in> pq_set (deferredPQ c). t < ipri c i}" using i(3) unfolding r(6) by auto
    ultimately show ?thesis using eq e r by (intro exI [of _ "i # js"] exI [of _ c']) simp
  qed
qed

section \<open>The steps of a channel\<close>

text \<open>
  Each step is one operation. A new message is a cell that the channel does not hold; the message pump
  takes a message from the memory queue, or decodes one that it reads from the backend (which moves to
  some state \<open>b\<close> by that), and puts it in flight.
\<close>

inductive chan_step :: "'b backend_ops \<Rightarrow> chan_opts \<Rightarrow> 'b Channel \<Rightarrow> 'b Channel \<Rightarrow> bool"
  for ops opts where
  put: "m \<notin># held c \<Longrightarrow> PutMessage ops m (c\<lparr>msgs := (msgs c)(m := x)\<rparr>) = (err, c') \<Longrightarrow> chan_step ops opts c c'"
| put_deferred: "m \<notin># held c \<Longrightarrow> PutMessageDeferred now m timeout (c\<lparr>msgs := (msgs c)(m := x)\<rparr>) = Some c' \<Longrightarrow>
    chan_step ops opts c c'"
| deliver: "memoryMsgChan c = m # ms \<Longrightarrow>
    StartInFlightTimeout now m cid timeout
      (c\<lparr>memoryMsgChan := ms, msgs := (msgs c)(m := (msgs c m)\<lparr>Attempts := Attempts (msgs c m) + 1\<rparr>)\<rparr>) = Some (err, c') \<Longrightarrow>
    chan_step ops opts c c'"
| deliver_disk: "m \<notin># held c \<Longrightarrow> decodeMessage buf = Inr x \<Longrightarrow>
    StartInFlightTimeout now m cid timeout
      (c\<lparr>backend := b, msgs := (msgs c)(m := x\<lparr>Attempts := Attempts x + 1\<rparr>)\<rparr>) = Some (err, c') \<Longrightarrow>
    chan_step ops opts c c'"
| finish: "FinishMessage cid mid c = Some (err, c') \<Longrightarrow> chan_step ops opts c c'"
| requeue: "RequeueMessage ops now cid mid timeout c = Some (err, c') \<Longrightarrow> chan_step ops opts c c'"
| touch: "TouchMessage opts now cid mid timeout c = Some (err, c') \<Longrightarrow> chan_step ops opts c c'"
| in_flight_timer: "processInFlightQueue ops t c = Some (dirty, c') \<Longrightarrow> chan_step ops opts c c'"
| deferred_timer: "processDeferredQueue ops t c = Some (dirty, c') \<Longrightarrow> chan_step ops opts c c'"
| add_client: "AddClient opts cid c = (err, c') \<Longrightarrow> chan_step ops opts c c'"
| remove_client: "chan_step ops opts c (RemoveClient cid c)"
| pause: "chan_step ops opts c (doPause p c)"
| empty: "EmptyChannel ops opts c = (err, c') \<Longrightarrow> chan_step ops opts c c'"
| exit: "exit ops opts infl defd deleted c = (err, c') \<Longrightarrow> chan_step ops opts c c'"

lemma chan_inv_frame:
  assumes "inFlightPQ c' = inFlightPQ c" "inFlightMessages c' = inFlightMessages c" "deferredPQ c' = deferredPQ c"
    "deferredMessages c' = deferredMessages c" "msgs c' = msgs c" "dItems c' = dItems c" "nextItem c' = nextItem c"
    "mset (memoryMsgChan c') \<subseteq># mset (memoryMsgChan c)" "chan_inv c"
  shows "chan_inv c'"
proof -
  have "held c' \<subseteq># held c" using assms by (simp add: held_def in_flight_def)
  then have "once (held c')" using assms(9) unfolding chan_inv_def once_def by (meson le_trans mset_subset_eq_count)
  then show ?thesis using assms unfolding chan_inv_def by (simp add: in_flight_def)
qed

lemma chan_inv_new_msg:
  assumes "chan_inv c" "m \<notin># held c"
  shows "chan_inv (c\<lparr>msgs := (msgs c)(m := x)\<rparr>)" "held (c\<lparr>msgs := (msgs c)(m := x)\<rparr>) = held c"
proof -
  show h: "held (c\<lparr>msgs := (msgs c)(m := x)\<rparr>) = held c" by (simp add: held_def in_flight_def)
  have a: "a \<noteq> m" if "a \<in> in_flight c" for a using that assms(2) in_flight_held by metis
  have b: "dvalue c i \<noteq> m" if "i \<in> pq_set (deferredPQ c)" for i using that assms(2) by (auto simp: held_def)
  have "pq_inv (mpri (c\<lparr>msgs := (msgs c)(m := x)\<rparr>)) (inFlightPQ c)"
    by (rule ifq.inv_cong [of "mpri c"]) (use assms(1) a in \<open>auto simp: chan_inv_def in_flight_def\<close>)
  moreover have "ID (msgs (c\<lparr>msgs := (msgs c)(m := x)\<rparr>) a) = mid" if "inFlightMessages c mid = Some a" for mid a
    using assms(1) that a [of a] by (auto simp: chan_inv_def ran_def)
  moreover have "ID (msgs (c\<lparr>msgs := (msgs c)(m := x)\<rparr>) (dvalue c i)) = mid \<and> i < nextItem c" if "deferredMessages c mid = Some i" for mid i
    using assms(1) that b [of i] by (auto simp: chan_inv_def ran_def)
  ultimately show "chan_inv (c\<lparr>msgs := (msgs c)(m := x)\<rparr>)"
    using assms(1) unfolding chan_inv_def h by (simp add: in_flight_def)
qed

lemma StartInFlightTimeout_ok:
  assumes "chan_inv c" "m \<notin># held c"
  shows "\<exists>c'. StartInFlightTimeout now m cid timeout c =
      Some (if inFlightMessages c (ID (msgs c m)) = None then None else Some (Err ''ID already in flight''), c') \<and> chan_inv c' \<and>
      held c' = (if inFlightMessages c (ID (msgs c m)) = None then add_mset m (held c) else held c)"
proof -
  let ?x = "(msgs c m)\<lparr>clientID := cid, deliveryTS := now, pri := int64 (now + timeout)\<rparr>"
  show ?thesis
  proof (cases "inFlightMessages c (ID (msgs c m)) = None")
    case True
    from add_in_flight [OF assms True, of ?x] obtain c' where
      "pushInFlightMessage m (c\<lparr>msgs := (msgs c)(m := ?x)\<rparr>) =
        (None, c\<lparr>msgs := (msgs c)(m := ?x), inFlightMessages := (inFlightMessages c)(ID ?x \<mapsto> m)\<rparr>)"
      "addToInFlightPQ m (c\<lparr>msgs := (msgs c)(m := ?x), inFlightMessages := (inFlightMessages c)(ID ?x \<mapsto> m)\<rparr>) = Some c'"
      "chan_inv c'" "held c' = add_mset m (held c)" by auto
    with True show ?thesis by (simp add: StartInFlightTimeout_def Let_def)
  next
    case False
    then show ?thesis using chan_inv_new_msg [OF assms, of ?x]
      by (simp add: StartInFlightTimeout_def pushInFlightMessage_def Let_def)
  qed
qed

lemma memory_take:
  assumes "chan_inv c" "memoryMsgChan c = m # ms"
  shows "chan_inv (c\<lparr>memoryMsgChan := ms\<rparr>)" "m \<notin># held (c\<lparr>memoryMsgChan := ms\<rparr>)"
    "held c = add_mset m (held (c\<lparr>memoryMsgChan := ms\<rparr>))"
proof -
  show h: "held c = add_mset m (held (c\<lparr>memoryMsgChan := ms\<rparr>))" using assms(2) by (simp add: held_def in_flight_def)
  have "once (held c)" using assms(1) by (simp add: chan_inv_def)
  then show "m \<notin># held (c\<lparr>memoryMsgChan := ms\<rparr>)" unfolding h by simp
  show "chan_inv (c\<lparr>memoryMsgChan := ms\<rparr>)" by (rule chan_inv_frame [of _ c]) (use assms in simp_all)
qed

lemma pop_in_flight_fails:
  assumes "\<nexists>m. inFlightMessages c mid = Some m \<and> clientID (msgs c m) = cid"
  shows "\<exists>e. popInFlightMessage cid mid c = (Inl e, c) \<and>
    e = Err (if inFlightMessages c mid = None then ''ID not in flight'' else ''client does not own message'')"
  using assms by (auto simp: popInFlightMessage_def split: option.splits)

text \<open>What a client's \<open>FIN\<close>, \<open>REQ\<close> and \<open>TOUCH\<close> do to a message it owns.\<close>

definition owns :: "int \<Rightarrow> MessageID \<Rightarrow> addr \<Rightarrow> 'b Channel \<Rightarrow> bool" where
  "owns cid mid m c \<longleftrightarrow> inFlightMessages c mid = Some m \<and> clientID (msgs c m) = cid"

lemma FinishMessage_ok:
  assumes "chan_inv c" "owns cid mid m c"
  shows "\<exists>c'. FinishMessage cid mid c = Some (None, c') \<and> chan_inv c' \<and> held c = add_mset m (held c') \<and>
    in_flight c' = in_flight c - {m} \<and> inFlightMessages c' = (inFlightMessages c)(mid := None) \<and>
    memoryMsgChan c' = memoryMsgChan c \<and> backend c' = backend c"
proof -
  obtain q where q: "popInFlightMessage cid mid c = (Inr m, c\<lparr>inFlightMessages := (inFlightMessages c)(mid := None)\<rparr>)"
    "removeFromInFlightPQ m (c\<lparr>inFlightMessages := (inFlightMessages c)(mid := None)\<rparr>) =
       Some (c\<lparr>inFlightMessages := (inFlightMessages c)(mid := None), inFlightPQ := q\<rparr>)"
    "chan_inv (c\<lparr>inFlightMessages := (inFlightMessages c)(mid := None), inFlightPQ := q\<rparr>)"
    "held c = add_mset m (held (c\<lparr>inFlightMessages := (inFlightMessages c)(mid := None), inFlightPQ := q\<rparr>))"
    "pq_set q = in_flight c - {m}"
    using assms(2) unfolding owns_def by (auto intro: take_in_flight [OF assms(1)])
  let ?c = "c\<lparr>inFlightMessages := (inFlightMessages c)(mid := None), inFlightPQ := q\<rparr>"
  have "chan_inv (?c\<lparr>e2eStream := e\<rparr>)" "held (?c\<lparr>e2eStream := e\<rparr>) = held ?c" for e
    using chan_inv_frame [of "?c\<lparr>e2eStream := e\<rparr>" ?c] q(3) by (simp_all add: held_def in_flight_def)
  then show ?thesis using q by (simp add: FinishMessage_def in_flight_def)
qed

lemma RequeueMessage_ok:
  assumes "chan_inv c" "owns cid mid m c"
  shows "\<exists>c1 err c'. RequeueMessage ops now cid mid timeout c = Some (err, c') \<and> chan_inv c' \<and>
    chan_inv c1 \<and> held c = add_mset m (held c1) \<and> in_flight c' = in_flight c - {m} \<and> exitFlag c1 = exitFlag c \<and>
    room c1 = room c \<and> deferredMessages c1 = deferredMessages c \<and> msgs c1 = msgs c \<and> backend c1 = backend c \<and>
    (if timeout = 0 then (if exitFlag c then err = Some (Err ''exiting'') \<and> c' = c1 else (err, c') = put ops m c1)
     else StartDeferredTimeout now m timeout c1 = Some (err, c'))"
proof -
  obtain q where q: "popInFlightMessage cid mid c = (Inr m, c\<lparr>inFlightMessages := (inFlightMessages c)(mid := None)\<rparr>)"
    "removeFromInFlightPQ m (c\<lparr>inFlightMessages := (inFlightMessages c)(mid := None)\<rparr>) =
       Some (c\<lparr>inFlightMessages := (inFlightMessages c)(mid := None), inFlightPQ := q\<rparr>)"
    "chan_inv (c\<lparr>inFlightMessages := (inFlightMessages c)(mid := None), inFlightPQ := q\<rparr>)"
    "held c = add_mset m (held (c\<lparr>inFlightMessages := (inFlightMessages c)(mid := None), inFlightPQ := q\<rparr>))"
    "pq_set q = in_flight c - {m}"
    using assms(2) unfolding owns_def by (auto intro: take_in_flight [OF assms(1)])
  let ?c0 = "c\<lparr>inFlightMessages := (inFlightMessages c)(mid := None), inFlightPQ := q\<rparr>"
  let ?c1 = "?c0\<lparr>requeueCount := requeueCount c + 1\<rparr>"
  have c1: "chan_inv ?c1" "held ?c1 = held ?c0" "in_flight ?c1 = in_flight c - {m}"
    using chan_inv_frame [of ?c1 ?c0] q(3,5) by (simp_all add: held_def in_flight_def)
  have "once (held c)" using assms(1) by (simp add: chan_inv_def)
  then have m: "m \<notin># held ?c1" using q(4) c1(2) by simp
  have R: "RequeueMessage ops now cid mid timeout c =
      (if timeout = 0 then if exitFlag c then Some (Some (Err ''exiting''), ?c1) else Some (put ops m ?c1)
       else StartDeferredTimeout now m timeout ?c1)"
    using q(1,2) by (simp add: RequeueMessage_def Exiting_def Let_def)
  have P: "chan_inv (snd (put ops m ?c1))" "in_flight (snd (put ops m ?c1)) = in_flight ?c1"
    using put_inv(1) [OF c1(1) m] by (simp_all add: in_flight_def)
  have "\<exists>err c'. StartDeferredTimeout now m timeout ?c1 = Some (err, c') \<and> chan_inv c' \<and> in_flight c' = in_flight ?c1"
    by (rule add_deferred [OF c1(1) m, of now timeout]) (auto simp: in_flight_def)
  then obtain err c' where D: "StartDeferredTimeout now m timeout ?c1 = Some (err, c')" "chan_inv c'" "in_flight c' = in_flight ?c1" by blast
  obtain perr pc where P': "put ops m ?c1 = (perr, pc)" by fastforce
  have F: "chan_inv ?c1 \<and> held c = add_mset m (held ?c1) \<and> exitFlag ?c1 = exitFlag c \<and> room ?c1 = room c \<and>
      deferredMessages ?c1 = deferredMessages c \<and> msgs ?c1 = msgs c \<and> backend ?c1 = backend c"
    using c1(1,2) q(4) by (simp add: room_def)
  consider "timeout = 0" "exitFlag c" | "timeout = 0" "\<not> exitFlag c" | "timeout \<noteq> 0" by blast
  then show ?thesis
  proof cases
    case 1
    then show ?thesis using R F c1(3) by (intro exI [of _ ?c1] exI [of _ "Some (Err ''exiting'')"]) simp
  next
    case 2
    then show ?thesis using R F P P' c1(3) by (intro exI [of _ ?c1] exI [of _ perr] exI [of _ pc]) simp
  next
    case 3
    then show ?thesis using R F D c1(3) by (intro exI [of _ ?c1] exI [of _ err] exI [of _ c']) simp
  qed
qed

lemma TouchMessage_ok:
  assumes "chan_inv c" "owns cid mid m c"
  shows "\<exists>c'. TouchMessage opts now cid mid timeout c = Some (None, c') \<and> chan_inv c' \<and> held c' = held c \<and>
    owns cid mid m c' \<and> in_flight c' = in_flight c \<and> msgs c' = (msgs c)(m := (msgs c m)\<lparr>pri :=
      int64 (min (now + timeout) (deliveryTS (msgs c m) + MaxMsgTimeout opts))\<rparr>)"
proof -
  obtain q where q: "popInFlightMessage cid mid c = (Inr m, c\<lparr>inFlightMessages := (inFlightMessages c)(mid := None)\<rparr>)"
    "removeFromInFlightPQ m (c\<lparr>inFlightMessages := (inFlightMessages c)(mid := None)\<rparr>) =
       Some (c\<lparr>inFlightMessages := (inFlightMessages c)(mid := None), inFlightPQ := q\<rparr>)"
    "chan_inv (c\<lparr>inFlightMessages := (inFlightMessages c)(mid := None), inFlightPQ := q\<rparr>)"
    "held c = add_mset m (held (c\<lparr>inFlightMessages := (inFlightMessages c)(mid := None), inFlightPQ := q\<rparr>))"
    "pq_set q = in_flight c - {m}"
    using assms(2) unfolding owns_def by (auto intro: take_in_flight [OF assms(1)])
  let ?c0 = "c\<lparr>inFlightMessages := (inFlightMessages c)(mid := None), inFlightPQ := q\<rparr>"
  let ?t = "min (now + timeout) (deliveryTS (msgs c m) + MaxMsgTimeout opts)"
  let ?x = "(msgs c m)\<lparr>pri := int64 ?t\<rparr>"
  have "once (held c)" using assms(1) by (simp add: chan_inv_def)
  then have m: "m \<notin># held ?c0" using q(4) by simp
  have id: "ID (msgs c m) = mid" and mf: "m \<in> in_flight c" using assms by (auto simp: chan_inv_def owns_def ran_def)
  have nt: "(if now + timeout - deliveryTS (msgs c m) \<ge> MaxMsgTimeout opts then deliveryTS (msgs c m) + MaxMsgTimeout opts
      else now + timeout) = ?t" by auto
  have n: "inFlightMessages ?c0 (ID (msgs ?c0 m)) = None" "ID ?x = ID (msgs ?c0 m)" using id by simp_all
  obtain c' where c': "pushInFlightMessage m (?c0\<lparr>msgs := (msgs c)(m := ?x)\<rparr>) =
      (None, ?c0\<lparr>msgs := (msgs c)(m := ?x), inFlightMessages := (inFlightMessages ?c0)(mid \<mapsto> m)\<rparr>)"
    "addToInFlightPQ m (?c0\<lparr>msgs := (msgs c)(m := ?x), inFlightMessages := (inFlightMessages ?c0)(mid \<mapsto> m)\<rparr>) = Some c'"
    "chan_inv c'" "held c' = add_mset m (held ?c0)" "msgs c' = (msgs c)(m := ?x)" "in_flight c' = insert m (in_flight ?c0)"
    "inFlightMessages c' = (inFlightMessages ?c0)(mid \<mapsto> m)"
    by (rule add_in_flight [OF q(3) m n]) (use id in simp)
  have "TouchMessage opts now cid mid timeout c = Some (None, c')"
    using q(1,2) c'(1,2) by (simp add: TouchMessage_def nt Let_def cong: if_cong split del: if_split)
  moreover have "in_flight c' = in_flight c" using c'(6) q(5) mf by (auto simp: in_flight_def)
  moreover have "owns cid mid m c'" using assms(2) c'(5,7) by (simp add: owns_def)
  ultimately show ?thesis using c' q(4) by simp
qed

section \<open>Every step keeps the invariant\<close>

lemma pq_inv_empty: "0 < n \<Longrightarrow> pq_inv p \<lparr>items = [], capac = n, index = f\<rparr>"
  by (simp add: pq_inv_def good_idx_def heap_order_def)

lemma initPQ_inv:
  assumes "once (mset (memoryMsgChan c))"
  shows "chan_inv (initPQ opts c)" "held (initPQ opts c) = mset (memoryMsgChan c)"
  using assms pq_inv_empty
  by (simp_all add: chan_inv_def initPQ_def Let_def newInFlightPqueue_def pqueue_New_def held_def in_flight_def)

lemma NewChannel_inv: "chan_inv (NewChannel opts nb name store)"
proof -
  define c where "c = \<lparr>requeueCount = 0, messageCount = 0, timeoutCount = 0, backend = nb (hasSuffix name ''#ephemeral''),
    memoryMsgChan = [], memCap = nat (MemQueueSize opts), exitFlag = False, clients = Map.empty, paused = False,
    ephemeral = hasSuffix name ''#ephemeral'', deleteScheduled = False,
    e2eStream = (if E2EProcessingLatency opts then Some [] else None), deferredMessages = Map.empty, deferredPQ = pqueue_New 0,
    inFlightMessages = Map.empty, inFlightPQ = newInFlightPqueue 0, msgs = store,
    dItems = (\<lambda>_. \<lparr>Value = 0, Priority = 0\<rparr>), nextItem = 0, health = None, notified = 0\<rparr>"
  have "chan_inv (initPQ opts c)" by (rule initPQ_inv) (simp add: c_def once_def)
  then have "chan_inv ((initPQ opts c)\<lparr>notified := n\<rparr>)" for n
    by (rule chan_inv_frame [rotated -1]) simp_all
  then show ?thesis unfolding NewChannel_def Let_def c_def [symmetric] .
qed

lemma PutMessage_inv:
  assumes "chan_inv c" "m \<notin># held c" "PutMessage ops m c = (err, c')"
  shows "chan_inv c'"
proof -
  obtain e c1 where c1: "put ops m c = (e, c1)" by fastforce
  then have I: "chan_inv c1" using put_inv(1) [OF assms(1,2), of ops] by simp
  have "chan_inv (c1\<lparr>messageCount := n\<rparr>)" for n by (rule chan_inv_frame [of _ c1]) (use I in simp_all)
  with I show ?thesis using assms(1,3) c1 by (auto simp: PutMessage_def split: if_splits)
qed

lemma StartDeferred_inv:
  assumes "chan_inv c" "m \<notin># held c"
  shows "\<exists>err c'. StartDeferredTimeout now m timeout c = Some (err, c') \<and> chan_inv c'"
  by (rule add_deferred [OF assms, of now timeout]) auto

lemma PutMessageDeferred_inv:
  assumes "chan_inv c" "m \<notin># held c"
  shows "\<exists>c'. PutMessageDeferred now m timeout c = Some c' \<and> chan_inv c'"
proof -
  let ?c = "c\<lparr>messageCount := messageCount c + 1\<rparr>"
  have "chan_inv ?c" by (rule chan_inv_frame [of _ c]) (use assms in simp_all)
  moreover have "held ?c = held c" by (simp add: held_def in_flight_def)
  ultimately show ?thesis using StartDeferred_inv [of ?c m now timeout] assms(2) by (auto simp: PutMessageDeferred_def)
qed

lemma Finish_inv:
  assumes "chan_inv c"
  shows "\<exists>err c'. FinishMessage cid mid c = Some (err, c') \<and> chan_inv c'"
proof (cases "\<exists>m. owns cid mid m c")
  case True
  then show ?thesis using FinishMessage_ok [OF assms] by blast
next
  case False
  then obtain e where "popInFlightMessage cid mid c = (Inl e, c)"
    using pop_in_flight_fails [of c mid cid] unfolding owns_def by blast
  then show ?thesis using assms by (simp add: FinishMessage_def)
qed

lemma Requeue_inv:
  assumes "chan_inv c"
  shows "\<exists>err c'. RequeueMessage ops now cid mid timeout c = Some (err, c') \<and> chan_inv c'"
proof (cases "\<exists>m. owns cid mid m c")
  case True
  then show ?thesis using RequeueMessage_ok [OF assms] by blast
next
  case False
  then obtain e where "popInFlightMessage cid mid c = (Inl e, c)"
    using pop_in_flight_fails [of c mid cid] unfolding owns_def by blast
  then show ?thesis using assms by (simp add: RequeueMessage_def)
qed

lemma Touch_inv:
  assumes "chan_inv c"
  shows "\<exists>err c'. TouchMessage opts now cid mid timeout c = Some (err, c') \<and> chan_inv c'"
proof (cases "\<exists>m. owns cid mid m c")
  case True
  then show ?thesis using TouchMessage_ok [OF assms] by blast
next
  case False
  then obtain e where "popInFlightMessage cid mid c = (Inl e, c)"
    using pop_in_flight_fails [of c mid cid] unfolding owns_def by blast
  then show ?thesis using assms by (simp add: TouchMessage_def)
qed

lemma timers_inv:
  assumes "chan_inv c"
  shows "\<exists>d c'. processInFlightQueue ops t c = Some (d, c') \<and> chan_inv c'"
    "\<exists>d c'. processDeferredQueue ops t c = Some (d, c') \<and> chan_inv c'"
  using processInFlightLoop_correct [OF assms, of ops t False] processDeferredLoop_correct [OF assms, of ops t False] assms
  by (auto simp: processInFlightQueue_def processDeferredQueue_def)

lemma writeAll_backend: "writeAll ops ms c = c\<lparr>backend := fold (bput ops (msgs c)) ms (backend c)\<rparr>"
proof (induction ms arbitrary: c)
  case (Cons m ms)
  have "writeAll ops (m # ms) c = writeAll ops ms (c\<lparr>backend := bput ops (msgs c) m (backend c)\<rparr>)"
    by (simp add: writeAll_def writeMessageToBackend_put bput_def)
  then show ?case using Cons.IH by simp
qed (simp add: writeAll_def)

lemma chan_inv_upd [simp]:
  "chan_inv (c\<lparr>backend := b\<rparr>) = chan_inv c" "chan_inv (c\<lparr>exitFlag := e\<rparr>) = chan_inv c" "chan_inv (c\<lparr>notified := n\<rparr>) = chan_inv c"
  "chan_inv (c\<lparr>clients := cl\<rparr>) = chan_inv c" "chan_inv (c\<lparr>paused := p\<rparr>) = chan_inv c" "chan_inv (c\<lparr>deleteScheduled := p\<rparr>) = chan_inv c"
  by (simp_all add: chan_inv_def held_def in_flight_def)

lemma toClients_inv [simp]: "chan_inv (toClients x c) = chan_inv c" "memoryMsgChan (toClients x c) = memoryMsgChan c"
  by (simp_all add: toClients_def chan_inv_def held_def in_flight_def)

lemma EmptyChannel_inv:
  assumes "chan_inv c"
  shows "chan_inv (snd (EmptyChannel ops opts c))"
proof -
  have "mset (memoryMsgChan c) \<subseteq># held c" by (simp add: held_def)
  then have "once (mset (memoryMsgChan c))"
    using assms unfolding chan_inv_def once_def by (meson le_trans mset_subset_eq_count)
  then have "chan_inv (toClients CEmpty (initPQ opts c))" using initPQ_inv(1) by simp
  then have "chan_inv ((toClients CEmpty (initPQ opts c))\<lparr>memoryMsgChan := [], backend := b\<rparr>)" for b
    by (rule chan_inv_frame [rotated -1]) simp_all
  then show ?thesis by (simp add: EmptyChannel_def Let_def split: prod.splits)
qed

lemma flush_inv:
  assumes "chan_inv c"
  shows "chan_inv (flush ops infl defd c)"
proof -
  have "chan_inv (c\<lparr>memoryMsgChan := []\<rparr>)" by (rule chan_inv_frame [of _ c]) (use assms in simp_all)
  then show ?thesis by (simp add: flush_def Let_def writeAll_backend)
qed

lemma exit_inv:
  assumes "chan_inv c"
  shows "chan_inv (snd (exit ops opts infl defd deleted c))"
proof -
  define c1 where "c1 = toClients CClose (if deleted then c\<lparr>exitFlag := True, notified := notified c + 1\<rparr> else c\<lparr>exitFlag := True\<rparr>)"
  have I: "chan_inv c1" using assms by (simp add: c1_def)
  have "snd (exit ops opts infl defd deleted c) = (if exitFlag c then c
      else if deleted then (snd (EmptyChannel ops opts c1))\<lparr>backend := snd (bq_Delete ops (backend (snd (EmptyChannel ops opts c1))))\<rparr>
      else (flush ops infl defd c1)\<lparr>backend := snd (bq_Close ops (backend (flush ops infl defd c1)))\<rparr>)"
    by (simp add: exit_def c1_def Let_def split: prod.splits)
  then show ?thesis using assms EmptyChannel_inv [OF I] flush_inv [OF I] by simp
qed

lemma deliver_inv:
  assumes "chan_inv c" "memoryMsgChan c = m # ms"
  shows "\<exists>err c'. StartInFlightTimeout now m cid timeout (c\<lparr>memoryMsgChan := ms, msgs := (msgs c)(m := x)\<rparr>) = Some (err, c') \<and> chan_inv c'"
proof -
  note mt = memory_take [OF assms]
  have "chan_inv (c\<lparr>memoryMsgChan := ms, msgs := (msgs c)(m := x)\<rparr>)" "held (c\<lparr>memoryMsgChan := ms, msgs := (msgs c)(m := x)\<rparr>) = held (c\<lparr>memoryMsgChan := ms\<rparr>)"
    using chan_inv_new_msg [OF mt(1,2), of x] by simp_all
  from StartInFlightTimeout_ok [OF this(1), of m now cid timeout] this(2) mt(2) show ?thesis by metis
qed

lemma chan_step_inv: "chan_step ops opts c c' \<Longrightarrow> chan_inv c \<Longrightarrow> chan_inv c'"
proof (induction rule: chan_step.induct)
  case (put m c x err c')
  then show ?case using chan_inv_new_msg [of c m x] PutMessage_inv by metis
next
  case (put_deferred m c now timeout x c')
  then show ?case using chan_inv_new_msg [of c m x] PutMessageDeferred_inv by (metis option.inject)
next
  case (deliver c m ms now cid timeout err c')
  then show ?case using deliver_inv [OF deliver(3,1)] by (metis option.inject prod.inject)
next
  case (deliver_disk m c buf x now cid timeout b err c')
  let ?c = "c\<lparr>backend := b, msgs := (msgs c)(m := x\<lparr>Attempts := Attempts x + 1\<rparr>)\<rparr>"
  have "m \<notin># held (c\<lparr>backend := b\<rparr>)" using deliver_disk(1) by (simp add: held_def in_flight_def)
  then have "chan_inv ?c" "m \<notin># held ?c"
    using chan_inv_new_msg [of "c\<lparr>backend := b\<rparr>" m "x\<lparr>Attempts := Attempts x + 1\<rparr>"] deliver_disk(4) by simp_all
  from StartInFlightTimeout_ok [OF this, of now cid timeout] show ?case using deliver_disk(3) by auto
next
  case (finish cid mid c err c')
  then show ?case using Finish_inv by (metis option.inject prod.inject)
next
  case (requeue now cid mid timeout c err c')
  then show ?case using Requeue_inv by (metis option.inject prod.inject)
next
  case (touch now cid mid timeout c err c')
  then show ?case using Touch_inv by (metis option.inject prod.inject)
next
  case (in_flight_timer t c dirty c')
  then show ?case using timers_inv(1) by (metis option.inject prod.inject)
next
  case (deferred_timer t c dirty c')
  then show ?case using timers_inv(2) by (metis option.inject prod.inject)
next
  case (add_client cid c err c')
  then show ?case by (auto simp: AddClient_def split: if_splits)
next
  case (remove_client c cid)
  then show ?case by (simp add: RemoveClient_def Let_def)
next
  case (pause c p)
  then show ?case by (simp add: doPause_def)
next
  case (empty c err c')
  then show ?case using EmptyChannel_inv by (metis snd_conv)
next
  case (exit infl defd deleted c err c')
  then show ?case using exit_inv by (metis snd_conv)
qed

end
