(* ===== verification/Nsq_Topic.thy ===== *)
theory Nsq_Topic
  imports Nsq_Channel_Inv
begin

text \<open>
  A topic of nsqd (\<^verbatim>\<open>nsqd/topic.go\<close>): its own queue, its channels and the message pump that copies every
  message to every channel. Channels are objects that the map of the topic and the pump both point to, so
  they are cells of a store. The messages in the topic's queue belong to it alone and are values; the pump
  puts each into a cell of the channel that the channel does not use.
\<close>

record 'b Topic =
  t_name :: string
  channelMap :: "string \<Rightarrow> addr option"
  chanObj :: "addr \<Rightarrow> 'b Channel"
  chanName :: "addr \<Rightarrow> string"
  nextChan :: addr
  t_backend :: 'b
  t_memory :: "Msg list"       \<comment> \<open>\<^verbatim>\<open>memoryMsgChan\<close>\<close>
  t_memCap :: nat              \<comment> \<open>0: the channel is nil\<close>
  t_exitFlag :: bool
  t_paused :: bool
  t_ephemeral :: bool
  t_deleteScheduled :: bool
  t_messageCount :: u64
  t_messageBytes :: u64
  idFactory :: guidFactory
  t_health :: "go_error option"
  t_notified :: nat
  startSignal :: bool          \<comment> \<open>\<^verbatim>\<open>startChan\<close> holds a value\<close>
  pumpStarted :: bool
  pumpChans :: "addr list"     \<comment> \<open>the pump's \<^verbatim>\<open>chans\<close>\<close>
  pumpOpen :: bool             \<comment> \<open>the pump's channels are not nil\<close>

definition NewTopic :: "chan_opts \<Rightarrow> u64 \<Rightarrow> (bool \<Rightarrow> 'b) \<Rightarrow> 'b Channel \<Rightarrow> string \<Rightarrow> 'b Topic" where
  "NewTopic opts nid newBackend nochan topicName =
     (let eph = hasSuffix topicName ''#ephemeral'' in
      \<lparr>t_name = topicName, channelMap = Map.empty, chanObj = (\<lambda>_. nochan), chanName = (\<lambda>_. ''''), nextChan = 0,
       t_backend = newBackend eph, t_memory = [],
       t_memCap = (if MemQueueSize opts > 0 then nat (MemQueueSize opts) else 0),
       t_exitFlag = False, t_paused = False, t_ephemeral = eph, t_deleteScheduled = False,
       t_messageCount = 0, t_messageBytes = 0, idFactory = NewGUIDFactory nid, t_health = None, t_notified = 1,
       startSignal = False, pumpStarted = False, pumpChans = [], pumpOpen = False\<rparr>)"

definition Start :: "'b Topic \<Rightarrow> 'b Topic" where
  "Start t = t\<lparr>startSignal := True\<rparr>"

definition topic_Exiting :: "'b Topic \<Rightarrow> bool" where
  "topic_Exiting t = t_exitFlag t"

text \<open>\<open>nb\<close> makes the backend of a new channel.\<close>

definition getOrCreateChannel ::
  "chan_opts \<Rightarrow> (bool \<Rightarrow> 'b) \<Rightarrow> (addr \<Rightarrow> Msg) \<Rightarrow> string \<Rightarrow> 'b Topic \<Rightarrow> (addr \<times> bool) \<times> 'b Topic" where
  "getOrCreateChannel opts nb store channelName t =
     (case channelMap t channelName of
        Some a \<Rightarrow> ((a, False), t)
      | None \<Rightarrow>
          (let a = nextChan t
           in ((a, True), t\<lparr>nextChan := Suc a, chanObj := (chanObj t)(a := NewChannel opts nb channelName store),
                          chanName := (chanName t)(a := channelName), channelMap := (channelMap t)(channelName \<mapsto> a)\<rparr>)))"

definition GetExistingChannel :: "string \<Rightarrow> 'b Topic \<Rightarrow> addr res" where
  "GetExistingChannel channelName t =
     (case channelMap t channelName of None \<Rightarrow> Inl (Err ''channel does not exist'') | Some a \<Rightarrow> Inr a)"

text \<open>\<open>mo\<close> gives the order in which a channel's maps are taken when it is closed.\<close>

definition DeleteExistingChannel ::
  "'b backend_ops \<Rightarrow> chan_opts \<Rightarrow> (addr \<Rightarrow> addr list \<times> addr list) \<Rightarrow> string \<Rightarrow> 'b Topic \<Rightarrow> go_error option \<times> 'b Topic" where
  "DeleteExistingChannel ops opts mo channelName t =
     (case channelMap t channelName of
        None \<Rightarrow> (Some (Err ''channel does not exist''), t)
      | Some a \<Rightarrow>
          (let t = t\<lparr>channelMap := (channelMap t)(channelName := None)\<rparr>;
               t = t\<lparr>chanObj := (chanObj t)(a := snd (exit ops opts (fst (mo a)) (snd (mo a)) True (chanObj t a)))\<rparr>
           in (None, if channelMap t = Map.empty \<and> t_ephemeral t then t\<lparr>t_deleteScheduled := True\<rparr> else t)))"

definition topic_put :: "'b backend_ops \<Rightarrow> Msg \<Rightarrow> 'b Topic \<Rightarrow> go_error option \<times> 'b Topic" where
  "topic_put ops m t =
     (if length (t_memory t) < t_memCap t then (None, t\<lparr>t_memory := t_memory t @ [m]\<rparr>)
      else
        (let (err, b) = writeMessageToBackend (bq_Put ops) m (t_backend t)
         in (err, t\<lparr>t_backend := b, t_health := err\<rparr>)))"

definition topic_PutMessage :: "'b backend_ops \<Rightarrow> Msg \<Rightarrow> 'b Topic \<Rightarrow> go_error option \<times> 'b Topic" where
  "topic_PutMessage ops m t =
     (if t_exitFlag t then (Some (Err ''exiting''), t)
      else
        (let (err, t) = topic_put ops m t
         in if err \<noteq> None then (err, t)
            else (None, t\<lparr>t_messageCount := t_messageCount t + 1,
                          t_messageBytes := t_messageBytes t + of_nat (length (Body m))\<rparr>)))"

text \<open>\<open>i\<close> messages of \<open>bytes\<close> bytes have been put.\<close>

fun putAll :: "'b backend_ops \<Rightarrow> nat \<Rightarrow> nat \<Rightarrow> Msg list \<Rightarrow> 'b Topic \<Rightarrow> go_error option \<times> 'b Topic" where
  "putAll ops i bytes [] t =
     (None, t\<lparr>t_messageBytes := t_messageBytes t + of_nat bytes, t_messageCount := t_messageCount t + of_nat i\<rparr>)"
| "putAll ops i bytes (m # ms) t =
     (let (err, t) = topic_put ops m t
      in if err \<noteq> None
         then (err, t\<lparr>t_messageCount := t_messageCount t + of_nat i, t_messageBytes := t_messageBytes t + of_nat bytes\<rparr>)
         else putAll ops (Suc i) (bytes + length (Body m)) ms t)"

definition PutMessages :: "'b backend_ops \<Rightarrow> Msg list \<Rightarrow> 'b Topic \<Rightarrow> go_error option \<times> 'b Topic" where
  "PutMessages ops ms t = (if t_exitFlag t then (Some (Err ''exiting''), t) else putAll ops 0 0 ms t)"

definition topic_Depth :: "'b backend_ops \<Rightarrow> 'b Topic \<Rightarrow> int" where
  "topic_Depth ops t = int (length (t_memory t)) + bq_Depth ops (t_backend t)"

section \<open>The message pump\<close>

text \<open>
  Its loop is a sequence of the steps below, one for each case of its \<^verbatim>\<open>select\<close>. \<open>order\<close> is the order in which
  Go takes the channels out of the map.
\<close>

definition pumpRefresh :: "addr list \<Rightarrow> 'b Topic \<Rightarrow> 'b Topic" where
  "pumpRefresh order t = t\<lparr>pumpChans := order, pumpOpen := (order \<noteq> [] \<and> \<not> t_paused t)\<rparr>"

definition pumpBegin :: "addr list \<Rightarrow> 'b Topic \<Rightarrow> 'b Topic" where
  "pumpBegin order t =
     (if startSignal t \<and> \<not> pumpStarted t then pumpRefresh order (t\<lparr>startSignal := False, pumpStarted := True\<rparr>) else t)"

definition pumpUpdate :: "addr list \<Rightarrow> 'b Topic \<Rightarrow> 'b Topic" where
  "pumpUpdate order t = (if pumpStarted t then pumpRefresh order t else t)"

definition pumpPause :: "'b Topic \<Rightarrow> 'b Topic" where
  "pumpPause t = (if pumpStarted t then pumpRefresh (pumpChans t) t else t)"

text \<open>
  \<^verbatim>\<open>GetChannel\<close> tells a running pump about a new channel and goes on when the pump has taken the signal.
\<close>

definition GetChannel ::
  "chan_opts \<Rightarrow> (bool \<Rightarrow> 'b) \<Rightarrow> (addr \<Rightarrow> Msg) \<Rightarrow> addr list \<Rightarrow> string \<Rightarrow> 'b Topic \<Rightarrow> addr \<times> 'b Topic" where
  "GetChannel opts nb store order channelName t =
     (let ((a, isNew), t) = getOrCreateChannel opts nb store channelName t
      in (a, if isNew \<and> \<not> t_exitFlag t then pumpUpdate order t else t))"

text \<open>A cell of the channel's store that the channel does not hold.\<close>

definition alloc :: "'b Channel \<Rightarrow> addr" where
  "alloc c = Suc (fold max (memoryMsgChan c @ items (inFlightPQ c) @ map (\<lambda>i. Value (dItems c i)) (items (deferredPQ c))) 0)"

definition toChannel :: "'b backend_ops \<Rightarrow> int \<Rightarrow> Msg \<Rightarrow> 'b Channel \<Rightarrow> 'b Channel option" where
  "toChannel ops now x c =
     (let m = alloc c; c = c\<lparr>msgs := (msgs c)(m := x)\<rparr>
      in if deferred x \<noteq> 0 then PutMessageDeferred now m (deferred x) c
         else Some (snd (PutMessage ops m c)))"

text \<open>The first channel gets the message itself, the others copies.\<close>

definition chanMsg :: "nat \<Rightarrow> Msg \<Rightarrow> Msg" where
  "chanMsg i msg =
     (if i > 0 then (NewMessage 0 (ID msg) (Body msg))\<lparr>Timestamp := Timestamp msg, deferred := deferred msg\<rparr> else msg)"

fun fanOut :: "'b backend_ops \<Rightarrow> int \<Rightarrow> Msg \<Rightarrow> nat \<Rightarrow> addr list \<Rightarrow> (addr \<Rightarrow> 'b Channel) \<Rightarrow> (addr \<Rightarrow> 'b Channel) option" where
  "fanOut ops now msg i [] objs = Some objs"
| "fanOut ops now msg i (a # chans) objs = do {
     c \<leftarrow> toChannel ops now (chanMsg i msg) (objs a);
     fanOut ops now msg (Suc i) chans (objs(a := c)) }"

definition pumpMemory :: "'b backend_ops \<Rightarrow> int \<Rightarrow> 'b Topic \<Rightarrow> 'b Topic option" where
  "pumpMemory ops now t =
     (case t_memory t of
        [] \<Rightarrow> Some t
      | msg # rest \<Rightarrow>
          if pumpOpen t \<and> \<not> t_exitFlag t then do {
            objs \<leftarrow> fanOut ops now msg 0 (pumpChans t) (chanObj t);
            Some (t\<lparr>t_memory := rest, chanObj := objs\<rparr>) }
          else Some t)"

text \<open>\<open>buf\<close> is what the pump reads from the backend, which is \<open>b\<close> after that.\<close>

definition pumpBackend :: "'b backend_ops \<Rightarrow> int \<Rightarrow> byte list \<Rightarrow> 'b \<Rightarrow> 'b Topic \<Rightarrow> 'b Topic option" where
  "pumpBackend ops now buf b t =
     (if pumpOpen t \<and> \<not> t_exitFlag t then
        (case decodeMessage buf of
           Inl e \<Rightarrow> Some (t\<lparr>t_backend := b\<rparr>)
         | Inr msg \<Rightarrow> do {
             objs \<leftarrow> fanOut ops now msg 0 (pumpChans t) (chanObj t);
             Some (t\<lparr>t_backend := b, chanObj := objs\<rparr>) })
      else Some t)"

section \<open>Closing\<close>

definition topic_Empty :: "'b backend_ops \<Rightarrow> 'b Topic \<Rightarrow> go_error option \<times> 'b Topic" where
  "topic_Empty ops t =
     (let (err, b) = bq_Empty ops (t_backend t) in (err, t\<lparr>t_memory := [], t_backend := b\<rparr>))"

definition topic_flush :: "'b backend_ops \<Rightarrow> 'b Topic \<Rightarrow> 'b Topic" where
  "topic_flush ops t =
     t\<lparr>t_backend := fold (\<lambda>m b. snd (writeMessageToBackend (bq_Put ops) m b)) (t_memory t) (t_backend t), t_memory := []\<rparr>"

definition exitChannels ::
  "'b backend_ops \<Rightarrow> chan_opts \<Rightarrow> (addr \<Rightarrow> addr list \<times> addr list) \<Rightarrow> bool \<Rightarrow> addr list \<Rightarrow> 'b Topic \<Rightarrow> 'b Topic" where
  "exitChannels ops opts mo deleted order t =
     fold (\<lambda>a t. t\<lparr>channelMap := (if deleted then (channelMap t)(chanName t a := None) else channelMap t),
                    chanObj := (chanObj t)(a := snd (exit ops opts (fst (mo a)) (snd (mo a)) deleted (chanObj t a)))\<rparr>) order t"

definition topic_exit ::
  "'b backend_ops \<Rightarrow> chan_opts \<Rightarrow> (addr \<Rightarrow> addr list \<times> addr list) \<Rightarrow> addr list \<Rightarrow> bool \<Rightarrow> 'b Topic \<Rightarrow> go_error option \<times> 'b Topic" where
  "topic_exit ops opts mo order deleted t =
     (if t_exitFlag t then (Some (Err ''exiting''), t)
      else
        (let t = t\<lparr>t_exitFlag := True\<rparr>;
             t = (if deleted then t\<lparr>t_notified := t_notified t + 1\<rparr> else t);
             t = exitChannels ops opts mo deleted order t
         in if deleted then
              (let (_, t) = topic_Empty ops t; (err, b) = bq_Delete ops (t_backend t)
               in (err, t\<lparr>t_backend := b\<rparr>))
            else
              (let t = topic_flush ops t; (err, b) = bq_Close ops (t_backend t)
               in (err, t\<lparr>t_backend := b\<rparr>))))"

definition topic_doPause :: "bool \<Rightarrow> 'b Topic \<Rightarrow> 'b Topic" where
  "topic_doPause p t = t\<lparr>t_paused := p\<rparr>"

definition topic_IsPaused :: "'b Topic \<Rightarrow> bool" where
  "topic_IsPaused t = t_paused t"

text \<open>\<open>clock n\<close> is the time at the \<open>n\<close>-th try; an error makes it sleep and try again.\<close>

partial_function (option) GenerateID :: "(nat \<Rightarrow> u64) \<Rightarrow> nat \<Rightarrow> guidFactory \<Rightarrow> (MessageID \<times> guidFactory) option" where
  "GenerateID clock n f =
     (case NewGUID (clock n) f of
        (Inl e, f) \<Rightarrow> GenerateID clock (Suc n) f
      | (Inr g, f) \<Rightarrow> Some (Hex g, f))"

end
