(* ===== verification/Nsq_Channel_Props.thy ===== *)
theory Nsq_Channel_Props
  imports Nsq_Channel_Inv
begin

text \<open>
  The properties of a channel of nsqd in every state that it can reach, with an example channel on which
  they are instantiated.
\<close>


section \<open>Reachable channels\<close>

definition chan_reach :: "'b backend_ops \<Rightarrow> chan_opts \<Rightarrow> 'b Channel \<Rightarrow> bool" where
  "chan_reach ops opts c \<longleftrightarrow> (\<exists>nb name store. (chan_step ops opts)\<^sup>*\<^sup>* (NewChannel opts nb name store) c)"

lemma chan_reach_inv: "chan_reach ops opts c \<Longrightarrow> chan_inv c"
  unfolding chan_reach_def
proof (elim exE)
  fix nb name store assume "(chan_step ops opts)\<^sup>*\<^sup>* (NewChannel opts nb name store) c"
  then show ?thesis by (induction rule: rtranclp_induct) (simp_all add: NewChannel_inv chan_step_inv)
qed

lemma chan_reach_new: "chan_reach ops opts (NewChannel opts nb name store)"
  unfolding chan_reach_def by blast

lemma chan_reach_step: "chan_reach ops opts c \<Longrightarrow> chan_step ops opts c c' \<Longrightarrow> chan_reach ops opts c'"
  unfolding chan_reach_def by (meson rtranclp.rtrancl_into_rtrancl)

text \<open>A channel over a backend that keeps the list of what was put into it, used in the examples below.\<close>

definition list_ops :: "byte list list backend_ops" where
  "list_ops = \<lparr>bq_Put = (\<lambda>d b. (None, b @ [d])), bq_Close = (\<lambda>b. (None, b)), bq_Delete = (\<lambda>b. (None, b)),
     bq_Depth = (\<lambda>b. int (length b)), bq_Empty = (\<lambda>b. (None, []))\<rparr>"

definition ex_opts :: chan_opts where
  "ex_opts = \<lparr>MemQueueSize = 2, MaxMsgTimeout = 60, MaxChannelConsumers = 0, E2EProcessingLatency = False\<rparr>"

definition ex_store :: "addr \<Rightarrow> Msg" where
  "ex_store a = (NewMessage 5 (replicate 15 0 @ [of_nat a]) [42])"

definition ex_new :: "byte list list Channel" where
  "ex_new = NewChannel ex_opts (\<lambda>_. []) ''ch'' ex_store"

definition ex_put :: "byte list list Channel" where
  "ex_put = snd (PutMessage list_ops 3 (ex_new\<lparr>msgs := (msgs ex_new)(3 := ex_store 3)\<rparr>))"

text \<open>Message 3 is in flight to client 7 and due at time 130.\<close>

definition ex_flight :: "byte list list Channel" where
  "ex_flight = (case StartInFlightTimeout 100 3 7 30
      (ex_put\<lparr>memoryMsgChan := [], msgs := (msgs ex_put)(3 := (msgs ex_put 3)\<lparr>Attempts := Attempts (msgs ex_put 3) + 1\<rparr>)\<rparr>) of
    Some (_, c) \<Rightarrow> c)"

lemma ex_put_queue: "memoryMsgChan ex_put = [3]"
  by (simp add: ex_put_def ex_new_def NewChannel_def initPQ_def Let_def PutMessage_def put_def Exiting_def ex_opts_def)

lemma ex_put_reach: "chan_reach list_ops ex_opts ex_put"
proof (rule chan_reach_step)
  show "chan_reach list_ops ex_opts ex_new" unfolding ex_new_def by (rule chan_reach_new)
  have "3 \<notin># held ex_new" unfolding ex_new_def NewChannel_def Let_def
    by (simp add: initPQ_def Let_def held_def in_flight_def newInFlightPqueue_def pqueue_New_def)
  then show "chan_step list_ops ex_opts ex_new ex_put"
    by (rule chan_step.put [where err = "fst (PutMessage list_ops 3 (ex_new\<lparr>msgs := (msgs ex_new)(3 := ex_store 3)\<rparr>))"])
      (simp add: ex_put_def)
qed

lemma ex_flight_reach: "chan_reach list_ops ex_opts ex_flight"
proof -
  let ?c = "ex_put\<lparr>memoryMsgChan := [], msgs := (msgs ex_put)(3 := (msgs ex_put 3)\<lparr>Attempts := Attempts (msgs ex_put 3) + 1\<rparr>)\<rparr>"
  obtain err c' where *: "StartInFlightTimeout 100 3 7 30 ?c = Some (err, c')"
    using deliver_inv [OF chan_reach_inv [OF ex_put_reach] ex_put_queue] by blast
  have "chan_step list_ops ex_opts ex_put c'" by (rule chan_step.deliver [OF ex_put_queue *])
  then show ?thesis using chan_reach_step [OF ex_put_reach] unfolding ex_flight_def * by simp
qed

lemmas ex_defs = ex_flight_def ex_put_def ex_new_def ex_opts_def ex_store_def list_ops_def NewChannel_def initPQ_def Let_def
  PutMessage_def put_def Exiting_def StartInFlightTimeout_def pushInFlightMessage_def addToInFlightPQ_def NewMessage_def
  newInFlightPqueue_def pqueue_New_def ifq_Push_def grow_def int64_def up.simps

lemma ex_flight_state:
  "inFlightMessages ex_flight = [replicate 15 0 @ [3] \<mapsto> 3]" "clientID (msgs ex_flight 3) = 7"
  "mpri ex_flight 3 = 130" "deliveryTS (msgs ex_flight 3) = 100" "memoryMsgChan ex_flight = []" "exitFlag ex_flight = False" "memCap ex_flight = 2"
  "deferredMessages ex_flight = Map.empty" "backend ex_flight = []" "inFlightPQ ex_flight = \<lparr>items = [3], capac = 1, index = \<lambda>_. 0\<rparr>" "deferredPQ ex_flight = \<lparr>items = [], capac = 1, index = \<lambda>_. 0\<rparr>"
  "ID (msgs ex_flight 3) = replicate 15 0 @ [3]"
  by (simp_all add: ex_defs fun_eq_iff)

lemma ex_owns: "owns 7 (replicate 15 0 @ [3]) 3 ex_flight"
  by (simp add: owns_def ex_flight_state)

section \<open>The properties of a channel\<close>



text \<open>
  C19. Only the client to which a message is in flight can finish, requeue or touch it: for any other
  client, and for a message that is not in flight, the command fails with the right error and changes
  nothing.
\<close>

theorem only_owner_acts:
  assumes "\<nexists>m. owns cid mid m c"
  defines "e \<equiv> Err (if inFlightMessages c mid = None then ''ID not in flight'' else ''client does not own message'')"
  shows "FinishMessage cid mid c = Some (Some e, c) \<and> RequeueMessage ops now cid mid timeout c = Some (Some e, c) \<and>
    TouchMessage opts now cid mid timeout c = Some (Some e, c)"
proof -
  have "popInFlightMessage cid mid c = (Inl e, c)"
    using pop_in_flight_fails [of c mid cid] assms by (auto simp: owns_def)
  then show ?thesis by (simp add: FinishMessage_def RequeueMessage_def TouchMessage_def)
qed

theorem only_owner_acts_witness:
  "FinishMessage 8 (replicate 15 0 @ [3]) ex_flight = Some (Some (Err ''client does not own message''), ex_flight)"
  using only_owner_acts [of 8 "replicate 15 0 @ [3]" ex_flight] by (simp add: owns_def ex_flight_state)

text \<open>
  C21. \<open>FIN\<close> by the owner takes the message out of the channel for good: it is in no queue any more, the
  others are where they were, and a second \<open>FIN\<close> reports that the message is not in flight.
\<close>

theorem finish_removes:
  assumes "chan_reach ops opts c" "owns cid mid m c"
  shows "\<exists>c'. FinishMessage cid mid c = Some (None, c') \<and> held c = add_mset m (held c') \<and> m \<notin># held c' \<and>
    memoryMsgChan c' = memoryMsgChan c \<and> backend c' = backend c \<and> in_flight c' = in_flight c - {m} \<and>
    FinishMessage cid' mid c' = Some (Some (Err ''ID not in flight''), c')"
proof -
  note I = chan_reach_inv [OF assms(1)]
  obtain c' where c': "FinishMessage cid mid c = Some (None, c')" "held c = add_mset m (held c')"
    "in_flight c' = in_flight c - {m}" "inFlightMessages c' = (inFlightMessages c)(mid := None)"
    "memoryMsgChan c' = memoryMsgChan c" "backend c' = backend c"
    using FinishMessage_ok [OF I assms(2)] by blast
  have "once (held c)" using I by (simp add: chan_inv_def)
  then have "m \<notin># held c'" unfolding c'(2) by simp
  moreover have "FinishMessage cid' mid c' = Some (Some (Err ''ID not in flight''), c')"
    by (simp add: FinishMessage_def popInFlightMessage_def c'(4))
  ultimately show ?thesis using c' by blast
qed

theorem finish_removes_witness:
  "\<exists>c'. FinishMessage 7 (replicate 15 0 @ [3]) ex_flight = Some (None, c') \<and> held ex_flight = add_mset 3 (held c')"
  using finish_removes [OF ex_flight_reach ex_owns] by blast

text \<open>
  C22. \<open>REQ\<close> by the owner, on an open channel: without a delay the message goes to the memory queue if
  there is room, and otherwise its encoding goes to the backend, whose error is returned; with a delay
  it becomes deferred until then. It is no longer in flight.
\<close>

theorem requeue_outcome:
  assumes "chan_reach ops opts c" "owns cid mid m c" "\<not> exitFlag c"
  shows "\<exists>err c'. RequeueMessage ops now cid mid timeout c = Some (err, c') \<and> chan_inv c' \<and> in_flight c' = in_flight c - {m} \<and>
    (if timeout = 0 then
       (if room c > 0 then err = None \<and> held c' = held c \<and> m \<in> set (memoryMsgChan c')
        else err = fst (bq_Put ops (encoded (msgs c m)) (backend c)) \<and> held c = add_mset m (held c') \<and>
          backend c' = snd (bq_Put ops (encoded (msgs c m)) (backend c)))
     else if deferredMessages c mid = None
       then err = None \<and> held c' = held c \<and> (\<exists>i. deferredMessages c' mid = Some i \<and> dItems c' i = \<lparr>Value = m, Priority = int64 (now + timeout)\<rparr>)
       else err = Some (Err ''ID already deferred'') \<and> held c = add_mset m (held c'))"
proof -
  note I = chan_reach_inv [OF assms(1)]
  have id: "ID (msgs c m) = mid" using I assms(2) by (simp add: chan_inv_def owns_def)
  obtain c1 err c' where R: "RequeueMessage ops now cid mid timeout c = Some (err, c')" "chan_inv c'" "chan_inv c1"
    "held c = add_mset m (held c1)" "in_flight c' = in_flight c - {m}"
    and eq: "room c1 = room c" "deferredMessages c1 = deferredMessages c" "msgs c1 = msgs c" "backend c1 = backend c"
    and C: "if timeout = 0 then (err, c') = put ops m c1 else StartDeferredTimeout now m timeout c1 = Some (err, c')"
    using RequeueMessage_ok [OF I assms(2), of ops now timeout] assms(3) by auto
  have "once (held c)" using I by (simp add: chan_inv_def)
  then have m: "m \<notin># held c1" unfolding R(4) by simp
  show ?thesis
  proof (cases "timeout = 0")
    case True
    with C have p: "put ops m c1 = (err, c')" by simp
    have "held c' = (if 0 < room c then add_mset m (held c1) else held c1)"
      using put_inv(2) [OF R(3) m, of ops] p eq(1) by simp
    moreover have "if 0 < room c then err = None \<and> m \<in> set (memoryMsgChan c')
        else bq_Put ops (encoded (msgs c m)) (backend c) = (err, backend c')"
      by (rule put_cases [of c1 ops m]) (use p eq in auto)
    ultimately show ?thesis using R(1,2,4,5) True by (intro exI [of _ err] exI [of _ c']) (simp split: if_splits)
  next
    case False
    then have d: "StartDeferredTimeout now m timeout c1 = Some (err, c')" using C by simp
    have "if deferredMessages c mid = None
        then err = None \<and> held c' = held c \<and> (\<exists>i. deferredMessages c' mid = Some i \<and> dItems c' i = \<lparr>Value = m, Priority = int64 (now + timeout)\<rparr>)
        else err = Some (Err ''ID already deferred'') \<and> held c = add_mset m (held c')"
      by (rule add_deferred [OF R(3) m, of now timeout]) (use R(4) d in \<open>simp_all add: eq id\<close>)
    then show ?thesis using R(1,2,5) False by (intro exI [of _ err] exI [of _ c']) simp
  qed
qed

theorem requeue_outcome_witness:
  "\<exists>err c'. RequeueMessage list_ops 110 7 (replicate 15 0 @ [3]) 0 ex_flight = Some (err, c') \<and> err = None \<and>
     held c' = held ex_flight \<and> 3 \<in> set (memoryMsgChan c')"
  using requeue_outcome [OF ex_flight_reach ex_owns, of 110 0] by (auto simp: ex_flight_state room_def)

text \<open>
  C20. \<open>REQ\<close> without a delay on a channel that is closing takes the message out of flight and puts it
  nowhere: the command fails and the message is lost to the channel.
\<close>

theorem requeue_exiting_drops:
  assumes "chan_reach ops opts c" "owns cid mid m c" "exitFlag c"
  shows "\<exists>c'. RequeueMessage ops now cid mid 0 c = Some (Some (Err ''exiting''), c') \<and>
    held c = add_mset m (held c') \<and> m \<notin># held c' \<and> backend c' = backend c"
proof -
  note I = chan_reach_inv [OF assms(1)]
  obtain c' where c': "RequeueMessage ops now cid mid 0 c = Some (Some (Err ''exiting''), c')" "held c = add_mset m (held c')" "backend c' = backend c"
    using RequeueMessage_ok [OF I assms(2), of ops now 0] assms(3) by auto
  moreover have "once (held c)" using I by (simp add: chan_inv_def)
  ultimately show ?thesis by simp
qed

definition ex_closed :: "byte list list Channel" where
  "ex_closed = snd (exit list_ops ex_opts [3] [] False ex_flight)"

lemma ex_closed_ok: "chan_reach list_ops ex_opts ex_closed" "owns 7 (replicate 15 0 @ [3]) 3 ex_closed" "exitFlag ex_closed"
proof -
  have eq: "ex_closed = (flush list_ops [3] [] (toClients CClose (ex_flight\<lparr>exitFlag := True\<rparr>)))"
    by (simp add: ex_closed_def exit_def ex_flight_state list_ops_def Let_def)
  show "chan_reach list_ops ex_opts ex_closed"
    by (rule chan_reach_step [OF ex_flight_reach], rule chan_step.exit [where infl = "[3]" and defd = "[]" and deleted = False and
      err = "fst (exit list_ops ex_opts [3] [] False ex_flight)"])
     (simp add: ex_closed_def)
  show "owns 7 (replicate 15 0 @ [3]) 3 ex_closed" "exitFlag ex_closed"
    by (simp_all add: eq flush_def Let_def writeAll_backend owns_def toClients_def ex_flight_state)
qed

theorem requeue_exiting_drops_witness:
  "\<exists>c'. RequeueMessage list_ops 110 7 (replicate 15 0 @ [3]) 0 ex_closed = Some (Some (Err ''exiting''), c') \<and> 3 \<notin># held c'"
  using requeue_exiting_drops [OF ex_closed_ok] by blast

text \<open>
  C21. \<open>TOUCH\<close> by the owner keeps the message in flight and moves its deadline to the requested one, but
  never past the time of delivery plus the longest timeout allowed.
\<close>

theorem touch_bounded:
  assumes "chan_reach ops opts c" "owns cid mid m c"
    and "0 \<le> now + timeout" "0 \<le> deliveryTS (msgs c m) + MaxMsgTimeout opts" "deliveryTS (msgs c m) + MaxMsgTimeout opts < 2 ^ 63"
  shows "\<exists>c'. TouchMessage opts now cid mid timeout c = Some (None, c') \<and> chan_inv c' \<and> held c' = held c \<and> owns cid mid m c' \<and>
    mpri c' m = min (now + timeout) (deliveryTS (msgs c m) + MaxMsgTimeout opts) \<and>
    (\<forall>a. a \<noteq> m \<longrightarrow> mpri c' a = mpri c a)"
proof -
  let ?t = "min (now + timeout) (deliveryTS (msgs c m) + MaxMsgTimeout opts)"
  have "int64 ?t = ?t" unfolding int64_def by (rule signed_take_bit_int_eq_self) (use assms(3-5) in auto)
  then show ?thesis using TouchMessage_ok [OF chan_reach_inv [OF assms(1)] assms(2), of opts now timeout] by auto
qed

theorem touch_bounded_witness:
  "\<exists>c'. TouchMessage ex_opts 120 7 (replicate 15 0 @ [3]) 1000 ex_flight = Some (None, c') \<and> mpri c' 3 = 160"
  using touch_bounded [OF ex_flight_reach ex_owns, of 120 1000] by (auto simp: ex_flight_state ex_opts_def)


text \<open>
  C17. The run of the timeout scanner at time \<open>t\<close> ends, and returns to the queue exactly the messages in
  flight whose deadline is at most \<open>t\<close>, each once and in the order of the deadlines: first into the memory
  queue while there is room, then to the backend. It counts them, reports whether there was any, and
  leaves every other message in flight.
\<close>

theorem in_flight_timeouts:
  assumes "chan_reach ops opts c" "\<not> exitFlag c"
  shows "\<exists>ms c'. processInFlightQueue ops t c = Some (ms \<noteq> [], c') \<and>
    set ms = {m \<in> ran (inFlightMessages c). mpri c m \<le> t} \<and> distinct ms \<and> sorted (map (mpri c) ms) \<and>
    ran (inFlightMessages c') = {m \<in> ran (inFlightMessages c). t < mpri c m} \<and>
    memoryMsgChan c' = memoryMsgChan c @ take (room c) ms \<and>
    backend c' = fold (bput ops (msgs c)) (drop (room c) ms) (backend c) \<and>
    timeoutCount c' = timeoutCount c + of_nat (length ms)"
proof -
  note I = chan_reach_inv [OF assms(1)]
  have fl: "in_flight d = ran (inFlightMessages d)" if "chan_inv d" for d :: "'a Channel" using that by (simp add: chan_inv_def)
  obtain ms c' where *: "processInFlightLoop ops t False c = Some (ms \<noteq> [], c')" "chan_inv c'"
    "set ms = {m \<in> in_flight c. mpri c m \<le> t}" "distinct ms" "sorted (map (mpri c) ms)"
    "in_flight c' = {m \<in> in_flight c. t < mpri c m}" "enqueued ops ms c c'" "timeoutCount c' = timeoutCount c + of_nat (length ms)"
    using processInFlightLoop_correct [OF I, of ops t False] by auto
  then show ?thesis using assms(2) fl [OF I] fl [OF *(2)]
    by (intro exI [of _ ms] exI [of _ c']) (simp add: processInFlightQueue_def Exiting_def enqueued_def)
qed

theorem in_flight_timeouts_witness:
  "\<exists>(ms :: addr list) c'. processInFlightQueue list_ops 130 ex_flight = Some (ms \<noteq> [], c') \<and> set ms = {3} \<and> ran (inFlightMessages c') = {}"
  using in_flight_timeouts [OF ex_flight_reach, of 130] by (auto simp: ex_flight_state Collect_conv_if)

text \<open>
  C19. The run of the deferred scanner at time \<open>t\<close> ends, and puts into the queue exactly the deferred
  messages whose delay is over at \<open>t\<close>, each once and in the order of their times.
\<close>

theorem deferred_delivered:
  assumes "chan_reach ops opts c" "\<not> exitFlag c"
  shows "\<exists>is c'. processDeferredQueue ops t c = Some (is \<noteq> [], c') \<and>
    set is = {i \<in> ran (deferredMessages c). ipri c i \<le> t} \<and> distinct is \<and> sorted (map (ipri c) is) \<and>
    ran (deferredMessages c') = {i \<in> ran (deferredMessages c). t < ipri c i} \<and>
    memoryMsgChan c' = memoryMsgChan c @ take (room c) (map (dvalue c) is) \<and>
    backend c' = fold (bput ops (msgs c)) (drop (room c) (map (dvalue c) is)) (backend c)"
proof -
  note I = chan_reach_inv [OF assms(1)]
  have fl: "pq_set (deferredPQ d) = ran (deferredMessages d)" if "chan_inv d" for d :: "'a Channel" using that by (simp add: chan_inv_def)
  obtain xs c' where *: "processDeferredLoop ops t False c = Some (xs \<noteq> [], c')" "chan_inv c'"
    "set xs = {i \<in> pq_set (deferredPQ c). ipri c i \<le> t}" "distinct xs" "sorted (map (ipri c) xs)"
    "pq_set (deferredPQ c') = {i \<in> pq_set (deferredPQ c). t < ipri c i}" "enqueued ops (map (dvalue c) xs) c c'"
    using processDeferredLoop_correct [OF I, of ops t False] by auto
  then show ?thesis using assms(2) fl [OF I] fl [OF *(2)]
    by (intro exI [of _ xs] exI [of _ c']) (simp add: processDeferredQueue_def Exiting_def enqueued_def)
qed

definition ex_deferred :: "byte list list Channel" where
  "ex_deferred = (case RequeueMessage list_ops 110 7 (replicate 15 0 @ [3]) 20 ex_flight of Some (_, c) \<Rightarrow> c)"

lemma ex_deferred_ok: "chan_reach list_ops ex_opts ex_deferred"
proof -
  obtain err c' where *: "RequeueMessage list_ops 110 7 (replicate 15 0 @ [3]) 20 ex_flight = Some (err, c')"
    using Requeue_inv [OF chan_reach_inv [OF ex_flight_reach]] by blast
  have "chan_step list_ops ex_opts ex_flight c'" by (rule chan_step.requeue [OF *])
  then show ?thesis using chan_reach_step [OF ex_flight_reach] unfolding ex_deferred_def * by simp
qed

lemma ex_deferred_state: "deferredMessages ex_deferred = [replicate 15 0 @ [3] \<mapsto> nextItem ex_flight]"
  "ipri ex_deferred (nextItem ex_flight) = 130" "exitFlag ex_deferred = False"
  by (simp_all add: ex_deferred_def RequeueMessage_def popInFlightMessage_def removeFromInFlightPQ_def ex_flight_state ifq_Remove_def
    dropLast_def shrink_def Exiting_def StartDeferredTimeout_def pushDeferredMessage_def addToDeferredPQ_def heap_Push_def pqueue_Push_def
    grow_def up.simps int64_def Let_def)

theorem deferred_delivered_witness:
  "\<exists>(is :: addr list) c'. processDeferredQueue list_ops 140 ex_deferred = Some (is \<noteq> [], c') \<and> set is = {nextItem ex_flight} \<and>
     ran (deferredMessages c') = {}"
  using deferred_delivered [OF ex_deferred_ok, of 140] by (auto simp: ex_deferred_state Collect_conv_if)

text \<open>
  C18. Closing a channel loses nothing: whatever order Go takes its maps in, every message that the
  channel holds, in memory, in flight or deferred, is put into the backend, once each, before the backend
  is closed; closing twice fails.
\<close>

theorem close_flushes:
  assumes "chan_reach ops opts c" "\<not> exitFlag c"
    and "distinct infl" "set infl = ran (inFlightMessages c)" "distinct defd" "set defd = ran (deferredMessages c)"
  shows "\<exists>ms c'. mset ms = held c \<and> exit ops opts infl defd False c =
      (fst (bq_Close ops (fold (bput ops (msgs c)) ms (backend c))), c') \<and>
    backend c' = snd (bq_Close ops (fold (bput ops (msgs c)) ms (backend c))) \<and>
    exit ops opts infl' defd' deleted c' = (Some (Err ''exiting''), c')"
proof -
  note I = chan_reach_inv [OF assms(1)]
  let ?ms = "memoryMsgChan c @ infl @ map (dvalue c) defd"
  let ?b = "fold (bput ops (msgs c)) ?ms (backend c)"
  have "mset infl = mset_set (in_flight c)" "mset defd = mset_set (pq_set (deferredPQ c))"
    using I assms(3-6) by (simp_all add: chan_inv_def mset_set_set [symmetric])
  then have h: "mset ?ms = held c" by (simp add: held_def)
  obtain err b where b: "bq_Close ops ?b = (err, b)" by fastforce
  obtain c' where c': "exit ops opts infl defd False c = (err, c')" "backend c' = b" "exitFlag c'"
    using assms(2) b by (auto simp: exit_def Let_def flush_def writeAll_backend toClients_def)
  then show ?thesis using h b by (intro exI [of _ ?ms] exI [of _ c']) (simp add: exit_def)
qed

theorem close_flushes_witness:
  "\<exists>ms c'. mset ms = held ex_flight \<and> exit list_ops ex_opts [3] [] False ex_flight =
      (fst (bq_Close list_ops (fold (bput list_ops (msgs ex_flight)) ms (backend ex_flight))), c') \<and>
    backend c' = snd (bq_Close list_ops (fold (bput list_ops (msgs ex_flight)) ms (backend ex_flight))) \<and>
    exit list_ops ex_opts [] [] False c' = (Some (Err ''exiting''), c')"
  by (rule close_flushes [OF ex_flight_reach]) (simp_all add: ex_flight_state)

end
