(* ===== verification/Nsq_Topic_Props.thy ===== *)
theory Nsq_Topic_Props
  imports Nsq_Topic Nsq_Channel_Props
begin

text \<open>
  The invariant of a topic with its channels and its pump, and its properties in every state that it can
  reach, with an example topic on which they are instantiated.
\<close>


section \<open>Delivering to the channels\<close>

lemma fold_max_le: "a \<in> set xs \<Longrightarrow> a \<le> fold max xs n" "n \<le> fold max xs (n :: nat)"
proof -
  show n: "n \<le> fold max xs n" for xs and n :: nat by (induction xs arbitrary: n) (simp, metis fold_simps(2) max.boundedE)
  show "a \<in> set xs \<Longrightarrow> a \<le> fold max xs n"
  proof (induction xs arbitrary: n)
    case (Cons x xs)
    then show ?case using n [of "max x n" xs] by auto
  qed simp
qed

lemma alloc_fresh: "alloc c \<notin># held c"
proof
  assume "alloc c \<in># held c"
  then have "alloc c \<in> set (memoryMsgChan c @ items (inFlightPQ c) @ map (\<lambda>i. Value (dItems c i)) (items (deferredPQ c)))"
    by (auto simp: held_def in_flight_def)
  from fold_max_le(1) [OF this, of 0] show False unfolding alloc_def by simp
qed

lemma toChannel_inv:
  assumes "chan_inv c"
  shows "\<exists>c'. toChannel ops now x c = Some c' \<and> chan_inv c'"
proof -
  let ?c = "c\<lparr>msgs := (msgs c)(alloc c := x)\<rparr>"
  have c: "chan_inv ?c" "alloc c \<notin># held ?c" using chan_inv_new_msg [OF assms alloc_fresh, of x] alloc_fresh [of c] by simp_all
  obtain err c' where p: "PutMessage ops (alloc c) ?c = (err, c')" by fastforce
  show ?thesis using PutMessageDeferred_inv [OF c, of now "deferred x"] PutMessage_inv [OF c p] p by (auto simp: toChannel_def Let_def)
qed

text \<open>Where a message that is not deferred goes.\<close>

lemma toChannel_effect:
  assumes "toChannel ops now x c = Some c'" "deferred x = 0" "\<not> exitFlag c"
  shows "if room c > 0 then memoryMsgChan c' = memoryMsgChan c @ [alloc c] \<and> msgs c' (alloc c) = x \<and> backend c' = backend c
    else memoryMsgChan c' = memoryMsgChan c \<and> backend c' = snd (bq_Put ops (encoded x) (backend c))"
proof -
  let ?c = "c\<lparr>msgs := (msgs c)(alloc c := x)\<rparr>"
  have r: "room ?c = room c" by (simp add: room_def)
  have c': "c' = snd (PutMessage ops (alloc c) ?c)" using assms(1,2) by (simp add: toChannel_def Let_def)
  show ?thesis
    by (rule put_cases [of ?c ops "alloc c"]) (use r assms(3) in \<open>auto simp: c' PutMessage_def Exiting_def\<close>)
qed

lemma fanOut_spec:
  assumes "distinct chans" "\<forall>a \<in> set chans. chan_inv (objs a)"
  shows "\<exists>objs'. fanOut ops now msg i chans objs = Some objs' \<and> (\<forall>a. a \<notin> set chans \<longrightarrow> objs' a = objs a) \<and>
    (\<forall>a \<in> set chans. chan_inv (objs' a)) \<and>
    (\<forall>j < length chans. toChannel ops now (chanMsg (i + j) msg) (objs (chans ! j)) = Some (objs' (chans ! j)))"
  using assms
proof (induction chans arbitrary: i objs)
  case (Cons a chans)
  obtain c where c: "toChannel ops now (chanMsg i msg) (objs a) = Some c" "chan_inv c"
    using toChannel_inv Cons.prems(2) by (metis list.set_intros(1))
  have "\<forall>b \<in> set chans. chan_inv ((objs(a := c)) b)" using Cons.prems by auto
  then obtain objs' where o:
    "fanOut ops now msg (Suc i) chans (objs(a := c)) = Some objs'" "\<forall>b. b \<notin> set chans \<longrightarrow> objs' b = (objs(a := c)) b"
    "\<forall>b \<in> set chans. chan_inv (objs' b)"
    "\<forall>j < length chans. toChannel ops now (chanMsg (Suc i + j) msg) ((objs(a := c)) (chans ! j)) = Some (objs' (chans ! j))"
    using Cons.IH [of "objs(a := c)" "Suc i"] Cons.prems(1) unfolding distinct.simps by blast
  have a: "objs' a = c" "a \<notin> set chans" using o(2) Cons.prems(1) by auto
  have "toChannel ops now (chanMsg (i + j) msg) (objs ((a # chans) ! j)) = Some (objs' ((a # chans) ! j))" if j: "j < Suc (length chans)" for j
  proof (cases j)
    case (Suc k)
    then have "k < length chans" "chans ! k \<noteq> a" using j a(2) nth_mem by (simp, metis Suc_less_eq)
    then show ?thesis using o(4) [rule_format, of k] Suc by simp
  qed (use c(1) a(1) in simp)
  then show ?case using o(1-3) a c by (intro exI [of _ objs']) auto
qed simp

section \<open>Reachable topics\<close>

definition topic_inv :: "'b Topic \<Rightarrow> bool" where
  "topic_inv t \<longleftrightarrow> (\<forall>a < nextChan t. chan_inv (chanObj t a)) \<and>
     (\<forall>n a. channelMap t n = Some a \<longrightarrow> a < nextChan t \<and> chanName t a = n) \<and>
     distinct (pumpChans t) \<and> (\<forall>a \<in> set (pumpChans t). a < nextChan t) \<and> length (t_memory t) \<le> t_memCap t"

inductive topic_step :: "'b backend_ops \<Rightarrow> chan_opts \<Rightarrow> 'b Topic \<Rightarrow> 'b Topic \<Rightarrow> bool" for ops opts where
  start: "topic_step ops opts t (Start t)"
| put: "topic_PutMessage ops m t = (err, t') \<Longrightarrow> topic_step ops opts t t'"
| puts: "PutMessages ops ms t = (err, t') \<Longrightarrow> topic_step ops opts t t'"
| get_channel: "getOrCreateChannel opts nb store n t = (r, t') \<Longrightarrow> topic_step ops opts t t'"
| delete_channel: "DeleteExistingChannel ops opts mo n t = (err, t') \<Longrightarrow> topic_step ops opts t t'"
| channel: "a < nextChan t \<Longrightarrow> chan_step ops opts (chanObj t a) c \<Longrightarrow> topic_step ops opts t (t\<lparr>chanObj := (chanObj t)(a := c)\<rparr>)"
| pump_begin: "distinct order \<Longrightarrow> set order = ran (channelMap t) \<Longrightarrow> topic_step ops opts t (pumpBegin order t)"
| pump_update: "distinct order \<Longrightarrow> set order = ran (channelMap t) \<Longrightarrow> topic_step ops opts t (pumpUpdate order t)"
| pump_pause: "topic_step ops opts t (pumpPause t)"
| pump_memory: "pumpMemory ops now t = Some t' \<Longrightarrow> topic_step ops opts t t'"
| pump_backend: "pumpBackend ops now buf b t = Some t' \<Longrightarrow> topic_step ops opts t t'"
| pause: "topic_step ops opts t (topic_doPause p t)"
| exit: "topic_exit ops opts mo order deleted t = (err, t') \<Longrightarrow> set order \<subseteq> ran (channelMap t) \<Longrightarrow> topic_step ops opts t t'"

definition topic_reach :: "'b backend_ops \<Rightarrow> chan_opts \<Rightarrow> 'b Topic \<Rightarrow> bool" where
  "topic_reach ops opts t \<longleftrightarrow> (\<exists>nid nb nochan name. (topic_step ops opts)\<^sup>*\<^sup>* (NewTopic opts nid nb nochan name) t)"

lemma topic_put_inv: "topic_inv t \<Longrightarrow> topic_put ops m t = (err, t') \<Longrightarrow> topic_inv t'"
  by (auto simp: topic_put_def topic_inv_def split: if_splits prod.splits)

lemma topic_inv_counters [simp]:
  "topic_inv (t\<lparr>t_messageCount := n\<rparr>) = topic_inv t" "topic_inv (t\<lparr>t_messageBytes := n\<rparr>) = topic_inv t"
  "topic_inv (t\<lparr>t_backend := b\<rparr>) = topic_inv t" "topic_inv (t\<lparr>startSignal := s\<rparr>) = topic_inv t"
  "topic_inv (t\<lparr>t_paused := p\<rparr>) = topic_inv t" "topic_inv (t\<lparr>t_exitFlag := p\<rparr>) = topic_inv t"
  "topic_inv (t\<lparr>t_notified := k\<rparr>) = topic_inv t" "topic_inv (t\<lparr>pumpStarted := p\<rparr>) = topic_inv t"
  "topic_inv (t\<lparr>t_deleteScheduled := p\<rparr>) = topic_inv t"
  by (simp_all add: topic_inv_def)

lemma putAll_inv: "topic_inv t \<Longrightarrow> putAll ops i n ms t = (err, t') \<Longrightarrow> topic_inv t'"
proof (induction ops i n ms t rule: putAll.induct)
  case (2 ops i bytes m ms t)
  obtain e t1 where t1: "topic_put ops m t = (e, t1)" by fastforce
  then show ?case using 2 topic_put_inv [OF 2(2) t1] by (auto split: if_splits)
qed (auto simp: topic_inv_def)

lemma pumpRefresh_inv:
  "topic_inv t \<Longrightarrow> distinct order \<Longrightarrow> set order \<subseteq> ran (channelMap t) \<union> set (pumpChans t) \<Longrightarrow> topic_inv (pumpRefresh order t)"
  by (auto simp: topic_inv_def pumpRefresh_def ran_def)

lemma fanOut_inv:
  assumes "topic_inv t"
  shows "\<exists>objs. fanOut ops now msg 0 (pumpChans t) (chanObj t) = Some objs \<and> topic_inv (t\<lparr>chanObj := objs\<rparr>)"
proof -
  have "distinct (pumpChans t)" "\<forall>a \<in> set (pumpChans t). chan_inv (chanObj t a)" using assms by (auto simp: topic_inv_def)
  from fanOut_spec [OF this, of ops now msg 0] obtain objs where o: "fanOut ops now msg 0 (pumpChans t) (chanObj t) = Some objs"
    "\<forall>a. a \<notin> set (pumpChans t) \<longrightarrow> objs a = chanObj t a" "\<forall>a \<in> set (pumpChans t). chan_inv (objs a)" by blast
  then have "chan_inv (objs a)" if "a < nextChan t" for a using assms that by (cases "a \<in> set (pumpChans t)") (auto simp: topic_inv_def)
  then show ?thesis using o assms by (simp add: topic_inv_def)
qed

lemma pump_inv:
  assumes "topic_inv t"
  shows "\<exists>t'. pumpMemory ops now t = Some t' \<and> topic_inv t'" "\<exists>t'. pumpBackend ops now buf b t = Some t' \<and> topic_inv t'"
proof -
  have "\<exists>t'. pumpMemory ops now t = Some t' \<and> topic_inv t'" if "t_memory t = x # xs" "pumpOpen t \<and> \<not> t_exitFlag t" for x xs
    using fanOut_inv [OF assms, of ops now x] that by (auto simp: pumpMemory_def topic_inv_def)
  then show "\<exists>t'. pumpMemory ops now t = Some t' \<and> topic_inv t'"
    using assms by (cases "t_memory t"; cases "pumpOpen t \<and> \<not> t_exitFlag t") (auto simp: pumpMemory_def)
  have "\<exists>t'. pumpBackend ops now buf b t = Some t' \<and> topic_inv t'" if "decodeMessage buf = Inr x" "pumpOpen t \<and> \<not> t_exitFlag t" for x
    using fanOut_inv [OF assms, of ops now x] that by (auto simp: pumpBackend_def topic_inv_def)
  then show "\<exists>t'. pumpBackend ops now buf b t = Some t' \<and> topic_inv t'"
    using assms by (cases "decodeMessage buf"; cases "pumpOpen t \<and> \<not> t_exitFlag t") (auto simp: pumpBackend_def)
qed

lemma exitChannels_inv:
  "topic_inv t \<Longrightarrow> set order \<subseteq> {..<nextChan t} \<Longrightarrow> topic_inv (exitChannels ops opts mo d order t)"
proof (induction order arbitrary: t)
  case (Cons a order)
  let ?t = "t\<lparr>channelMap := (if d then (channelMap t)(chanName t a := None) else channelMap t),
      chanObj := (chanObj t)(a := snd (exit ops opts (fst (mo a)) (snd (mo a)) d (chanObj t a)))\<rparr>"
  have "chan_inv (snd (exit ops opts (fst (mo a)) (snd (mo a)) d (chanObj t a)))"
    by (rule exit_inv) (use Cons.prems in \<open>auto simp: topic_inv_def\<close>)
  then have "topic_inv ?t" using Cons.prems(1) by (auto simp: topic_inv_def)
  then have "topic_inv (exitChannels ops opts mo d order ?t)" using Cons.IH [of ?t] Cons.prems(2) by simp
  then show ?case by (simp add: exitChannels_def)
qed (simp add: exitChannels_def)

lemma topic_exit_inv:
  assumes I: "topic_inv t" and e: "topic_exit ops opts mo order deleted t = (err, t')" and o: "set order \<subseteq> ran (channelMap t)"
  shows "topic_inv t'"
proof (cases "t_exitFlag t")
  case False
  let ?t = "exitChannels ops opts mo deleted order
    (if deleted then t\<lparr>t_exitFlag := True, t_notified := t_notified t + 1\<rparr> else t\<lparr>t_exitFlag := True\<rparr>)"
  have r: "set order \<subseteq> {..<nextChan t}" using I o by (fastforce simp: topic_inv_def ran_def)
  have clear: "topic_inv (snd (topic_Empty ops u)) \<and> topic_inv (topic_flush ops u)" if "topic_inv u" for u :: "'a Topic"
    using that by (simp add: topic_Empty_def topic_flush_def topic_inv_def split: prod.splits)
  have "topic_inv ?t" using I r by (intro exitChannels_inv) simp_all
  then have "topic_inv (snd (topic_Empty ops ?t)) \<and> topic_inv (topic_flush ops ?t)" by (rule clear)
  then show ?thesis using e False by (auto simp: topic_exit_def Let_def split: if_splits prod.splits)
qed (use I e in \<open>simp add: topic_exit_def\<close>)

lemma topic_step_inv: "topic_step ops opts t t' \<Longrightarrow> topic_inv t \<Longrightarrow> topic_inv t'"
proof (induction rule: topic_step.induct)
  case (put m t err t')
  obtain e t1 where "topic_put ops m t = (e, t1)" by fastforce
  then show ?case using put topic_put_inv by (auto simp: topic_PutMessage_def split: if_splits)
next
  case (puts ms t err t')
  then show ?case using putAll_inv by (auto simp: PutMessages_def split: if_splits)
next
  case (get_channel nb store n t r t')
  moreover have "channelMap t na \<noteq> Some (nextChan t)" for na using get_channel(2) unfolding topic_inv_def by blast
  ultimately show ?case using NewChannel_inv [of opts nb n store]
    by (auto simp: getOrCreateChannel_def topic_inv_def Let_def less_Suc_eq split: option.splits if_splits)
next
  case (delete_channel mo n t err t')
  show ?case
  proof (cases "channelMap t n")
    case (Some a)
    then have "chan_inv (chanObj t a)" using delete_channel(2) by (simp add: topic_inv_def)
    from exit_inv [OF this] show ?thesis using delete_channel Some
      by (auto simp: DeleteExistingChannel_def topic_inv_def Let_def split: if_splits)
  qed (use delete_channel in \<open>simp add: DeleteExistingChannel_def\<close>)
next
  case (channel a t c)
  then show ?case using chan_step_inv [OF channel(2)] by (auto simp: topic_inv_def)
next
  case (pump_begin order t)
  then show ?case by (auto simp: pumpBegin_def intro!: pumpRefresh_inv)
next
  case (pump_update order t)
  then show ?case by (auto simp: pumpUpdate_def intro!: pumpRefresh_inv)
next
  case (pump_pause t)
  then show ?case by (auto simp: pumpPause_def topic_inv_def pumpRefresh_def)
next
  case (pump_memory now t t')
  then show ?case using pump_inv(1) by (metis option.inject)
next
  case (pump_backend now buf b t t')
  then show ?case using pump_inv(2) by (metis option.inject)
next
  case (exit mo order deleted t err t')
  then show ?case using topic_exit_inv by blast
qed (simp_all add: Start_def topic_doPause_def)

lemma topic_reach_inv: "topic_reach ops opts t \<Longrightarrow> topic_inv t"
  unfolding topic_reach_def
proof (elim exE)
  fix nid nb nochan name assume "(topic_step ops opts)\<^sup>*\<^sup>* (NewTopic opts nid nb nochan name) t"
  then show ?thesis
  proof (induction rule: rtranclp_induct)
    case base
    show ?case by (simp add: NewTopic_def Let_def topic_inv_def)
  qed (blast intro: topic_step_inv)
qed

lemma topic_reach_step: "topic_reach ops opts t \<Longrightarrow> topic_step ops opts t t' \<Longrightarrow> topic_reach ops opts t'"
  unfolding topic_reach_def by (meson rtranclp.rtrancl_into_rtrancl)

text \<open>\<open>GetChannel\<close> is two of the steps, or one: the new channel is in the map before the pump looks.\<close>

lemma GetChannel_steps:
  assumes "GetChannel opts nb store order n t = (a, t')" "distinct order"
    and "set order = ran (channelMap (snd (getOrCreateChannel opts nb store n t)))"
  shows "(topic_step ops opts)\<^sup>*\<^sup>* t t'"
proof -
  obtain r t1 where g: "getOrCreateChannel opts nb store n t = (r, t1)" by fastforce
  have 1: "topic_step ops opts t t1" by (rule topic_step.get_channel [OF g])
  have 2: "topic_step ops opts t1 (pumpUpdate order t1)" by (rule topic_step.pump_update [OF assms(2)]) (use assms(3) g in simp)
  have "t' = t1 \<or> t' = pumpUpdate order t1" using assms(1) g by (auto simp: GetChannel_def Let_def split: if_splits prod.splits)
  then show ?thesis using 1 2 by (auto intro: converse_rtranclp_into_rtranclp)
qed

section \<open>The properties of a topic\<close>



lemma putAll_spec:
  assumes "putAll ops i bytes ms t = (err, t')" "length (t_memory t) \<le> t_memCap t"
  defines "r \<equiv> t_memCap t - length (t_memory t)"
  shows "\<exists>n \<le> length ms. (if err = None then n = length ms else n < length ms) \<and>
    t_messageCount t' = t_messageCount t + of_nat (i + n) \<and>
    t_messageBytes t' = t_messageBytes t + of_nat (bytes + sum_list (map (\<lambda>m. length (Body m)) (take n ms))) \<and>
    t_memory t' = t_memory t @ take r (take n ms) \<and>
    t_backend t' = fold (\<lambda>m b. snd (bq_Put ops (encoded m) b)) (drop r (if err = None then ms else take (Suc n) ms)) (t_backend t)"
  using assms(1,2) unfolding r_def
proof (induction ms arbitrary: i bytes t)
  case (Cons m ms)
  obtain e t1 where p: "topic_put ops m t = (e, t1)" by fastforce
  show ?case
  proof (cases "length (t_memory t) < t_memCap t")
    case True
    then have t1: "e = None" "t1 = t\<lparr>t_memory := t_memory t @ [m]\<rparr>" using p by (simp_all add: topic_put_def)
    have rest: "putAll ops (Suc i) (bytes + length (Body m)) ms t1 = (err, t')" using Cons.prems(1) p t1(1) by simp
    have le: "length (t_memory t1) \<le> t_memCap t1" using True t1 by simp
    define k where "k = t_memCap t - length (t_memory t) - 1"
    have k: "t_memCap t - length (t_memory t) = Suc k" "t_memCap t1 - length (t_memory t1) = k" using True t1 by (simp_all add: k_def)
    from Cons.IH [OF rest le, unfolded k(2)] obtain n where n: "n \<le> length ms" "if err = None then n = length ms else n < length ms"
      "t_messageCount t' = t_messageCount t1 + of_nat (Suc i + n)"
      "t_messageBytes t' = t_messageBytes t1 + of_nat (bytes + length (Body m) + sum_list (map (\<lambda>m. length (Body m)) (take n ms)))"
      "t_memory t' = t_memory t1 @ take k (take n ms)"
      "t_backend t' = fold (\<lambda>m b. snd (bq_Put ops (encoded m) b)) (drop k (if err = None then ms else take (Suc n) ms)) (t_backend t1)"
      by blast
    show ?thesis unfolding k(1)
    proof (intro exI [of _ "Suc n"] conjI)
      show "t_backend t' = fold (\<lambda>m b. snd (bq_Put ops (encoded m) b)) (drop (Suc k) (if err = None then m # ms else take (Suc (Suc n)) (m # ms))) (t_backend t)"
        using n(6) t1(2) by (simp split: if_splits)
    qed (use n(1-5) t1(2) in \<open>auto simp: add.assoc\<close>)
  next
    case False
    then have z: "t_memCap t - length (t_memory t) = 0" by simp
    obtain b where b: "bq_Put ops (encoded m) (t_backend t) = (e, b)" "t1 = t\<lparr>t_backend := b, t_health := e\<rparr>"
      using p False by (auto simp: topic_put_def writeMessageToBackend_put split: prod.splits)
    show ?thesis
    proof (cases e)
      case None
      have rest: "putAll ops (Suc i) (bytes + length (Body m)) ms t1 = (err, t')" using Cons.prems(1) p None by simp
      have z1: "t_memCap t1 - length (t_memory t1) = 0" "length (t_memory t1) \<le> t_memCap t1" using b(2) z Cons.prems(2) by simp_all
      from Cons.IH [OF rest z1(2), unfolded z1(1)] obtain n where n: "n \<le> length ms" "if err = None then n = length ms else n < length ms"
        "t_messageCount t' = t_messageCount t1 + of_nat (Suc i + n)"
        "t_messageBytes t' = t_messageBytes t1 + of_nat (bytes + length (Body m) + sum_list (map (\<lambda>m. length (Body m)) (take n ms)))"
        "t_memory t' = t_memory t1 @ take 0 (take n ms)"
        "t_backend t' = fold (\<lambda>m b. snd (bq_Put ops (encoded m) b)) (drop 0 (if err = None then ms else take (Suc n) ms)) (t_backend t1)"
        by blast
      show ?thesis unfolding z
      proof (intro exI [of _ "Suc n"] conjI)
        show "t_backend t' = fold (\<lambda>m b. snd (bq_Put ops (encoded m) b)) (drop 0 (if err = None then m # ms else take (Suc (Suc n)) (m # ms))) (t_backend t)"
          using n(6) b by (simp split: if_splits)
      qed (use n(1-5) b(2) in \<open>auto simp: add.assoc\<close>)
    next
      case (Some x)
      then show ?thesis using Cons.prems(1) p b z by (intro exI [of _ 0]) auto
    qed
  qed
qed auto

text \<open>
  C31. A batch is put in order up to the first failure of the backend: with \<open>n\<close> messages put, the counters
  grow by \<open>n\<close> and by the bytes of these messages, the memory queue has taken what it had room for and the
  backend the rest; without an error all were put.
\<close>

theorem PutMessages_prefix:
  assumes "topic_reach ops opts t" "\<not> t_exitFlag t" "PutMessages ops ms t = (err, t')"
  shows "\<exists>n \<le> length ms. (if err = None then n = length ms else n < length ms) \<and>
    t_messageCount t' = t_messageCount t + of_nat n \<and>
    t_messageBytes t' = t_messageBytes t + of_nat (sum_list (map (\<lambda>m. length (Body m)) (take n ms))) \<and>
    t_memory t' = t_memory t @ take (t_memCap t - length (t_memory t)) (take n ms) \<and>
    t_backend t' = fold (\<lambda>m b. snd (bq_Put ops (encoded m) b))
      (drop (t_memCap t - length (t_memory t)) (if err = None then ms else take (Suc n) ms)) (t_backend t)"
proof -
  have "length (t_memory t) \<le> t_memCap t" using topic_reach_inv [OF assms(1)] by (simp add: topic_inv_def)
  from putAll_spec [OF _ this, of ops 0 0 ms err t'] assms(2,3) show ?thesis by (simp add: PutMessages_def)
qed

lemma exitChannels_spec:
  assumes "distinct order"
  shows "chanObj (exitChannels ops opts mo False order t) a =
      (if a \<in> set order then snd (exit ops opts (fst (mo a)) (snd (mo a)) False (chanObj t a)) else chanObj t a)"
    "t_memory (exitChannels ops opts mo d order t) = t_memory t" "t_backend (exitChannels ops opts mo d order t) = t_backend t"
    "t_exitFlag (exitChannels ops opts mo d order t) = t_exitFlag t"
proof -
  show "chanObj (exitChannels ops opts mo False order t) a =
      (if a \<in> set order then snd (exit ops opts (fst (mo a)) (snd (mo a)) False (chanObj t a)) else chanObj t a)"
    using assms by (induction order arbitrary: t) (auto simp: exitChannels_def)
  show "t_memory (exitChannels ops opts mo d order t) = t_memory t" "t_backend (exitChannels ops opts mo d order t) = t_backend t"
    "t_exitFlag (exitChannels ops opts mo d order t) = t_exitFlag t"
    by (induction order arbitrary: t) (simp_all add: exitChannels_def)
qed

lemma exit_sets_flag: "exitFlag (snd (exit ops opts infl defd False c))"
  by (simp add: exit_def Let_def flush_def writeAll_backend toClients_def split: prod.splits)

text \<open>
  Closing a topic closes each of its channels and puts what is left in its memory queue into its
  backend, in order, before the backend is closed; nothing can be put any more.
\<close>

theorem topic_close_flushes:
  assumes "\<not> t_exitFlag t" "distinct order" "set order = ran (channelMap t)"
    and B: "B = fold (\<lambda>m b. snd (bq_Put ops (encoded m) b)) (t_memory t) (t_backend t)"
  shows "\<exists>t'. topic_exit ops opts mo order False t = (fst (bq_Close ops B), t') \<and> t_backend t' = snd (bq_Close ops B) \<and> t_memory t' = [] \<and>
    (\<forall>a \<in> ran (channelMap t). exitFlag (chanObj t' a) \<and>
       chanObj t' a = snd (exit ops opts (fst (mo a)) (snd (mo a)) False (chanObj t a))) \<and>
    topic_PutMessage ops m t' = (Some (Err ''exiting''), t')"
proof -
  let ?t = "exitChannels ops opts mo False order (t\<lparr>t_exitFlag := True\<rparr>)"
  note X = exitChannels_spec [OF assms(2)]
  have f: "topic_flush ops ?t = ?t\<lparr>t_backend := B, t_memory := []\<rparr>" by (simp add: topic_flush_def B X writeMessageToBackend_put)
  have "topic_exit ops opts mo order False t = (fst (bq_Close ops B), ?t\<lparr>t_memory := [], t_backend := snd (bq_Close ops B)\<rparr>)"
    using assms(1) f by (simp add: topic_exit_def Let_def split_beta)
  then show ?thesis using assms(3) by (intro exI [of _ "?t\<lparr>t_memory := [], t_backend := snd (bq_Close ops B)\<rparr>"])
    (simp add: X exit_sets_flag topic_PutMessage_def)
qed

text \<open>
  C28. The delay of a deferred message is not stored: a message that finds the memory queue full goes to the
  backend as bytes which decode to the same message without a delay, so the pump delivers it at once.
\<close>

theorem spilled_message_loses_delay:
  assumes "length (ID m) = MsgIDLength" "t_memCap t \<le> length (t_memory t)"
  shows "\<exists>buf x. topic_put ops m t = (fst (bq_Put ops buf (t_backend t)),
      t\<lparr>t_backend := snd (bq_Put ops buf (t_backend t)), t_health := fst (bq_Put ops buf (t_backend t))\<rparr>) \<and>
    decodeMessage buf = Inr x \<and> ID x = ID m \<and> Body x = Body m \<and> deferred x = 0"
  using assms(2) by (intro exI [of _ "encoded m"])
    (simp add: decode_encoded [OF assms(1)] topic_put_def writeMessageToBackend_put split_beta)

section \<open>An example topic\<close>

definition ex_topic :: "byte list list Topic" where
  "ex_topic = snd (getOrCreateChannel ex_opts (\<lambda>_. []) ex_store ''c'' (NewTopic ex_opts 1 (\<lambda>_. []) ex_new ''t''))"

definition ex_topic2 :: "byte list list Topic" where
  "ex_topic2 = snd (topic_PutMessage list_ops (ex_store 3) (pumpBegin [0] (Start ex_topic)))"

lemmas ex_topic_defs = ex_topic_def getOrCreateChannel_def NewTopic_def Let_def ex_opts_def

lemma ex_topic2_state: "t_memory ex_topic2 = [ex_store 3]" "pumpOpen ex_topic2" "\<not> t_exitFlag ex_topic2" "pumpChans ex_topic2 = [0]"
  "channelMap ex_topic2 = [''c'' \<mapsto> 0]" "t_memCap ex_topic2 = 2"
  by (simp_all add: ex_topic2_def topic_PutMessage_def topic_put_def pumpBegin_def pumpRefresh_def Start_def ex_topic_defs)

lemma ex_topic2_reach: "topic_reach list_ops ex_opts ex_topic2"
proof -
  let ?t0 = "NewTopic ex_opts 1 (\<lambda>_. []) ex_new ''t''"
  have "topic_reach list_ops ex_opts ?t0" unfolding topic_reach_def by blast
  then have "topic_reach list_ops ex_opts ex_topic"
    by (rule topic_reach_step) (rule topic_step.get_channel [of _ _ ex_store "''c''" _ "fst (getOrCreateChannel ex_opts (\<lambda>_. []) ex_store ''c'' ?t0)"],
      simp add: ex_topic_def)
  then have "topic_reach list_ops ex_opts (Start ex_topic)" by (rule topic_reach_step) (rule topic_step.start)
  then have "topic_reach list_ops ex_opts (pumpBegin [0] (Start ex_topic))"
    by (rule topic_reach_step) (rule topic_step.pump_begin; simp add: Start_def ex_topic_defs)
  then show ?thesis
    by (rule topic_reach_step) (rule topic_step.put [of _ "ex_store 3" _ "fst (topic_PutMessage list_ops (ex_store 3) (pumpBegin [0] (Start ex_topic)))"],
      simp add: ex_topic2_def)
qed



theorem PutMessages_prefix_witness:
  "\<exists>err t'. PutMessages list_ops [ex_store 4, ex_store 5] ex_topic2 = (err, t') \<and>
     (\<exists>n \<le> length [ex_store 4, ex_store 5]. t_memory t' = t_memory ex_topic2 @
        take (t_memCap ex_topic2 - length (t_memory ex_topic2)) (take n [ex_store 4, ex_store 5]))"
proof -
  obtain err t' where *: "PutMessages list_ops [ex_store 4, ex_store 5] ex_topic2 = (err, t')" by fastforce
  from PutMessages_prefix [OF ex_topic2_reach ex_topic2_state(3) *] * show ?thesis by blast
qed

theorem topic_close_flushes_witness:
  "\<exists>t'. t_memory t' = [] \<and> exitFlag (chanObj t' 0) \<and> topic_PutMessage list_ops (ex_store 9) t' = (Some (Err ''exiting''), t')"
proof -
  have "distinct [0 :: addr]" "set [0] = ran (channelMap ex_topic2)" by (simp_all add: ex_topic2_state)
  from topic_close_flushes [OF ex_topic2_state(3) this refl, of list_ops ex_opts "\<lambda>_. ([], [])" "ex_store 9"] show ?thesis
    by (auto simp: ex_topic2_state)
qed

theorem spilled_message_loses_delay_witness:
  "\<exists>buf x. decodeMessage buf = Inr x \<and> ID x = ID (ex_store 3) \<and> deferred x = 0"
proof -
  have "length (ID ((ex_store 3)\<lparr>deferred := 1000\<rparr>)) = MsgIDLength" "t_memCap (ex_topic2\<lparr>t_memCap := 1\<rparr>) \<le> length (t_memory (ex_topic2\<lparr>t_memCap := 1\<rparr>))"
    by (simp_all add: ex_store_def NewMessage_def MsgIDLength_def ex_topic2_state)
  from spilled_message_loses_delay [OF this, of list_ops] show ?thesis by auto
qed

end
