(* ===== verification/Nsq_Lookup.thy ===== *)
theory Nsq_Lookup
  imports Nsq_Channel
begin

text \<open>
  nsqlookupd: the registration database (\<^verbatim>\<open>nsqlookupd/registration_db.go\<close>), the line protocol by which
  nsqd nodes register their topics and channels (\<^verbatim>\<open>lookup_protocol_v1.go\<close>, \<^verbatim>\<open>tcp.go\<close>) and the HTTP handlers
  that query and edit the database (\<^verbatim>\<open>http.go\<close>). Producers and peers are cells of a store, because the code
  shares them by pointer. Go iterates over maps in any order: an operation that ranges over one takes the
  order as an argument, and the theorems hold for every order.
\<close>

section \<open>The registration database\<close>

record Registration =
  Category :: string
  Key :: string
  SubKey :: string

record PeerInfo =
  lastUpdate :: int
  peer_id :: string
  RemoteAddress :: string
  Hostname :: string
  BroadcastAddress :: string
  TCPPort :: int
  HTTPPort :: int
  Version :: string

record Producer =
  peerInfo :: addr
  tombstoned :: bool
  tombstonedAt :: int

record NSQLookupd =
  registrationMap :: "Registration \<Rightarrow> (string \<Rightarrow> addr option) option"
  producers :: "addr \<Rightarrow> Producer"
  nextProducer :: addr
  peers :: "addr \<Rightarrow> PeerInfo"
  nextPeer :: addr

text \<open>The order in which Go takes the keys of the registration map, and those of each producer map.\<close>

record iter_order =
  reg_order :: "Registration list"
  id_order :: "Registration \<Rightarrow> string list"

definition order_ok :: "NSQLookupd \<Rightarrow> iter_order \<Rightarrow> bool" where
  "order_ok db ord \<longleftrightarrow> distinct (reg_order ord) \<and> set (reg_order ord) = dom (registrationMap db) \<and>
     (\<forall>k m. registrationMap db k = Some m \<longrightarrow> distinct (id_order ord k) \<and> set (id_order ord k) = dom m)"

definition reg :: "string \<Rightarrow> string \<Rightarrow> string \<Rightarrow> Registration" where
  "reg c k s = \<lparr>Category = c, Key = k, SubKey = s\<rparr>"

definition Tombstone :: "int \<Rightarrow> addr \<Rightarrow> NSQLookupd \<Rightarrow> NSQLookupd" where
  "Tombstone now p db = db\<lparr>producers := (producers db)(p := (producers db p)\<lparr>tombstoned := True, tombstonedAt := now\<rparr>)\<rparr>"

definition IsTombstoned :: "int \<Rightarrow> int \<Rightarrow> Producer \<Rightarrow> bool" where
  "IsTombstoned now lifetime p \<longleftrightarrow> tombstoned p \<and> now - tombstonedAt p < lifetime"

definition NewRegistrationDB :: NSQLookupd where
  "NewRegistrationDB = \<lparr>registrationMap = Map.empty,
     producers = (\<lambda>_. \<lparr>peerInfo = 0, tombstoned = False, tombstonedAt = 0\<rparr>), nextProducer = 0,
     peers = (\<lambda>_. \<lparr>lastUpdate = 0, peer_id = '''', RemoteAddress = '''', Hostname = '''', BroadcastAddress = '''',
                   TCPPort = 0, HTTPPort = 0, Version = ''''\<rparr>), nextPeer = 0\<rparr>"

definition AddRegistration :: "Registration \<Rightarrow> NSQLookupd \<Rightarrow> NSQLookupd" where
  "AddRegistration k db =
     (if registrationMap db k = None then db\<lparr>registrationMap := (registrationMap db)(k \<mapsto> Map.empty)\<rparr> else db)"

text \<open>\<open>AddProducer k pi\<close> is called with a new \<^verbatim>\<open>&Producer{peerInfo: pi}\<close>.\<close>

definition AddProducer :: "Registration \<Rightarrow> addr \<Rightarrow> NSQLookupd \<Rightarrow> bool \<times> NSQLookupd" where
  "AddProducer k pi db =
     (let p = nextProducer db;
          db = db\<lparr>nextProducer := Suc p,
                  producers := (producers db)(p := \<lparr>peerInfo = pi, tombstoned = False, tombstonedAt = 0\<rparr>)\<rparr>;
          db = AddRegistration k db;
          ps = the (registrationMap db k);
          found = ps (peer_id (peers db pi)) \<noteq> None
      in (\<not> found, if found then db
                    else db\<lparr>registrationMap := (registrationMap db)(k \<mapsto> ps(peer_id (peers db pi) \<mapsto> p))\<rparr>))"

text \<open>The number of producers left is that of the keys of a Go map, which is finite.\<close>

definition RemoveProducer :: "Registration \<Rightarrow> string \<Rightarrow> NSQLookupd \<Rightarrow> (bool \<times> nat) \<times> NSQLookupd" where
  "RemoveProducer k pid db =
     (case registrationMap db k of
        None \<Rightarrow> ((False, 0), db)
      | Some ps \<Rightarrow>
          ((ps pid \<noteq> None, card (dom (ps(pid := None)))),
           db\<lparr>registrationMap := (registrationMap db)(k \<mapsto> ps(pid := None))\<rparr>))"

definition RemoveRegistration :: "Registration \<Rightarrow> NSQLookupd \<Rightarrow> NSQLookupd" where
  "RemoveRegistration k db = db\<lparr>registrationMap := (registrationMap db)(k := None)\<rparr>"

definition needFilter :: "string \<Rightarrow> string \<Rightarrow> bool" where
  "needFilter key subkey \<longleftrightarrow> key = ''*'' \<or> subkey = ''*''"

definition IsMatch :: "string \<Rightarrow> string \<Rightarrow> string \<Rightarrow> Registration \<Rightarrow> bool" where
  "IsMatch category key subkey k =
     (if category \<noteq> Category k then False
      else if key \<noteq> ''*'' \<and> Key k \<noteq> key then False
      else if subkey \<noteq> ''*'' \<and> SubKey k \<noteq> subkey then False
      else True)"

definition FindRegistrations ::
  "iter_order \<Rightarrow> string \<Rightarrow> string \<Rightarrow> string \<Rightarrow> NSQLookupd \<Rightarrow> Registration list" where
  "FindRegistrations ord category key subkey db =
     (if \<not> needFilter key subkey then
        (let k = reg category key subkey in if registrationMap db k \<noteq> None then [k] else [])
      else filter (IsMatch category key subkey) (reg_order ord))"

definition ProducerMap2Slice :: "string list \<Rightarrow> (string \<Rightarrow> addr option) option \<Rightarrow> addr list" where
  "ProducerMap2Slice ids pm = (case pm of None \<Rightarrow> [] | Some ps \<Rightarrow> map (\<lambda>i. the (ps i)) ids)"

text \<open>The inner loop of \<^verbatim>\<open>FindProducers\<close>: \<open>seen\<close> is the set of ids, \<open>ret\<close> the producers found so far.\<close>

fun collect :: "NSQLookupd \<Rightarrow> addr list \<Rightarrow> string list \<times> addr list \<Rightarrow> string list \<times> addr list" where
  "collect db [] (seen, ret) = (seen, ret)"
| "collect db (p # ps) (seen, ret) =
     (let i = peer_id (peers db (peerInfo (producers db p))) in
      collect db ps (if i \<in> set seen then (seen, ret) else (i # seen, ret @ [p])))"

definition FindProducers :: "iter_order \<Rightarrow> string \<Rightarrow> string \<Rightarrow> string \<Rightarrow> NSQLookupd \<Rightarrow> addr list" where
  "FindProducers ord category key subkey db =
     (if \<not> needFilter key subkey then
        (let k = reg category key subkey in ProducerMap2Slice (id_order ord k) (registrationMap db k))
      else
        snd (fold (\<lambda>k. if IsMatch category key subkey k
                       then collect db (ProducerMap2Slice (id_order ord k) (registrationMap db k)) else (\<lambda>x. x))
              (reg_order ord) ([], [])))"

definition LookupRegistrations :: "iter_order \<Rightarrow> string \<Rightarrow> NSQLookupd \<Rightarrow> Registration list" where
  "LookupRegistrations ord pid db =
     filter (\<lambda>k. case registrationMap db k of None \<Rightarrow> False | Some ps \<Rightarrow> ps pid \<noteq> None) (reg_order ord)"

definition Filter :: "string \<Rightarrow> string \<Rightarrow> string \<Rightarrow> Registration list \<Rightarrow> Registration list" where
  "Filter category key subkey rr = filter (IsMatch category key subkey) rr"

definition Keys :: "Registration list \<Rightarrow> string list" where "Keys rr = map Key rr"
definition SubKeys :: "Registration list \<Rightarrow> string list" where "SubKeys rr = map SubKey rr"

definition FilterByActive :: "int \<Rightarrow> int \<Rightarrow> int \<Rightarrow> NSQLookupd \<Rightarrow> addr list \<Rightarrow> addr list" where
  "FilterByActive now inactivityTimeout tombstoneLifetime db pp =
     filter (\<lambda>p. \<not> (now - lastUpdate (peers db (peerInfo (producers db p))) > inactivityTimeout \<or>
                     IsTombstoned now tombstoneLifetime (producers db p))) pp"

definition peerInfos :: "NSQLookupd \<Rightarrow> addr list \<Rightarrow> addr list" where
  "peerInfos db pp = map (\<lambda>p. peerInfo (producers db p)) pp"

section \<open>The line protocol\<close>

text \<open>Characters and bytes; the white space that \<^verbatim>\<open>strings.TrimSpace\<close> removes, in UTF-8.\<close>

definition str_of :: "byte list \<Rightarrow> string" where "str_of = map (\<lambda>b. char_of (unat b))"
definition bytes_of :: "string \<Rightarrow> byte list" where "bytes_of = map (\<lambda>c. of_nat (of_char c))"

definition white_space :: "byte list list" where
  "white_space = [[9], [10], [11], [12], [13], [32], [0xC2, 0x85], [0xC2, 0xA0], [0xE1, 0x9A, 0x80],
     [0xE2, 0x80, 0x80], [0xE2, 0x80, 0x81], [0xE2, 0x80, 0x82], [0xE2, 0x80, 0x83], [0xE2, 0x80, 0x84],
     [0xE2, 0x80, 0x85], [0xE2, 0x80, 0x86], [0xE2, 0x80, 0x87], [0xE2, 0x80, 0x88], [0xE2, 0x80, 0x89],
     [0xE2, 0x80, 0x8A], [0xE2, 0x80, 0xA8], [0xE2, 0x80, 0xA9], [0xE2, 0x80, 0xAF], [0xE2, 0x81, 0x9F],
     [0xE3, 0x80, 0x80]]"

function trimLeft :: "byte list list \<Rightarrow> byte list \<Rightarrow> byte list" where
  "trimLeft ws b =
     (case find (\<lambda>w. w \<noteq> [] \<and> take (length w) b = w) ws of None \<Rightarrow> b | Some w \<Rightarrow> trimLeft ws (drop (length w) b))"
  by pat_completeness auto
termination
proof (relation "measure (\<lambda>(ws, b). length b)")
  fix ws :: "byte list list" and b w
  assume "find (\<lambda>w. w \<noteq> [] \<and> take (length w) b = w) ws = Some w"
  then have "w \<noteq> [] \<and> take (length w) b = w" by (auto simp: find_Some_iff)
  then have "length w \<noteq> 0" "b \<noteq> []" by auto
  then show "((ws, drop (length w) b), ws, b) \<in> measure (\<lambda>(ws, b). length b)" by (cases b) auto
qed simp

declare trimLeft.simps [simp del]

definition TrimSpace :: "byte list \<Rightarrow> byte list" where
  "TrimSpace b = rev (trimLeft (map rev white_space) (rev (trimLeft white_space b)))"

text \<open>\<^verbatim>\<open>strings.Split(s, " ")\<close>.\<close>

fun splitSpace :: "byte list \<Rightarrow> byte list list" where
  "splitSpace [] = [[]]"
| "splitSpace (b # bs) =
     (if b = 32 then [] # splitSpace bs
      else (case splitSpace bs of [] \<Rightarrow> [[b]] | w # ws \<Rightarrow> (b # w) # ws))"

text \<open>
  The connection: its address, what is still to be read and where it writes to. A command returns a
  response, a fatal error, or crashes the process.
\<close>

record ClientV1 =
  remoteAddr :: string
  cpeer :: "addr option"

datatype cmd_result = Response string | FatalClientErr string string | Crash

text \<open>
  The parts of the environment that \<^verbatim>\<open>IDENTIFY\<close> uses: decoding the JSON body into the peer's fields,
  encoding the response, the server's own ports and addresses, and the host's name.
\<close>

record lookup_env =
  unmarshal :: "byte list \<Rightarrow> (PeerInfo \<Rightarrow> PeerInfo) option"
  marshal :: "int \<Rightarrow> int \<Rightarrow> string \<Rightarrow> string \<Rightarrow> string option"
  RealTCPPort :: int
  RealHTTPPort :: int
  optBroadcastAddress :: string
  os_Hostname :: "string option"

definition PING :: "int \<Rightarrow> ClientV1 \<Rightarrow> NSQLookupd \<Rightarrow> cmd_result \<times> NSQLookupd" where
  "PING now client db =
     (case cpeer client of
        None \<Rightarrow> (Response ''OK'', db)
      | Some pi \<Rightarrow> (Response ''OK'', db\<lparr>peers := (peers db)(pi := (peers db pi)\<lparr>lastUpdate := now\<rparr>)\<rparr>))"

definition getTopicChan :: "string \<Rightarrow> string list \<Rightarrow> (string \<times> string) + (string \<times> string)" where
  "getTopicChan command params =
     (if params = [] then Inl (''E_INVALID'', command @ '' insufficient number of params'')
      else
        (let topicName = params ! 0; channelName = (if length params \<ge> 2 then params ! 1 else '''')
         in if \<not> IsValidTopicName topicName
            then Inl (''E_BAD_TOPIC'', command @ '' topic name '' @ [CHR 0x27] @ topicName @ [CHR 0x27] @ '' is not valid'')
            else if channelName \<noteq> '''' \<and> \<not> IsValidChannelName channelName
            then Inl (''E_BAD_CHANNEL'', command @ '' channel name '' @ [CHR 0x27] @ channelName @ [CHR 0x27] @ '' is not valid'')
            else Inr (topicName, channelName)))"

definition REGISTER :: "ClientV1 \<Rightarrow> string list \<Rightarrow> NSQLookupd \<Rightarrow> cmd_result \<times> NSQLookupd" where
  "REGISTER client params db =
     (case cpeer client of
        None \<Rightarrow> (FatalClientErr ''E_INVALID'' ''client must IDENTIFY'', db)
      | Some pi \<Rightarrow>
          (case getTopicChan ''REGISTER'' params of
             Inl (code, desc) \<Rightarrow> (FatalClientErr code desc, db)
           | Inr (topic, channel) \<Rightarrow>
               (let db = (if channel \<noteq> '''' then snd (AddProducer (reg ''channel'' topic channel) pi db) else db);
                    db = snd (AddProducer (reg ''topic'' topic '''') pi db)
                in (Response ''OK'', db))))"

definition removeProducers :: "string \<Rightarrow> Registration list \<Rightarrow> NSQLookupd \<Rightarrow> NSQLookupd" where
  "removeProducers pid rs db = fold (\<lambda>r db. snd (RemoveProducer r pid db)) rs db"

text \<open>Both branches end by dropping an ephemeral registration that has no producers left.\<close>

definition removeOrDrop :: "Registration \<Rightarrow> string \<Rightarrow> string \<Rightarrow> NSQLookupd \<Rightarrow> NSQLookupd" where
  "removeOrDrop key pid name db =
     (let ((removed, left), db) = RemoveProducer key pid db
      in if left = 0 \<and> hasSuffix name ''#ephemeral'' then RemoveRegistration key db else db)"

definition UNREGISTER :: "iter_order \<Rightarrow> ClientV1 \<Rightarrow> string list \<Rightarrow> NSQLookupd \<Rightarrow> cmd_result \<times> NSQLookupd" where
  "UNREGISTER ord client params db =
     (case cpeer client of
        None \<Rightarrow> (FatalClientErr ''E_INVALID'' ''client must IDENTIFY'', db)
      | Some pi \<Rightarrow>
          (case getTopicChan ''UNREGISTER'' params of
             Inl (code, desc) \<Rightarrow> (FatalClientErr code desc, db)
           | Inr (topic, channel) \<Rightarrow>
               (let pid = peer_id (peers db pi) in
                if channel \<noteq> '''' then (Response ''OK'', removeOrDrop (reg ''channel'' topic channel) pid channel db)
                else
                  (let db = removeProducers pid (FindRegistrations ord ''channel'' topic ''*'' db) db
                   in (Response ''OK'', removeOrDrop (reg ''topic'' topic '''') pid topic db)))))"

text \<open>
  \<open>IDENTIFY\<close> reads a 4-byte signed length and the body. A negative length makes \<^verbatim>\<open>make([]byte, bodyLen)\<close>
  panic, which ends the process, as does \<^verbatim>\<open>log.Fatalf\<close> when the host has no name.
\<close>

definition readBody :: "byte list \<Rightarrow> (cmd_result \<times> byte list) + (byte list \<times> byte list)" where
  "readBody inp =
     (if length inp < 4 then Inl (FatalClientErr ''E_BAD_BODY'' ''IDENTIFY failed to read body size'', [])
      else
        (let bodyLen = sint (get_be (take 4 inp) :: u32); inp = drop 4 inp
         in if bodyLen < 0 then Inl (Crash, inp)
            else if length inp < nat bodyLen then Inl (FatalClientErr ''E_BAD_BODY'' ''IDENTIFY failed to read body'', [])
            else Inr (take (nat bodyLen) inp, drop (nat bodyLen) inp)))"

definition identified :: "int \<Rightarrow> PeerInfo \<Rightarrow> ClientV1 \<Rightarrow> NSQLookupd \<Rightarrow> ClientV1 \<times> NSQLookupd" where
  "identified now p client db =
     (let a = nextPeer db;
          db = db\<lparr>nextPeer := Suc a, peers := (peers db)(a := p\<lparr>lastUpdate := now\<rparr>)\<rparr>
      in (client\<lparr>cpeer := Some a\<rparr>, snd (AddProducer (reg ''client'' '''' '''') a db)))"

definition identifyResponse :: "lookup_env \<Rightarrow> cmd_result" where
  "identifyResponse env =
     (case os_Hostname env of
        None \<Rightarrow> Crash
      | Some h \<Rightarrow>
          (case marshal env (RealTCPPort env) (RealHTTPPort env) (optBroadcastAddress env) h of
             None \<Rightarrow> Response ''OK''
           | Some r \<Rightarrow> Response r))"

definition IDENTIFY ::
  "lookup_env \<Rightarrow> int \<Rightarrow> ClientV1 \<Rightarrow> byte list \<Rightarrow> NSQLookupd \<Rightarrow> cmd_result \<times> ClientV1 \<times> byte list \<times> NSQLookupd" where
  "IDENTIFY env now client inp db =
     (if cpeer client \<noteq> None then (FatalClientErr ''E_INVALID'' ''cannot IDENTIFY again'', client, inp, db)
      else
        (case readBody inp of
           Inl (r, inp) \<Rightarrow> (r, client, inp, db)
         | Inr (body, inp) \<Rightarrow>
             (case unmarshal env body of
                None \<Rightarrow> (FatalClientErr ''E_BAD_BODY'' ''IDENTIFY failed to decode JSON body'', client, inp, db)
              | Some f \<Rightarrow>
                  (let p = (f \<lparr>lastUpdate = 0, peer_id = remoteAddr client, RemoteAddress = '''', Hostname = '''',
                              BroadcastAddress = '''', TCPPort = 0, HTTPPort = 0, Version = ''''\<rparr>)
                           \<lparr>RemoteAddress := remoteAddr client\<rparr>
                   in if BroadcastAddress p = '''' \<or> TCPPort p = 0 \<or> HTTPPort p = 0 \<or> Version p = ''''
                      then (FatalClientErr ''E_BAD_BODY'' ''IDENTIFY missing fields'', client, inp, db)
                      else
                        (let (client, db) = identified now p client db
                         in (identifyResponse env, client, inp, db))))))"

definition Exec ::
  "lookup_env \<Rightarrow> iter_order \<Rightarrow> int \<Rightarrow> ClientV1 \<Rightarrow> byte list \<Rightarrow> string list \<Rightarrow> NSQLookupd \<Rightarrow>
     cmd_result \<times> ClientV1 \<times> byte list \<times> NSQLookupd" where
  "Exec env ord now client inp params db =
     (if params ! 0 = ''PING'' then (let (r, db) = PING now client db in (r, client, inp, db))
      else if params ! 0 = ''IDENTIFY'' then IDENTIFY env now client inp db
      else if params ! 0 = ''REGISTER'' then (let (r, db) = REGISTER client (tl params) db in (r, client, inp, db))
      else if params ! 0 = ''UNREGISTER'' then (let (r, db) = UNREGISTER ord client (tl params) db in (r, client, inp, db))
      else (FatalClientErr ''E_INVALID'' (''invalid command '' @ params ! 0), client, inp, db))"

lemma Exec_input: "Exec env ord now client inp params db = (r, client', inp', db') \<Longrightarrow> length inp' \<le> length inp"
  by (auto simp: Exec_def IDENTIFY_def readBody_def Let_def split: if_splits prod.splits option.splits sum.splits)

text \<open>
  The loop over the lines of a connection. \<open>clock n\<close> is the time at the \<open>n\<close>-th command, \<open>ord\<close> gives the
  order of iteration. \<open>None\<close>: the process crashed. Every error of a command is fatal and ends the loop.
\<close>

definition ReadString :: "byte list \<Rightarrow> (byte list \<times> byte list) option" where
  "ReadString inp =
     (if 10 \<in> set inp then Some (takeWhile (\<lambda>b. b \<noteq> 10) inp @ [10], tl (dropWhile (\<lambda>b. b \<noteq> 10) inp)) else None)"

lemma ReadString_length: "ReadString inp = Some (line, rest) \<Longrightarrow> length rest < length inp"
proof -
  assume "ReadString inp = Some (line, rest)"
  then have "rest = tl (dropWhile (\<lambda>b. b \<noteq> 10) inp)" "10 \<in> set inp" by (auto simp: ReadString_def split: if_splits)
  moreover have "length (dropWhile (\<lambda>b. b \<noteq> 10) inp) \<le> length inp" by (rule length_dropWhile_le)
  ultimately show ?thesis by (cases inp) auto
qed

definition closeClient :: "iter_order \<Rightarrow> ClientV1 \<Rightarrow> NSQLookupd \<Rightarrow> NSQLookupd" where
  "closeClient ord client db =
     (case cpeer client of
        None \<Rightarrow> db
      | Some pi \<Rightarrow> (let pid = peer_id (peers db pi) in removeProducers pid (LookupRegistrations ord pid db) db))"

function commandLoop ::
  "lookup_env \<Rightarrow> (NSQLookupd \<Rightarrow> iter_order) \<Rightarrow> (nat \<Rightarrow> int) \<Rightarrow> 'w writer \<Rightarrow> nat \<Rightarrow> ClientV1 \<Rightarrow> byte list \<Rightarrow> 'w \<Rightarrow> NSQLookupd \<Rightarrow>
     (ClientV1 \<times> 'w \<times> NSQLookupd) option" where
  "commandLoop env ord clock write n client inp w db =
     (case ReadString inp of
        None \<Rightarrow> Some (client, w, db)
      | Some (line, inp) \<Rightarrow>
          (let params = map str_of (splitSpace (TrimSpace line)) in
           case Exec env (ord db) (clock n) client inp params db of
             (Crash, _) \<Rightarrow> None
           | (FatalClientErr code desc, client, inp, db) \<Rightarrow>
               (let (_, _, w) = SendResponse write (bytes_of (code @ '' '' @ desc)) w in Some (client, w, db))
           | (Response r, client, inp, db) \<Rightarrow>
               (let (_, err, w) = SendResponse write (bytes_of r) w
                in if err \<noteq> None then Some (client, w, db)
                   else commandLoop env ord clock write (Suc n) client inp w db)))"
  by pat_completeness auto
termination
  by (relation "measure (\<lambda>(env, ord, clock, write, n, client, inp, w, db). length inp)")
    (simp, metis (no_types, lifting) Exec_input ReadString_length case_prod_conv in_measure le_less_trans)

declare commandLoop.simps [simp del]

definition IOLoop ::
  "lookup_env \<Rightarrow> (NSQLookupd \<Rightarrow> iter_order) \<Rightarrow> (nat \<Rightarrow> int) \<Rightarrow> 'w writer \<Rightarrow> string \<Rightarrow> byte list \<Rightarrow> 'w \<Rightarrow> NSQLookupd \<Rightarrow>
     ('w \<times> NSQLookupd) option" where
  "IOLoop env ord clock write addr inp w db =
     (case commandLoop env ord clock write 0 \<lparr>remoteAddr = addr, cpeer = None\<rparr> inp w db of
        None \<Rightarrow> None
      | Some (client, w, db) \<Rightarrow> Some (w, closeClient (ord db) client db))"

text \<open>\<^verbatim>\<open>tcpServer.Handle\<close>: four bytes name the protocol.\<close>

definition Handle ::
  "lookup_env \<Rightarrow> (NSQLookupd \<Rightarrow> iter_order) \<Rightarrow> (nat \<Rightarrow> int) \<Rightarrow> 'w writer \<Rightarrow> string \<Rightarrow> byte list \<Rightarrow> 'w \<Rightarrow> NSQLookupd \<Rightarrow>
     ('w \<times> NSQLookupd) option" where
  "Handle env ord clock write addr inp w db =
     (if length inp < 4 then Some (w, db)
      else if str_of (take 4 inp) = ''  V1'' then IOLoop env ord clock write addr (drop 4 inp) w db
      else (let (_, _, w) = SendResponse write (bytes_of ''E_BAD_PROTOCOL'') w in Some (w, db)))"

section \<open>The HTTP handlers\<close>

text \<open>
  A request is its parsed query (\<open>None\<close> when parsing or reading the body failed); a handler returns an error
  with its status, or its result.
\<close>

type_synonym ReqParams = "(string \<Rightarrow> string list option) option"
type_synonym 'a http_res = "(nat \<times> string) + 'a"

definition ReqParams_Get :: "string \<Rightarrow> (string \<Rightarrow> string list option) \<Rightarrow> string option" where
  "ReqParams_Get key r = map_option hd (r key)"

definition topicArg :: "ReqParams \<Rightarrow> string http_res" where
  "topicArg req =
     (case req of
        None \<Rightarrow> Inl (400, ''INVALID_REQUEST'')
      | Some r \<Rightarrow> (case ReqParams_Get ''topic'' r of None \<Rightarrow> Inl (400, ''MISSING_ARG_TOPIC'') | Some t \<Rightarrow> Inr t))"

definition GetTopicChannelArgs :: "(string \<Rightarrow> string list option) \<Rightarrow> string + (string \<times> string)" where
  "GetTopicChannelArgs rp =
     (case ReqParams_Get ''topic'' rp of
        None \<Rightarrow> Inl ''MISSING_ARG_TOPIC''
      | Some topicName \<Rightarrow>
          if \<not> IsValidTopicName topicName then Inl ''INVALID_ARG_TOPIC''
          else
            (case ReqParams_Get ''channel'' rp of
               None \<Rightarrow> Inl ''MISSING_ARG_CHANNEL''
             | Some channelName \<Rightarrow>
                 if \<not> IsValidChannelName channelName then Inl ''INVALID_ARG_CHANNEL''
                 else Inr (topicName, channelName)))"

definition doTopics :: "iter_order \<Rightarrow> NSQLookupd \<Rightarrow> string list" where
  "doTopics ord db = Keys (FindRegistrations ord ''topic'' ''*'' '''' db)"

definition doChannels :: "iter_order \<Rightarrow> ReqParams \<Rightarrow> NSQLookupd \<Rightarrow> string list http_res" where
  "doChannels ord req db =
     (case topicArg req of
        Inl e \<Rightarrow> Inl e
      | Inr topicName \<Rightarrow> Inr (SubKeys (FindRegistrations ord ''channel'' topicName ''*'' db)))"

definition doLookup ::
  "iter_order \<Rightarrow> int \<Rightarrow> int \<Rightarrow> int \<Rightarrow> ReqParams \<Rightarrow> NSQLookupd \<Rightarrow> (string list \<times> addr list) http_res" where
  "doLookup ord now inactive lifetime req db =
     (case topicArg req of
        Inl e \<Rightarrow> Inl e
      | Inr topicName \<Rightarrow>
          if FindRegistrations ord ''topic'' topicName '''' db = [] then Inl (404, ''TOPIC_NOT_FOUND'')
          else
            (let channels = SubKeys (FindRegistrations ord ''channel'' topicName ''*'' db);
                 ps = FilterByActive now inactive lifetime db (FindProducers ord ''topic'' topicName '''' db)
             in Inr (channels, peerInfos db ps)))"

definition doCreateTopic :: "ReqParams \<Rightarrow> NSQLookupd \<Rightarrow> unit http_res \<times> NSQLookupd" where
  "doCreateTopic req db =
     (case topicArg req of
        Inl e \<Rightarrow> (Inl e, db)
      | Inr topicName \<Rightarrow>
          if \<not> IsValidTopicName topicName then (Inl (400, ''INVALID_ARG_TOPIC''), db)
          else (Inr (), AddRegistration (reg ''topic'' topicName '''') db))"

definition doDeleteTopic :: "iter_order \<Rightarrow> iter_order \<Rightarrow> ReqParams \<Rightarrow> NSQLookupd \<Rightarrow> unit http_res \<times> NSQLookupd" where
  "doDeleteTopic ord ord' req db =
     (case topicArg req of
        Inl e \<Rightarrow> (Inl e, db)
      | Inr topicName \<Rightarrow>
          (let db = fold RemoveRegistration (FindRegistrations ord ''channel'' topicName ''*'' db) db;
               db = fold RemoveRegistration (FindRegistrations ord' ''topic'' topicName '''' db) db
           in (Inr (), db)))"

text \<open>\<open>show_int\<close> is the decimal form that \<^verbatim>\<open>%d\<close> prints.\<close>

function show_nat :: "nat \<Rightarrow> string" where
  "show_nat n = (if n < 10 then [char_of (48 + n)] else show_nat (n div 10) @ [char_of (48 + n mod 10)])"
  by pat_completeness auto
termination by (relation "measure (\<lambda>n. n)") auto

declare show_nat.simps [simp del]

definition show_int :: "int \<Rightarrow> string" where
  "show_int i = (if i < 0 then CHR ''-'' # show_nat (nat (- i)) else show_nat (nat i))"

definition doTombstoneTopicProducer :: "iter_order \<Rightarrow> int \<Rightarrow> ReqParams \<Rightarrow> NSQLookupd \<Rightarrow> unit http_res \<times> NSQLookupd" where
  "doTombstoneTopicProducer ord now req db =
     (case topicArg req of
        Inl e \<Rightarrow> (Inl e, db)
      | Inr topicName \<Rightarrow>
          (case Option.bind req (ReqParams_Get ''node'') of
             None \<Rightarrow> (Inl (400, ''MISSING_ARG_NODE''), db)
           | Some node \<Rightarrow>
               (Inr (), fold (\<lambda>p db.
                   (let pi = peers db (peerInfo (producers db p)) in
                    if BroadcastAddress pi @ '':'' @ show_int (HTTPPort pi) = node then Tombstone now p db else db))
                 (FindProducers ord ''topic'' topicName '''' db) db)))"

definition doCreateChannel :: "ReqParams \<Rightarrow> NSQLookupd \<Rightarrow> unit http_res \<times> NSQLookupd" where
  "doCreateChannel req db =
     (case req of
        None \<Rightarrow> (Inl (400, ''INVALID_REQUEST''), db)
      | Some r \<Rightarrow>
          (case GetTopicChannelArgs r of
             Inl e \<Rightarrow> (Inl (400, e), db)
           | Inr (topicName, channelName) \<Rightarrow>
               (Inr (), AddRegistration (reg ''topic'' topicName '''')
                          (AddRegistration (reg ''channel'' topicName channelName) db))))"

definition doDeleteChannel :: "iter_order \<Rightarrow> ReqParams \<Rightarrow> NSQLookupd \<Rightarrow> unit http_res \<times> NSQLookupd" where
  "doDeleteChannel ord req db =
     (case req of
        None \<Rightarrow> (Inl (400, ''INVALID_REQUEST''), db)
      | Some r \<Rightarrow>
          (case GetTopicChannelArgs r of
             Inl e \<Rightarrow> (Inl (400, e), db)
           | Inr (topicName, channelName) \<Rightarrow>
               (let registrations = FindRegistrations ord ''channel'' topicName channelName db
                in if registrations = [] then (Inl (404, ''CHANNEL_NOT_FOUND''), db)
                   else (Inr (), fold RemoveRegistration registrations db))))"

text \<open>The fields of a node in the answer of \<open>doNodes\<close>: its peer, its topics and whether each is tombstoned.\<close>

fun tombstone_of :: "int \<Rightarrow> int \<Rightarrow> NSQLookupd \<Rightarrow> addr \<Rightarrow> addr list \<Rightarrow> bool" where
  "tombstone_of now lifetime db pi [] = False"
| "tombstone_of now lifetime db pi (tp # tps) =
     (if peerInfo (producers db tp) = pi then IsTombstoned now lifetime (producers db tp)
      else tombstone_of now lifetime db pi tps)"

definition doNodes ::
  "iter_order \<Rightarrow> (addr \<Rightarrow> iter_order) \<Rightarrow> int \<Rightarrow> int \<Rightarrow> int \<Rightarrow> NSQLookupd \<Rightarrow> (addr \<times> bool list \<times> string list) list" where
  "doNodes ord ords now inactive lifetime db =
     map (\<lambda>p.
       (let pi = peerInfo (producers db p);
            topics = Keys (Filter ''topic'' ''*'' '''' (LookupRegistrations (ords p) (peer_id (peers db pi)) db))
        in (pi, map (\<lambda>t. tombstone_of now lifetime db pi (FindProducers ord ''topic'' t '''' db)) topics, topics)))
       (FilterByActive now inactive 0 db (FindProducers ord ''client'' '''' '''' db))"

end
