(* ===== verification/Nsq_Lookup_Inv.thy ===== *)
theory Nsq_Lookup_Inv
  imports Nsq_Lookup
begin

text \<open>
  What the operations of nsqlookupd do to the entries of the database, what a whole session of a client
  does, and the invariant of the server with many connections.
\<close>


section \<open>What the operations do to the entries\<close>

definition entry :: "NSQLookupd \<Rightarrow> Registration \<Rightarrow> string \<Rightarrow> addr option" where
  "entry db k i = Option.bind (registrationMap db k) (\<lambda>ps. ps i)"

abbreviation pid_of :: "NSQLookupd \<Rightarrow> addr \<Rightarrow> string" where
  "pid_of db p \<equiv> peer_id (peers db (peerInfo (producers db p)))"

definition fin_db :: "NSQLookupd \<Rightarrow> bool" where
  "fin_db db \<longleftrightarrow> finite (dom (registrationMap db)) \<and> (\<forall>k ps. registrationMap db k = Some ps \<longrightarrow> finite (dom ps))"

lemma entry_AddRegistration [simp]:
  "entry (AddRegistration r db) k i = entry db k i" "producers (AddRegistration r db) = producers db"
  "peers (AddRegistration r db) = peers db" "nextPeer (AddRegistration r db) = nextPeer db" "nextProducer (AddRegistration r db) = nextProducer db"
  "fin_db db \<Longrightarrow> fin_db (AddRegistration r db)"
  by (auto simp: AddRegistration_def entry_def fin_db_def)

lemma dom_AddRegistration [simp]: "dom (registrationMap (AddRegistration r db)) = insert r (dom (registrationMap db))"
  by (auto simp: AddRegistration_def)

lemma AddProducer_entry:
  "entry (snd (AddProducer r pi db)) k i =
     (if k = r \<and> i = peer_id (peers db pi) \<and> entry db k i = None then Some (nextProducer db) else entry db k i)"
  "producers (snd (AddProducer r pi db)) = (producers db)(nextProducer db := \<lparr>peerInfo = pi, tombstoned = False, tombstonedAt = 0\<rparr>)"
  "nextProducer (snd (AddProducer r pi db)) = Suc (nextProducer db)"
  "peers (snd (AddProducer r pi db)) = peers db" "nextPeer (snd (AddProducer r pi db)) = nextPeer db"
  by (cases "registrationMap db r"; fastforce simp: AddProducer_def AddRegistration_def entry_def fin_db_def Let_def)+

lemma AddProducer_dom:
  "dom (registrationMap (snd (AddProducer r pi db))) = insert r (dom (registrationMap db))"
  by (cases "registrationMap db r") (auto simp: AddProducer_def AddRegistration_def Let_def)

lemma AddProducer_fin: "fin_db db \<Longrightarrow> fin_db (snd (AddProducer r pi db))"
  by (cases "registrationMap db r") (auto simp: AddProducer_def AddRegistration_def Let_def fin_db_def)

lemma RemoveProducer_entry:
  "entry (snd (RemoveProducer r pid db)) k i = (if k = r \<and> i = pid then None else entry db k i)"
  "producers (snd (RemoveProducer r pid db)) = producers db" "nextProducer (snd (RemoveProducer r pid db)) = nextProducer db"
  "peers (snd (RemoveProducer r pid db)) = peers db" "nextPeer (snd (RemoveProducer r pid db)) = nextPeer db"
  "dom (registrationMap (snd (RemoveProducer r pid db))) = dom (registrationMap db)"
  "fin_db db \<Longrightarrow> fin_db (snd (RemoveProducer r pid db))"
  by (cases "registrationMap db r"; auto simp: RemoveProducer_def entry_def fin_db_def; fail)+

lemma RemoveRegistration_entry [simp]:
  "entry (RemoveRegistration r db) k i = (if k = r then None else entry db k i)"
  "producers (RemoveRegistration r db) = producers db" "nextProducer (RemoveRegistration r db) = nextProducer db"
  "peers (RemoveRegistration r db) = peers db" "nextPeer (RemoveRegistration r db) = nextPeer db"
  "fin_db db \<Longrightarrow> fin_db (RemoveRegistration r db)"
  by (auto simp: RemoveRegistration_def entry_def fin_db_def)

text \<open>What is left is counted exactly, so an ephemeral registration is dropped only when it has no producers.\<close>

lemma RemoveProducer_left:
  assumes "fin_db db" "snd (fst (RemoveProducer r pid db)) = 0"
  shows "entry (snd (RemoveProducer r pid db)) r i = None"
proof (cases "registrationMap db r")
  case (Some ps)
  have "finite (dom (ps(pid := None)))" using assms(1) Some by (auto simp: fin_db_def)
  moreover have "card (dom (ps(pid := None))) = 0" using assms(2) Some by (simp add: RemoveProducer_def)
  ultimately have "dom (ps(pid := None)) = {}" using card_0_eq by blast
  then have "(ps(pid := None)) i = None" by blast
  then show ?thesis using Some by (simp add: RemoveProducer_def entry_def)
qed (simp add: RemoveProducer_def entry_def)

lemma removeProducers_entry:
  "entry (removeProducers pid rs db) k i = (if k \<in> set rs \<and> i = pid then None else entry db k i)"
  "producers (removeProducers pid rs db) = producers db" "nextProducer (removeProducers pid rs db) = nextProducer db"
  "peers (removeProducers pid rs db) = peers db" "nextPeer (removeProducers pid rs db) = nextPeer db"
  "fin_db db \<Longrightarrow> fin_db (removeProducers pid rs db)"
  by (induction rs arbitrary: db) (auto simp: removeProducers_def RemoveProducer_entry)

lemma fold_RemoveRegistration_entry:
  "entry (fold RemoveRegistration rs db) k i = (if k \<in> set rs then None else entry db k i)"
  "producers (fold RemoveRegistration rs db) = producers db" "nextProducer (fold RemoveRegistration rs db) = nextProducer db"
  "peers (fold RemoveRegistration rs db) = peers db" "nextPeer (fold RemoveRegistration rs db) = nextPeer db"
  "fin_db db \<Longrightarrow> fin_db (fold RemoveRegistration rs db)"
  by (induction rs arbitrary: db) auto

text \<open>
  A step of the client at address \<open>a\<close>: entries of other clients stay, its own new entries are for its
  peer, and old producers and the peers of others keep their contents.
\<close>

definition own_peer :: "ClientV1 \<Rightarrow> NSQLookupd \<Rightarrow> bool" where
  "own_peer cl db \<longleftrightarrow> (\<forall>pi. cpeer cl = Some pi \<longrightarrow> pi < nextPeer db \<and> peer_id (peers db pi) = remoteAddr cl)"

definition local_step :: "ClientV1 \<Rightarrow> NSQLookupd \<Rightarrow> ClientV1 \<Rightarrow> NSQLookupd \<Rightarrow> bool" where
  "local_step cl db cl' db' \<longleftrightarrow>
     remoteAddr cl' = remoteAddr cl \<and> (cpeer cl \<noteq> None \<longrightarrow> cpeer cl' = cpeer cl) \<and>
     (\<forall>q. cpeer cl = None \<longrightarrow> cpeer cl' = Some q \<longrightarrow> nextPeer db \<le> q) \<and> own_peer cl' db' \<and> fin_db db' \<and>
     nextProducer db \<le> nextProducer db' \<and> nextPeer db \<le> nextPeer db' \<and>
     (\<forall>p < nextProducer db. producers db' p = producers db p) \<and>
     (\<forall>p < nextPeer db. peer_id (peers db' p) = peer_id (peers db p) \<and> (cpeer cl \<noteq> Some p \<longrightarrow> peers db' p = peers db p)) \<and>
     (\<forall>k i. i \<noteq> remoteAddr cl \<longrightarrow> entry db' k i = entry db k i) \<and>
     (\<forall>k p. entry db' k (remoteAddr cl) = Some p \<longrightarrow> entry db k (remoteAddr cl) = Some p \<or>
        nextProducer db \<le> p \<and> p < nextProducer db' \<and> cpeer cl' = Some (peerInfo (producers db' p)))"

lemma PING_local:
  assumes "own_peer cl db" "fin_db db" "PING now cl db = (r, db')"
  shows "local_step cl db cl db'"
  using assms by (auto simp: PING_def local_step_def own_peer_def entry_def fin_db_def split: option.splits)

lemma AddProducer_local:
  assumes "own_peer cl db" "fin_db db" "cpeer cl = Some pi"
  shows "local_step cl db cl (snd (AddProducer k pi db))"
  using assms by (auto simp: local_step_def AddProducer_entry AddProducer_fin own_peer_def)

lemma local_step_trans:
  assumes "local_step c1 d1 c2 d2" "local_step c2 d2 c3 d3"
  shows "local_step c1 d1 c3 d3"
proof -
  have a: "remoteAddr c2 = remoteAddr c1" "remoteAddr c3 = remoteAddr c1" using assms by (simp_all add: local_step_def)
  have le: "nextProducer d1 \<le> nextProducer d2" "nextPeer d1 \<le> nextPeer d2" "nextProducer d2 \<le> nextProducer d3" "nextPeer d2 \<le> nextPeer d3"
    using assms by (simp_all add: local_step_def)
  have c: "cpeer c2 \<noteq> None \<Longrightarrow> cpeer c3 = cpeer c2" "cpeer c1 \<noteq> None \<Longrightarrow> cpeer c2 = cpeer c1"
    "\<And>q. cpeer c1 = None \<Longrightarrow> cpeer c2 = Some q \<Longrightarrow> nextPeer d1 \<le> q" "\<And>q. cpeer c2 = None \<Longrightarrow> cpeer c3 = Some q \<Longrightarrow> nextPeer d2 \<le> q"
    using assms by (simp_all add: local_step_def)
  have p: "peer_id (peers d3 p) = peer_id (peers d1 p)" "cpeer c1 \<noteq> Some p \<Longrightarrow> peers d3 p = peers d1 p" if "p < nextPeer d1" for p
  proof -
    have "p < nextPeer d2" using that le by simp
    then show "peer_id (peers d3 p) = peer_id (peers d1 p)" using assms that unfolding local_step_def by metis
    assume n: "cpeer c1 \<noteq> Some p"
    then have "cpeer c2 \<noteq> Some p" using c(2,3) that by (metis leD)
    then show "peers d3 p = peers d1 p" using n assms that \<open>p < nextPeer d2\<close> unfolding local_step_def by metis
  qed
  have pr: "producers d3 p = producers d1 p" if "p < nextProducer d1" for p
    using assms that le unfolding local_step_def by (metis order_less_le_trans)
  have en: "entry d1 k (remoteAddr c1) = Some p \<or>
        nextProducer d1 \<le> p \<and> p < nextProducer d3 \<and> cpeer c3 = Some (peerInfo (producers d3 p))"
    if "entry d3 k (remoteAddr c1) = Some p" for k p
  proof -
    have "entry d2 k (remoteAddr c1) = Some p \<or>
        nextProducer d2 \<le> p \<and> p < nextProducer d3 \<and> cpeer c3 = Some (peerInfo (producers d3 p))"
      using assms(2) that a unfolding local_step_def by metis
    moreover have "entry d1 k (remoteAddr c1) = Some p \<or>
        nextProducer d1 \<le> p \<and> p < nextProducer d2 \<and> cpeer c2 = Some (peerInfo (producers d2 p))" if "entry d2 k (remoteAddr c1) = Some p"
      using assms(1) that unfolding local_step_def by metis
    moreover have "producers d3 p = producers d2 p" if "p < nextProducer d2" using assms(2) that unfolding local_step_def by metis
    ultimately show ?thesis using le c by (metis (no_types, lifting) le_trans option.simps(3) order_less_le_trans)
  qed
  have "own_peer c3 d3" "fin_db d3" "\<forall>k i. i \<noteq> remoteAddr c1 \<longrightarrow> entry d3 k i = entry d1 k i"
    using assms a unfolding local_step_def by metis+
  moreover have "nextPeer d1 \<le> q" if "cpeer c1 = None" "cpeer c3 = Some q" for q
    using that c le by (cases "cpeer c2") (auto dest: order_trans)
  ultimately show ?thesis unfolding local_step_def using a le c p pr en by auto
qed

lemma local_step_refl: "own_peer cl db \<Longrightarrow> fin_db db \<Longrightarrow> local_step cl db cl db"
  by (simp add: local_step_def)

lemma REGISTER_local:
  assumes "own_peer cl db" "fin_db db" "REGISTER cl params db = (r, db')"
  shows "local_step cl db cl db'"
proof (cases "cpeer cl")
  case (Some pi)
  note A = AddProducer_local [OF _ _ Some]
  show ?thesis
  proof (cases "getTopicChan ''REGISTER'' params")
    case (Inr tc)
    then obtain t c where tc: "getTopicChan ''REGISTER'' params = Inr (t, c)" by (cases tc) auto
    let ?d = "if c \<noteq> '''' then snd (AddProducer (reg ''channel'' t c) pi db) else db"
    have d: "local_step cl db cl ?d" using A [OF assms(1,2)] local_step_refl [OF assms(1,2)] by simp
    then have "local_step cl ?d cl (snd (AddProducer (reg ''topic'' t '''') pi ?d))"
      by (intro A) (simp_all only: local_step_def)
    with d have "local_step cl db cl (snd (AddProducer (reg ''topic'' t '''') pi ?d))" by (rule local_step_trans)
    then show ?thesis using assms(3) Some tc by (auto simp: REGISTER_def Let_def)
  qed (use assms Some local_step_refl in \<open>auto simp: REGISTER_def\<close>)
qed (use assms local_step_refl in \<open>auto simp: REGISTER_def\<close>)

lemma removeOrDrop_entry:
  assumes "fin_db db"
  shows "entry (removeOrDrop r pid name db) k i = (if k = r \<and> i = pid then None else entry db k i)"
    "producers (removeOrDrop r pid name db) = producers db" "nextProducer (removeOrDrop r pid name db) = nextProducer db"
    "peers (removeOrDrop r pid name db) = peers db" "nextPeer (removeOrDrop r pid name db) = nextPeer db"
    "fin_db (removeOrDrop r pid name db)"
proof -
  obtain rm n d where R: "RemoveProducer r pid db = ((rm, n), d)" by (metis prod.exhaust)
  have e: "entry d k i = (if k = r \<and> i = pid then None else entry db k i)" for k i using RemoveProducer_entry(1) [of r pid db] R by simp
  have "n = 0 \<Longrightarrow> entry d r i = None" using RemoveProducer_left [OF assms, where r = r and pid = pid and i = i] R by simp
  then have "entry (removeOrDrop r pid name db) k i = entry d k i" by (auto simp: removeOrDrop_def R)
  then show "entry (removeOrDrop r pid name db) k i = (if k = r \<and> i = pid then None else entry db k i)" using e by simp
  have "fin_db d" using RemoveProducer_entry(7) [OF assms, where r = r and pid = pid] R by simp
  then show "fin_db (removeOrDrop r pid name db)" by (simp add: removeOrDrop_def R)
  have "producers d = producers db" "nextProducer d = nextProducer db" "peers d = peers db" "nextPeer d = nextPeer db"
    using RemoveProducer_entry(2-5) [of r pid db] R by simp_all
  then show "producers (removeOrDrop r pid name db) = producers db" "nextProducer (removeOrDrop r pid name db) = nextProducer db"
    "peers (removeOrDrop r pid name db) = peers db" "nextPeer (removeOrDrop r pid name db) = nextPeer db"
    by (simp_all add: removeOrDrop_def R)
qed

lemma UNREGISTER_local:
  assumes "own_peer cl db" "fin_db db" "UNREGISTER ord cl params db = (r, db')"
  shows "local_step cl db cl db'"
proof (cases "cpeer cl")
  case (Some pi)
  then have pid: "peer_id (peers db pi) = remoteAddr cl" using assms(1) by (simp add: own_peer_def)
  have rem: "local_step cl d cl (removeOrDrop k (remoteAddr cl) name d)" if "own_peer cl d" "fin_db d" for k d name
    using that unfolding local_step_def own_peer_def by (auto simp: removeOrDrop_entry)
  have all: "local_step cl db cl (removeProducers (remoteAddr cl) rs db)" for rs
    using assms(1,2) unfolding local_step_def own_peer_def by (auto simp: removeProducers_entry)
  then have both: "local_step cl db cl (removeOrDrop k (remoteAddr cl) name (removeProducers (remoteAddr cl) rs db))" for k name rs
    by (rule local_step_trans) (rule rem; use all in \<open>simp add: local_step_def\<close>)
  show ?thesis
    using assms(3) Some both rem [OF assms(1,2)] local_step_refl [OF assms(1,2)]
    by (auto simp: UNREGISTER_def Let_def pid split: if_splits sum.splits prod.splits)
qed (use assms local_step_refl in \<open>auto simp: UNREGISTER_def\<close>)

text \<open>What the code relies on: decoding JSON into a struct leaves its unexported fields alone.\<close>

definition keeps_id :: "lookup_env \<Rightarrow> bool" where
  "keeps_id env \<longleftrightarrow> (\<forall>b f p. unmarshal env b = Some f \<longrightarrow> peer_id (f p) = peer_id p)"

lemma identified_local:
  assumes "cpeer cl = None" "fin_db db" "peer_id p = remoteAddr cl" "identified now p cl db = (cl', db')"
  shows "local_step cl db cl' db'"
proof -
  let ?d = "db\<lparr>nextPeer := Suc (nextPeer db), peers := (peers db)(nextPeer db := p\<lparr>lastUpdate := now\<rparr>)\<rparr>"
  have eq: "cl' = cl\<lparr>cpeer := Some (nextPeer db)\<rparr>" "db' = snd (AddProducer (reg ''client'' '''' '''') (nextPeer db) ?d)"
    using assms(4) by (simp_all add: identified_def Let_def)
  have "entry ?d k i = entry db k i" for k i by (simp add: entry_def)
  then have d: "local_step cl db cl' ?d" using assms(1-3) eq(1) by (auto simp: local_step_def own_peer_def fin_db_def)
  have "local_step cl' ?d cl' db'" unfolding eq(2)
    by (rule AddProducer_local) (use d eq(1) in \<open>simp_all add: local_step_def\<close>)
  with d show ?thesis by (rule local_step_trans)
qed

lemma IDENTIFY_local:
  assumes "own_peer cl db" "fin_db db" "IDENTIFY env now cl inp db = (r, cl', inp', db')" "keeps_id env"
  shows "local_step cl db cl' db'"
  using assms(3,4) local_step_refl [OF assms(1,2)]
  by (auto intro: identified_local [rotated 3, OF _ _ assms(2)] simp: IDENTIFY_def Let_def keeps_id_def split: if_splits option.splits sum.splits prod.splits)

lemma Exec_local:
  assumes "own_peer cl db" "fin_db db" "Exec env ord now cl inp params db = (r, cl', inp', db')" "keeps_id env"
  shows "local_step cl db cl' db'"
  using assms(3) PING_local [OF assms(1,2)] IDENTIFY_local [OF assms(1,2) _ assms(4)] REGISTER_local [OF assms(1,2)]
    UNREGISTER_local [OF assms(1,2)] local_step_refl [OF assms(1,2)]
  by (auto simp: Exec_def split: if_splits prod.splits)

text \<open>A whole session of a client, ending with the removal of its entries.\<close>

lemma commandLoop_local:
  assumes "keeps_id env" "own_peer cl db" "fin_db db" "cpeer cl = None \<Longrightarrow> \<forall>k. entry db k (remoteAddr cl) = None"
    and "commandLoop env ord clock write n cl inp w db = Some (cl', w', db')"
  shows "local_step cl db cl' db' \<and> (cpeer cl' = None \<longrightarrow> (\<forall>k. entry db' k (remoteAddr cl) = None))"
  using assms(2-5)
proof (induction "length inp" arbitrary: n cl inp w db rule: less_induct)
  case less
  show ?case
  proof (cases "ReadString inp")
    case None
    then show ?thesis using less.prems local_step_refl by (simp add: commandLoop.simps)
  next
    case (Some lr)
    then obtain line rest where lr: "ReadString inp = Some (line, rest)" by (cases lr) auto
    obtain r c1 i1 d1 where E: "Exec env (ord db) (clock n) cl rest (map str_of (splitSpace (TrimSpace line))) db = (r, c1, i1, d1)"
      by (metis prod.exhaust)
    have L: "local_step cl db c1 d1" by (rule Exec_local [OF less.prems(1,2) E assms(1)])
    have N: "\<forall>k. entry d1 k (remoteAddr cl) = None" if "cpeer c1 = None"
    proof -
      have "cpeer cl = None" using that L unfolding local_step_def by metis
      then show ?thesis using that L less.prems(3) unfolding local_step_def by (metis option.exhaust option.simps(3))
    qed
    have o: "own_peer c1 d1" "fin_db d1" "remoteAddr c1 = remoteAddr cl" using L by (simp_all add: local_step_def)
    have len: "length i1 < length inp" using Exec_input [OF E] ReadString_length [OF lr] by simp
    show ?thesis
    proof (cases r)
      case (Response x)
      obtain n' err w1 where S: "SendResponse write (bytes_of x) w = (n', err, w1)" by (metis prod.exhaust)
      show ?thesis
      proof (cases err)
        case None
        then have "commandLoop env ord clock write (Suc n) c1 i1 w1 d1 = Some (cl', w', db')"
          using less.prems(4) lr E S Response by (simp add: commandLoop.simps [of _ _ _ _ _ _ inp])
        from less.hyps [OF len o(1,2) _ this] N o(3) have "local_step c1 d1 cl' db' \<and> (cpeer cl' = None \<longrightarrow> (\<forall>k. entry db' k (remoteAddr cl) = None))"
          by simp
        then show ?thesis using local_step_trans [OF L] by blast
      next
        case (Some e)
        then show ?thesis using less.prems(4) lr E S Response L N by (simp add: commandLoop.simps [of _ _ _ _ _ _ inp])
      qed
    qed (use less.prems(4) lr E L N in \<open>auto simp: commandLoop.simps [of _ _ _ _ _ _ inp] split: prod.splits\<close>)
  qed
qed

lemma LookupRegistrations_set:
  "order_ok db ord \<Longrightarrow> set (LookupRegistrations ord pid db) = {k. entry db k pid \<noteq> None}"
  by (auto simp: order_ok_def LookupRegistrations_def entry_def split: option.splits)

lemma closeClient_entry:
  assumes "own_peer cl db" "order_ok db ord" "cpeer cl = None \<Longrightarrow> \<forall>k. entry db k (remoteAddr cl) = None"
  shows "entry (closeClient ord cl db) k i = (if i = remoteAddr cl then None else entry db k i)"
  using assms LookupRegistrations_set [OF assms(2)]
  by (cases "cpeer cl") (auto simp: closeClient_def own_peer_def Let_def removeProducers_entry)

text \<open>
  C22. Whatever a client sends, in whatever pieces the iteration takes the maps, once its connection has
  ended the database holds no registration of it, and the registrations of all other clients are as they
  were before.
\<close>

theorem disconnect_cleans:
  assumes "keeps_id env" "fin_db db" "\<forall>k. entry db k addr = None" "\<forall>d. fin_db d \<longrightarrow> order_ok d (ord d)"
    and "IOLoop env ord clock write addr inp w db = Some (w', db')"
  shows "entry db' k i = (if i = addr then None else entry db k i)"
proof -
  let ?cl = "\<lparr>remoteAddr = addr, cpeer = None\<rparr>"
  obtain cl' db1 where c: "commandLoop env ord clock write 0 ?cl inp w db = Some (cl', w', db1)" "db' = closeClient (ord db1) cl' db1"
    using assms(5) by (auto simp: IOLoop_def split: option.splits)
  have "own_peer ?cl db" by (simp add: own_peer_def)
  from commandLoop_local [OF assms(1) this assms(2) _ c(1)] assms(3)
  have L: "local_step ?cl db cl' db1" "cpeer cl' = None \<longrightarrow> (\<forall>k. entry db1 k addr = None)" by simp_all
  then have o: "own_peer cl' db1" "order_ok db1 (ord db1)" "remoteAddr cl' = addr" using assms(4) by (simp_all add: local_step_def)
  then have "entry db' k i = (if i = addr then None else entry db1 k i)"
    using closeClient_entry [OF o(1,2), of k i] L(2) c(2) by simp
  then show ?thesis using L(1) by (simp add: local_step_def)
qed

lemma order_exists:
  assumes "fin_db db"
  shows "\<exists>ord. order_ok db ord"
proof -
  have f: "finite (dom (registrationMap db))" "\<And>k m. registrationMap db k = Some m \<Longrightarrow> finite (dom m)"
    using assms by (simp_all add: fin_db_def)
  obtain ks where ks: "set ks = dom (registrationMap db)" "distinct ks" using finite_distinct_list [OF f(1)] by blast
  define l where "l k = (SOME l. set l = dom (the (registrationMap db k)) \<and> distinct l)" for k
  have "set (l k) = dom m \<and> distinct (l k)" if "registrationMap db k = Some m" for k m
    using someI_ex [OF finite_distinct_list [OF f(2) [OF that]]] that by (simp add: l_def)
  with ks have "order_ok db \<lparr>reg_order = ks, id_order = l\<rparr>" by (simp add: order_ok_def)
  then show ?thesis by blast
qed

definition some_order :: "NSQLookupd \<Rightarrow> iter_order" where
  "some_order db = (SOME ord. order_ok db ord)"

lemma some_order_ok: "fin_db db \<Longrightarrow> order_ok db (some_order db)"
  unfolding some_order_def by (rule someI_ex) (rule order_exists)

text \<open>An environment whose JSON decoder fills in the required fields.\<close>

definition ex_env :: lookup_env where
  "ex_env = \<lparr>unmarshal = (\<lambda>b. if b = [] then None else Some (\<lambda>p. p\<lparr>BroadcastAddress := ''host'', TCPPort := 4150, HTTPPort := 4151, Version := ''1''\<rparr>)),
     marshal = (\<lambda>_ _ _ _. Some ''{}''), RealTCPPort = 4160, RealHTTPPort = 4161, optBroadcastAddress = ''b'', os_Hostname = Some ''h''\<rparr>"

lemma ex_env_ok: "keeps_id ex_env"
  by (auto simp: keeps_id_def ex_env_def split: if_splits)

lemma NewRegistrationDB_ok: "fin_db NewRegistrationDB" "entry NewRegistrationDB k i = None"
  by (simp_all add: NewRegistrationDB_def fin_db_def entry_def)

text \<open>A session that identifies itself, registers a channel and goes away.\<close>

definition ex_input :: "byte list" where
  "ex_input = bytes_of ''IDENTIFY'' @ [10] @ [0, 0, 0, 1, 7] @ bytes_of ''REGISTER t c'' @ [13, 10]"

lemma ex_input_lines:
  "ReadString ex_input = Some (bytes_of ''IDENTIFY'' @ [10], 0 # 0 # 0 # 1 # 7 # bytes_of ''REGISTER t c'' @ [13, 10])"
  "readBody (0 # 0 # 0 # 1 # 7 # bytes_of ''REGISTER t c'' @ [13, 10]) = Inr ([7], bytes_of ''REGISTER t c'' @ [13, 10])"
  "ReadString (bytes_of ''REGISTER t c'' @ [13, 10]) = Some (bytes_of ''REGISTER t c'' @ [13, 10], [])"
  "map str_of (splitSpace (TrimSpace (bytes_of ''IDENTIFY'' @ [10]))) = [''IDENTIFY'']"
  "map str_of (splitSpace (TrimSpace (bytes_of ''REGISTER t c'' @ [13, 10]))) = [''REGISTER'', ''t'', ''c'']"
  "getTopicChan ''REGISTER'' [''t'', ''c''] = Inr (''t'', ''c'')" "ReadString [] = None"
  by code_simp+

lemma ex_session: "\<exists>w' db'. IOLoop ex_env some_order (\<lambda>n. 0) buffer_Write ''1.2.3.4:5'' ex_input [] NewRegistrationDB = Some (w', db')"
  apply (simp add: IOLoop_def commandLoop.simps [of _ _ _ _ _ _ ex_input] ex_input_lines Exec_def IDENTIFY_def Let_def split_beta
    SendResponse_def buffer_Write_def ex_env_def identifyResponse_def identified_def)
  apply (simp add: commandLoop.simps ex_input_lines Exec_def REGISTER_def Let_def split_beta buffer_Write_def SendResponse_def)
  done

theorem disconnect_cleans_witness:
  "\<exists>w' db'. IOLoop ex_env some_order (\<lambda>n. 0) buffer_Write ''1.2.3.4:5'' ex_input [] NewRegistrationDB = Some (w', db') \<and>
     entry db' (reg ''topic'' ''t'' '''') ''1.2.3.4:5'' = None"
proof -
  obtain w' db' where *: "IOLoop ex_env some_order (\<lambda>n. 0) buffer_Write ''1.2.3.4:5'' ex_input [] NewRegistrationDB = Some (w', db')"
    using ex_session by blast
  have "entry db' (reg ''topic'' ''t'' '''') ''1.2.3.4:5'' = None"
    using disconnect_cleans [OF ex_env_ok NewRegistrationDB_ok(1) _ _ *] some_order_ok NewRegistrationDB_ok(2) by simp
  with * show ?thesis by blast
qed

section \<open>Finding producers\<close>

lemma collect_spec:
  assumes "distinct (map (pid_of db) ret)" "set seen = pid_of db ` set ret" "collect db ps (seen, ret) = (seen', ret')"
  shows "distinct (map (pid_of db) ret') \<and> set seen' = pid_of db ` set ret' \<and> set ret \<subseteq> set ret' \<and> set ret' \<subseteq> set ret \<union> set ps \<and>
    pid_of db ` set ret' = pid_of db ` (set ret \<union> set ps)"
  using assms
proof (induction ps arbitrary: seen ret)
  case (Cons p ps)
  show ?case
  proof (cases "pid_of db p \<in> set seen")
    case True
    then have "distinct (map (pid_of db) ret') \<and> set seen' = pid_of db ` set ret' \<and> set ret \<subseteq> set ret' \<and> set ret' \<subseteq> set ret \<union> set ps \<and>
      pid_of db ` set ret' = pid_of db ` (set ret \<union> set ps)" using Cons by (simp add: Let_def)
    moreover have "pid_of db p \<in> pid_of db ` set ret" using True Cons.prems(2) by simp
    ultimately show ?thesis by auto
  next
    case False
    then have "distinct (map (pid_of db) ret') \<and> set seen' = pid_of db ` set ret' \<and> set (ret @ [p]) \<subseteq> set ret' \<and> set ret' \<subseteq> set (ret @ [p]) \<union> set ps \<and>
      pid_of db ` set ret' = pid_of db ` (set (ret @ [p]) \<union> set ps)"
      using Cons.IH [of "ret @ [p]" "pid_of db p # seen"] Cons.prems by (simp add: Let_def)
    then show ?thesis by auto
  qed
qed simp

definition found :: "NSQLookupd \<Rightarrow> Registration set \<Rightarrow> addr set" where
  "found db K = {p. \<exists>k \<in> K. \<exists>i. entry db k i = Some p}"

lemma slice_found:
  assumes "order_ok db ord"
  shows "set (ProducerMap2Slice (id_order ord k) (registrationMap db k)) = found db {k}"
proof (cases "registrationMap db k")
  case (Some ps)
  then have "set (id_order ord k) = dom ps" using assms by (simp add: order_ok_def)
  then show ?thesis using Some by (force simp: ProducerMap2Slice_def found_def entry_def)
qed (simp add: ProducerMap2Slice_def found_def entry_def)

lemma fold_collect_spec:
  assumes "order_ok db ord" "distinct (map (pid_of db) ret)" "set seen = pid_of db ` set ret"
    and "fold (\<lambda>k. if P k then collect db (ProducerMap2Slice (id_order ord k) (registrationMap db k)) else (\<lambda>x. x)) ks (seen, ret) = (seen', ret')"
  shows "distinct (map (pid_of db) ret') \<and> set ret' \<subseteq> set ret \<union> found db {k \<in> set ks. P k} \<and>
    pid_of db ` set ret' = pid_of db ` (set ret \<union> found db {k \<in> set ks. P k})"
  using assms(2-4)
proof (induction ks arbitrary: seen ret)
  case (Cons k ks)
  show ?case
  proof (cases "P k")
    case True
    obtain s1 r1 where c: "collect db (ProducerMap2Slice (id_order ord k) (registrationMap db k)) (seen, ret) = (s1, r1)" by fastforce
    note 1 = collect_spec [OF Cons.prems(1,2) c, unfolded slice_found [OF assms(1)]]
    then have 2: "distinct (map (pid_of db) ret') \<and> set ret' \<subseteq> set r1 \<union> found db {k \<in> set ks. P k} \<and>
        pid_of db ` set ret' = pid_of db ` (set r1 \<union> found db {k \<in> set ks. P k})"
      using Cons.IH [of r1 s1] Cons.prems(3) True c by simp
    have eq: "found db {j \<in> set (k # ks). P j} = found db {k} \<union> found db {k \<in> set ks. P k}" using True by (auto simp: found_def)
    show ?thesis unfolding eq using 1 2 by (simp add: image_Un) blast
  next
    case False
    then have "{j \<in> set (k # ks). P j} = {k \<in> set ks. P k}" by auto
    then show ?thesis using Cons False by simp
  qed
qed (simp add: found_def)

text \<open>Entries are kept under the id of their peer.\<close>

definition ids_ok :: "NSQLookupd \<Rightarrow> bool" where
  "ids_ok db \<longleftrightarrow> (\<forall>k i p. entry db k i = Some p \<longrightarrow> pid_of db p = i)"

text \<open>
  Looking for producers returns each peer at most once, and exactly the peers that are registered under
  a matching key, where \<open>*\<close> matches every key or subkey.
\<close>

lemma FindProducers_spec:
  assumes "order_ok db ord" "ids_ok db"
  shows "distinct (map (pid_of db) (FindProducers ord category key subkey db)) \<and>
    set (FindProducers ord category key subkey db) \<subseteq> found db {k. IsMatch category key subkey k} \<and>
    pid_of db ` set (FindProducers ord category key subkey db) = {i. \<exists>k. IsMatch category key subkey k \<and> entry db k i \<noteq> None}"
proof -
  have img: "pid_of db ` found db {k. IsMatch category key subkey k} = {i. \<exists>k. IsMatch category key subkey k \<and> entry db k i \<noteq> None}"
    using assms(2) by (force simp: ids_ok_def found_def image_iff)
  show ?thesis
  proof (cases "needFilter key subkey")
    case False
    let ?k = "reg category key subkey"
    have m: "{k. IsMatch category key subkey k} = {?k}" using False by (auto simp: IsMatch_def needFilter_def reg_def)
    have "distinct (map (pid_of db) (ProducerMap2Slice (id_order ord ?k) (registrationMap db ?k)))"
    proof (cases "registrationMap db ?k")
      case (Some ps)
      then have o: "distinct (id_order ord ?k)" "set (id_order ord ?k) = dom ps" using assms(1) by (simp_all add: order_ok_def)
      have "pid_of db (the (ps i)) = i" if "i \<in> dom ps" for i
      proof -
        have "entry db ?k i = Some (the (ps i))" using Some that by (auto simp: entry_def)
        then show ?thesis using assms(2) unfolding ids_ok_def by blast
      qed
      then have "map (\<lambda>i. pid_of db (the (ps i))) (id_order ord ?k) = id_order ord ?k" using o by (intro map_idI) simp
      then show ?thesis using o Some by (simp add: ProducerMap2Slice_def comp_def)
    qed (simp add: ProducerMap2Slice_def)
    then show ?thesis using False slice_found [OF assms(1), of ?k] img unfolding m by (simp add: FindProducers_def Let_def)
  next
    case True
    have d: "found db {k \<in> set (reg_order ord). IsMatch category key subkey k} = found db {k. IsMatch category key subkey k}"
      using assms(1) by (auto simp: found_def order_ok_def entry_def domI split: bind_splits)
    obtain s r where f: "fold (\<lambda>k. if IsMatch category key subkey k then collect db (ProducerMap2Slice (id_order ord k) (registrationMap db k)) else (\<lambda>x. x))
        (reg_order ord) ([], []) = (s, r)" by fastforce
    show ?thesis using fold_collect_spec [OF assms(1) _ _ f] True img unfolding d by (simp add: FindProducers_def f)
  qed
qed

section \<open>Many clients\<close>

text \<open>
  The server with its connections. A connection is open, or closing with the registrations that it has
  still to remove, one at a time, while others go on. Addresses of connections are different.
\<close>

datatype conn = Open ClientV1 | Closing ClientV1 "Registration list"

fun conn_client :: "conn \<Rightarrow> ClientV1" where
  "conn_client (Open cl) = cl"
| "conn_client (Closing cl rs) = cl"

fun pending :: "Registration \<Rightarrow> conn \<Rightarrow> bool" where
  "pending k (Open cl) = True"
| "pending k (Closing cl rs) = (k \<in> set rs)"

record lookup_sys =
  sdb :: NSQLookupd
  conns :: "nat \<Rightarrow> conn option"

inductive lk_step :: "lookup_env \<Rightarrow> lookup_sys \<Rightarrow> lookup_sys \<Rightarrow> bool" for env where
  connect: "conns s c = None \<Longrightarrow> (\<And>c' x. conns s c' = Some x \<Longrightarrow> remoteAddr (conn_client x) \<noteq> a) \<Longrightarrow>
    lk_step env s (s\<lparr>conns := (conns s)(c \<mapsto> Open \<lparr>remoteAddr = a, cpeer = None\<rparr>)\<rparr>)"
| exec: "conns s c = Some (Open cl) \<Longrightarrow> Exec env ord now cl inp params (sdb s) = (r, cl', inp', db') \<Longrightarrow>
    lk_step env s (s\<lparr>sdb := db', conns := (conns s)(c \<mapsto> Open cl')\<rparr>)"
| close: "conns s c = Some (Open cl) \<Longrightarrow> cpeer cl = Some pi \<Longrightarrow> order_ok (sdb s) ord \<Longrightarrow>
    lk_step env s (s\<lparr>conns := (conns s)(c \<mapsto> Closing cl (LookupRegistrations ord (peer_id (peers (sdb s) pi)) (sdb s)))\<rparr>)"
| close_new: "conns s c = Some (Open cl) \<Longrightarrow> cpeer cl = None \<Longrightarrow> lk_step env s (s\<lparr>conns := (conns s)(c := None)\<rparr>)"
| remove: "conns s c = Some (Closing cl (r # rs)) \<Longrightarrow> cpeer cl = Some pi \<Longrightarrow>
    lk_step env s (s\<lparr>sdb := snd (RemoveProducer r (peer_id (peers (sdb s) pi)) (sdb s)), conns := (conns s)(c \<mapsto> Closing cl rs)\<rparr>)"
| closed: "conns s c = Some (Closing cl []) \<Longrightarrow> lk_step env s (s\<lparr>conns := (conns s)(c := None)\<rparr>)"
| create_topic: "lk_step env s (s\<lparr>sdb := snd (doCreateTopic req (sdb s))\<rparr>)"
| create_channel: "lk_step env s (s\<lparr>sdb := snd (doCreateChannel req (sdb s))\<rparr>)"
| delete_topic: "lk_step env s (s\<lparr>sdb := snd (doDeleteTopic ord ord' req (sdb s))\<rparr>)"
| delete_channel: "lk_step env s (s\<lparr>sdb := snd (doDeleteChannel ord req (sdb s))\<rparr>)"
| tombstone: "lk_step env s (s\<lparr>sdb := snd (doTombstoneTopicProducer ord now req (sdb s))\<rparr>)"

definition lk_reach :: "lookup_env \<Rightarrow> lookup_sys \<Rightarrow> bool" where
  "lk_reach env s \<longleftrightarrow> (lk_step env)\<^sup>*\<^sup>* \<lparr>sdb = NewRegistrationDB, conns = Map.empty\<rparr> s"

definition lk_inv :: "lookup_sys \<Rightarrow> bool" where
  "lk_inv s \<longleftrightarrow> fin_db (sdb s) \<and>
     (\<forall>c x. conns s c = Some x \<longrightarrow> own_peer (conn_client x) (sdb s)) \<and>
     (\<forall>c c' x x'. conns s c = Some x \<longrightarrow> conns s c' = Some x' \<longrightarrow> remoteAddr (conn_client x) = remoteAddr (conn_client x') \<longrightarrow> c = c') \<and>
     (\<forall>c cl rs. conns s c = Some (Closing cl rs) \<longrightarrow> cpeer cl \<noteq> None) \<and>
     (\<forall>k i p. entry (sdb s) k i = Some p \<longrightarrow> p < nextProducer (sdb s) \<and>
        (\<exists>c x. conns s c = Some x \<and> remoteAddr (conn_client x) = i \<and> cpeer (conn_client x) = Some (peerInfo (producers (sdb s) p)) \<and> pending k x))"

lemma lk_invD:
  assumes "lk_inv s"
  shows "fin_db (sdb s)" "conns s c = Some x \<Longrightarrow> own_peer (conn_client x) (sdb s)"
    "conns s c = Some x \<Longrightarrow> conns s c' = Some x' \<Longrightarrow> remoteAddr (conn_client x) = remoteAddr (conn_client x') \<Longrightarrow> c = c'"
    "conns s c = Some (Closing cl rs) \<Longrightarrow> cpeer cl \<noteq> None"
    "entry (sdb s) k i = Some p \<Longrightarrow> p < nextProducer (sdb s)"
    "entry (sdb s) k i = Some p \<Longrightarrow>
       \<exists>c x. conns s c = Some x \<and> remoteAddr (conn_client x) = i \<and> cpeer (conn_client x) = Some (peerInfo (producers (sdb s) p)) \<and> pending k x"
  using assms unfolding lk_inv_def by metis+

lemma lk_invI:
  assumes "fin_db db" "\<And>c x. cs c = Some x \<Longrightarrow> own_peer (conn_client x) db"
    "\<And>c c' x x'. cs c = Some x \<Longrightarrow> cs c' = Some x' \<Longrightarrow> remoteAddr (conn_client x) = remoteAddr (conn_client x') \<Longrightarrow> c = c'"
    "\<And>c cl rs. cs c = Some (Closing cl rs) \<Longrightarrow> cpeer cl \<noteq> None"
    "\<And>k i p. entry db k i = Some p \<Longrightarrow> p < nextProducer db"
    "\<And>k i p. entry db k i = Some p \<Longrightarrow>
       \<exists>c x. cs c = Some x \<and> remoteAddr (conn_client x) = i \<and> cpeer (conn_client x) = Some (peerInfo (producers db p)) \<and> pending k x"
  shows "lk_inv (s\<lparr>sdb := db, conns := cs\<rparr>)"
proof -
  have eq: "sdb (s\<lparr>sdb := db, conns := cs\<rparr>) = db" "conns (s\<lparr>sdb := db, conns := cs\<rparr>) = cs" by simp_all
  show ?thesis unfolding lk_inv_def eq
    by (intro conjI allI impI, rule assms(1), erule assms(2), erule (2) assms(3), erule assms(4), erule assms(5), erule assms(6))
qed

text \<open>The HTTP handlers only add empty registrations, drop registrations and set tombstones.\<close>

definition shrinks :: "NSQLookupd \<Rightarrow> NSQLookupd \<Rightarrow> bool" where
  "shrinks db db' \<longleftrightarrow> fin_db db' \<and> nextProducer db' = nextProducer db \<and> peers db' = peers db \<and> nextPeer db' = nextPeer db \<and>
     (\<forall>p. peerInfo (producers db' p) = peerInfo (producers db p)) \<and> (\<forall>k i p. entry db' k i = Some p \<longrightarrow> entry db k i = Some p)"

lemma shrinks_inv: "lk_inv s \<Longrightarrow> shrinks (sdb s) db' \<Longrightarrow> lk_inv (s\<lparr>sdb := db'\<rparr>)"
  unfolding lk_inv_def shrinks_def own_peer_def by simp blast

lemma Tombstone_shrinks: "shrinks db d \<Longrightarrow> shrinks db (Tombstone now p d)"
  by (simp add: shrinks_def Tombstone_def fin_db_def entry_def)

lemma tombstones_shrink:
  "shrinks db d \<Longrightarrow> shrinks db (fold (\<lambda>p d. (let pi = peers d (peerInfo (producers d p)) in
      if BroadcastAddress pi @ '':'' @ show_int (HTTPPort pi) = node then Tombstone now p d else d)) ps d)"
  by (induction ps arbitrary: d) (simp_all add: Let_def Tombstone_shrinks)

lemma http_shrinks:
  assumes "fin_db db"
  shows "shrinks db (snd (doCreateTopic req db))" "shrinks db (snd (doCreateChannel req db))"
    "shrinks db (snd (doDeleteTopic ord ord' req db))" "shrinks db (snd (doDeleteChannel ord req db))"
    "shrinks db (snd (doTombstoneTopicProducer ord now req db))"
proof -
  have r: "shrinks db db" using assms by (simp add: shrinks_def)
  show "shrinks db (snd (doCreateTopic req db))"
    using assms by (auto simp: doCreateTopic_def shrinks_def split: sum.splits)
  show "shrinks db (snd (doCreateChannel req db))"
    using assms by (auto simp: doCreateChannel_def shrinks_def split: sum.splits option.splits)
  show "shrinks db (snd (doDeleteTopic ord ord' req db))"
    using assms by (auto simp: doDeleteTopic_def shrinks_def Let_def fold_RemoveRegistration_entry split: sum.splits if_splits)
  show "shrinks db (snd (doDeleteChannel ord req db))"
    using assms by (auto simp: doDeleteChannel_def shrinks_def Let_def fold_RemoveRegistration_entry split: sum.splits if_splits option.splits)
  show "shrinks db (snd (doTombstoneTopicProducer ord now req db))"
    using r tombstones_shrink [OF r] by (auto simp: doTombstoneTopicProducer_def split: sum.splits option.splits)
qed

lemma exec_inv:
  assumes I: "lk_inv s" and c: "conns s c = Some (Open cl)" and L: "local_step cl (sdb s) cl' db'"
  shows "lk_inv (s\<lparr>sdb := db', conns := (conns s)(c \<mapsto> Open cl')\<rparr>)"
proof -
  let ?cs = "(conns s)(c \<mapsto> Open cl')"
  have a: "remoteAddr cl' = remoteAddr cl" and o: "own_peer cl' db'" "fin_db db'"
    and le: "nextProducer (sdb s) \<le> nextProducer db'" "nextPeer (sdb s) \<le> nextPeer db'" using L by (simp_all add: local_step_def)
  have pid: "peer_id (peers db' p) = peer_id (peers (sdb s) p)" if "p < nextPeer (sdb s)" for p
    using L that unfolding local_step_def by blast
  have own: "own_peer (conn_client x) db'" if "?cs c' = Some x" for c' x
  proof (cases "c' = c")
    case False
    then have "own_peer (conn_client x) (sdb s)" using that lk_invD(2) [OF I] by simp
    then show ?thesis using le(2) pid unfolding own_peer_def by (metis order_less_le_trans)
  qed (use that o in auto)
  have dist: "c1 = c2" if "?cs c1 = Some x1" "?cs c2 = Some x2" "remoteAddr (conn_client x1) = remoteAddr (conn_client x2)" for c1 c2 x1 x2
    using that c a lk_invD(3) [OF I] by (metis (no_types, lifting) conn_client.simps(1) fun_upd_apply option.inject)
  have clo: "cpeer cl1 \<noteq> None" if "?cs c1 = Some (Closing cl1 rs)" for c1 cl1 rs
    using that lk_invD(4) [OF I] by (metis conn.distinct(1) fun_upd_apply option.inject)
  have ent: "p < nextProducer db' \<and> (\<exists>c x. ?cs c = Some x \<and> remoteAddr (conn_client x) = i \<and>
      cpeer (conn_client x) = Some (peerInfo (producers db' p)) \<and> pending k x)" if e: "entry db' k i = Some p" for k i p
  proof (cases "entry (sdb s) k i = Some p")
    case True
    then have p: "p < nextProducer (sdb s)" "producers db' p = producers (sdb s) p"
      using lk_invD(5) [OF I True] L unfolding local_step_def by blast+
    obtain c1 x where x: "conns s c1 = Some x" "remoteAddr (conn_client x) = i" "cpeer (conn_client x) = Some (peerInfo (producers (sdb s) p))" "pending k x"
      using lk_invD(6) [OF I True] by blast
    have "c1 = c \<Longrightarrow> cpeer cl' = Some (peerInfo (producers (sdb s) p))" using x c L unfolding local_step_def by auto
    then show ?thesis using x c p a le by (cases "c1 = c") (auto intro: exI [of _ c1])
  next
    case False
    then have i: "i = remoteAddr cl" using L e unfolding local_step_def by metis
    then have "p < nextProducer db'" "cpeer cl' = Some (peerInfo (producers db' p))" using False L e unfolding local_step_def by metis+
    then show ?thesis using i a by (auto intro!: exI [of _ c])
  qed
  show ?thesis by (rule lk_invI) (use o(2) own dist clo ent in blast)+
qed

lemma entry_conn:
  assumes I: "lk_inv s" and c: "conns s c = Some x" and e: "entry (sdb s) k (remoteAddr (conn_client x)) = Some p"
  shows "cpeer (conn_client x) = Some (peerInfo (producers (sdb s) p))" "pending k x"
proof -
  obtain c1 x1 where x1: "conns s c1 = Some x1" "remoteAddr (conn_client x1) = remoteAddr (conn_client x)"
    "cpeer (conn_client x1) = Some (peerInfo (producers (sdb s) p))" "pending k x1" using lk_invD(6) [OF I e] by blast
  then have "x1 = x" using lk_invD(3) [OF I x1(1) c x1(2)] c by simp
  with x1 show "cpeer (conn_client x) = Some (peerInfo (producers (sdb s) p))" "pending k x" by simp_all
qed

lemma conn_change_inv:
  assumes I: "lk_inv s" and c: "conns s c = Some x" and sh: "shrinks (sdb s) db'"
    and new: "\<And>y. x' = Some y \<Longrightarrow> conn_client y = conn_client x \<and> (\<forall>cl rs. y = Closing cl rs \<longrightarrow> cpeer cl \<noteq> None)"
    and pend: "\<And>k p. entry db' k (remoteAddr (conn_client x)) = Some p \<Longrightarrow> \<exists>y. x' = Some y \<and> pending k y"
  shows "lk_inv (s\<lparr>sdb := db', conns := (conns s)(c := x')\<rparr>)"
proof -
  let ?cs = "(conns s)(c := x')"
  have I': "lk_inv (s\<lparr>sdb := db'\<rparr>)" by (rule shrinks_inv [OF I sh])
  have cs: "\<exists>z. conns s c1 = Some z \<and> conn_client z = conn_client y" if "?cs c1 = Some y" for c1 y
    using that c new by (cases "c1 = c") auto
  have own: "own_peer (conn_client y) db'" if "?cs c1 = Some y" for c1 y
  proof -
    have "own_peer (conn_client z) db'" if "conns s c1 = Some z" for z using lk_invD(2) [OF I'] that by simp
    then show ?thesis using cs [OF that] by metis
  qed
  have dist: "c1 = c2" if "?cs c1 = Some y1" "?cs c2 = Some y2" "remoteAddr (conn_client y1) = remoteAddr (conn_client y2)" for c1 c2 y1 y2
    using cs [OF that(1)] cs [OF that(2)] that(3) lk_invD(3) [OF I] by metis
  have clo: "cpeer cl1 \<noteq> None" if "?cs c1 = Some (Closing cl1 rs)" for c1 cl1 rs
    using that new lk_invD(4) [OF I] by (metis fun_upd_apply)
  have ent: "\<exists>c x. ?cs c = Some x \<and> remoteAddr (conn_client x) = i \<and> cpeer (conn_client x) = Some (peerInfo (producers db' p)) \<and> pending k x"
    if e: "entry db' k i = Some p" for k i p
  proof -
    from lk_invD(6) [OF I', of k i p] e obtain c1 x1 where x1: "conns s c1 = Some x1" "remoteAddr (conn_client x1) = i"
      "cpeer (conn_client x1) = Some (peerInfo (producers db' p))" "pending k x1" by auto
    show ?thesis
    proof (cases "c1 = c")
      case True
      then obtain y where y: "x' = Some y" "pending k y" using pend e x1 c by fastforce
      then show ?thesis using new [OF y(1)] x1 c True by (intro exI [of _ c] exI [of _ y]) auto
    qed (use x1 in \<open>auto intro!: exI [of _ c1]\<close>)
  qed
  have "fin_db db'" using sh by (simp add: shrinks_def)
  moreover have "p < nextProducer db'" if "entry db' k i = Some p" for k i p using lk_invD(5) [OF I'] that by simp
  ultimately show ?thesis by (intro lk_invI) (use own dist clo ent in blast)+
qed

lemma lk_step_inv:
  assumes "lk_step env s s'" "keeps_id env" "lk_inv s"
  shows "lk_inv s'"
  using assms(1)
proof cases
  case (connect c a)
  have "own_peer \<lparr>remoteAddr = a, cpeer = None\<rparr> (sdb s)" by (simp add: own_peer_def)
  moreover have "\<exists>c' x. ((conns s)(c \<mapsto> Open \<lparr>remoteAddr = a, cpeer = None\<rparr>)) c' = Some x \<and> remoteAddr (conn_client x) = i \<and>
      cpeer (conn_client x) = Some (peerInfo (producers (sdb s) p)) \<and> pending k x" if "entry (sdb s) k i = Some p" for k i p
    using lk_invD(6) [OF assms(3) that] connect(2) by (metis fun_upd_apply option.simps(3))
  ultimately show ?thesis using assms(3) connect unfolding lk_inv_def by simp metis
next
  case (exec c cl ord now inp params r cl' inp' db')
  have "own_peer cl (sdb s)" using lk_invD(2) [OF assms(3) exec(2)] by simp
  from exec_inv [OF assms(3) exec(2) Exec_local [OF this lk_invD(1) [OF assms(3)] exec(3) assms(2)]] show ?thesis using exec(1) by simp
next
  case (close c cl pi ord)
  have "peer_id (peers (sdb s) pi) = remoteAddr cl" using lk_invD(2) [OF assms(3) close(2)] close(3) by (simp add: own_peer_def)
  then have "lk_inv (s\<lparr>sdb := sdb s, conns := (conns s)(c \<mapsto> Closing cl (LookupRegistrations ord (peer_id (peers (sdb s) pi)) (sdb s)))\<rparr>)"
    using LookupRegistrations_set [OF close(4)] close(3) lk_invD(1) [OF assms(3)]
    by (intro conn_change_inv [OF assms(3) close(2)]) (auto simp: shrinks_def)
  then show ?thesis using close(1) by simp
next
  case (close_new c cl)
  have "lk_inv (s\<lparr>sdb := sdb s, conns := (conns s)(c := None)\<rparr>)"
    using entry_conn(1) [OF assms(3) close_new(2)] close_new(3) lk_invD(1) [OF assms(3)]
    by (intro conn_change_inv [OF assms(3) close_new(2)]) (auto simp: shrinks_def)
  then show ?thesis using close_new(1) by simp
next
  case (remove c cl r rs pi)
  have "peer_id (peers (sdb s) pi) = remoteAddr cl" using lk_invD(2) [OF assms(3) remove(2)] remove(3) by (simp add: own_peer_def)
  then show ?thesis unfolding remove(1) using entry_conn(2) [OF assms(3) remove(2)] remove(3) lk_invD(1) [OF assms(3)]
    by (intro conn_change_inv [OF assms(3) remove(2)]) (auto simp: shrinks_def RemoveProducer_entry split: if_splits)
next
  case (closed c cl)
  have "lk_inv (s\<lparr>sdb := sdb s, conns := (conns s)(c := None)\<rparr>)"
    using entry_conn(2) [OF assms(3) closed(2)] lk_invD(1) [OF assms(3)]
    by (intro conn_change_inv [OF assms(3) closed(2)]) (auto simp: shrinks_def)
  then show ?thesis using closed(1) by simp
qed (use assms(3) shrinks_inv http_shrinks [OF lk_invD(1) [OF assms(3)]] in \<open>simp_all\<close>)

end
