(* ===== verification/Nsq_Lookup_Props.thy ===== *)
theory Nsq_Lookup_Props
  imports Nsq_Lookup_Inv
begin

text \<open>
  The properties of nsqlookupd in every state that it can reach, with an example server on which they
  are instantiated.
\<close>


lemma lk_reach_inv: "lk_reach env s \<Longrightarrow> keeps_id env \<Longrightarrow> lk_inv s"
  unfolding lk_reach_def
proof (induction rule: rtranclp_induct)
  case base
  show ?case by (simp add: lk_inv_def NewRegistrationDB_ok)
qed (blast intro: lk_step_inv)

lemma lk_inv_ids:
  assumes "lk_inv s"
  shows "ids_ok (sdb s)"
  unfolding ids_ok_def
proof (intro allI impI)
  fix k i p assume "entry (sdb s) k i = Some p"
  then obtain c x where x: "conns s c = Some x" "remoteAddr (conn_client x) = i" "cpeer (conn_client x) = Some (peerInfo (producers (sdb s) p))"
    using lk_invD(6) [OF assms] by blast
  then show "pid_of (sdb s) p = i" using lk_invD(2) [OF assms x(1)] by (simp add: own_peer_def)
qed

text \<open>An example: one client that has identified itself and registered topic \<open>t\<close>.\<close>

definition ex_client :: ClientV1 where "ex_client = \<lparr>remoteAddr = ''a'', cpeer = None\<rparr>"

definition ex_id :: "cmd_result \<times> ClientV1 \<times> byte list \<times> NSQLookupd" where
  "ex_id = Exec ex_env (some_order NewRegistrationDB) 0 ex_client [0, 0, 0, 1, 7] [''IDENTIFY''] NewRegistrationDB"

definition ex_cl :: ClientV1 where "ex_cl = fst (snd ex_id)"
definition ex_db :: NSQLookupd where "ex_db = snd (snd (snd ex_id))"

definition ex_db2 :: NSQLookupd where "ex_db2 = snd (REGISTER ex_cl [''t'', ''c''] ex_db)"

definition ex_sys :: lookup_sys where
  "ex_sys = \<lparr>sdb = ex_db2, conns = [0 \<mapsto> Open ex_cl]\<rparr>"

lemma ex_sys_reach: "lk_reach ex_env ex_sys"
proof -
  let ?s0 = "\<lparr>sdb = NewRegistrationDB, conns = Map.empty\<rparr>"
  let ?s1 = "\<lparr>sdb = NewRegistrationDB, conns = [0 \<mapsto> Open ex_client]\<rparr>"
  let ?s2 = "\<lparr>sdb = ex_db, conns = [0 \<mapsto> Open ex_cl]\<rparr>"
  have 1: "lk_step ex_env ?s0 ?s1"
    using lk_step.connect [of ?s0 0 "''a''" ex_env] by (simp add: ex_client_def)
  obtain r i where E: "Exec ex_env (some_order NewRegistrationDB) 0 ex_client [0, 0, 0, 1, 7] [''IDENTIFY''] NewRegistrationDB = (r, ex_cl, i, ex_db)"
    unfolding ex_cl_def ex_db_def ex_id_def by (metis prod.collapse)
  have 2: "lk_step ex_env ?s1 ?s2" using lk_step.exec [of ?s1 0 ex_client ex_env] E by simp
  have "Exec ex_env (some_order ex_db) 0 ex_cl [] [''REGISTER'', ''t'', ''c''] ex_db =
      (fst (REGISTER ex_cl [''t'', ''c''] ex_db), ex_cl, [], ex_db2)"
    by (simp add: Exec_def ex_db2_def split_beta)
  then have 3: "lk_step ex_env ?s2 ex_sys" using lk_step.exec [of ?s2 0 ex_cl ex_env] by (simp add: ex_sys_def)
  show ?thesis unfolding lk_reach_def
    using 1 2 3 by (meson rtranclp.rtrancl_into_rtrancl rtranclp.rtrancl_refl)
qed

lemma ex_cl_eq: "ex_cl = \<lparr>remoteAddr = ''a'', cpeer = Some 0\<rparr>" "fst ex_id = Response ''{}''"
  "peer_id (peers ex_db 0) = ''a''" "lastUpdate (peers ex_db 0) = 0"
  "entry ex_db (reg ''topic'' ''t'' '''') ''a'' = None" "nextProducer ex_db = 1"
proof -
  have b: "readBody [0, 0, 0, 1, 7] = Inr ([7], [])" by code_simp
  show "ex_cl = \<lparr>remoteAddr = ''a'', cpeer = Some 0\<rparr>" "fst ex_id = Response ''{}''"
   "peer_id (peers ex_db 0) = ''a''" "lastUpdate (peers ex_db 0) = 0"
  "entry ex_db (reg ''topic'' ''t'' '''') ''a'' = None" "nextProducer ex_db = 1"
    by (simp_all add: ex_cl_def ex_db_def ex_id_def Exec_def IDENTIFY_def b ex_client_def ex_env_def Let_def identified_def identifyResponse_def
     AddProducer_entry entry_def NewRegistrationDB_def AddProducer_def AddRegistration_def reg_def)
qed

section \<open>The properties of nsqlookupd\<close>


text \<open>
  C25. Looking for producers returns each peer at most once, and exactly the peers that are registered under
  a matching key, where \<open>*\<close> stands for every key or subkey.
\<close>

theorem find_producers_exact:
  assumes "keeps_id env" "lk_reach env s" "order_ok (sdb s) ord"
  shows "distinct (map (pid_of (sdb s)) (FindProducers ord category key subkey (sdb s))) \<and>
    pid_of (sdb s) ` set (FindProducers ord category key subkey (sdb s)) =
      {i. \<exists>k. IsMatch category key subkey k \<and> entry (sdb s) k i \<noteq> None}"
  using FindProducers_spec [OF assms(3) lk_inv_ids [OF lk_reach_inv [OF assms(2,1)]]] by blast

lemma ex_order: "order_ok (sdb ex_sys) (some_order (sdb ex_sys))"
  by (rule some_order_ok) (rule lk_invD(1) [OF lk_reach_inv [OF ex_sys_reach ex_env_ok]])

lemma ex_topic_entry: "entry (sdb ex_sys) (reg ''topic'' ''t'' '''') ''a'' \<noteq> None"
proof -
  have "getTopicChan ''REGISTER'' [''t'', ''c''] = Inr (''t'', ''c'')" by (rule ex_input_lines)
  then show ?thesis by (simp add: ex_sys_def ex_db2_def REGISTER_def ex_cl_eq Let_def AddProducer_entry)
qed

theorem find_producers_exact_witness:
  "''a'' \<in> pid_of (sdb ex_sys) ` set (FindProducers (some_order (sdb ex_sys)) ''topic'' ''t'' '''' (sdb ex_sys))"
proof -
  have "pid_of (sdb ex_sys) ` set (FindProducers (some_order (sdb ex_sys)) ''topic'' ''t'' '''' (sdb ex_sys)) =
      {i. \<exists>k. IsMatch ''topic'' ''t'' '''' k \<and> entry (sdb ex_sys) k i \<noteq> None}"
    using find_producers_exact [OF ex_env_ok ex_sys_reach ex_order] by blast
  moreover have "IsMatch ''topic'' ''t'' '''' (reg ''topic'' ''t'' '''')" by (simp add: IsMatch_def reg_def)
  ultimately show ?thesis using ex_topic_entry by blast
qed


lemma valid_name_simps: "\<not> IsValidTopicName ''*''" "\<not> IsValidChannelName ''''"
  by code_simp+

lemma getTopicChan_valid: "IsValidTopicName t \<Longrightarrow> IsValidChannelName ch \<Longrightarrow> getTopicChan cmd [t, ch] = Inr (t, ch)"
  by (simp add: getTopicChan_def)

text \<open>
  Registering is found by looking up: after an identified client has registered a channel of a topic
  for the first time, a lookup of the topic succeeds, lists the channel and, as long as the client is
  active, its peer.
\<close>

theorem register_then_lookup:
  assumes "cpeer cl = Some pi" "IsValidTopicName t" "IsValidChannelName ch"
    and "entry db (reg ''topic'' t '''') (peer_id (peers db pi)) = None"
    and "REGISTER cl [t, ch] db = (r, db')" "order_ok db' ord" "now - lastUpdate (peers db pi) \<le> inactive"
  shows "r = Response ''OK'' \<and> (\<exists>chs ps. doLookup ord now inactive lifetime (Some [''topic'' \<mapsto> [t]]) db' = Inr (chs, ps) \<and>
    ch \<in> set chs \<and> pi \<in> set ps)"
proof -
  let ?k = "reg ''topic'' t ''''" and ?c = "reg ''channel'' t ch"
  let ?d = "snd (AddProducer ?c pi db)"
  let ?p = "nextProducer ?d"
  have ne: "t \<noteq> ''*''" "ch \<noteq> ''''" "?c \<noteq> ?k" using valid_name_simps assms(2,3) by (auto simp: reg_def)
  have R: "r = Response ''OK''" "db' = snd (AddProducer ?k pi ?d)"
    using assms(1,5) ne getTopicChan_valid [OF assms(2,3)] by (auto simp: REGISTER_def Let_def)
  have e: "entry db' ?k (peer_id (peers db pi)) = Some ?p" using assms(4) ne(3) by (simp add: R(2) AddProducer_entry)
  have p: "producers db' ?p = \<lparr>peerInfo = pi, tombstoned = False, tombstonedAt = 0\<rparr>" "peers db' = peers db"
    by (simp_all add: R(2) AddProducer_entry)
  have "registrationMap db' ?k \<noteq> None" using e by (cases "registrationMap db' ?k") (simp_all add: entry_def)
  then have F: "FindRegistrations ord ''topic'' t '''' db' \<noteq> []" using ne(1) by (simp add: FindRegistrations_def needFilter_def Let_def)
  have "?c \<in> set (reg_order ord)" using assms(6) by (simp add: order_ok_def R(2) AddProducer_dom)
  then have "?c \<in> set (FindRegistrations ord ''channel'' t ''*'' db')"
    by (simp add: FindRegistrations_def needFilter_def IsMatch_def reg_def)
  then have C: "ch \<in> set (SubKeys (FindRegistrations ord ''channel'' t ''*'' db'))" unfolding SubKeys_def by (force simp: reg_def)
  have "?p \<in> set (FindProducers ord ''topic'' t '''' db')"
    using slice_found [OF assms(6), of ?k] e ne(1) by (auto simp: FindProducers_def needFilter_def found_def Let_def)
  then have "?p \<in> set (FilterByActive now inactive lifetime db' (FindProducers ord ''topic'' t '''' db'))"
    using assms(7) p by (simp add: FilterByActive_def IsTombstoned_def)
  then have "pi \<in> set (peerInfos db' (FilterByActive now inactive lifetime db' (FindProducers ord ''topic'' t '''' db')))"
    unfolding peerInfos_def using p by force
  then show ?thesis using R(1) F C by (simp add: doLookup_def topicArg_def ReqParams_Get_def)
qed

theorem register_then_lookup_witness:
  "\<exists>chs ps. doLookup (some_order ex_db2) 5 100 0 (Some [''topic'' \<mapsto> [''t'']]) ex_db2 = Inr (chs, ps) \<and> ''c'' \<in> set chs \<and> 0 \<in> set ps"
proof -
  have "IsValidTopicName ''t''" "IsValidChannelName ''c''" by code_simp+
  moreover have "REGISTER ex_cl [''t'', ''c''] ex_db = (fst (REGISTER ex_cl [''t'', ''c''] ex_db), ex_db2)" by (simp add: ex_db2_def)
  ultimately show ?thesis
    using register_then_lookup [of ex_cl 0 "''t''" "''c''" ex_db _ ex_db2 "some_order ex_db2" 5 100 0] ex_order
    by (simp add: ex_cl_eq ex_sys_def)
qed

lemma reg_eq_iff: "k = reg c y s \<longleftrightarrow> Category k = c \<and> Key k = y \<and> SubKey k = s"
  by (cases k) (auto simp: reg_def)

text \<open>
  C24. Deleting a topic over HTTP removes exactly its own registration and those of its channels. The name
  is not checked, and \<open>*\<close> is taken as a pattern: a request for it removes every topic and every channel.
\<close>

theorem delete_topic_exact:
  assumes "order_ok db ord" "order_ok (fold RemoveRegistration (FindRegistrations ord ''channel'' t ''*'' db) db) ord'"
  shows "doDeleteTopic ord ord' (Some [''topic'' \<mapsto> [t]]) db = (Inr (), db') \<Longrightarrow>
    registrationMap db' k =
      (if (t = ''*'' \<or> Key k = t) \<and> (Category k = ''channel'' \<or> Category k = ''topic'' \<and> SubKey k = '''') then None else registrationMap db k)"
proof -
  assume D: "doDeleteTopic ord ord' (Some [''topic'' \<mapsto> [t]]) db = (Inr (), db')"
  let ?d = "fold RemoveRegistration (FindRegistrations ord ''channel'' t ''*'' db) db"
  have rm: "registrationMap (fold RemoveRegistration rs d) k = (if k \<in> set rs then None else registrationMap d k)" for rs d
    by (induction rs arbitrary: d) (auto simp: RemoveRegistration_def)
  have fr: "k \<in> set (FindRegistrations o' cat t sub d) \<longleftrightarrow> IsMatch cat t sub k \<and> registrationMap d k \<noteq> None"
    if "order_ok d o'" for o' d cat sub
  proof (cases "needFilter t sub")
    case False
    have "k \<in> set (FindRegistrations o' cat t sub d) \<longleftrightarrow> k = reg cat t sub \<and> registrationMap d k \<noteq> None"
      using False by (auto simp: FindRegistrations_def Let_def)
    moreover have "IsMatch cat t sub k \<longleftrightarrow> k = reg cat t sub" using False by (auto simp: reg_eq_iff IsMatch_def needFilter_def)
    ultimately show ?thesis by blast
  next
    case True
    then show ?thesis using that by (auto simp: FindRegistrations_def order_ok_def)
  qed
  have "db' = fold RemoveRegistration (FindRegistrations ord' ''topic'' t '''' ?d) ?d"
    using D by (simp add: doDeleteTopic_def topicArg_def ReqParams_Get_def Let_def)
  then show ?thesis using fr [OF assms(1)] fr [OF assms(2)] by (auto simp: rm IsMatch_def split: if_splits)
qed

theorem delete_topic_exact_witness:
  "registrationMap (snd (doDeleteTopic (some_order ex_db2) (some_order (fold RemoveRegistration (FindRegistrations (some_order ex_db2) ''channel'' ''*'' ''*'' ex_db2) ex_db2))
     (Some [''topic'' \<mapsto> [''*'']]) ex_db2)) (reg ''topic'' ''t'' '''') = None"
proof -
  let ?o = "some_order ex_db2"
  let ?d = "fold RemoveRegistration (FindRegistrations ?o ''channel'' ''*'' ''*'' ex_db2) ex_db2"
  let ?r = "doDeleteTopic ?o (some_order ?d) (Some [''topic'' \<mapsto> [''*'']]) ex_db2"
  have f: "fin_db ex_db2" using lk_invD(1) [OF lk_reach_inv [OF ex_sys_reach ex_env_ok]] by (simp add: ex_sys_def)
  have "?r = (Inr (), snd ?r)" by (simp add: doDeleteTopic_def topicArg_def ReqParams_Get_def Let_def)
  from delete_topic_exact [OF some_order_ok [OF f] some_order_ok [OF fold_RemoveRegistration_entry(6) [OF f]] this]
  show ?thesis by (simp add: reg_def)
qed



end
