(* ===== verification/Bolt_Freelist.thy ===== *)
theory Bolt_Freelist
  imports Go_Prelude
begin

text \<open>
  The freelist of bolt (\<^verbatim>\<open>bolt-master/freelist.go\<close>) and the merging of sorted page ids (\<^verbatim>\<open>page.go\<close>). Page and
  transaction ids are 64-bit words. The data area of a freelist page is seen as an array of page ids. Go
  ranges over the map of pending pages in any order; the order is an argument. The code gives the array a
  type that is larger than any page; here its length is that of the memory behind the page, and to go
  beyond it is an error.
\<close>

section \<open>Merging sorted ids\<close>

type_synonym pgid = u64
type_synonym txid = u64

text \<open>\<^verbatim>\<open>sort.Search\<close>: binary search for the first index at which \<open>f\<close> holds.\<close>

function Search :: "(nat \<Rightarrow> bool) \<Rightarrow> nat \<Rightarrow> nat \<Rightarrow> nat" where
  "Search f i j =
     (if i < j then (let h = (i + j) div 2 in if \<not> f h then Search f (Suc h) j else Search f i h) else i)"
  by pat_completeness auto
termination by (relation "measure (\<lambda>(f, i, j). j - i)") auto

declare Search.simps [simp del]

text \<open>The loop of \<open>mergepgids\<close>; both slices are not empty. The result is what is appended.\<close>

partial_function (option) mergeLoop :: "pgid list \<Rightarrow> pgid list \<Rightarrow> pgid list \<Rightarrow> pgid list option" where
  "mergeLoop lead follow merged =
     (if lead \<noteq> [] then
        (if follow = [] then None
         else
           (let n = Search (\<lambda>i. lead ! i > follow ! 0) 0 (length lead); merged = merged @ take n lead
            in if n \<ge> length lead then Some (merged @ follow)
               else mergeLoop follow (drop n lead) merged))
      else Some (merged @ follow))"

text \<open>\<open>mergepgids\<close> writes into the beginning of \<open>dst\<close>.\<close>

definition mergepgids :: "pgid list \<Rightarrow> pgid list \<Rightarrow> pgid list \<Rightarrow> pgid list res" where
  "mergepgids dst a b =
     (if length dst < length a + length b then Inl (Panic ''mergepgids bad len'')
      else if a = [] then Inr (copy_at dst 0 b)
      else if b = [] then Inr (copy_at dst 0 a)
      else
        (let (lead, follow) = (if b ! 0 < a ! 0 then (b, a) else (a, b))
         in map_sum (\<lambda>e. e) (copy_at dst 0) (of_opt IndexOutOfRange (mergeLoop lead follow []))))"

definition fl_merge :: "pgid list \<Rightarrow> pgid list \<Rightarrow> pgid list res" where
  "fl_merge a b =
     (if a = [] then Inr b
      else if b = [] then Inr a
      else mergepgids (replicate (length a + length b) 0) a b)"

section \<open>The freelist\<close>

record page =
  p_id :: pgid
  p_flags :: "16 word"
  p_count :: "16 word"
  p_overflow :: u32
  p_data :: "pgid list"

record freelist =
  ids :: "pgid list"
  pending :: "txid \<Rightarrow> pgid list option"
  cache :: "pgid \<Rightarrow> bool"

definition pageHeaderSize :: nat where "pageHeaderSize = 16"
definition freelistPageFlag :: "16 word" where "freelistPageFlag = 0x10"

definition newFreelist :: freelist where
  "newFreelist = \<lparr>ids = [], pending = Map.empty, cache = (\<lambda>_. False)\<rparr>"

text \<open>\<^verbatim>\<open>f.pending[txid]\<close>: nil when there is none.\<close>

definition pendingOf :: "freelist \<Rightarrow> txid \<Rightarrow> pgid list" where
  "pendingOf f t = (case pending f t of None \<Rightarrow> [] | Some l \<Rightarrow> l)"

definition free_count :: "freelist \<Rightarrow> nat" where
  "free_count f = length (ids f)"

definition pending_count :: "txid list \<Rightarrow> freelist \<Rightarrow> nat" where
  "pending_count tids f = sum_list (map (\<lambda>t. length (pendingOf f t)) tids)"

definition fl_count :: "txid list \<Rightarrow> freelist \<Rightarrow> nat" where
  "fl_count tids f = free_count f + pending_count tids f"

definition fl_size :: "txid list \<Rightarrow> freelist \<Rightarrow> nat" where
  "fl_size tids f =
     (let n = fl_count tids f; n = (if n \<ge> 0xFFFF then n + 1 else n) in pageHeaderSize + 8 * n)"

definition copyall :: "txid list \<Rightarrow> freelist \<Rightarrow> pgid list \<Rightarrow> pgid list res" where
  "copyall tids f dst = mergepgids dst (ids f) (sort (concat (map (pendingOf f) tids)))"

text \<open>
  The scan of \<open>allocate\<close>: \<open>Some (i, initial)\<close> when the run of \<open>n\<close> pages that starts at \<open>initial\<close> ends at the
  index \<open>i\<close>.
\<close>

fun allocScan :: "nat \<Rightarrow> nat \<Rightarrow> pgid \<Rightarrow> pgid \<Rightarrow> pgid list \<Rightarrow> (nat \<times> pgid) option res" where
  "allocScan n i initial previd [] = Inr None"
| "allocScan n i initial previd (pid # rest) =
     (if pid \<le> 1 then Inl (Panic ''invalid page allocation'')
      else
        (let initial = (if previd = 0 \<or> pid - previd \<noteq> 1 then pid else initial)
         in if (pid - initial) + 1 = of_nat n then Inr (Some (i, initial))
            else allocScan n (Suc i) initial pid rest))"

definition allocate :: "nat \<Rightarrow> freelist \<Rightarrow> (pgid \<times> freelist) res" where
  "allocate n f =
     (if ids f = [] then Inr (0, f)
      else
        (case allocScan n 0 0 0 (ids f) of
           Inl e \<Rightarrow> Inl e
         | Inr None \<Rightarrow> Inr (0, f)
         | Inr (Some (i, initial)) \<Rightarrow>
             (let rest = (if i + 1 = n then Inr (drop (i + 1) (ids f))
                          else if i + 1 < n then Inl IndexOutOfRange
                          else Inr (take (length (ids f) - n) (copy_at (ids f) (i + 1 - n) (drop (i + 1) (ids f)))))
              in case rest of
                   Inl e \<Rightarrow> Inl e
                 | Inr l \<Rightarrow> Inr (initial, f\<lparr>ids := l, cache := (\<lambda>q. cache f q \<and> q \<notin> set (map (\<lambda>k. initial + of_nat k) [0..<n]))\<rparr>))))"

text \<open>The loop of \<open>free\<close> over the ids of a page and its overflow.\<close>

partial_function (option) freeLoop ::
  "pgid \<Rightarrow> pgid \<Rightarrow> pgid list \<Rightarrow> (pgid \<Rightarrow> bool) \<Rightarrow> (pgid list \<times> (pgid \<Rightarrow> bool)) res option" where
  "freeLoop pid final l ch =
     (if pid \<le> final then
        (if ch pid then Some (Inl (Panic ''page already freed''))
         else freeLoop (pid + 1) final (l @ [pid]) (ch(pid := True)))
      else Some (Inr (l, ch)))"

definition fl_free :: "txid \<Rightarrow> page \<Rightarrow> freelist \<Rightarrow> freelist res option" where
  "fl_free t p f =
     (if p_id p \<le> 1 then Some (Inl (Panic ''cannot free page 0 or 1''))
      else
        map_option (map_sum (\<lambda>e. e) (\<lambda>(l, ch). f\<lparr>pending := (pending f)(t \<mapsto> l), cache := ch\<rparr>))
          (freeLoop (p_id p) (p_id p + ucast (p_overflow p)) (pendingOf f t) (cache f)))"

definition release :: "txid list \<Rightarrow> txid \<Rightarrow> freelist \<Rightarrow> freelist res" where
  "release tids t f =
     (let m = sort (concat (map (pendingOf f) (filter (\<lambda>tid. tid \<le> t) tids)));
          pend = (\<lambda>tid. if tid \<le> t then None else pending f tid)
      in map_sum (\<lambda>e. e) (\<lambda>l. f\<lparr>pending := pend, ids := l\<rparr>) (fl_merge (ids f) m))"

definition rollback :: "txid \<Rightarrow> freelist \<Rightarrow> freelist" where
  "rollback t f =
     f\<lparr>cache := (\<lambda>q. cache f q \<and> q \<notin> set (pendingOf f t)), pending := (pending f)(t := None)\<rparr>"

definition freed :: "pgid \<Rightarrow> freelist \<Rightarrow> bool" where
  "freed q f = cache f q"

definition reindex :: "txid list \<Rightarrow> freelist \<Rightarrow> freelist" where
  "reindex tids f = f\<lparr>cache := (\<lambda>q. q \<in> set (ids f) \<or> q \<in> set (concat (map (pendingOf f) tids)))\<rparr>"

text \<open>\<^verbatim>\<open>[idx:count]\<close> of the array on the page; with more than the array holds the slice is out of range.\<close>

definition fl_read :: "txid list \<Rightarrow> page \<Rightarrow> freelist \<Rightarrow> freelist res" where
  "fl_read tids p f =
     (let (idx, cnt) = (if p_count p = 0xFFFF then (1, unat (p_data p ! 0)) else (0, unat (p_count p)))
      in if p_count p = 0xFFFF \<and> p_data p = [] then Inl IndexOutOfRange
         else if cnt = 0 then Inr (reindex tids (f\<lparr>ids := []\<rparr>))
         else if cnt < idx \<or> length (p_data p) < cnt then Inl IndexOutOfRange
         else Inr (reindex tids (f\<lparr>ids := sort (subslice (p_data p) idx cnt)\<rparr>)))"

definition fl_write :: "txid list \<Rightarrow> freelist \<Rightarrow> page \<Rightarrow> page res" where
  "fl_write tids f p =
     (let p = p\<lparr>p_flags := or (p_flags p) freelistPageFlag\<rparr>; lenids = fl_count tids f
      in if lenids = 0 then Inr (p\<lparr>p_count := of_nat lenids\<rparr>)
         else if lenids < 0xFFFF then
           map_sum (\<lambda>e. e) (\<lambda>d. p\<lparr>p_count := of_nat lenids, p_data := d\<rparr>) (copyall tids f (p_data p))
         else
           map_sum (\<lambda>e. e) (\<lambda>d. p\<lparr>p_count := 0xFFFF, p_data := of_nat lenids # d\<rparr>) (copyall tids f (tl (p_data p))))"

definition reload :: "txid list \<Rightarrow> page \<Rightarrow> freelist \<Rightarrow> freelist res" where
  "reload tids p f =
     map_sum (\<lambda>e. e)
       (\<lambda>f. reindex tids (f\<lparr>ids := filter (\<lambda>q. q \<notin> set (concat (map (pendingOf f) tids))) (ids f)\<rparr>))
       (fl_read tids p f)"

end
