(* ===== verification/Bolt_Node.thy ===== *)
theory Bolt_Node
  imports Complex_Main Bolt_Freelist "HOL-Library.List_Lexorder"
begin

text \<open>
  The in-memory nodes of bolt's tree (\<^verbatim>\<open>bolt-master/node.go\<close>) and the elements of the pages they are written to
  (\<^verbatim>\<open>page.go\<close>). A node's parent and children are addresses into a store of nodes. Here the data area of a page
  is seen as bytes, and words are stored as on a little-endian machine; to touch a byte behind the end of the
  memory of the page is an error. Slices of entries are values: the two halves of a split share an array in
  the code, and none of them is extended afterwards.
\<close>

section \<open>Keys\<close>

text \<open>\<^verbatim>\<open>bytes.Compare\<close>.\<close>

fun Compare :: "byte list \<Rightarrow> byte list \<Rightarrow> int" where
  "Compare [] [] = 0"
| "Compare [] (y # ys) = -1"
| "Compare (x # xs) [] = 1"
| "Compare (x # xs) (y # ys) = (if x < y then -1 else if y < x then 1 else Compare xs ys)"

section \<open>Nodes\<close>

record inode =
  i_flags :: u32
  i_pgid :: pgid
  i_key :: "byte list"
  i_value :: "byte list"

definition zeroInode :: inode where
  "zeroInode = \<lparr>i_flags = 0, i_pgid = 0, i_key = [], i_value = []\<rparr>"

text \<open>\<open>None\<close> as the key of a node is nil.\<close>

record node =
  isLeaf :: bool
  unbalanced :: bool
  spilled :: bool
  n_key :: "byte list option"
  n_pgid :: pgid
  n_parent :: "addr option"
  children :: "addr list"
  inodes :: "inode list"

definition zeroNode :: node where
  "zeroNode = \<lparr>isLeaf = False, unbalanced = False, spilled = False, n_key = None, n_pgid = 0, n_parent = None,
     children = [], inodes = []\<rparr>"

definition minKeysPerPage :: nat where "minKeysPerPage = 2"
definition branchPageElementSize :: nat where "branchPageElementSize = 16"
definition leafPageElementSize :: nat where "leafPageElementSize = 16"
definition branchPageFlag :: "16 word" where "branchPageFlag = 0x01"
definition leafPageFlag :: "16 word" where "leafPageFlag = 0x02"

definition minKeys :: "node \<Rightarrow> nat" where
  "minKeys n = (if isLeaf n then 1 else 2)"

definition pageElementSize :: "node \<Rightarrow> nat" where
  "pageElementSize n = (if isLeaf n then leafPageElementSize else branchPageElementSize)"

definition node_size :: "node \<Rightarrow> nat" where
  "node_size n =
     fold (\<lambda>item sz. sz + (pageElementSize n + length (i_key item) + length (i_value item))) (inodes n) pageHeaderSize"

fun sizeLoop :: "nat \<Rightarrow> nat \<Rightarrow> nat \<Rightarrow> inode list \<Rightarrow> bool" where
  "sizeLoop v elsz sz [] = True"
| "sizeLoop v elsz sz (item # rest) =
     (let sz = sz + (elsz + length (i_key item) + length (i_value item)) in if sz \<ge> v then False else sizeLoop v elsz sz rest)"

definition sizeLessThan :: "nat \<Rightarrow> node \<Rightarrow> bool" where
  "sizeLessThan v n = sizeLoop v (pageElementSize n) pageHeaderSize (inodes n)"

text \<open>The first entry whose key is not below \<open>k\<close>.\<close>

definition findIndex :: "byte list \<Rightarrow> node \<Rightarrow> nat" where
  "findIndex k n = Search (\<lambda>i. Compare (i_key (inodes n ! i)) k \<noteq> -1) 0 (length (inodes n))"

definition childIndex :: "node \<Rightarrow> node \<Rightarrow> nat" where
  "childIndex child n = findIndex (case n_key child of None \<Rightarrow> [] | Some k \<Rightarrow> k) n"

definition numChildren :: "node \<Rightarrow> nat" where
  "numChildren n = length (inodes n)"

text \<open>\<open>hwm\<close> is the high water mark \<^verbatim>\<open>n.bucket.tx.meta.pgid\<close>.\<close>

definition node_put :: "pgid \<Rightarrow> byte list \<Rightarrow> byte list \<Rightarrow> byte list \<Rightarrow> pgid \<Rightarrow> u32 \<Rightarrow> node \<Rightarrow> node res" where
  "node_put hwm oldKey newKey val pid fl n =
     (if pid \<ge> hwm then Inl (Panic ''pgid above high water mark'')
      else if oldKey = [] then Inl (Panic ''put: zero-length old key'')
      else if newKey = [] then Inl (Panic ''put: zero-length new key'')
      else
        (let index = findIndex oldKey n;
             exact = (length (inodes n) > 0 \<and> index < length (inodes n) \<and> i_key (inodes n ! index) = oldKey);
             l = (if \<not> exact then
                    (let l = inodes n @ [zeroInode] in copy_at l (index + 1) (take (length l - (index + 1)) (drop index l)))
                  else inodes n)
         in Inr (n\<lparr>inodes := l[index := \<lparr>i_flags = fl, i_pgid = pid, i_key = newKey, i_value = val\<rparr>]\<rparr>)))"

definition node_del :: "byte list \<Rightarrow> node \<Rightarrow> node" where
  "node_del k n =
     (let index = findIndex k n
      in if index \<ge> length (inodes n) \<or> i_key (inodes n ! index) \<noteq> k then n
         else n\<lparr>inodes := take index (inodes n) @ drop (index + 1) (inodes n), unbalanced := True\<rparr>)"

section \<open>Splitting\<close>

text \<open>The store of nodes; addresses from \<open>n_next\<close> on are not in use.\<close>

record nstore =
  nd :: "addr \<Rightarrow> node"
  n_next :: addr

definition new_node :: "node \<Rightarrow> nstore \<Rightarrow> addr \<times> nstore" where
  "new_node n st = (n_next st, \<lparr>nd = (nd st)(n_next st := n), n_next = Suc (n_next st)\<rparr>)"

definition set_node :: "addr \<Rightarrow> node \<Rightarrow> nstore \<Rightarrow> nstore" where
  "set_node a n st = st\<lparr>nd := (nd st)(a := n)\<rparr>"

text \<open>The loop over the entries from position \<open>i\<close> on, up to position \<open>m\<close>.\<close>

fun splitIndexLoop :: "nat \<Rightarrow> nat \<Rightarrow> nat \<Rightarrow> nat \<Rightarrow> nat \<Rightarrow> nat \<Rightarrow> inode list \<Rightarrow> nat \<times> nat" where
  "splitIndexLoop threshold elsz m i index sz [] = (index, sz)"
| "splitIndexLoop threshold elsz m i index sz (inode # rest) =
     (if i < m then
        (let elsize = elsz + length (i_key inode) + length (i_value inode)
         in if i \<ge> minKeysPerPage \<and> sz + elsize > threshold then (i, sz)
            else splitIndexLoop threshold elsz m (Suc i) i (sz + elsize) rest)
      else (index, sz))"

definition splitIndex :: "nat \<Rightarrow> node \<Rightarrow> nat \<times> nat" where
  "splitIndex threshold n =
     splitIndexLoop threshold (pageElementSize n) (length (inodes n) - minKeysPerPage) 0 0 pageHeaderSize (inodes n)"

text \<open>
  The threshold of a page: \<open>fillPercent\<close> is a float64 value, \<open>rnd\<close> rounds a rational number to float64.
\<close>

definition threshold :: "(rat \<Rightarrow> rat) \<Rightarrow> rat \<Rightarrow> nat \<Rightarrow> nat" where
  "threshold rnd fillPercent pageSize =
     (let minFillPercent = rnd (1 / 10); maxFillPercent = 1;
          fillPercent = (if fillPercent < minFillPercent then minFillPercent
                         else if fillPercent > maxFillPercent then maxFillPercent else fillPercent)
      in nat \<lfloor>rnd (of_nat pageSize * fillPercent)\<rfloor>)"

definition splitTwo :: "(rat \<Rightarrow> rat) \<Rightarrow> rat \<Rightarrow> nat \<Rightarrow> addr \<Rightarrow> nstore \<Rightarrow> addr option \<times> nstore" where
  "splitTwo rnd fillPercent pageSize a st =
     (if length (inodes (nd st a)) \<le> minKeysPerPage * 2 \<or> sizeLessThan pageSize (nd st a) then (None, st)
      else
        (let (si, _) = splitIndex (threshold rnd fillPercent pageSize) (nd st a);
             (p, st) = (case n_parent (nd st a) of
                          Some p \<Rightarrow> (p, st)
                        | None \<Rightarrow> (let (p, st) = new_node (zeroNode\<lparr>children := [a]\<rparr>) st
                                   in (p, set_node a ((nd st a)\<lparr>n_parent := Some p\<rparr>) st)));
             (next, st) = new_node (zeroNode\<lparr>isLeaf := isLeaf (nd st a), n_parent := n_parent (nd st a)\<rparr>) st;
             st = set_node p ((nd st p)\<lparr>children := children (nd st p) @ [next]\<rparr>) st;
             st = set_node next ((nd st next)\<lparr>inodes := drop si (inodes (nd st a))\<rparr>) st;
             st = set_node a ((nd st a)\<lparr>inodes := take si (inodes (nd st a))\<rparr>) st
         in (Some next, st)))"

partial_function (option) splitLoop ::
  "(rat \<Rightarrow> rat) \<Rightarrow> rat \<Rightarrow> nat \<Rightarrow> addr \<Rightarrow> addr list \<Rightarrow> nstore \<Rightarrow> (addr list \<times> nstore) option" where
  "splitLoop rnd fillPercent pageSize a ns st =
     (case splitTwo rnd fillPercent pageSize a st of
        (None, st) \<Rightarrow> Some (ns @ [a], st)
      | (Some b, st) \<Rightarrow> splitLoop rnd fillPercent pageSize b (ns @ [a]) st)"

definition node_split :: "(rat \<Rightarrow> rat) \<Rightarrow> rat \<Rightarrow> nat \<Rightarrow> addr \<Rightarrow> nstore \<Rightarrow> (addr list \<times> nstore) option" where
  "node_split rnd fillPercent pageSize a st = splitLoop rnd fillPercent pageSize a [] st"

fun removeFirst :: "addr \<Rightarrow> addr list \<Rightarrow> addr list" where
  "removeFirst t [] = []"
| "removeFirst t (c # cs) = (if c = t then cs else c # removeFirst t cs)"

definition removeChild :: "addr \<Rightarrow> node \<Rightarrow> node" where
  "removeChild target n = n\<lparr>children := removeFirst target (children n)\<rparr>"

section \<open>Pages of nodes\<close>

record npage =
  np_id :: pgid
  np_flags :: "16 word"
  np_count :: "16 word"
  np_overflow :: u32
  np_data :: "byte list"

record leafPageElement =
  le_flags :: u32
  le_pos :: u32
  le_ksize :: u32
  le_vsize :: u32

record branchPageElement =
  be_pos :: u32
  be_ksize :: u32
  be_pgid :: pgid

definition getLeaf :: "nat \<Rightarrow> byte list \<Rightarrow> leafPageElement" where
  "getLeaf i d =
     (let o1 = leafPageElementSize * i
      in \<lparr>le_flags = get_le (subslice d o1 (o1 + 4)), le_pos = get_le (subslice d (o1 + 4) (o1 + 8)),
          le_ksize = get_le (subslice d (o1 + 8) (o1 + 12)), le_vsize = get_le (subslice d (o1 + 12) (o1 + 16))\<rparr>)"

definition getBranch :: "nat \<Rightarrow> byte list \<Rightarrow> branchPageElement" where
  "getBranch i d =
     (let o1 = branchPageElementSize * i
      in \<lparr>be_pos = get_le (subslice d o1 (o1 + 4)), be_ksize = get_le (subslice d (o1 + 4) (o1 + 8)),
          be_pgid = get_le (subslice d (o1 + 8) (o1 + 16))\<rparr>)"

definition leafBytes :: "leafPageElement \<Rightarrow> byte list" where
  "leafBytes e = put_le 4 (le_flags e) @ put_le 4 (le_pos e) @ put_le 4 (le_ksize e) @ put_le 4 (le_vsize e)"

definition branchBytes :: "branchPageElement \<Rightarrow> byte list" where
  "branchBytes e = put_le 4 (be_pos e) @ put_le 4 (be_ksize e) @ put_le 8 (be_pgid e)"

text \<open>The bytes from \<open>ofs\<close> on; an element's key and value are found relative to the element.\<close>

definition bytesAt :: "byte list \<Rightarrow> nat \<Rightarrow> nat \<Rightarrow> byte list res" where
  "bytesAt d ofs len = (if length d < ofs + len then Inl IndexOutOfRange else Inr (subslice d ofs (ofs + len)))"

definition readInode :: "bool \<Rightarrow> nat \<Rightarrow> byte list \<Rightarrow> inode res" where
  "readInode leaf i d =
     (if length d < 16 * i + 16 then Inl IndexOutOfRange
      else if leaf then
        (let e = getLeaf i d; ofs = leafPageElementSize * i
         in case bytesAt d (ofs + unat (le_pos e)) (unat (le_ksize e)) of
              Inl x \<Rightarrow> Inl x
            | Inr k \<Rightarrow>
                (case bytesAt d (ofs + unat (le_pos e + le_ksize e)) (unat (le_vsize e)) of
                   Inl x \<Rightarrow> Inl x
                 | Inr v \<Rightarrow>
                     if k = [] then Inl (Panic ''assertion failed: read: zero-length inode key'')
                     else Inr \<lparr>i_flags = le_flags e, i_pgid = 0, i_key = k, i_value = v\<rparr>))
      else
        (let e = getBranch i d; ofs = branchPageElementSize * i
         in case bytesAt d (ofs + unat (be_pos e)) (unat (be_ksize e)) of
              Inl x \<Rightarrow> Inl x
            | Inr k \<Rightarrow>
                if k = [] then Inl (Panic ''assertion failed: read: zero-length inode key'')
                else Inr \<lparr>i_flags = 0, i_pgid = be_pgid e, i_key = k, i_value = []\<rparr>))"

fun readInodes :: "bool \<Rightarrow> byte list \<Rightarrow> nat list \<Rightarrow> inode list res" where
  "readInodes leaf d [] = Inr []"
| "readInodes leaf d (i # is) =
     (case readInode leaf i d of
        Inl e \<Rightarrow> Inl e
      | Inr x \<Rightarrow> map_sum (\<lambda>e. e) (\<lambda>xs. x # xs) (readInodes leaf d is))"

definition node_read :: "npage \<Rightarrow> node \<Rightarrow> node res" where
  "node_read p n =
     (let leaf = (and (np_flags p) leafPageFlag \<noteq> 0)
      in map_sum (\<lambda>e. e)
           (\<lambda>l. n\<lparr>n_pgid := np_id p, isLeaf := leaf, inodes := l, n_key := (if l \<noteq> [] then Some (i_key (hd l)) else None)\<rparr>)
           (readInodes leaf (np_data p) [0..<unat (np_count p)]))"

text \<open>The loop of \<open>write\<close>: entry \<open>i\<close> is next and \<open>b\<close> is the position at which its key goes.\<close>

fun writeLoop :: "bool \<Rightarrow> pgid \<Rightarrow> nat \<Rightarrow> nat \<Rightarrow> inode list \<Rightarrow> byte list \<Rightarrow> byte list res" where
  "writeLoop leaf pid i b [] d = Inr d"
| "writeLoop leaf pid i b (item # rest) d =
     (if i_key item = [] then Inl (Panic ''assertion failed: write: zero-length inode key'')
      else if length d < 16 * i + 16 then Inl IndexOutOfRange
      else
        (let d = (if leaf then
                    copy_at d (leafPageElementSize * i)
                      (leafBytes \<lparr>le_flags = i_flags item, le_pos = of_nat (b - leafPageElementSize * i),
                         le_ksize = of_nat (length (i_key item)), le_vsize = of_nat (length (i_value item))\<rparr>)
                  else
                    copy_at d (branchPageElementSize * i)
                      (branchBytes \<lparr>be_pos = of_nat (b - branchPageElementSize * i),
                         be_ksize = of_nat (length (i_key item)), be_pgid = i_pgid item\<rparr>));
             klen = length (i_key item); vlen = length (i_value item)
         in if \<not> leaf \<and> i_pgid item = pid then Inl (Panic ''assertion failed: write: circular dependency occurred'')
            else if length d < b + klen + vlen then Inl IndexOutOfRange
            else writeLoop leaf pid (Suc i) (b + klen + vlen) rest (copy_at (copy_at d b (i_key item)) (b + klen) (i_value item))))"

definition node_write :: "node \<Rightarrow> npage \<Rightarrow> npage res" where
  "node_write n p =
     (let p = p\<lparr>np_flags := or (np_flags p) (if isLeaf n then leafPageFlag else branchPageFlag)\<rparr>
      in if length (inodes n) \<ge> 0xFFFF then Inl (Panic ''inode overflow'')
         else
           (let p = p\<lparr>np_count := of_nat (length (inodes n))\<rparr>
            in if np_count p = 0 then Inr p
               else map_sum (\<lambda>e. e) (\<lambda>d. p\<lparr>np_data := d\<rparr>)
                      (writeLoop (isLeaf n) (np_id p) 0 (pageElementSize n * length (inodes n)) (inodes n) (np_data p))))"

end
