(* ===== verification/Bolt_Freelist_Props.thy ===== *)
theory Bolt_Freelist_Props
  imports Bolt_Freelist
begin

text \<open>
  Properties of bolt's freelist. Merging is sorting of the union. An invariant ties the sorted list of free
  ids, the pending lists and the cache together; every operation keeps it. Allocation, freeing, release,
  rollback and the page format are specified on the states that satisfy it.
\<close>


section \<open>Merging\<close>

lemma Search_spec:
  assumes mono: "\<And>a b. a \<le> b \<Longrightarrow> b < N \<Longrightarrow> f a \<Longrightarrow> f b"
    and "i \<le> j" "j \<le> N" "\<And>k. k < i \<Longrightarrow> \<not> f k" "\<And>k. j \<le> k \<Longrightarrow> k < N \<Longrightarrow> f k"
  shows "Search f i j \<le> j \<and> (\<forall>k < Search f i j. \<not> f k) \<and> (\<forall>k. Search f i j \<le> k \<longrightarrow> k < N \<longrightarrow> f k)"
  using assms(2-5)
proof (induction "j - i" arbitrary: i j rule: less_induct)
  case less
  show ?case
  proof (cases "i < j")
    case True
    define h where "h = (i + j) div 2"
    have h: "i \<le> h" "h < j" using True by (auto simp: h_def)
    show ?thesis
    proof (cases "f h")
      case True
      have "f k" if "h \<le> k" "k < N" for k using mono [OF that] True by simp
      then have "Search f i h \<le> h \<and> (\<forall>k < Search f i h. \<not> f k) \<and> (\<forall>k. Search f i h \<le> k \<longrightarrow> k < N \<longrightarrow> f k)"
        by (intro less.hyps) (use h less.prems in auto)
      then show ?thesis using True h \<open>i < j\<close> by (simp add: Search.simps [of f i j] h_def [symmetric] Let_def)
    next
      case False
      have "\<not> f k" if "k < Suc h" for k using mono [of k h] False that h(2) less.prems(2) by auto
      then have "Search f (Suc h) j \<le> j \<and> (\<forall>k < Search f (Suc h) j. \<not> f k) \<and> (\<forall>k. Search f (Suc h) j \<le> k \<longrightarrow> k < N \<longrightarrow> f k)"
        by (intro less.hyps) (use h less.prems in auto)
      then show ?thesis using False \<open>i < j\<close> by (simp add: Search.simps [of f i j] h_def [symmetric] Let_def)
    qed
  qed (use less.prems in \<open>simp add: Search.simps [of f]\<close>)
qed

lemma Search_sorted:
  assumes "sorted xs" and n: "n = Search (\<lambda>i. xs ! i > x) 0 (length xs)"
  shows "n \<le> length xs" "\<forall>y \<in> set (take n xs). y \<le> x" "\<forall>y \<in> set (drop n xs). x < y"
proof -
  have S: "n \<le> length xs" "\<forall>k < n. \<not> xs ! k > x" "\<forall>k. n \<le> k \<longrightarrow> k < length xs \<longrightarrow> xs ! k > x"
  proof -
    have "Search (\<lambda>i. xs ! i > x) 0 (length xs) \<le> length xs \<and> (\<forall>k < Search (\<lambda>i. xs ! i > x) 0 (length xs). \<not> xs ! k > x) \<and>
        (\<forall>k. Search (\<lambda>i. xs ! i > x) 0 (length xs) \<le> k \<longrightarrow> k < length xs \<longrightarrow> xs ! k > x)"
      by (rule Search_spec) (use sorted_nth_mono [OF assms(1)] in \<open>auto intro: order_less_le_trans\<close>)
    then show "n \<le> length xs" "\<forall>k < n. \<not> xs ! k > x" "\<forall>k. n \<le> k \<longrightarrow> k < length xs \<longrightarrow> xs ! k > x" unfolding n by blast+
  qed
  show "n \<le> length xs" by (rule S)
  show "\<forall>y \<in> set (take n xs). y \<le> x" using S by (auto simp: in_set_conv_nth not_less)
  show "\<forall>y \<in> set (drop n xs). x < y" using S by (auto simp: in_set_conv_nth)
qed

lemma mergeLoop_sorts:
  assumes "sorted lead" "sorted follow" "follow \<noteq> []" "lead \<noteq> [] \<Longrightarrow> lead ! 0 \<le> follow ! 0"
  shows "mergeLoop lead follow merged = Some (merged @ sort (lead @ follow))"
  using assms
proof (induction "length lead + length follow" arbitrary: lead follow merged rule: less_induct)
  case less
  show ?case
  proof (cases "lead = []")
    case True
    then show ?thesis using less.prems by (simp add: mergeLoop.simps sorted_sort_id)
  next
    case False
    define n where "n = Search (\<lambda>i. lead ! i > follow ! 0) 0 (length lead)"
    note S = Search_sorted [OF less.prems(1) n_def]
    have hd: "follow ! 0 \<le> y" if "y \<in> set follow" for y
      using that less.prems(2) by (cases follow) auto
    have "n \<noteq> 0"
    proof
      assume "n = 0"
      moreover have "lead ! 0 \<in> set lead" using False by simp
      ultimately have "follow ! 0 < lead ! 0" using S(3) by simp
      then show False using less.prems(4) False by simp
    qed
    have eq: "sort (lead @ follow) = take n lead @ sort (follow @ drop n lead)"
    proof (rule properties_for_sort)
      have "mset (take n lead) + mset (drop n lead) = mset lead" by (metis append_take_drop_id mset_append)
      then show "mset (take n lead @ sort (follow @ drop n lead)) = mset (lead @ follow)" by (simp add: ac_simps)
      have "y \<le> z" if "y \<in> set (take n lead)" "z \<in> set follow \<union> set (drop n lead)" for y z
        using that S(2,3) hd by (meson UnE le_less_trans less_imp_le order_trans)
      then show "sorted (take n lead @ sort (follow @ drop n lead))"
        using less.prems(1) by (auto simp: sorted_append sorted_wrt_take)
    qed
    have step: "mergeLoop lead follow merged = (if n \<ge> length lead then Some (merged @ take n lead @ follow)
        else mergeLoop follow (drop n lead) (merged @ take n lead))"
      using False less.prems(3) by (simp add: mergeLoop.simps [of lead] n_def Let_def)
    show ?thesis
    proof (cases "n \<ge> length lead")
      case True
      then show ?thesis using step eq less.prems(2) by (simp add: sorted_sort_id)
    next
      case F: False
      then have "drop n lead ! 0 \<in> set (drop n lead)" by (intro nth_mem) simp
      then have "follow ! 0 \<le> drop n lead ! 0" using S(3) by (meson less_imp_le)
      then have "mergeLoop follow (drop n lead) (merged @ take n lead) = Some ((merged @ take n lead) @ sort (follow @ drop n lead))"
        using less.hyps [of follow "drop n lead"] less.prems \<open>n \<noteq> 0\<close> F by (simp add: sorted_wrt_drop)
      then show ?thesis using step eq F by simp
    qed
  qed
qed

lemma mergepgids_sorts:
  assumes "sorted a" "sorted b" "length a + length b \<le> length dst"
  shows "mergepgids dst a b = Inr (sort (a @ b) @ drop (length a + length b) dst)"
proof -
  have c: "copy_at dst 0 xs = xs @ drop (length xs) dst" for xs :: "pgid list" by (simp add: copy_at_def)
  have "mergeLoop a b [] = Some (sort (a @ b))" if "a \<noteq> []" "b \<noteq> []" "\<not> b ! 0 < a ! 0"
    using mergeLoop_sorts [OF assms(1,2) that(2), of "[]"] that by simp
  moreover have "mergeLoop b a [] = Some (sort (a @ b))" if "a \<noteq> []" "b \<noteq> []" "b ! 0 < a ! 0"
  proof -
    have "sort (b @ a) = sort (a @ b)" by (rule properties_for_sort) simp_all
    then show ?thesis using mergeLoop_sorts [OF assms(2,1) that(1), of "[]"] that by simp
  qed
  ultimately show ?thesis using assms by (auto simp: mergepgids_def c sorted_sort_id Let_def)
qed

lemma merge_sorts:
  assumes "sorted a" "sorted b"
  shows "fl_merge a b = Inr (sort (a @ b))"
  using assms mergepgids_sorts [OF assms, of "replicate (length a + length b) 0"] by (auto simp: fl_merge_def sorted_sort_id)


section \<open>Allocation\<close>

definition run :: "pgid \<Rightarrow> nat \<Rightarrow> pgid list" where
  "run p m = map (\<lambda>k. p + of_nat k) [0..<m]"

lemma run_simps [simp]: "run p 0 = []" "run p (Suc m) = run p m @ [p + of_nat m]" "length (run p m) = m"
  by (simp_all add: run_def)

lemma run_mem: "k < m \<Longrightarrow> p + of_nat k \<in> set (run p m)"
  by (auto simp: run_def)

definition has_run :: "nat \<Rightarrow> pgid list \<Rightarrow> pgid \<Rightarrow> bool" where
  "has_run n xs q \<longleftrightarrow> (\<forall>k < n. q + of_nat k \<in> set xs)"

lemma gt_one_pred: "1 < (x :: u64) \<Longrightarrow> x - 1 < x"
  by uint_arith

lemma pred_ge: "(x :: u64) < y \<Longrightarrow> x \<le> y - 1"
  by uint_arith

lemma has_run_pred:
  assumes "has_run n xs q" "q + of_nat (n - 1) = y" "j < n"
  shows "y - of_nat j \<in> set xs"
proof -
  have "q + of_nat (n - 1 - j) \<in> set xs" by (rule assms(1) [unfolded has_run_def, rule_format]) (use assms(3) in simp)
  moreover have "of_nat (n - 1) = (of_nat (n - 1 - j) + of_nat j :: u64)" using assms(3) by (simp flip: of_nat_add)
  then have "y - of_nat j = q + of_nat (n - 1 - j)" unfolding assms(2) [symmetric] by simp
  ultimately show ?thesis by simp
qed

lemma of_nat_eq_n: "a < 2 ^ 64 \<Longrightarrow> b < 2 ^ 64 \<Longrightarrow> (of_nat a :: u64) = of_nat b \<longleftrightarrow> a = b"
  by (simp add: word_of_nat_eq_iff take_bit_nat_eq_self)

lemma allocScan_spec:
  assumes xs: "sorted_wrt (<) xs" "\<And>q. q \<in> set xs \<Longrightarrow> 1 < q" and n: "0 < n" "n < 2 ^ 64"
    and "xs = pre @ run initial m @ rest" "m < n" "i = length pre + m"
    and "if m = 0 then previd = 0 \<and> pre = [] else previd = initial + of_nat (m - 1) \<and> initial - 1 \<notin> set pre"
    and "\<And>q. has_run n xs q \<Longrightarrow> q + of_nat (n - 1) \<in> set rest"
  shows "(\<exists>j p pre' rest'. allocScan n i initial previd rest = Inr (Some (j, p)) \<and> xs = pre' @ run p n @ rest' \<and> Suc j = length pre' + n) \<or>
    (allocScan n i initial previd rest = Inr None \<and> (\<nexists>q. has_run n xs q))"
  using assms(5-9)
proof (induction rest arbitrary: pre initial m i previd)
  case Nil
  then show ?case by auto
next
  case (Cons pid rest)
  have pid: "1 < pid" using xs(2) Cons.prems(1) by simp
  then have npid: "\<not> pid \<le> 1" by (simp add: not_le)
  have above: "pid \<le> y" if "y \<in> set (pid # rest)" for y using xs(1) that Cons.prems(1) by (auto simp: sorted_wrt_append)
  have below: "y < pid" if "y \<in> set (pre @ run initial m)" for y using xs(1) that Cons.prems(1) by (auto simp: sorted_wrt_append)
  have p1: "pid - 1 < pid" by (rule gt_one_pred [OF pid])
  show ?case
  proof (cases "m > 0 \<and> pid - previd = 1")
    case True
    then have pv: "previd = initial + of_nat (m - 1)" "initial - 1 \<notin> set pre" using Cons.prems(4) by auto
    have "of_nat m = (of_nat (m - 1) + 1 :: u64)" using True by (cases m) simp_all
    moreover have "pid = previd + 1" using True by (simp add: diff_eq_eq add.commute)
    ultimately have pe: "pid = initial + of_nat m" using pv(1) by (simp add: add.assoc)
    have "previd \<in> set (run initial m)" unfolding pv(1) by (rule run_mem) (use True in simp)
    then have "previd \<noteq> 0" using xs(2) Cons.prems(1) by force
    have scan: "allocScan n i initial previd (pid # rest) =
        (if of_nat (Suc m) = (of_nat n :: u64) then Inr (Some (i, initial)) else allocScan n (Suc i) initial pid rest)"
    proof -
      have "pid - initial + 1 = of_nat (Suc m)" using pe by simp
      then show ?thesis using True npid \<open>previd \<noteq> 0\<close> by (simp add: Let_def del: of_nat_Suc)
    qed
    have xs': "xs = pre @ run initial (Suc m) @ rest" using Cons.prems(1) pe by simp
    show ?thesis
    proof (cases "Suc m = n")
      case True
      then show ?thesis using scan xs' Cons.prems(3) by (intro disjI1 exI [of _ i] exI [of _ initial] exI [of _ pre] exI [of _ rest]) auto
    next
      case False
      then have m': "Suc m < n" using Cons.prems(2) by simp
      have ini: "1 < initial" using xs(2) [of initial] True run_mem [of 0 m initial] unfolding Cons.prems(1) by simp
      have "q + of_nat (n - 1) \<in> set rest" if h: "has_run n xs q" for q
      proof (rule ccontr)
        assume "q + of_nat (n - 1) \<notin> set rest"
        then have "q + of_nat (n - 1) = pid" using Cons.prems(5) [OF h] by simp
        from has_run_pred [OF h this m'] have "initial - 1 \<in> set xs" by (simp add: pe)
        moreover have "initial - 1 < initial" by (rule gt_one_pred [OF ini])
        moreover have "initial \<le> y" if "y \<in> set (run initial m @ pid # rest)" for y
        proof -
          have "hd (run initial m @ pid # rest) = initial" using True by (simp add: run_def hd_append upt_conv_Cons)
          moreover have "sorted_wrt (<) (run initial m @ pid # rest)" using xs(1) Cons.prems(1) by (simp add: sorted_wrt_append)
          ultimately show ?thesis using that by (cases "run initial m @ pid # rest") auto
        qed
        ultimately show False using pv(2) unfolding Cons.prems(1) by (auto simp: not_le [symmetric])
      qed
      moreover have "of_nat (Suc m) \<noteq> (of_nat n :: u64)" using False m' n of_nat_eq_n [of "Suc m" n] by simp
      ultimately show ?thesis using Cons.IH [of pre initial "Suc m" "Suc i" pid] xs' m' Cons.prems(3) pv pe scan by simp
    qed
  next
    case False
    have scan: "allocScan n i initial previd (pid # rest) =
        (if 1 = (of_nat n :: u64) then Inr (Some (i, pid)) else allocScan n (Suc i) pid pid rest)"
      using False npid Cons.prems(4) by (auto simp: Let_def)
    have one: "(of_nat n :: u64) = 1 \<longleftrightarrow> n = 1" using of_nat_eq_n [of n 1] n by simp
    have xs': "xs = (pre @ run initial m) @ run pid 1 @ rest" using Cons.prems(1) by simp
    have gap: "pid - 1 \<notin> set (pre @ run initial m)"
    proof
      assume a: "pid - 1 \<in> set (pre @ run initial m)"
      then have m: "m > 0" using Cons.prems(4) by (cases m) auto
      then have pv: "previd = initial + of_nat (m - 1)" using Cons.prems(4) by simp
      have "sorted_wrt (<) (pre @ run initial m)" using xs(1) Cons.prems(1) by (simp add: sorted_wrt_append)
      moreover have r: "pre @ run initial m = (pre @ run initial (m - 1)) @ [previd]" using m pv by (cases m) auto
      ultimately have "pid - 1 \<le> previd" using a by (auto simp: sorted_wrt_append)
      moreover have "previd < pid" using below [of previd] r by auto
      then have "previd \<le> pid - 1" by (rule pred_ge)
      ultimately have "pid - previd = 1" by (metis add_diff_cancel_left' diff_add_cancel order_antisym)
      then show False using False m by simp
    qed
    show ?thesis
    proof (cases "n = 1")
      case True
      then show ?thesis using scan xs' Cons.prems(3)
        by (intro disjI1 exI [of _ i] exI [of _ pid] exI [of _ "pre @ run initial m"] exI [of _ rest]) auto
    next
      case F: False
      have "q + of_nat (n - 1) \<in> set rest" if h: "has_run n xs q" for q
      proof (rule ccontr)
        assume "q + of_nat (n - 1) \<notin> set rest"
        then have "q + of_nat (n - 1) = pid" using Cons.prems(5) [OF h] by simp
        from has_run_pred [OF h this, of 1] F n have "pid - 1 \<in> set xs" by simp
        then show False using gap above p1 unfolding Cons.prems(1) by (auto simp: not_le [symmetric])
      qed
      then show ?thesis using Cons.IH [of "pre @ run initial m" pid 1 "Suc i" pid] xs' F n Cons.prems(3) gap scan one by auto
    qed
  qed
qed


section \<open>The invariant\<close>

definition pendingIds :: "freelist \<Rightarrow> pgid set" where
  "pendingIds f = (\<Union>t. set (pendingOf f t))"

text \<open>
  Free ids are sorted, no page is listed twice, and the pages 0 and 1, which hold the meta data, never; the
  cache is exactly the set of the listed pages.
\<close>

definition fl_inv :: "freelist \<Rightarrow> bool" where
  "fl_inv f \<longleftrightarrow> sorted_wrt (<) (ids f) \<and> (\<forall>q \<in> set (ids f) \<union> pendingIds f. 1 < q) \<and>
     (\<forall>t. distinct (pendingOf f t)) \<and> (\<forall>t t' q. q \<in> set (pendingOf f t) \<longrightarrow> q \<in> set (pendingOf f t') \<longrightarrow> t = t') \<and>
     set (ids f) \<inter> pendingIds f = {} \<and> (\<forall>q. cache f q \<longleftrightarrow> q \<in> set (ids f) \<union> pendingIds f)"

lemma fl_invD:
  assumes "fl_inv f"
  shows "sorted_wrt (<) (ids f)" "\<And>q. q \<in> set (ids f) \<Longrightarrow> 1 < q" "\<And>q t. q \<in> set (pendingOf f t) \<Longrightarrow> 1 < q"
    "\<And>t. distinct (pendingOf f t)"
  using assms by (auto simp: fl_inv_def pendingIds_def)

lemma fl_inv_owner:
  assumes "fl_inv f" "q \<in> set (pendingOf f t)" "q \<in> set (pendingOf f t')"
  shows "t = t'"
proof -
  have "\<forall>t t' q. q \<in> set (pendingOf f t) \<longrightarrow> q \<in> set (pendingOf f t') \<longrightarrow> t = t'" using assms(1) unfolding fl_inv_def by (elim conjE)
  then show ?thesis using assms(2,3) by metis
qed

lemma fl_inv_free:
  assumes "fl_inv f" "q \<in> set (ids f)"
  shows "q \<notin> set (pendingOf f t)"
proof -
  have "set (ids f) \<inter> pendingIds f = {}" using assms(1) unfolding fl_inv_def by (elim conjE)
  then show ?thesis using assms(2) by (auto simp: pendingIds_def)
qed

lemma fl_inv_cache:
  assumes "fl_inv f"
  shows "cache f q \<longleftrightarrow> q \<in> set (ids f) \<or> (\<exists>t. q \<in> set (pendingOf f t))"
  using assms by (simp add: fl_inv_def pendingIds_def)

lemma fl_invI:
  assumes "sorted_wrt (<) (ids f)" "\<And>q. q \<in> set (ids f) \<Longrightarrow> 1 < q" "\<And>q t. q \<in> set (pendingOf f t) \<Longrightarrow> 1 < q"
    "\<And>t. distinct (pendingOf f t)" "\<And>q t t'. q \<in> set (pendingOf f t) \<Longrightarrow> q \<in> set (pendingOf f t') \<Longrightarrow> t = t'"
    "\<And>q t. q \<in> set (ids f) \<Longrightarrow> q \<notin> set (pendingOf f t)"
    "\<And>q. cache f q \<longleftrightarrow> q \<in> set (ids f) \<or> (\<exists>t. q \<in> set (pendingOf f t))"
  shows "fl_inv f"
  unfolding fl_inv_def pendingIds_def
proof (intro conjI allI impI)
  show "\<And>t t' q. q \<in> set (pendingOf f t) \<Longrightarrow> q \<in> set (pendingOf f t') \<Longrightarrow> t = t'" by (fact assms(5))
qed (use assms(1-4,6,7) in auto)

lemma newFreelist_inv: "fl_inv newFreelist"
  by (simp add: fl_inv_def newFreelist_def pendingIds_def pendingOf_def)

lemma filter_run:
  assumes "sorted_wrt (<) (pre @ r @ rest)"
  shows "filter (\<lambda>q. q \<notin> set r) (pre @ r @ (rest :: pgid list)) = pre @ rest"
proof -
  have "set pre \<inter> set r = {}" "set rest \<inter> set r = {}" using assms by (fastforce simp: sorted_wrt_append)+
  then have "filter (\<lambda>q. q \<notin> set r) pre = pre" "filter (\<lambda>q. q \<notin> set r) rest = rest" by (auto simp: filter_id_conv)
  then show ?thesis by (simp add: filter_empty_conv)
qed

lemma allocate_cases:
  assumes I: "fl_inv f" and n: "0 < n" "n < 2 ^ 64"
  shows "(\<exists>p. allocate n f = Inr (p, f\<lparr>ids := filter (\<lambda>q. q \<notin> set (run p n)) (ids f), cache := (\<lambda>q. cache f q \<and> q \<notin> set (run p n))\<rparr>) \<and>
      set (run p n) \<subseteq> set (ids f)) \<or>
    (allocate n f = Inr (0, f) \<and> (\<nexists>q. has_run n (ids f) q))"
proof (cases "ids f = []")
  case True
  then show ?thesis using n by (auto simp: allocate_def has_run_def)
next
  case False
  have xs: "sorted_wrt (<) (ids f)" "\<And>q. q \<in> set (ids f) \<Longrightarrow> 1 < q" using I by (auto simp: fl_inv_def)
  have "q + of_nat (n - 1) \<in> set (ids f)" if "has_run n (ids f) q" for q
    by (rule that [unfolded has_run_def, rule_format]) (use n in simp)
  then consider (found) j p pre rest where "allocScan n 0 0 0 (ids f) = Inr (Some (j, p))" "ids f = pre @ run p n @ rest" "Suc j = length pre + n"
    | (none) "allocScan n 0 0 0 (ids f) = Inr None" "\<nexists>q. has_run n (ids f) q"
    using allocScan_spec [OF xs n, of "[]" 0 0 "ids f" 0 0] n by auto
  then show ?thesis
  proof cases
    case found
    have d: "drop (Suc j) (ids f) = rest" using found(2,3) by simp
    have "take (length (ids f) - n) (copy_at (ids f) (Suc j - n) rest) = pre @ rest" using found(2,3) by (simp add: copy_at_def)
    moreover have "Suc j = n \<Longrightarrow> pre = []" using found(3) by simp
    ultimately have "allocate n f = Inr (p, f\<lparr>ids := pre @ rest, cache := (\<lambda>q. cache f q \<and> q \<notin> set (run p n))\<rparr>)"
      using False found(1,3) d by (auto simp: allocate_def Let_def run_def)
    moreover have "pre @ rest = filter (\<lambda>q. q \<notin> set (run p n)) (ids f)" using filter_run [of pre "run p n" rest] xs(1) found(2) by simp
    ultimately show ?thesis using found(2) by auto
  next
    case none
    then show ?thesis using False by (simp add: allocate_def)
  qed
qed

lemma alloc_inv:
  assumes I: "fl_inv f" and "R \<subseteq> set (ids f)"
  shows "fl_inv (f\<lparr>ids := filter (\<lambda>q. q \<notin> R) (ids f), cache := (\<lambda>q. cache f q \<and> q \<notin> R)\<rparr>)" (is "fl_inv ?g")
proof -
  have p [simp]: "pendingOf (f\<lparr>ids := i, cache := c\<rparr>) t = pendingOf f t" for i c t by (simp add: pendingOf_def)
  show ?thesis
  proof (rule fl_invI)
    show "t1 = t2" if "q \<in> set (pendingOf ?g t1)" "q \<in> set (pendingOf ?g t2)" for q t1 t2
      using that fl_inv_owner [OF I] by simp
  qed (use assms(2) fl_invD [OF I] fl_inv_free [OF I] fl_inv_cache [OF I] in \<open>auto simp: sorted_wrt_filter\<close>)
qed

text \<open>Freeing a page and its overflow.\<close>

lemma run_Cons: "run p (Suc m) = p # run (p + 1) m"
  by (simp add: run_def upt_conv_Cons map_Suc_upt [symmetric] comp_def add.assoc del: upt_Suc)

lemma freeLoop_spec:
  assumes "unat pid + m < 2 ^ 64 - 1"
  shows "freeLoop pid (pid + of_nat m) l ch =
    (if \<exists>q \<in> set (run pid (Suc m)). ch q then Some (Inl (Panic ''page already freed''))
     else Some (Inr (l @ run pid (Suc m), \<lambda>q. ch q \<or> q \<in> set (run pid (Suc m)))))"
  using assms
proof (induction m arbitrary: pid l ch)
  case 0
  have u: "unat (pid + 1) = unat pid + 1" using 0 by (simp add: unat_word_ariths)
  then have "\<not> pid + 1 \<le> pid" by (simp add: word_le_nat_alt)
  then show ?case by (auto simp: freeLoop.simps [of pid] freeLoop.simps [of "pid + 1"] fun_eq_iff)
next
  case (Suc m)
  have u: "unat (pid + 1) = unat pid + 1" using Suc.prems by (simp add: unat_word_ariths)
  have "unat (pid + of_nat (Suc m)) = unat pid + Suc m" using Suc.prems by (simp add: unat_word_ariths unat_of_nat)
  then have le: "pid \<le> pid + of_nat (Suc m)" by (simp add: word_le_nat_alt)
  have fin: "pid + of_nat (Suc m) = (pid + 1) + of_nat m" by simp
  have pn: "pid \<notin> set (run (pid + 1) (Suc m))"
  proof
    assume "pid \<in> set (run (pid + 1) (Suc m))"
    then obtain k where k: "k < Suc m" "pid = pid + 1 + of_nat k" by (auto simp: run_def simp del: upt_Suc)
    then have "of_nat (Suc k) = (0 :: u64)" by (simp add: add.assoc)
    moreover have "Suc k < 2 ^ 64" using k(1) Suc.prems by simp
    ultimately show False using of_nat_eq_n [of "Suc k" 0] by simp
  qed
  have IH: "freeLoop (pid + 1) (pid + of_nat (Suc m)) (l @ [pid]) (ch(pid := True)) =
    (if \<exists>q \<in> set (run (pid + 1) (Suc m)). (ch(pid := True)) q then Some (Inl (Panic ''page already freed''))
     else Some (Inr ((l @ [pid]) @ run (pid + 1) (Suc m), \<lambda>q. (ch(pid := True)) q \<or> q \<in> set (run (pid + 1) (Suc m)))))"
    unfolding fin by (rule Suc.IH) (use Suc.prems u in simp)
  have ex: "(\<exists>q \<in> set (run (pid + 1) (Suc m)). (ch(pid := True)) q) = (\<exists>q \<in> set (run (pid + 1) (Suc m)). ch q)" using pn by auto
  show ?case
  proof (cases "ch pid")
    case True
    then show ?thesis using le by (simp add: freeLoop.simps [of pid] run_Cons [of pid "Suc m"] del: run_simps of_nat_Suc)
  next
    case False
    then have "freeLoop pid (pid + of_nat (Suc m)) l ch = freeLoop (pid + 1) (pid + of_nat (Suc m)) (l @ [pid]) (ch(pid := True))"
      using le by (simp add: freeLoop.simps [of pid] del: of_nat_Suc)
    then show ?thesis using False unfolding IH ex run_Cons [of pid "Suc m"] by (auto simp del: run_simps)
  qed
qed

section \<open>Freeing, releasing and rolling back\<close>

lemma pendingOf_simps [simp]: "pendingOf (f\<lparr>pending := (pending f)(t \<mapsto> l), cache := c\<rparr>) t' = (if t' = t then l else pendingOf f t')"
  by (simp add: pendingOf_def)

lemma run_distinct: "m < 2 ^ 64 \<Longrightarrow> distinct (run p m)"
  by (auto simp: run_def distinct_map inj_on_def of_nat_eq_n)

lemma run_ge:
  assumes "unat p + m \<le> 2 ^ 64" "q \<in> set (run p m)"
  shows "p \<le> q"
proof -
  obtain k where "k < m" "q = p + of_nat k" using assms(2) by (auto simp: run_def)
  then have "unat q = unat p + k" using assms(1) by (simp add: unat_word_ariths unat_of_nat)
  then show ?thesis by (simp add: word_le_nat_alt)
qed

text \<open>The ids of a page and its overflow.\<close>

definition pageRun :: "page \<Rightarrow> pgid list" where
  "pageRun p = run (p_id p) (Suc (unat (p_overflow p)))"

lemma free_cases:
  assumes "1 < p_id p" "unat (p_id p) + unat (p_overflow p) < 2 ^ 64 - 1"
  shows "fl_free t p f =
    (if \<exists>q \<in> set (pageRun p). cache f q then Some (Inl (Panic ''page already freed''))
     else Some (Inr (f\<lparr>pending := (pending f)(t \<mapsto> pendingOf f t @ pageRun p), cache := (\<lambda>q. cache f q \<or> q \<in> set (pageRun p))\<rparr>)))"
proof -
  have "(ucast (p_overflow p) :: u64) = of_nat (unat (p_overflow p))" by simp
  moreover have "\<not> p_id p \<le> 1" using assms(1) by (simp add: not_le)
  ultimately show ?thesis
    using freeLoop_spec [OF assms(2), of "pendingOf f t" "cache f"] unfolding fl_free_def pageRun_def
    by (simp del: run_simps of_nat_unat)
qed

lemma free_inv:
  assumes I: "fl_inv f" and p: "1 < p_id p" "unat (p_id p) + unat (p_overflow p) < 2 ^ 64 - 1"
    and r: "\<not> (\<exists>q \<in> set (pageRun p). cache f q)"
  shows "fl_inv (f\<lparr>pending := (pending f)(t \<mapsto> pendingOf f t @ pageRun p), cache := (\<lambda>q. cache f q \<or> q \<in> set (pageRun p))\<rparr>)"
    (is "fl_inv ?g")
proof -
  have d: "distinct (pageRun p)" unfolding pageRun_def by (rule run_distinct) (use p(2) in simp)
  have ge: "1 < q" if "q \<in> set (pageRun p)" for q
    using run_ge [of "p_id p" "Suc (unat (p_overflow p))" q] that p unfolding pageRun_def by (simp del: run_simps)
  have n: "q \<notin> set (pendingOf f t')" "q \<notin> set (ids f)" if "q \<in> set (pageRun p)" for q t'
    using that r fl_inv_cache [OF I] by auto
  show ?thesis
  proof (rule fl_invI)
    show "t1 = t2" if "q \<in> set (pendingOf ?g t1)" "q \<in> set (pendingOf ?g t2)" for q t1 t2
      using that n(1) fl_inv_owner [OF I] by (auto split: if_splits)
    have "(\<exists>t'. q \<in> set (pendingOf ?g t')) \<longleftrightarrow> (\<exists>t'. q \<in> set (pendingOf f t')) \<or> q \<in> set (pageRun p)" for q by (auto split: if_splits)
    then show "cache ?g q \<longleftrightarrow> q \<in> set (ids ?g) \<or> (\<exists>t'. q \<in> set (pendingOf ?g t'))" for q using fl_inv_cache [OF I, of q] by auto
  qed (use d ge n fl_invD [OF I] fl_inv_free [OF I] in \<open>auto split: if_splits\<close>)
qed

lemma rollback_inv:
  assumes I: "fl_inv f"
  shows "fl_inv (rollback t f)"
proof -
  have p [simp]: "pendingOf (rollback t f) t' = (if t' = t then [] else pendingOf f t')" for t' by (simp add: rollback_def pendingOf_def)
  have i [simp]: "ids (rollback t f) = ids f" "cache (rollback t f) q \<longleftrightarrow> cache f q \<and> q \<notin> set (pendingOf f t)" for q
    by (simp_all add: rollback_def)
  show ?thesis
  proof (rule fl_invI)
    show "t1 = t2" if "q \<in> set (pendingOf (rollback t f) t1)" "q \<in> set (pendingOf (rollback t f) t2)" for q t1 t2
      using that fl_inv_owner [OF I] by (auto split: if_splits)
    show "cache (rollback t f) q \<longleftrightarrow> q \<in> set (ids (rollback t f)) \<or> (\<exists>t'. q \<in> set (pendingOf (rollback t f) t'))" for q
      using fl_inv_owner [OF I, of q t] fl_inv_free [OF I, of q t] fl_inv_cache [OF I, of q] by auto
  qed (use fl_invD [OF I] fl_inv_free [OF I] in \<open>auto split: if_splits\<close>)
qed

text \<open>The pending ids of some transactions, in the order in which the map is iterated.\<close>

abbreviation pendingAll :: "txid list \<Rightarrow> freelist \<Rightarrow> pgid list" where
  "pendingAll tids f \<equiv> concat (map (pendingOf f) tids)"

lemma pendingAll_distinct:
  assumes I: "fl_inv f" and "distinct tids"
  shows "distinct (pendingAll tids f)" "set (ids f) \<inter> set (pendingAll tids f) = {}"
proof -
  show "distinct (pendingAll tids f)" using assms(2)
    by (induction tids) (use fl_invD(4) [OF I] fl_inv_owner [OF I] in auto)
  show "set (ids f) \<inter> set (pendingAll tids f) = {}" using fl_inv_free [OF I] by auto
qed

lemma strict_sorted_sort:
  assumes "distinct xs"
  shows "sorted_wrt (<) (sort xs)"
  by (simp add: assms strict_sorted_iff)

lemma release_eq:
  assumes "fl_inv f"
  shows "release tids t f = Inr (f\<lparr>pending := (\<lambda>tid. if tid \<le> t then None else pending f tid),
    ids := sort (ids f @ pendingAll (filter (\<lambda>tid. tid \<le> t) tids) f)\<rparr>)"
proof -
  have "sorted (ids f)" using assms by (simp add: fl_inv_def strict_sorted_imp_sorted)
  moreover have "sort (ids f @ sort ys) = sort (ids f @ ys)" for ys by (rule properties_for_sort) simp_all
  ultimately show ?thesis by (simp add: release_def merge_sorts)
qed

lemma release_inv:
  assumes I: "fl_inv f" and o: "distinct tids" "set tids = dom (pending f)"
  shows "fl_inv (f\<lparr>pending := (\<lambda>tid. if tid \<le> t then None else pending f tid),
    ids := sort (ids f @ pendingAll (filter (\<lambda>tid. tid \<le> t) tids) f)\<rparr>)" (is "fl_inv ?g")
proof -
  have p: "pendingOf ?g t' = (if t' \<le> t then [] else pendingOf f t')" for t' by (simp add: pendingOf_def)
  have r: "set (pendingAll (filter (\<lambda>tid. tid \<le> t) tids) f) = (\<Union>t' \<in> {..t}. set (pendingOf f t'))"
    using o(2) by (fastforce simp: pendingOf_def split: option.splits)
  have g [simp]: "set (ids ?g) = set (ids f) \<union> (\<Union>t' \<in> {..t}. set (pendingOf f t'))" "cache ?g = cache f" using r by simp_all
  show ?thesis
  proof (rule fl_invI)
    show "sorted_wrt (<) (ids ?g)"
      using pendingAll_distinct [OF I, of "filter (\<lambda>tid. tid \<le> t) tids"] o(1) fl_invD(1) [OF I]
      by (auto intro!: strict_sorted_sort simp: strict_sorted_iff)
    show "t1 = t2" if "q \<in> set (pendingOf ?g t1)" "q \<in> set (pendingOf ?g t2)" for q t1 t2
      using that fl_inv_owner [OF I] unfolding p by (auto split: if_splits)
    show "cache ?g q \<longleftrightarrow> q \<in> set (ids ?g) \<or> (\<exists>t'. q \<in> set (pendingOf ?g t'))" for q
      unfolding g p using fl_inv_cache [OF I, of q] by (auto split: if_splits)
    show "q \<notin> set (pendingOf ?g t')" if "q \<in> set (ids ?g)" for q t'
      using that fl_inv_free [OF I, of q] fl_inv_owner [OF I, of q] unfolding g p by (auto split: if_splits)
    show "1 < q" if "q \<in> set (ids ?g)" for q using that fl_invD(2,3) [OF I] unfolding g by auto
    show "1 < q" if "q \<in> set (pendingOf ?g t')" for q t' using that fl_invD(3) [OF I] unfolding p by (auto split: if_splits)
    show "distinct (pendingOf ?g t')" for t' using fl_invD(4) [OF I] unfolding p by auto
  qed
qed

section \<open>The page of a freelist\<close>

text \<open>All ids of a freelist, as they are written.\<close>

definition allIds :: "txid list \<Rightarrow> freelist \<Rightarrow> pgid list" where
  "allIds tids f = sort (ids f @ pendingAll tids f)"

lemma length_allIds: "length (allIds tids f) = fl_count tids f"
  by (simp add: allIds_def fl_count_def free_count_def pending_count_def length_concat comp_def)

lemma sorted_allIds [simp]: "sorted (allIds tids f)"
  by (simp add: allIds_def)

lemma allIds_distinct:
  assumes "fl_inv f" "distinct tids"
  shows "distinct (allIds tids f)" "q \<in> set (allIds tids f) \<Longrightarrow> 1 < q"
  using pendingAll_distinct [OF assms] fl_invD [OF assms(1)] by (auto simp: allIds_def strict_sorted_iff)

lemma pending_dom: "q \<in> set (pendingOf f t) \<Longrightarrow> t \<in> dom (pending f)"
  by (cases "pending f t") (auto simp: pendingOf_def)

lemma pendingAll_set:
  assumes "set tids = dom (pending f)"
  shows "q \<in> set (pendingAll tids f) \<longleftrightarrow> (\<exists>t. q \<in> set (pendingOf f t))"
  using assms pending_dom by fastforce

lemma fl_count_bound:
  assumes "fl_inv f" "distinct tids"
  shows "fl_count tids f < 2 ^ 64"
proof -
  have "(0 :: u64) \<notin> set (allIds tids f)" using allIds_distinct(2) [OF assms, of 0] by (metis not_one_less_zero word_not_simps(1))
  then have "set (allIds tids f) \<subset> UNIV" by blast
  then have "card (set (allIds tids f)) < CARD(u64)" by (rule psubset_card_mono [rotated]) simp
  then show ?thesis using distinct_card [OF allIds_distinct(1) [OF assms]] by (simp add: card_word length_allIds [symmetric])
qed

lemma copyall_eq:
  assumes "fl_inv f" "fl_count tids f \<le> length dst"
  shows "copyall tids f dst = Inr (allIds tids f @ drop (fl_count tids f) dst)"
proof -
  have "sort (ids f @ sort ys) = sort (ids f @ ys)" for ys by (rule properties_for_sort) simp_all
  moreover have "length (ids f) + length (pendingAll tids f) = fl_count tids f" using length_allIds [of tids f] by (simp add: allIds_def)
  moreover have "sorted (ids f)" using fl_invD(1) [OF assms(1)] by (rule strict_sorted_imp_sorted)
  ultimately show ?thesis using assms(2) unfolding copyall_def allIds_def by (simp add: mergepgids_sorts)
qed

lemma write_read_cases:
  assumes I: "fl_inv f" and d: "distinct tids" and sz: "fl_size tids f \<le> pageHeaderSize + 8 * length (p_data p)"
  shows "\<exists>p'. fl_write tids f p = Inr p' \<and> p_flags p' = or (p_flags p) freelistPageFlag \<and> p_id p' = p_id p \<and>
    (\<forall>tids' g. fl_read tids' p' g =
      Inr (reindex tids' (g\<lparr>ids := (if fl_count tids f < 0xFFFF then allIds tids f else butlast (allIds tids f))\<rparr>)))"
proof -
  let ?n = "fl_count tids f" and ?all = "allIds tids f"
  have l: "length ?all = ?n" by (rule length_allIds)
  have srt: "sort (take k ?all) = take k ?all" for k by (simp add: sorted_sort_id sorted_wrt_take)
  consider (zero) "?n = 0" | (small) "?n \<noteq> 0" "?n < 0xFFFF" | (large) "\<not> ?n < 0xFFFF" by blast
  then show ?thesis
  proof cases
    case zero
    then have "?all = []" using l by simp
    then show ?thesis using zero by (simp add: fl_write_def fl_read_def)
  next
    case small
    then have cap: "?n \<le> length (p_data p)" using sz by (simp add: fl_size_def Let_def)
    have c: "unat (of_nat ?n :: 16 word) = ?n" using small by (simp add: unat_of_nat)
    then have "(of_nat ?n :: 16 word) \<noteq> 0xFFFF" using small by auto
    then show ?thesis using small cap c srt [of ?n] l
      by (simp add: fl_write_def fl_read_def copyall_eq [OF I cap] subslice_def Let_def)
  next
    case large
    then have cap: "Suc ?n \<le> length (p_data p)" using sz by (simp add: fl_size_def Let_def)
    then have cap': "?n \<le> length (tl (p_data p))" by simp
    have c: "unat (of_nat ?n :: u64) = ?n" using fl_count_bound [OF I d] by (simp add: unat_of_nat)
    have "take (?n - 1) ?all = butlast ?all" using l by (simp add: butlast_conv_take)
    then show ?thesis using large cap c srt [of "?n - 1"] l
      by (simp add: fl_write_def fl_read_def copyall_eq [OF I cap'] subslice_def Let_def)
  qed
qed

lemma reindex_inv:
  assumes "fl_inv f" "set tids = dom (pending f)" "sorted_wrt (<) l" "\<And>q. q \<in> set l \<Longrightarrow> 1 < q"
    "\<And>q t. q \<in> set l \<Longrightarrow> q \<notin> set (pendingOf f t)"
  shows "fl_inv (reindex tids (f\<lparr>ids := l\<rparr>))" (is "fl_inv ?g")
proof -
  have p: "pendingOf ?g t = pendingOf f t" for t by (simp add: pendingOf_def reindex_def)
  have p': "pendingOf (f\<lparr>ids := l\<rparr>) t = pendingOf f t" for t by (simp add: pendingOf_def)
  have i: "ids ?g = l" by (simp add: reindex_def)
  show ?thesis
  proof (rule fl_invI)
    show "t1 = t2" if "q \<in> set (pendingOf ?g t1)" "q \<in> set (pendingOf ?g t2)" for q t1 t2
      using that fl_inv_owner [OF assms(1)] unfolding p by blast
    have "set (pendingAll tids (f\<lparr>ids := l\<rparr>)) = {q. \<exists>t. q \<in> set (pendingOf f t)}"
      using pendingAll_set [OF assms(2)] unfolding p' by blast
    then show "cache ?g q \<longleftrightarrow> q \<in> set (ids ?g) \<or> (\<exists>t. q \<in> set (pendingOf ?g t))" for q
      unfolding p i by (simp add: reindex_def)
  qed (use assms(3-5) fl_invD(3,4) [OF assms(1)] in \<open>auto simp: p i\<close>)
qed

text \<open>Loading the page that a freelist wrote, and reloading it below pending pages.\<close>

lemma written_ids:
  assumes "fl_inv f" "distinct tids" "l = (if fl_count tids f < 0xFFFF then allIds tids f else butlast (allIds tids f))"
  shows "sorted_wrt (<) l" "\<And>q. q \<in> set l \<Longrightarrow> 1 < q"
proof -
  have "distinct (allIds tids f)" and *: "\<And>q. q \<in> set (allIds tids f) \<Longrightarrow> 1 < q" using allIds_distinct [OF assms(1,2)] by blast+
  moreover have "sorted (allIds tids f)" by simp
  ultimately show "sorted_wrt (<) l" unfolding assms(3) by (simp add: strict_sorted_iff distinct_butlast sorted_butlast)
  show "1 < q" if "q \<in> set l" for q using that * unfolding assms(3) by (auto split: if_splits dest: in_set_butlastD)
qed

lemma load_inv:
  assumes "fl_inv f" "distinct tids" "fl_size tids f \<le> pageHeaderSize + 8 * length (p_data p)"
    "fl_write tids f p = Inr p'" "fl_read [] p' newFreelist = Inr g"
  shows "fl_inv g"
proof -
  define l where "l = (if fl_count tids f < 0xFFFF then allIds tids f else butlast (allIds tids f))"
  have "g = reindex [] (newFreelist\<lparr>ids := l\<rparr>)" using write_read_cases [OF assms(1-3)] assms(4,5) unfolding l_def by auto
  moreover have "fl_inv (reindex [] (newFreelist\<lparr>ids := l\<rparr>))"
    by (rule reindex_inv) (use newFreelist_inv written_ids [OF assms(1,2) l_def] in \<open>auto simp: newFreelist_def pendingOf_def\<close>)
  ultimately show ?thesis by simp
qed

lemma reload_eq:
  assumes "fl_inv h" "distinct tids'" "fl_size tids' h \<le> pageHeaderSize + 8 * length (p_data p)" "fl_write tids' h p = Inr p'"
    and l: "l = (if fl_count tids' h < 0xFFFF then allIds tids' h else butlast (allIds tids' h))"
  shows "reload tids p' f = Inr (reindex tids (f\<lparr>ids := filter (\<lambda>q. q \<notin> set (pendingAll tids f)) l\<rparr>))"
proof -
  have p: "pendingOf (f\<lparr>ids := i, cache := c\<rparr>) t = pendingOf f t" "pendingOf (f\<lparr>ids := i\<rparr>) t = pendingOf f t" for i c t
    by (simp_all add: pendingOf_def)
  have u: "f\<lparr>ids := i, cache := c, ids := j\<rparr> = f\<lparr>ids := j, cache := c\<rparr>" for i j c by simp
  have "fl_read tids p' f = Inr (reindex tids (f\<lparr>ids := l\<rparr>))" using write_read_cases [OF assms(1-3)] assms(4) unfolding l by auto
  then show ?thesis by (simp add: reload_def reindex_def p u del: freelist.update_convs)
qed

lemma reload_inv:
  assumes h: "fl_inv h" "distinct tids'" "fl_size tids' h \<le> pageHeaderSize + 8 * length (p_data p)" "fl_write tids' h p = Inr p'"
    and f: "fl_inv f" "set tids = dom (pending f)" and r: "reload tids p' f = Inr g"
  shows "fl_inv g"
proof -
  define l where "l = (if fl_count tids' h < 0xFFFF then allIds tids' h else butlast (allIds tids' h))"
  have "fl_inv (reindex tids (f\<lparr>ids := filter (\<lambda>q. q \<notin> set (pendingAll tids f)) l\<rparr>))"
    by (intro reindex_inv) (use f written_ids [OF h(1,2) l_def] pendingAll_set [OF f(2)] in \<open>simp_all add: sorted_wrt_filter del: set_concat\<close>)
  then show ?thesis using r reload_eq [OF h l_def, of tids f] by simp
qed

section \<open>Reachable freelists\<close>

text \<open>
  What a database does with its freelist: it starts with an empty one or loads the page that some freelist
  wrote, and then allocates, frees, releases, rolls back and reloads. Iteration orders list the transactions
  with pending pages; pages end before the last page id.
\<close>

inductive fl_reach :: "freelist \<Rightarrow> bool" where
  new: "fl_reach newFreelist"
| load: "fl_reach f \<Longrightarrow> distinct tids \<Longrightarrow> set tids = dom (pending f) \<Longrightarrow>
    fl_size tids f \<le> pageHeaderSize + 8 * length (p_data p) \<Longrightarrow> fl_write tids f p = Inr p' \<Longrightarrow>
    fl_read [] p' newFreelist = Inr g \<Longrightarrow> fl_reach g"
| alloc: "fl_reach f \<Longrightarrow> 0 < n \<Longrightarrow> n < 2 ^ 64 \<Longrightarrow> allocate n f = Inr (q, g) \<Longrightarrow> fl_reach g"
| free: "fl_reach f \<Longrightarrow> unat (p_id p) + unat (p_overflow p) < 2 ^ 64 - 1 \<Longrightarrow> fl_free t p f = Some (Inr g) \<Longrightarrow> fl_reach g"
| release: "fl_reach f \<Longrightarrow> distinct tids \<Longrightarrow> set tids = dom (pending f) \<Longrightarrow> release tids t f = Inr g \<Longrightarrow> fl_reach g"
| rollback: "fl_reach f \<Longrightarrow> fl_reach (rollback t f)"
| reload: "fl_reach h \<Longrightarrow> distinct tids' \<Longrightarrow> set tids' = dom (pending h) \<Longrightarrow>
    fl_size tids' h \<le> pageHeaderSize + 8 * length (p_data p) \<Longrightarrow> fl_write tids' h p = Inr p' \<Longrightarrow>
    fl_reach f \<Longrightarrow> distinct tids \<Longrightarrow> set tids = dom (pending f) \<Longrightarrow> reload tids p' f = Inr g \<Longrightarrow> fl_reach g"

lemma free_result_inv:
  assumes "fl_inv f" "unat (p_id p) + unat (p_overflow p) < 2 ^ 64 - 1" "fl_free t p f = Some (Inr g)"
  shows "fl_inv g"
proof -
  have p: "1 < p_id p" using assms(3) by (auto simp: fl_free_def not_le split: if_splits)
  show ?thesis using assms(3) free_cases [OF p assms(2)] free_inv [OF assms(1) p assms(2)] by (auto split: if_splits)
qed

lemma allocate_result_inv:
  assumes "fl_inv f" "0 < n" "n < 2 ^ 64" "allocate n f = Inr (q, g)"
  shows "fl_inv g"
  using allocate_cases [OF assms(1-3)] alloc_inv [OF assms(1)] assms(1,4) by auto

lemma fl_reach_inv: "fl_reach f \<Longrightarrow> fl_inv f"
proof (induction rule: fl_reach.induct)
  case (release f tids t g)
  then show ?case using release_inv [of f tids t] release_eq [of f tids t] by simp
qed (blast intro: newFreelist_inv load_inv allocate_result_inv free_result_inv rollback_inv reload_inv)+

section \<open>Properties\<close>

text \<open>
  C29. In every reachable freelist the free ids are strictly increasing, none of the pages 0 and 1 is listed,
  no page is listed twice, neither as free nor as pending of one or of two transactions, and \<open>freed\<close> answers
  yes for exactly the listed pages. Allocation never panics.
\<close>

theorem freelist_invariant:
  assumes "fl_reach f"
  shows "sorted_wrt (<) (ids f) \<and> (\<forall>t. distinct (pendingOf f t)) \<and>
    (\<forall>q t. q \<in> set (pendingOf f t) \<longrightarrow> q \<notin> set (ids f) \<and> (\<forall>t'. t' \<noteq> t \<longrightarrow> q \<notin> set (pendingOf f t'))) \<and>
    (\<forall>q. freed q f \<longleftrightarrow> q \<in> set (ids f) \<or> (\<exists>t. q \<in> set (pendingOf f t))) \<and>
    \<not> freed 0 f \<and> \<not> freed 1 f \<and> (\<forall>n. 0 < n \<longrightarrow> n < 2 ^ 64 \<longrightarrow> (\<exists>q g. allocate n f = Inr (q, g)))"
proof (intro conjI allI impI)
  note I = fl_reach_inv [OF assms]
  show "sorted_wrt (<) (ids f)" "\<And>t. distinct (pendingOf f t)" by (fact fl_invD [OF I])+
  show c: "freed q f \<longleftrightarrow> q \<in> set (ids f) \<or> (\<exists>t. q \<in> set (pendingOf f t))" for q unfolding freed_def by (rule fl_inv_cache [OF I])
  show "\<not> freed 0 f" "\<not> freed 1 f" unfolding c using fl_invD(2,3) [OF I] by (force simp: not_less)+
  show "q \<notin> set (ids f)" if "q \<in> set (pendingOf f t)" for q t using that fl_inv_free [OF I] by blast
  show "q \<notin> set (pendingOf f t')" if "q \<in> set (pendingOf f t)" "t' \<noteq> t" for q t t' using that fl_inv_owner [OF I] by blast
  show "\<exists>q g. allocate n f = Inr (q, g)" if "0 < n" "n < 2 ^ 64" for n using allocate_cases [OF I that] by blast
qed

text \<open>A freelist with three pages pending for the transaction 7, released and partly allocated again.\<close>

definition demo_free :: freelist where
  "demo_free = \<lparr>ids = [], pending = [7 \<mapsto> [3, 4, 5]], cache = (\<lambda>q. q \<in> {3, 4, 5})\<rparr>"

definition demo_released :: freelist where
  "demo_released = \<lparr>ids = [3, 4, 5], pending = Map.empty, cache = (\<lambda>q. q \<in> {3, 4, 5})\<rparr>"

lemma demo_free_reach: "fl_reach demo_free"
proof -
  let ?p = "\<lparr>p_id = 3, p_flags = 0, p_count = 0, p_overflow = 2, p_data = []\<rparr>"
  have "fl_free 7 ?p newFreelist = Some (Inr demo_free)"
    by (subst free_cases) (auto simp: newFreelist_def demo_free_def pageRun_def run_def pendingOf_def fun_eq_iff upt_rec)
  then show ?thesis by (intro fl_reach.free [OF fl_reach.new, of ?p 7]) simp_all
qed

lemma demo_released_reach: "fl_reach demo_released"
proof -
  have "release [7] 7 demo_free = Inr demo_released"
    by (subst release_eq [OF fl_reach_inv [OF demo_free_reach]])
      (auto simp: demo_free_def demo_released_def pendingOf_def fun_eq_iff)
  then show ?thesis by (intro fl_reach.release [OF demo_free_reach, of "[7]" 7]) (simp_all add: demo_free_def)
qed

theorem freelist_invariant_witness:
  "fl_reach demo_free \<and> sorted_wrt (<) (ids demo_free) \<and> distinct (pendingOf demo_free 7) \<and>
   4 \<notin> set (ids demo_free) \<and> 4 \<notin> set (pendingOf demo_free 8) \<and>
   freed 4 demo_free \<and> \<not> freed 1 demo_free \<and> (\<exists>q g. allocate 2 demo_free = Inr (q, g))"
proof -
  have m: "4 \<in> set (pendingOf demo_free 7)" by (simp add: demo_free_def pendingOf_def)
  note F = freelist_invariant [OF demo_free_reach]
  then have "4 \<notin> set (ids demo_free) \<and> 4 \<notin> set (pendingOf demo_free 8)" using m by force
  moreover have "freed 4 demo_free" using F m by blast
  moreover have "\<exists>q g. allocate 2 demo_free = Inr (q, g)" using F by simp
  ultimately show ?thesis using F demo_free_reach by blast
qed

text \<open>
  C30. Allocation of \<open>n\<close> pages: if the free ids contain \<open>n\<close> pages in a row, then it returns the first page of
  such a row and removes exactly that row from the free ids and from the cache; otherwise it returns 0 and
  changes nothing. The pending pages do not change.
\<close>

theorem allocate_contiguous:
  assumes "fl_reach f" "0 < n" "n < 2 ^ 64"
  shows "(\<exists>p. 1 < p \<and> set (run p n) \<subseteq> set (ids f) \<and> allocate n f =
        Inr (p, f\<lparr>ids := filter (\<lambda>q. q \<notin> set (run p n)) (ids f), cache := (\<lambda>q. cache f q \<and> q \<notin> set (run p n))\<rparr>)) \<or>
    ((\<nexists>q. set (run q n) \<subseteq> set (ids f)) \<and> allocate n f = Inr (0, f))"
proof -
  note I = fl_reach_inv [OF assms(1)]
  have sub: "set (run p n) \<subseteq> set (ids f) \<longleftrightarrow> has_run n (ids f) p" for p by (auto simp: run_def has_run_def)
  have gt: "1 < p" if "set (run p n) \<subseteq> set (ids f)" for p
    using that fl_invD(2) [OF I, of p] run_mem [OF assms(2), of p] by (simp add: subset_iff)
  show ?thesis using allocate_cases [OF I assms(2,3)]
  proof (elim disjE exE conjE)
    fix p
    assume "allocate n f = Inr (p, f\<lparr>ids := filter (\<lambda>q. q \<notin> set (run p n)) (ids f), cache := (\<lambda>q. cache f q \<and> q \<notin> set (run p n))\<rparr>)"
      and r: "set (run p n) \<subseteq> set (ids f)"
    then show ?thesis by (intro disjI1 exI [of _ p] conjI gt [OF r])
  qed (simp add: sub)
qed

theorem allocate_contiguous_witness:
  "fl_reach demo_released \<and>
   (\<exists>p. 1 < p \<and> set (run p 2) \<subseteq> set (ids demo_released) \<and> allocate 2 demo_released =
      Inr (p, demo_released\<lparr>ids := filter (\<lambda>q. q \<notin> set (run p 2)) (ids demo_released),
        cache := (\<lambda>q. cache demo_released q \<and> q \<notin> set (run p 2))\<rparr>))"
proof -
  have "set (run 3 2) \<subseteq> set (ids demo_released)" by (simp add: demo_released_def run_def upt_rec)
  then show ?thesis using allocate_contiguous [OF demo_released_reach, of 2] demo_released_reach by simp blast
qed

text \<open>
  C31. Freeing a page: the pages 0 and 1 are refused; a page of which one part is already listed is refused;
  otherwise the page and its overflow are added to the pending pages of the transaction. Rolling the
  transaction back takes the listed pages of that transaction out again and nothing else. Freeing always ends.
\<close>

theorem free_and_rollback:
  assumes "fl_reach f" "unat (p_id p) + unat (p_overflow p) < 2 ^ 64 - 1"
  shows "fl_free t p f =
      (if p_id p \<le> 1 then Some (Inl (Panic ''cannot free page 0 or 1''))
       else if \<exists>q \<in> set (pageRun p). freed q f then Some (Inl (Panic ''page already freed''))
       else Some (Inr (f\<lparr>pending := (pending f)(t \<mapsto> pendingOf f t @ pageRun p), cache := (\<lambda>q. cache f q \<or> q \<in> set (pageRun p))\<rparr>))) \<and>
    (\<forall>g. fl_free t p f = Some (Inr g) \<longrightarrow> pending f t = None \<longrightarrow> rollback t g = f)"
proof (intro conjI allI impI)
  show "fl_free t p f =
      (if p_id p \<le> 1 then Some (Inl (Panic ''cannot free page 0 or 1''))
       else if \<exists>q \<in> set (pageRun p). freed q f then Some (Inl (Panic ''page already freed''))
       else Some (Inr (f\<lparr>pending := (pending f)(t \<mapsto> pendingOf f t @ pageRun p), cache := (\<lambda>q. cache f q \<or> q \<in> set (pageRun p))\<rparr>)))"
  proof (cases "p_id p \<le> 1")
    case False
    then show ?thesis using free_cases [of p t f] assms(2) by (simp add: not_le freed_def)
  qed (simp add: fl_free_def)
next
  fix g assume g: "fl_free t p f = Some (Inr g)" and n: "pending f t = None"
  have "p_id p > 1" using g by (auto simp: fl_free_def not_le split: if_splits)
  then have *: "g = f\<lparr>pending := (pending f)(t \<mapsto> pageRun p), cache := (\<lambda>q. cache f q \<or> q \<in> set (pageRun p))\<rparr>"
      "\<not> (\<exists>q \<in> set (pageRun p). cache f q)"
    using g free_cases [of p t f] assms(2) n by (auto simp: pendingOf_def split: if_splits)
  have "(\<lambda>q. (cache f q \<or> q \<in> set (pageRun p)) \<and> q \<notin> set (pageRun p)) = cache f" using *(2) by (auto simp: fun_eq_iff)
  moreover have "(pending f)(t := None) = pending f" using n by (simp add: fun_upd_idem)
  ultimately show "rollback t g = f" unfolding *(1) rollback_def by (simp add: pendingOf_def)
qed

theorem free_and_rollback_witness:
  "fl_reach demo_free \<and> (let p = \<lparr>p_id = 8, p_flags = 0, p_count = 0, p_overflow = 1, p_data = []\<rparr> in
     \<exists>g. fl_free 9 p demo_free = Some (Inr g) \<and> pendingOf g 9 = [8, 9] \<and> rollback 9 g = demo_free)"
proof -
  let ?p = "\<lparr>p_id = 8, p_flags = 0, p_count = 0, p_overflow = 1, p_data = []\<rparr>"
  have p: "unat (p_id ?p) + unat (p_overflow ?p) < 2 ^ 64 - 1" by simp
  note F = free_and_rollback [OF demo_free_reach p, of 9]
  have r: "pageRun ?p = [8, 9]" by (simp add: pageRun_def run_def upt_rec)
  have n: "\<not> p_id ?p \<le> 1" "\<not> (\<exists>q \<in> set [8, 9]. freed q demo_free)" by (simp_all add: word_le_nat_alt freed_def demo_free_def)
  define g where "g = demo_free\<lparr>pending := (pending demo_free)(9 \<mapsto> pendingOf demo_free 9 @ [8, 9]),
      cache := (\<lambda>q. cache demo_free q \<or> q \<in> set [8, 9])\<rparr>"
  have g: "fl_free 9 ?p demo_free = Some (Inr g)" using F [THEN conjunct1] unfolding r if_not_P [OF n(1)] if_not_P [OF n(2)] g_def .
  moreover have "pendingOf g 9 = [8, 9]" by (simp add: g_def demo_free_def pendingOf_def)
  moreover have "rollback 9 g = demo_free" using F [THEN conjunct2] g by (simp add: demo_free_def)
  ultimately show ?thesis using demo_free_reach by (auto simp: Let_def)
qed

text \<open>
  C32. Releasing up to transaction \<open>t\<close>: whatever the order in which the map of pending pages is iterated, the
  free ids become the sorted union of the free ids and the pending ids of all transactions up to \<open>t\<close>; these
  transactions have no pending pages any more, the others keep theirs, and the set of pages that \<open>freed\<close>
  answers yes for does not change. The merge loop ends.
\<close>

theorem release_sorted_union:
  assumes "fl_reach f" "distinct tids" "set tids = dom (pending f)"
  shows "\<exists>g. release tids t f = Inr g \<and> ids g = sorted_list_of_set (set (ids f) \<union> (\<Union>t' \<in> {..t}. set (pendingOf f t'))) \<and>
    (\<forall>t'. pendingOf g t' = (if t' \<le> t then [] else pendingOf f t')) \<and> (\<forall>q. freed q g = freed q f)"
proof -
  note I = fl_reach_inv [OF assms(1)]
  define g where "g = f\<lparr>pending := (\<lambda>tid. if tid \<le> t then None else pending f tid),
    ids := sort (ids f @ pendingAll (filter (\<lambda>tid. tid \<le> t) tids) f)\<rparr>"
  have "fl_inv g" unfolding g_def by (rule release_inv [OF I assms(2,3)])
  then have "sorted_wrt (<) (ids g)" by (rule fl_invD)
  then have "ids g = sorted_list_of_set (set (ids g))" by (metis sorted_list_of_set.idem_if_sorted_distinct strict_sorted_iff)
  moreover have "set (ids g) = set (ids f) \<union> (\<Union>t' \<in> {..t}. set (pendingOf f t'))"
    using assms(3) by (auto simp: g_def) (metis pending_dom)
  ultimately show ?thesis using release_eq [OF I, of tids t] by (auto simp: g_def pendingOf_def freed_def)
qed

theorem release_sorted_union_witness:
  "fl_reach demo_free \<and> (\<exists>g. release [7] 7 demo_free = Inr g \<and> ids g = [3, 4, 5] \<and> pendingOf g 7 = [] \<and> freed 4 g = freed 4 demo_free)"
proof -
  have "(\<Union>t' \<in> {..7}. set (pendingOf demo_free t')) = {3, 4, 5}"
  proof -
    have "pendingOf demo_free t' = (if t' = 7 then [3, 4, 5] else [])" for t' by (simp add: demo_free_def pendingOf_def)
    then show ?thesis by (auto split: if_splits)
  qed
  moreover have "set (ids demo_free) = {}" by (simp add: demo_free_def)
  moreover have "sorted_list_of_set {3, 4, 5 :: pgid} = [3, 4, 5]" by (simp add: sorted_list_of_set_insert_remove)
  ultimately show ?thesis
    using release_sorted_union [OF demo_free_reach, of "[7]" 7] demo_free_reach by (auto simp: demo_free_def)
qed

text \<open>
  C33. Writing a freelist to a page that has the space \<open>size\<close> asks for succeeds and marks the page as a
  freelist page. Reading the page into a new freelist gives all ids that were free or pending, sorted, as
  long as there are fewer than 65535 of them. From 65535 ids on the largest id is lost: \<open>read\<close> takes the
  slice up to the count although the ids start one position later.
\<close>

theorem freelist_write_read:
  assumes "fl_reach f" "distinct tids" "set tids = dom (pending f)"
    and "fl_size tids f \<le> pageHeaderSize + 8 * length (p_data p)"
  shows "\<exists>p' g. fl_write tids f p = Inr p' \<and> and (p_flags p') freelistPageFlag = freelistPageFlag \<and>
    fl_read [] p' newFreelist = Inr g \<and> (\<forall>q. freed q g \<longleftrightarrow> q \<in> set (ids g)) \<and>
    ids g = (let l = sorted_list_of_set {q. freed q f} in if length l < 65535 then l else butlast l)"
proof -
  note I = fl_reach_inv [OF assms(1)]
  obtain p' where p': "fl_write tids f p = Inr p'" "p_flags p' = or (p_flags p) freelistPageFlag"
    "fl_read [] p' newFreelist = Inr (reindex [] (newFreelist\<lparr>ids := (if fl_count tids f < 0xFFFF then allIds tids f else butlast (allIds tids f))\<rparr>))"
    using write_read_cases [OF I assms(2,4)] by blast
  have "set (allIds tids f) = {q. freed q f}"
    using pendingAll_set [OF assms(3)] fl_inv_cache [OF I] unfolding allIds_def freed_def set_sort set_append by blast
  then have "sorted_list_of_set {q. freed q f} = allIds tids f"
    using allIds_distinct(1) [OF I assms(2)] by (metis sorted_allIds sorted_list_of_set.idem_if_sorted_distinct)
  moreover have "and (or (p_flags p) freelistPageFlag) freelistPageFlag = freelistPageFlag" by (rule bit_eqI) (auto simp: bit_simps)
  ultimately show ?thesis using p' by (auto simp: length_allIds freed_def reindex_def newFreelist_def)
qed

theorem freelist_write_read_witness:
  "fl_reach demo_free \<and> (let p = \<lparr>p_id = 2, p_flags = 0, p_count = 0, p_overflow = 0, p_data = [0, 0, 0, 0]\<rparr> in
     \<exists>p' g. fl_write [7] demo_free p = Inr p' \<and> fl_read [] p' newFreelist = Inr g \<and> ids g = [3, 4, 5])"
proof -
  let ?p = "\<lparr>p_id = 2, p_flags = 0, p_count = 0, p_overflow = 0, p_data = [0, 0, 0, 0]\<rparr>"
  have sz: "fl_size [7] demo_free \<le> pageHeaderSize + 8 * length (p_data ?p)"
    by (simp add: fl_size_def fl_count_def free_count_def pending_count_def pendingOf_def demo_free_def)
  have "{q. freed q demo_free} = {3, 4, 5}" by (auto simp: freed_def demo_free_def)
  then have "sorted_list_of_set {q. freed q demo_free} = [3, 4, 5]" by (simp add: sorted_list_of_set_insert_remove)
  then show ?thesis
    using freelist_write_read [OF demo_free_reach _ _ sz] demo_free_reach by (auto simp: Let_def demo_free_def)
qed

end
