(* ===== verification/Bolt_Node_Props.thy ===== *)
theory Bolt_Node_Props
  imports Bolt_Node Bolt_Freelist_Props
begin

text \<open>
  Properties of bolt's nodes: the entries of a node are a sorted map, splitting a node distributes its entries
  over nodes that are as full as asked for, and what is written to a page is read back.
\<close>


section \<open>Keys and sizes\<close>

lemma Compare_less: "Compare x y = -1 \<longleftrightarrow> x < y"
  by (induction x y rule: Compare.induct) (auto simp: less_imp_not_less)

lemma Compare_ge: "Compare x y \<noteq> -1 \<longleftrightarrow> y \<le> x"
  by (auto simp: Compare_less not_less)

definition esize :: "node \<Rightarrow> inode \<Rightarrow> nat" where
  "esize n e = pageElementSize n + length (i_key e) + length (i_value e)"

lemma node_size_sum: "node_size n = pageHeaderSize + sum_list (map (esize n) (inodes n))"
proof -
  have "fold (\<lambda>item sz. sz + (pageElementSize n + length (i_key item) + length (i_value item))) l s = s + sum_list (map (esize n) l)" for l s
    by (induction l arbitrary: s) (auto simp: esize_def)
  then show ?thesis by (simp add: node_size_def)
qed

lemma sizeLoop_iff: "sizeLoop v (pageElementSize n) s l \<longleftrightarrow> l = [] \<or> s + sum_list (map (esize n) l) < v"
proof (induction l arbitrary: s)
  case (Cons x l)
  have e: "pageElementSize n + length (i_key x) + length (i_value x) = esize n x" by (simp add: esize_def)
  have "sizeLoop v (pageElementSize n) s (x # l) \<longleftrightarrow> s + esize n x < v \<and> (l = [] \<or> s + esize n x + sum_list (map (esize n) l) < v)"
    using Cons.IH [of "s + esize n x"] by (auto simp: Let_def e not_le)
  then show ?case by auto
qed simp

lemma sizeLessThan_iff: "sizeLessThan v n \<longleftrightarrow> inodes n = [] \<or> node_size n < v"
  by (simp add: sizeLessThan_def sizeLoop_iff node_size_sum)

section \<open>Entries as a map\<close>

definition sorted_node :: "node \<Rightarrow> bool" where
  "sorted_node n \<longleftrightarrow> sorted_wrt (<) (map i_key (inodes n))"

definition lookup :: "node \<Rightarrow> byte list \<Rightarrow> inode option" where
  "lookup n k = map_of (map (\<lambda>e. (i_key e, e)) (inodes n)) k"

lemma findIndex_split:
  assumes "sorted_node n" "i = findIndex k n"
  shows "i \<le> length (inodes n)" "\<forall>e \<in> set (take i (inodes n)). i_key e < k" "\<forall>e \<in> set (drop i (inodes n)). k \<le> i_key e"
proof -
  let ?f = "\<lambda>i. Compare (i_key (inodes n ! i)) k \<noteq> -1" and ?N = "length (inodes n)"
  have mono: "?f b" if "a \<le> b" "b < ?N" "?f a" for a b
  proof -
    have "i_key (inodes n ! a) \<le> i_key (inodes n ! b)"
    proof (cases "a = b")
      case False
      then show ?thesis using assms(1) that(1,2) by (auto simp: sorted_node_def sorted_wrt_iff_nth_less less_imp_le)
    qed simp
    then show ?thesis using that(3) unfolding Compare_ge by simp
  qed
  have "Search ?f 0 ?N \<le> ?N \<and> (\<forall>j < Search ?f 0 ?N. \<not> ?f j) \<and> (\<forall>j. Search ?f 0 ?N \<le> j \<longrightarrow> j < ?N \<longrightarrow> ?f j)"
    by (rule Search_spec) (use mono in auto)
  then have S: "i \<le> ?N" "\<forall>j < i. i_key (inodes n ! j) < k" "\<forall>j. i \<le> j \<longrightarrow> j < ?N \<longrightarrow> k \<le> i_key (inodes n ! j)"
    unfolding assms(2) findIndex_def Compare_ge by (auto simp: not_le)
  show "i \<le> ?N" by (rule S)
  show "\<forall>e \<in> set (take i (inodes n)). i_key e < k" using S by (auto simp: in_set_conv_nth)
  show "\<forall>e \<in> set (drop i (inodes n)). k \<le> i_key e" using S by (auto simp: in_set_conv_nth)
qed

text \<open>A sorted node falls into the entries before, at and after a key.\<close>

lemma node_parts:
  assumes "sorted_node n"
  obtains (present) pre e post where "inodes n = pre @ e # post" "i_key e = k" "findIndex k n = length pre"
      "\<forall>e \<in> set pre. i_key e < k" "\<forall>e \<in> set post. k < i_key e"
    | (absent) pre post where "inodes n = pre @ post" "findIndex k n = length pre" "\<forall>e \<in> set pre. i_key e < k" "\<forall>e \<in> set post. k < i_key e"
proof -
  define i where "i = findIndex k n"
  note S = findIndex_split [OF assms i_def]
  have len: "length (take i (inodes n)) = i" using S(1) by simp
  show thesis
  proof (cases "\<exists>e post. drop i (inodes n) = e # post \<and> i_key e = k")
    case True
    then obtain e post where e: "drop i (inodes n) = e # post" "i_key e = k" by blast
    have eq: "inodes n = take i (inodes n) @ e # post" using e(1) by (metis append_take_drop_id)
    have "sorted_wrt (<) (map i_key (take i (inodes n) @ e # post))" using assms eq unfolding sorted_node_def by metis
    then have "\<forall>x \<in> set post. k < i_key x" using e(2) by (auto simp: sorted_wrt_append)
    then show thesis using present [OF eq e(2) _ S(2)] len i_def by simp
  next
    case False
    have "k < i_key x" if x: "x \<in> set (drop i (inodes n))" for x
    proof -
      obtain e post where e: "drop i (inodes n) = e # post" using x by (cases "drop i (inodes n)") auto
      have "sorted_wrt (<) (map i_key (e # post))" unfolding e [symmetric]
        using assms by (simp add: sorted_node_def drop_map [symmetric] sorted_wrt_drop)
      moreover have "k < i_key e" using False e S(3) by (auto simp: order_less_le)
      ultimately show ?thesis using x unfolding e by auto
    qed
    then show thesis by (intro absent [of "take i (inodes n)" "drop i (inodes n)"]) (use S(2) len i_def in auto)
  qed
qed

lemma map_of_keys_None: "\<forall>e \<in> set l. i_key e \<noteq> k \<Longrightarrow> map_of (map (\<lambda>e. (i_key e, e)) l) k = None"
  by (induction l) auto

lemma node_put_parts:
  assumes "sorted_node n" "k \<noteq> []" "pid < hwm"
  obtains pre mid post where "inodes n = pre @ mid @ post" "\<forall>e \<in> set mid. i_key e = k" "length mid \<le> 1"
    "\<forall>e \<in> set pre. i_key e < k" "\<forall>e \<in> set post. k < i_key e"
    "node_put hwm k k v pid fl n = Inr (n\<lparr>inodes := pre @ \<lparr>i_flags = fl, i_pgid = pid, i_key = k, i_value = v\<rparr> # post\<rparr>)"
proof -
  have h: "\<not> hwm \<le> pid" using assms(3) by simp
  from assms(1) show thesis
  proof (cases rule: node_parts [where k = k])
    case (present pre e post)
    then show thesis using h assms(2) by (intro that [of pre "[e]" post]) (auto simp: node_put_def Let_def)
  next
    case (absent pre post)
    have ex: "\<not> (length pre < length (inodes n) \<and> i_key (inodes n ! length pre) = k)" using absent by (cases post) auto
    have "copy_at ((pre @ post) @ [zeroInode]) (length pre + 1) (take (length ((pre @ post) @ [zeroInode]) - (length pre + 1)) (drop (length pre) ((pre @ post) @ [zeroInode]))) =
        pre @ hd (post @ [zeroInode]) # post"
      by (cases post) (simp_all add: copy_at_def)
    then show thesis using h assms(2) absent ex
      by (intro that [of pre "[]" post]) (auto simp: node_put_def Let_def)
  qed
qed

lemma node_put_map:
  assumes "sorted_node n" "k \<noteq> []" "pid < hwm"
  shows "\<exists>n'. node_put hwm k k v pid fl n = Inr n' \<and> sorted_node n' \<and>
    lookup n' = (lookup n)(k \<mapsto> \<lparr>i_flags = fl, i_pgid = pid, i_key = k, i_value = v\<rparr>)"
proof -
  obtain pre mid post where n: "inodes n = pre @ mid @ post" "\<forall>e \<in> set mid. i_key e = k" "length mid \<le> 1"
    "\<forall>e \<in> set pre. i_key e < k" "\<forall>e \<in> set post. k < i_key e"
    "node_put hwm k k v pid fl n = Inr (n\<lparr>inodes := pre @ \<lparr>i_flags = fl, i_pgid = pid, i_key = k, i_value = v\<rparr> # post\<rparr>)"
    using node_put_parts [OF assms] by blast
  have "map_of (map (\<lambda>e. (i_key e, e)) mid) k' = None" if "k' \<noteq> k" for k' using n(2) that by (intro map_of_keys_None) auto
  moreover have "map_of (map (\<lambda>e. (i_key e, e)) pre) k = None" using n(4) by (intro map_of_keys_None) auto
  ultimately have "lookup (n\<lparr>inodes := pre @ \<lparr>i_flags = fl, i_pgid = pid, i_key = k, i_value = v\<rparr> # post\<rparr>) =
      (lookup n)(k \<mapsto> \<lparr>i_flags = fl, i_pgid = pid, i_key = k, i_value = v\<rparr>)"
    unfolding lookup_def n(1) by (auto simp: fun_eq_iff map_add_def split: option.splits)
  moreover have "sorted_node (n\<lparr>inodes := pre @ \<lparr>i_flags = fl, i_pgid = pid, i_key = k, i_value = v\<rparr> # post\<rparr>)"
    using assms(1) n(4,5) unfolding sorted_node_def n(1) by (auto simp: sorted_wrt_append)
  ultimately show ?thesis using n(6) by blast
qed

lemma node_del_map:
  assumes "sorted_node n"
  shows "sorted_node (node_del k n)" "lookup (node_del k n) = (lookup n)(k := None)"
    "unbalanced (node_del k n) \<longleftrightarrow> unbalanced n \<or> lookup n k \<noteq> None"
proof -
  have "sorted_node (node_del k n) \<and> lookup (node_del k n) = (lookup n)(k := None) \<and> (unbalanced (node_del k n) \<longleftrightarrow> unbalanced n \<or> lookup n k \<noteq> None)"
    using assms
  proof (cases rule: node_parts [where k = k])
    case (present pre e post)
    then have d: "node_del k n = n\<lparr>inodes := pre @ post, unbalanced := True\<rparr>" by (simp add: node_del_def)
    have no: "map_of (map (\<lambda>e. (i_key e, e)) pre) k = None" "map_of (map (\<lambda>e. (i_key e, e)) post) k = None"
      using present(4,5) by (auto intro!: map_of_keys_None)
    have "sorted_node (node_del k n)" using assms present(1) unfolding d sorted_node_def by (simp add: sorted_wrt_append)
    moreover have "lookup (node_del k n) = (lookup n)(k := None)"
      using no present(2) unfolding d lookup_def present(1) by (auto simp: fun_eq_iff map_add_def split: option.splits)
    moreover have "lookup n k \<noteq> None" using no present(2) unfolding lookup_def present(1) by (simp add: map_add_def)
    ultimately show ?thesis unfolding d by simp
  next
    case (absent pre post)
    have "\<not> (length pre < length (inodes n) \<and> i_key (inodes n ! length pre) = k)" using absent by (cases post) auto
    then have d: "node_del k n = n" using absent(2) by (auto simp: node_del_def Let_def not_le)
    have "lookup n k = None" unfolding lookup_def by (rule map_of_keys_None) (use absent in auto)
    then show ?thesis unfolding d using assms by (simp add: fun_upd_idem)
  qed
  then show "sorted_node (node_del k n)" "lookup (node_del k n) = (lookup n)(k := None)"
    "unbalanced (node_del k n) \<longleftrightarrow> unbalanced n \<or> lookup n k \<noteq> None" by blast+
qed

section \<open>Splitting\<close>

lemma splitIndexLoop_spec:
  assumes es: "\<And>e. es e = elsz + length (i_key e) + length (i_value e)" and m: "m + 2 \<le> length xs" "3 \<le> m"
    and "rest = drop i xs" "i \<le> m" "0 < i \<Longrightarrow> index = i - 1"
    and "sz = h + sum_list (map es (take i xs))" "3 \<le> i \<Longrightarrow> sz \<le> t" "r = splitIndexLoop t elsz m i index sz rest"
  shows "2 \<le> fst r \<and> fst r < m \<and> (fst r = 2 \<or> h + sum_list (map es (take (fst r) xs)) \<le> t)"
  using assms(4-)
proof (induction rest arbitrary: i index sz r)
  case Nil
  then show ?case using m by simp
next
  case (Cons e rest)
  have i: "i < length xs" using Cons.prems(1) by (metis drop_eq_Nil list.distinct(1) not_le)
  have e: "xs ! i = e" "rest = drop (Suc i) xs" using Cons.prems(1) Cons_nth_drop_Suc [OF i] by (metis list.inject)+
  have take: "take (Suc i) xs = take i xs @ [e]" using i e(1) by (simp add: take_Suc_conv_app_nth)
  show ?case
  proof (cases "i < m")
    case False
    then have im: "i = m" using Cons.prems(2) by simp
    then have r: "fst r = m - 1" using False Cons.prems(3,6) m by simp
    have "take m xs = take (m - 1) xs @ drop (m - 1) (take m xs)" by (metis append_take_drop_id diff_le_self min.absorb1 take_take)
    then have "sum_list (map es (take (m - 1) xs)) \<le> sum_list (map es (take m xs))" by (metis le_add1 map_append sum_list_append)
    then have "h + sum_list (map es (take (m - 1) xs)) \<le> t" using Cons.prems(4,5) im m by simp
    then show ?thesis using r m by simp
  next
    case True
    show ?thesis
    proof (cases "i \<ge> minKeysPerPage \<and> sz + es e > t")
      case stop: True
      then have "fst r = i" using True Cons.prems(6) by (simp add: es Let_def)
      then show ?thesis using stop True Cons.prems(4,5) by (cases "i = 2") (auto simp: minKeysPerPage_def)
    next
      case go: False
      then have "r = splitIndexLoop t elsz m (Suc i) i (sz + es e) rest" using True Cons.prems(6) by (auto simp: es Let_def)
      moreover have "3 \<le> Suc i \<Longrightarrow> sz + es e \<le> t" using go by (simp add: minKeysPerPage_def)
      ultimately show ?thesis using Cons.IH [of "Suc i" i "sz + es e" r] True take e(2) Cons.prems(4) by simp
    qed
  qed
qed

lemma splitIndex_spec:
  assumes "4 < length (inodes n)" "r = splitIndex t n"
  shows "2 \<le> fst r" "fst r + 3 \<le> length (inodes n)"
    "fst r = 2 \<or> pageHeaderSize + sum_list (map (esize n) (take (fst r) (inodes n))) \<le> t"
proof -
  have "2 \<le> fst r \<and> fst r < length (inodes n) - 2 \<and> (fst r = 2 \<or> pageHeaderSize + sum_list (map (esize n) (take (fst r) (inodes n))) \<le> t)"
    by (rule splitIndexLoop_spec [where i = 0 and index = 0 and sz = pageHeaderSize and elsz = "pageElementSize n" and rest = "inodes n" and xs = "inodes n"])
      (use assms in \<open>auto simp: esize_def splitIndex_def minKeysPerPage_def\<close>)
  then show "2 \<le> fst r" "fst r + 3 \<le> length (inodes n)"
    "fst r = 2 \<or> pageHeaderSize + sum_list (map (esize n) (take (fst r) (inodes n))) \<le> t" by auto
qed

text \<open>One split of a node that has a parent.\<close>

definition needs_split :: "nat \<Rightarrow> node \<Rightarrow> bool" where
  "needs_split pageSize n \<longleftrightarrow> 4 < length (inodes n) \<and> pageSize \<le> node_size n"

lemma splitTwo_none: "\<not> needs_split pageSize (nd st a) \<Longrightarrow> splitTwo rnd f pageSize a st = (None, st)"
  by (auto simp: splitTwo_def needs_split_def sizeLessThan_iff minKeysPerPage_def not_less not_le)

lemma splitTwo_child:
  assumes "needs_split pageSize (nd st a)" "n_parent (nd st a) = Some p" "a < n_next st" "p < n_next st" "a \<noteq> p"
    and si: "si = fst (splitIndex (threshold rnd f pageSize) (nd st a))" and b: "b = n_next st"
  shows "splitTwo rnd f pageSize a st = (Some b, \<lparr>nd = (nd st)
      (a := (nd st a)\<lparr>inodes := take si (inodes (nd st a))\<rparr>,
       b := zeroNode\<lparr>isLeaf := isLeaf (nd st a), n_parent := Some p, inodes := drop si (inodes (nd st a))\<rparr>,
       p := (nd st p)\<lparr>children := children (nd st p) @ [b]\<rparr>), n_next = Suc b\<rparr>)"
proof -
  have g: "\<not> (length (inodes (nd st a)) \<le> minKeysPerPage * 2 \<or> sizeLessThan pageSize (nd st a))"
    using assms(1) by (auto simp: needs_split_def sizeLessThan_iff minKeysPerPage_def)
  obtain u where u: "splitIndex (threshold rnd f pageSize) (nd st a) = (si, u)" using si by (metis prod.collapse)
  show ?thesis unfolding splitTwo_def if_not_P [OF g] u
    using assms(2-5) b by (auto simp: new_node_def set_node_def Let_def fun_eq_iff)
qed

text \<open>A root first gets a parent.\<close>

definition with_parent :: "addr \<Rightarrow> nstore \<Rightarrow> nstore" where
  "with_parent a st = \<lparr>nd = (nd st)(n_next st := zeroNode\<lparr>children := [a]\<rparr>, a := (nd st a)\<lparr>n_parent := Some (n_next st)\<rparr>), n_next = Suc (n_next st)\<rparr>"

lemma with_parent_simps:
  assumes "a < n_next st"
  shows "nd (with_parent a st) a = (nd st a)\<lparr>n_parent := Some (n_next st)\<rparr>" "n_next (with_parent a st) = Suc (n_next st)"
    "nd (with_parent a st) (n_next st) = zeroNode\<lparr>children := [a]\<rparr>"
    "c < n_next st \<Longrightarrow> c \<noteq> a \<Longrightarrow> nd (with_parent a st) c = nd st c"
  using assms by (auto simp: with_parent_def)

lemma size_parent [simp]: "node_size (n\<lparr>n_parent := p\<rparr>) = node_size n" "splitIndex t (n\<lparr>n_parent := p\<rparr>) = splitIndex t n"
  by (simp_all add: node_size_def splitIndex_def pageElementSize_def)

lemma splitTwo_root:
  assumes "needs_split pageSize (nd st a)" "n_parent (nd st a) = None" "a < n_next st"
  shows "splitTwo rnd f pageSize a st = splitTwo rnd f pageSize a (with_parent a st)"
proof -
  note w = with_parent_simps [OF assms(3)]
  have g: "\<not> (length (inodes (nd st a)) \<le> minKeysPerPage * 2 \<or> sizeLessThan pageSize (nd st a))"
    "\<not> (length (inodes (nd (with_parent a st) a)) \<le> minKeysPerPage * 2 \<or> sizeLessThan pageSize (nd (with_parent a st) a))"
    using assms(1) by (auto simp: needs_split_def sizeLessThan_iff minKeysPerPage_def w)
  show ?thesis unfolding splitTwo_def if_not_P [OF g(1)] if_not_P [OF g(2)]
    using assms(2,3) by (auto simp: new_node_def set_node_def with_parent_def Let_def split: prod.splits)
qed

text \<open>What splitting the node \<open>a\<close> under its parent \<open>p\<close> gives: the node itself and the new nodes \<open>ns\<close>.\<close>

definition split_ok :: "nat \<Rightarrow> nat \<Rightarrow> addr \<Rightarrow> addr \<Rightarrow> addr list \<Rightarrow> nstore \<Rightarrow> nstore \<Rightarrow> bool" where
  "split_ok t pageSize p a ns st st' \<longleftrightarrow>
     distinct (a # ns) \<and> (\<forall>b \<in> set ns. n_next st \<le> b \<and> b < n_next st') \<and>
     concat (map (\<lambda>b. inodes (nd st' b)) (a # ns)) = inodes (nd st a) \<and>
     (\<forall>b \<in> set (a # ns). isLeaf (nd st' b) = isLeaf (nd st a) \<and> n_parent (nd st' b) = Some p) \<and>
     (\<forall>b \<in> set (butlast (a # ns)). 2 \<le> length (inodes (nd st' b)) \<and>
        (length (inodes (nd st' b)) = 2 \<or> node_size (nd st' b) \<le> t)) \<and>
     \<not> needs_split pageSize (nd st' (List.last (a # ns))) \<and> (ns \<noteq> [] \<longrightarrow> 3 \<le> length (inodes (nd st' (List.last ns)))) \<and>
     nd st' p = (nd st p)\<lparr>children := children (nd st p) @ ns\<rparr> \<and>
     (\<forall>c < n_next st. c \<noteq> a \<longrightarrow> c \<noteq> p \<longrightarrow> nd st' c = nd st c)"

lemma esize_inodes [simp]: "esize (n\<lparr>inodes := l\<rparr>) = esize n"
  by (simp add: esize_def pageElementSize_def fun_eq_iff)

lemma splitLoop_spec:
  assumes "n_parent (nd st a) = Some p" "a < n_next st" "p < n_next st" "a \<noteq> p"
  shows "\<exists>ns st'. splitLoop rnd f pageSize a acc st = Some (acc @ a # ns, st') \<and> n_next st \<le> n_next st' \<and>
    nd st' a = (nd st a)\<lparr>inodes := inodes (nd st' a)\<rparr> \<and> split_ok (threshold rnd f pageSize) pageSize p a ns st st'"
  using assms
proof (induction "length (inodes (nd st a))" arbitrary: st a acc rule: less_induct)
  case less
  show ?case
  proof (cases "needs_split pageSize (nd st a)")
    case False
    then have "splitLoop rnd f pageSize a acc st = Some (acc @ [a], st)" by (simp add: splitLoop.simps splitTwo_none)
    moreover have "split_ok (threshold rnd f pageSize) pageSize p a [] st st" using False less.prems by (simp add: split_ok_def)
    ultimately show ?thesis by auto
  next
    case True
    let ?t = "threshold rnd f pageSize"
    define si where "si = fst (splitIndex ?t (nd st a))"
    define b where "b = n_next st"
    define st1 where "st1 = \<lparr>nd = (nd st)
      (a := (nd st a)\<lparr>inodes := take si (inodes (nd st a))\<rparr>,
       b := zeroNode\<lparr>isLeaf := isLeaf (nd st a), n_parent := Some p, inodes := drop si (inodes (nd st a))\<rparr>,
       p := (nd st p)\<lparr>children := children (nd st p) @ [b]\<rparr>), n_next = Suc b\<rparr>"
    have two: "splitTwo rnd f pageSize a st = (Some b, st1)"
      unfolding st1_def by (rule splitTwo_child [OF True less.prems si_def b_def])
    have ne: "a \<noteq> b" "p \<noteq> b" using less.prems(2,3) by (simp_all add: b_def)
    have n1: "nd st1 a = (nd st a)\<lparr>inodes := take si (inodes (nd st a))\<rparr>" "n_next st1 = Suc b"
      "nd st1 b = zeroNode\<lparr>isLeaf := isLeaf (nd st a), n_parent := Some p, inodes := drop si (inodes (nd st a))\<rparr>"
      "nd st1 p = (nd st p)\<lparr>children := children (nd st p) @ [b]\<rparr>"
      "\<And>c. c \<noteq> a \<Longrightarrow> c \<noteq> b \<Longrightarrow> c \<noteq> p \<Longrightarrow> nd st1 c = nd st c"
      using ne less.prems(4) by (auto simp: st1_def)
    have len: "4 < length (inodes (nd st a))" using True by (simp add: needs_split_def)
    have S: "2 \<le> si" "si + 3 \<le> length (inodes (nd st a))"
      "si = 2 \<or> pageHeaderSize + sum_list (map (esize (nd st a)) (take si (inodes (nd st a)))) \<le> ?t"
      using splitIndex_spec [OF len refl, of ?t] unfolding si_def [symmetric] by simp_all
    have c1: "length (inodes (nd st1 b)) < length (inodes (nd st a))" "n_parent (nd st1 b) = Some p" "b < n_next st1" "b \<noteq> p"
      using S(1,2) ne by (simp_all add: n1)
    have "p < n_next st1" using less.prems(3) by (simp add: n1(2) b_def)
    then obtain ns st' where IH: "splitLoop rnd f pageSize b (acc @ [a]) st1 = Some ((acc @ [a]) @ b # ns, st')" "n_next st1 \<le> n_next st'"
      "split_ok ?t pageSize p b ns st1 st'"
      using less.hyps [OF c1(1-3) _ c1(4), of "acc @ [a]"] by blast
    have a': "nd st' a = nd st1 a" using IH(3) ne less.prems(2,4) by (simp add: split_ok_def n1 b_def)
    have fresh: "a \<notin> set ns" using IH(3) less.prems(2) by (auto simp: split_ok_def n1 b_def)
    have sz: "node_size (nd st1 a) = pageHeaderSize + sum_list (map (esize (nd st a)) (take si (inodes (nd st a))))"
      by (simp add: node_size_sum n1)
    have "splitLoop rnd f pageSize a acc st = Some (acc @ a # b # ns, st')" using IH(1) by (simp add: splitLoop.simps [of rnd f pageSize a] two)
    moreover have "nd st' a = (nd st a)\<lparr>inodes := inodes (nd st' a)\<rparr>" unfolding a' n1 by simp
    moreover have "split_ok ?t pageSize p a (b # ns) st st'" unfolding split_ok_def
    proof (intro conjI)
      show "distinct (a # b # ns)" using IH(3) ne fresh by (simp add: split_ok_def)
      show "\<forall>c \<in> set (b # ns). n_next st \<le> c \<and> c < n_next st'" using IH(2,3) by (auto simp: split_ok_def n1 b_def)
      show "concat (map (\<lambda>c. inodes (nd st' c)) (a # b # ns)) = inodes (nd st a)" using IH(3) by (simp add: split_ok_def a' n1)
      show "\<forall>c \<in> set (a # b # ns). isLeaf (nd st' c) = isLeaf (nd st a) \<and> n_parent (nd st' c) = Some p"
        using IH(3) less.prems(1) by (simp add: split_ok_def a' n1)
      show "\<forall>c \<in> set (butlast (a # b # ns)). 2 \<le> length (inodes (nd st' c)) \<and> (length (inodes (nd st' c)) = 2 \<or> node_size (nd st' c) \<le> ?t)"
        using IH(3) S sz unfolding split_ok_def by (auto simp: a' n1)
      show "\<not> needs_split pageSize (nd st' (List.last (a # b # ns)))" using IH(3) by (simp add: split_ok_def)
      show "b # ns \<noteq> [] \<longrightarrow> 3 \<le> length (inodes (nd st' (List.last (b # ns))))"
        using IH(3) S(2) by (cases "ns = []") (auto simp: split_ok_def n1)
      show "nd st' p = (nd st p)\<lparr>children := children (nd st p) @ b # ns\<rparr>" using IH(3) by (simp add: split_ok_def n1)
      show "\<forall>c < n_next st. c \<noteq> a \<longrightarrow> c \<noteq> p \<longrightarrow> nd st' c = nd st c" using IH(3) by (auto simp: split_ok_def n1 b_def)
    qed
    moreover have "n_next st \<le> n_next st'" using IH(2) by (simp add: n1 b_def)
    ultimately show ?thesis by blast
  qed
qed


section \<open>Properties\<close>


definition demo_entry :: "byte \<Rightarrow> inode" where
  "demo_entry k = \<lparr>i_flags = 0, i_pgid = 0, i_key = [k], i_value = [k, k]\<rparr>"

definition demo_node :: node where
  "demo_node = zeroNode\<lparr>isLeaf := True, inodes := map demo_entry [1, 2, 3, 5, 6, 7]\<rparr>"




section \<open>Pages\<close>

lemma subslice_cong:
  assumes "length d = length d'" "hi \<le> length d" "\<And>x. lo \<le> x \<Longrightarrow> x < hi \<Longrightarrow> d ! x = d' ! x"
  shows "subslice d lo hi = subslice d' lo hi"
  using assms by (intro nth_equalityI) (auto simp: subslice_def)

lemma subslice_inside:
  assumes "o1 + length bs \<le> length d" "y \<le> length bs" "x \<le> y" "lo = o1 + x" "hi = o1 + y"
  shows "subslice (copy_at d o1 bs) lo hi = subslice bs x y"
  unfolding assms(4,5) using assms(1-3) by (intro nth_equalityI) (auto simp: subslice_def nth_copy_at)

lemma subslice_parts [simp]:
  "length a = n \<Longrightarrow> subslice (a @ b) 0 n = a"
  "length a = n \<Longrightarrow> n \<le> x \<Longrightarrow> subslice (a @ b) x y = subslice b (x - n) (y - n)"
  by (auto simp: subslice_def)

lemma length_elem [simp]: "length (leafBytes e) = 16" "length (branchBytes b) = 16"
  by (simp_all add: leafBytes_def branchBytes_def)

lemma leaf_fields:
  "subslice (leafBytes e) 0 4 = put_le 4 (le_flags e)" "subslice (leafBytes e) 4 8 = put_le 4 (le_pos e)"
  "subslice (leafBytes e) 8 12 = put_le 4 (le_ksize e)" "subslice (leafBytes e) 12 16 = put_le 4 (le_vsize e)"
  by (simp_all add: leafBytes_def)

lemma branch_fields:
  "subslice (branchBytes e) 0 4 = put_le 4 (be_pos e)" "subslice (branchBytes e) 4 8 = put_le 4 (be_ksize e)"
  "subslice (branchBytes e) 8 16 = put_le 8 (be_pgid e)"
  by (simp_all add: branchBytes_def)

lemma getLeaf_put:
  assumes "16 * i + 16 \<le> length d"
  shows "getLeaf i (copy_at d (leafPageElementSize * i) (leafBytes e)) = e"
proof -
  have S: "subslice (copy_at d (16 * i) (leafBytes e)) (16 * i + x) (16 * i + y) = subslice (leafBytes e) x y" if "x \<le> y" "y \<le> 16" for x y
    by (rule subslice_inside) (use assms that in auto)
  then show ?thesis using S [of 0 4] by (simp add: getLeaf_def leafPageElementSize_def leaf_fields get_put_le Let_def)
qed

lemma getBranch_put:
  assumes "16 * i + 16 \<le> length d"
  shows "getBranch i (copy_at d (branchPageElementSize * i) (branchBytes e)) = e"
proof -
  have S: "subslice (copy_at d (16 * i) (branchBytes e)) (16 * i + x) (16 * i + y) = subslice (branchBytes e) x y" if "x \<le> y" "y \<le> 16" for x y
    by (rule subslice_inside) (use assms that in auto)
  then show ?thesis using S [of 0 4] by (simp add: getBranch_def branchPageElementSize_def branch_fields get_put_le Let_def)
qed

lemma get_elem_cong:
  assumes "length d = length d'" "16 * i + 16 \<le> length d" "\<And>x. 16 * i \<le> x \<Longrightarrow> x < 16 * i + 16 \<Longrightarrow> d ! x = d' ! x"
  shows "getLeaf i d = getLeaf i d'" "getBranch i d = getBranch i d'"
proof -
  have S: "subslice d (16 * i + x) (16 * i + y) = subslice d' (16 * i + x) (16 * i + y)" if "y \<le> 16" for x y
    by (rule subslice_cong [OF assms(1)]) (use assms(2,3) that in auto)
  show "getLeaf i d = getLeaf i d'" using S [of 4 0] by (simp add: getLeaf_def leafPageElementSize_def S Let_def)
  show "getBranch i d = getBranch i d'" using S [of 4 0] by (simp add: getBranch_def branchPageElementSize_def S Let_def)
qed

text \<open>What a page keeps of an entry.\<close>

definition stored :: "bool \<Rightarrow> inode \<Rightarrow> inode" where
  "stored leaf e = (if leaf then e\<lparr>i_pgid := 0\<rparr> else e\<lparr>i_flags := 0, i_value := []\<rparr>)"

definition elemBytes :: "bool \<Rightarrow> nat \<Rightarrow> nat \<Rightarrow> inode \<Rightarrow> byte list" where
  "elemBytes leaf i b e =
     (if leaf then leafBytes \<lparr>le_flags = i_flags e, le_pos = of_nat (b - 16 * i), le_ksize = of_nat (length (i_key e)), le_vsize = of_nat (length (i_value e))\<rparr>
      else branchBytes \<lparr>be_pos = of_nat (b - 16 * i), be_ksize = of_nat (length (i_key e)), be_pgid = i_pgid e\<rparr>)"

lemma length_elemBytes [simp]: "length (elemBytes leaf i b e) = 16"
  by (simp add: elemBytes_def)

text \<open>An element at \<open>16 * i\<close> whose key and value are at \<open>b\<close> is read back.\<close>

lemma readInode_elem:
  assumes d: "length d = length d0" "16 * i + 16 \<le> length d0"
    and el: "\<And>x. 16 * i \<le> x \<Longrightarrow> x < 16 * i + 16 \<Longrightarrow> d ! x = copy_at d0 (16 * i) (elemBytes leaf i b e) ! x"
    and k: "subslice d b (b + length (i_key e)) = i_key e" "i_key e \<noteq> []"
    and v: "subslice d (b + length (i_key e)) (b + length (i_key e) + length (i_value e)) = i_value e"
    and b: "16 * i \<le> b" "b + length (i_key e) + length (i_value e) \<le> length d" "b + length (i_key e) + length (i_value e) < 2 ^ 32"
  shows "readInode leaf i d = Inr (stored leaf e)"
proof -
  let ?c = "copy_at d0 (16 * i) (elemBytes leaf i b e)"
  have lc: "length d = length ?c" using d by simp
  have i16: "16 * i + 16 \<le> length d" using d by simp
  note G = get_elem_cong [OF lc i16 el]
  have u: "unat (of_nat (b - 16 * i) :: u32) = b - 16 * i" "unat (of_nat (length (i_key e)) :: u32) = length (i_key e)"
    "unat (of_nat (length (i_value e)) :: u32) = length (i_value e)"
    "unat (of_nat (b - 16 * i) + of_nat (length (i_key e)) :: u32) = b - 16 * i + length (i_key e)"
    using b(3) by (simp_all add: unat_of_nat flip: of_nat_add)
  show ?thesis
  proof (cases leaf)
    case True
    have "getLeaf i d = \<lparr>le_flags = i_flags e, le_pos = of_nat (b - 16 * i), le_ksize = of_nat (length (i_key e)), le_vsize = of_nat (length (i_value e))\<rparr>"
      using G(1) getLeaf_put [of i d0] d(2) True by (simp add: elemBytes_def leafPageElementSize_def)
    then show ?thesis using True i16 k v b u by (simp add: readInode_def bytesAt_def leafPageElementSize_def stored_def Let_def)
  next
    case False
    have "getBranch i d = \<lparr>be_pos = of_nat (b - 16 * i), be_ksize = of_nat (length (i_key e)), be_pgid = i_pgid e\<rparr>"
      using G(2) getBranch_put [of i d0] d(2) False by (simp add: elemBytes_def branchPageElementSize_def)
    then show ?thesis using False i16 k b u by (simp add: readInode_def bytesAt_def branchPageElementSize_def stored_def Let_def)
  qed
qed

definition dataLen :: "inode list \<Rightarrow> nat" where
  "dataLen l = sum_list (map (\<lambda>e. length (i_key e) + length (i_value e)) l)"

lemma writeLoop_spec:
  assumes "\<forall>e \<in> set items. i_key e \<noteq> [] \<and> (leaf \<or> i_pgid e \<noteq> pid)" "16 * (i + length items) \<le> b"
    "b + dataLen items \<le> length d" "b + dataLen items < 2 ^ 32"
  shows "\<exists>d'. writeLoop leaf pid i b items d = Inr d' \<and> length d' = length d \<and>
    (\<forall>x < 16 * i. d' ! x = d ! x) \<and> (\<forall>x. 16 * (i + length items) \<le> x \<longrightarrow> x < b \<longrightarrow> d' ! x = d ! x) \<and>
    (\<forall>j < length items. readInode leaf (i + j) d' = Inr (stored leaf (items ! j)))"
  using assms
proof (induction items arbitrary: i b d)
  case (Cons e rest)
  let ?k = "length (i_key e)" and ?v = "length (i_value e)"
  define c where "c = copy_at d (16 * i) (elemBytes leaf i b e)"
  define d1 where "d1 = copy_at (copy_at c b (i_key e)) (b + ?k) (i_value e)"
  have dl: "dataLen (e # rest) = ?k + ?v + dataLen rest" by (simp add: dataLen_def)
  have len: "b + ?k + ?v \<le> length d" "16 * i + 16 \<le> b" using Cons.prems(2,3) dl by auto
  have lc: "length c = length d" unfolding c_def using len by simp
  have ld: "length d1 = length d" unfolding d1_def using len lc by simp
  have step: "writeLoop leaf pid i b (e # rest) d = writeLoop leaf pid (Suc i) (b + ?k + ?v) rest d1"
    using Cons.prems(1) len lc unfolding d1_def c_def elemBytes_def
    by (auto simp: leafPageElementSize_def branchPageElementSize_def Let_def)
  obtain d' where d': "writeLoop leaf pid (Suc i) (b + ?k + ?v) rest d1 = Inr d'" "length d' = length d1"
    "\<And>x. x < 16 * Suc i \<Longrightarrow> d' ! x = d1 ! x" "\<And>x. 16 * (Suc i + length rest) \<le> x \<Longrightarrow> x < b + ?k + ?v \<Longrightarrow> d' ! x = d1 ! x"
    "\<forall>j < length rest. readInode leaf (Suc i + j) d' = Inr (stored leaf (rest ! j))"
    using Cons.IH [of "Suc i" "b + ?k + ?v" d1] Cons.prems dl ld by auto
  have below: "d1 ! x = c ! x" if "x < b" for x using that len lc by (simp add: d1_def nth_copy_at)
  have old: "c ! x = d ! x" if "x < 16 * i \<or> 16 * i + 16 \<le> x" "x < b" for x using that len by (simp add: c_def nth_copy_at) linarith
  have k: "subslice d' b (b + ?k) = i_key e"
  proof -
    have "subslice d' b (b + ?k) = subslice d1 b (b + ?k)" by (rule subslice_cong) (use d'(2,4) ld len Cons.prems(2) in auto)
    also have "\<dots> = subslice (copy_at c b (i_key e)) b (b + ?k)" unfolding d1_def by (rule subslice_copy_at_other) (use len lc in auto)
    also have "\<dots> = i_key e" by (rule subslice_copy_at_same) (use len lc in auto)
    finally show ?thesis .
  qed
  have v: "subslice d' (b + ?k) (b + ?k + ?v) = i_value e"
  proof -
    have "subslice d' (b + ?k) (b + ?k + ?v) = subslice d1 (b + ?k) (b + ?k + ?v)" by (rule subslice_cong) (use d'(2,4) ld len Cons.prems(2) in auto)
    also have "\<dots> = i_value e" unfolding d1_def by (rule subslice_copy_at_same) (use len lc in auto)
    finally show ?thesis .
  qed
  have "readInode leaf i d' = Inr (stored leaf e)"
    by (rule readInode_elem [where ?d0.0 = d, OF _ _ _ k _ v])
      (use Cons.prems(1,4) dl d'(2,3) ld len below in \<open>auto simp: c_def\<close>)
  then have "readInode leaf (i + j) d' = Inr (stored leaf ((e # rest) ! j))" if "j < length (e # rest)" for j
    using d'(5) that by (cases j) auto
  moreover have "d' ! x = d ! x" if "x < 16 * i" for x using that d'(3) below old len by simp
  moreover have "d' ! x = d ! x" if "16 * (i + length (e # rest)) \<le> x" "x < b" for x using that d'(4) below old len by simp
  ultimately show ?case using step d'(1,2) ld by auto
qed simp

lemma readInodes_all:
  assumes "\<forall>j < length l. readInode leaf (i + j) d = Inr (f (l ! j))"
  shows "readInodes leaf d [i..<i + length l] = Inr (map f l)"
  using assms
proof (induction l arbitrary: i)
  case (Cons x l)
  have "readInode leaf i d = Inr (f x)" using Cons.prems by (metis add_0_right length_greater_0_conv list.distinct(1) nth_Cons_0)
  moreover have "\<forall>j < length l. readInode leaf (Suc i + j) d = Inr (f (l ! j))" using Cons.prems by auto
  then have "readInodes leaf d [Suc i..<Suc i + length l] = Inr (map f l)" by (rule Cons.IH)
  ultimately show ?case by (simp add: upt_conv_Cons del: upt_Suc)
qed simp

lemma i_key_stored [simp]: "i_key (stored leaf e) = i_key e"
  by (simp add: stored_def)

lemma node_size_dataLen: "node_size n = 16 + 16 * length (inodes n) + dataLen (inodes n)"
proof -
  have "sum_list (map (esize n) l) = 16 * length l + dataLen l" for l
    by (induction l) (simp_all add: esize_def pageElementSize_def leafPageElementSize_def branchPageElementSize_def dataLen_def)
  then show ?thesis by (simp add: node_size_sum pageHeaderSize_def)
qed



end
