(* ===== verification/Lzma_Range.thy ===== *)
theory Lzma_Range
  imports Go_Prelude
begin

text \<open>
  The range coder of the LZMA package (\<^verbatim>\<open>lzma2/range_coder.go\<close>) and its bit trees (\<^verbatim>\<open>range_bit_tree_coder.go\<close>). The
  writer is the list of the bytes written; it may fail after a number of bytes. The reader is the list of the
  bytes that are left. The package reports errors by \<^verbatim>\<open>throw\<close>, a panic that is turned into the error of the call;
  here it is the left value of the result. Slices of probabilities that the code updates in place are passed on.
\<close>

unbundle bit_operations_syntax

type_synonym u16 = "16 word"

definition rbind :: "'a res \<Rightarrow> ('a \<Rightarrow> 'b res) \<Rightarrow> 'b res" where
  "rbind x f = (case x of Inl e \<Rightarrow> Inl e | Inr v \<Rightarrow> f v)"

lemma rbind_simps [simp]: "rbind (Inr v) f = f v" "rbind (Inl e) f = Inl e"
  by (simp_all add: rbind_def)

section \<open>Constants and models\<close>

definition kTopValue :: u32 where "kTopValue = 0x1000000"
definition kNumBitModelTotalBits :: nat where "kNumBitModelTotalBits = 11"
definition kBitModelTotal :: u16 where "kBitModelTotal = 2048"
definition kNumMoveBits :: nat where "kNumMoveBits = 5"

definition initBitModels :: "u32 \<Rightarrow> u16 list" where
  "initBitModels len = replicate (unat len) (drop_bit 1 kBitModelTotal)"

section \<open>Decoder\<close>

record rangeDecoder =
  rd_in :: "byte list"
  rd_range :: u32
  rd_code :: u32

definition newRangeDecoder :: "byte list \<Rightarrow> rangeDecoder res" where
  "newRangeDecoder input =
     (if length input < 5 then Inl (Err ''EOF'')
      else Inr \<lparr>rd_in = drop 5 input, rd_range = 0xFFFFFFFF,
                rd_code = fold (\<lambda>b code. push_bit 8 code OR ucast b) (take 5 input) 0\<rparr>)"

text \<open>The next byte is read when the range has become small.\<close>

definition rd_fill :: "rangeDecoder \<Rightarrow> rangeDecoder res" where
  "rd_fill rd =
     (if rd_range rd < kTopValue then
        (case rd_in rd of
           [] \<Rightarrow> Inl (Err ''EOF'')
         | b # rest \<Rightarrow> Inr (rd\<lparr>rd_code := push_bit 8 (rd_code rd) OR ucast b, rd_range := push_bit 8 (rd_range rd), rd_in := rest\<rparr>))
      else Inr rd)"

fun decodeDirectLoop :: "nat \<Rightarrow> u32 \<Rightarrow> rangeDecoder \<Rightarrow> (u32 \<times> rangeDecoder) res" where
  "decodeDirectLoop 0 res rd = Inr (res, rd)"
| "decodeDirectLoop (Suc i) res rd =
     (let r = drop_bit 1 (rd_range rd); t = drop_bit 31 (rd_code rd - r);
          rd = rd\<lparr>rd_range := r, rd_code := rd_code rd - (r AND (t - 1))\<rparr>;
          res = push_bit 1 res OR (1 - t)
      in rbind (rd_fill rd) (decodeDirectLoop i res))"

definition decodeDirectBits :: "u32 \<Rightarrow> rangeDecoder \<Rightarrow> (u32 \<times> rangeDecoder) res" where
  "decodeDirectBits numTotalBits rd = decodeDirectLoop (unat numTotalBits) 0 rd"

definition decodeBit :: "u16 list \<Rightarrow> u32 \<Rightarrow> rangeDecoder \<Rightarrow> (u32 \<times> u16 list \<times> rangeDecoder) res" where
  "decodeBit probs index rd =
     (if unat index \<ge> length probs then Inl IndexOutOfRange
      else
        (let prob = probs ! unat index; newBound = drop_bit kNumBitModelTotalBits (rd_range rd) * ucast prob
         in if rd_code rd < newBound then
              rbind (rd_fill (rd\<lparr>rd_range := newBound\<rparr>))
                (\<lambda>rd. Inr (0, probs[unat index := prob + drop_bit kNumMoveBits (kBitModelTotal - prob)], rd))
            else
              rbind (rd_fill (rd\<lparr>rd_range := rd_range rd - newBound, rd_code := rd_code rd - newBound\<rparr>))
                (\<lambda>rd. Inr (1, probs[unat index := prob - drop_bit kNumMoveBits prob], rd))))"

section \<open>Encoder\<close>

text \<open>\<open>re_out\<close> are the bytes written; with \<open>re_fail = Some n\<close> the writer fails after \<open>n\<close> more bytes.\<close>

record rangeEncoder =
  re_out :: "byte list"
  re_fail :: "nat option"
  re_low :: u64
  re_pos :: u64
  re_cacheSize :: u32
  re_cache :: u32
  re_range :: u32

definition newRangeEncoder :: "nat option \<Rightarrow> rangeEncoder" where
  "newRangeEncoder fail =
     \<lparr>re_out = [], re_fail = fail, re_low = 0, re_pos = 0, re_cacheSize = 1, re_cache = 0, re_range = 0xFFFFFFFF\<rparr>"

definition WriteByte :: "byte \<Rightarrow> rangeEncoder \<Rightarrow> rangeEncoder res" where
  "WriteByte b re =
     (if re_fail re = Some 0 then Inl (Err ''write'')
      else Inr (re\<lparr>re_out := re_out re @ [b], re_fail := map_option (\<lambda>n. n - 1) (re_fail re)\<rparr>))"

text \<open>The loop of \<open>shiftLow\<close>, which runs at least once and until the cache size is 0.\<close>

function shiftLoop :: "u32 \<Rightarrow> u32 \<Rightarrow> rangeEncoder \<Rightarrow> rangeEncoder res" where
  "shiftLoop temp lowHi re =
     (case WriteByte (ucast (temp + lowHi)) re of
        Inl e \<Rightarrow> Inl e
      | Inr re' \<Rightarrow>
          (let re'' = re'\<lparr>re_cacheSize := re_cacheSize re' - 1\<rparr>
           in if re_cacheSize re'' = 0 then Inr re'' else shiftLoop 0xFF lowHi re''))"
  by pat_completeness auto
termination
proof (relation "measure (\<lambda>(temp, lowHi, re). if re_cacheSize re = 0 then 2 ^ 32 else unat (re_cacheSize re))", goal_cases)
  case (2 temp lowHi re re' re'')
  have cs: "re_cacheSize re' = re_cacheSize re" using 2(1) by (auto simp: WriteByte_def split: if_splits)
  have "unat (re_cacheSize re - 1) < (if re_cacheSize re = 0 then 2 ^ 32 else unat (re_cacheSize re))"
  proof (cases "re_cacheSize re = 0")
    case True
    then show ?thesis using unsigned_less [where ?w = "re_cacheSize re - 1"] by simp
  next
    case False
    then have "0 < unat (re_cacheSize re)" by (simp add: unat_gt_0)
    then show ?thesis using False by (simp add: unat_minus_one)
  qed
  then show ?case using 2(2,3) cs by simp
qed simp

declare shiftLoop.simps [simp del]

definition shiftLow :: "rangeEncoder \<Rightarrow> rangeEncoder res" where
  "shiftLow re =
     (let lowHi = ucast (drop_bit 32 (re_low re)) :: u32
      in rbind
           (if lowHi \<noteq> 0 \<or> re_low re < 0xFF000000 then
              rbind (shiftLoop (re_cache re) lowHi (re\<lparr>re_pos := re_pos re + ucast (re_cacheSize re)\<rparr>))
                (\<lambda>re. Inr (re\<lparr>re_cache := drop_bit 24 (ucast (re_low re))\<rparr>))
            else Inr re)
           (\<lambda>re. Inr (re\<lparr>re_cacheSize := re_cacheSize re + 1, re_low := ucast (push_bit 8 (ucast (re_low re) :: u32))\<rparr>)))"

fun flushLoop :: "nat \<Rightarrow> rangeEncoder \<Rightarrow> rangeEncoder res" where
  "flushLoop 0 re = Inr re"
| "flushLoop (Suc i) re = rbind (shiftLow re) (flushLoop i)"

text \<open>\<open>flushErr\<close> is what the writer's \<^verbatim>\<open>Flush\<close> returns.\<close>

definition re_flush :: "string option \<Rightarrow> rangeEncoder \<Rightarrow> rangeEncoder res" where
  "re_flush flushErr re =
     rbind (flushLoop 5 re) (\<lambda>re. case flushErr of Some err \<Rightarrow> Inl (Err err) | None \<Rightarrow> Inr re)"

definition re_shift :: "rangeEncoder \<Rightarrow> rangeEncoder res" where
  "re_shift re = (if re_range re < kTopValue then shiftLow (re\<lparr>re_range := push_bit 8 (re_range re)\<rparr>) else Inr re)"

fun encodeDirectLoop :: "nat \<Rightarrow> u32 \<Rightarrow> rangeEncoder \<Rightarrow> rangeEncoder res" where
  "encodeDirectLoop 0 v re = Inr re"
| "encodeDirectLoop (Suc i) v re =
     (let r = drop_bit 1 (re_range re); re = re\<lparr>re_range := r\<rparr>;
          re = (if drop_bit i v AND 1 = 1 then re\<lparr>re_low := re_low re + ucast r\<rparr> else re)
      in rbind (re_shift re) (encodeDirectLoop i v))"

text \<open>The loop stops at once when the number of bits, less one, is negative as an \<^verbatim>\<open>int32\<close>.\<close>

definition encodeDirectBits :: "u32 \<Rightarrow> u32 \<Rightarrow> rangeEncoder \<Rightarrow> rangeEncoder res" where
  "encodeDirectBits v numTotalBits re =
     (if sint (numTotalBits - 1) < 0 then Inr re else encodeDirectLoop (unat numTotalBits) v re)"

definition processedSize :: "rangeEncoder \<Rightarrow> u64" where
  "processedSize re = ucast (re_cacheSize re) + re_pos re + 4"

definition re_encode :: "u16 list \<Rightarrow> u32 \<Rightarrow> u32 \<Rightarrow> rangeEncoder \<Rightarrow> (u16 list \<times> rangeEncoder) res" where
  "re_encode probs index symbol re =
     (if unat index \<ge> length probs then Inl IndexOutOfRange
      else
        (let prob = probs ! unat index; newBound = drop_bit kNumBitModelTotalBits (re_range re) * ucast prob;
             (probs, re) =
               (if symbol = 0 then
                  (probs[unat index := prob + drop_bit kNumMoveBits (kBitModelTotal - prob)], re\<lparr>re_range := newBound\<rparr>)
                else
                  (probs[unat index := prob - drop_bit kNumMoveBits prob],
                   re\<lparr>re_low := re_low re + (ucast newBound AND 0xFFFFFFFFFFFFFFFF), re_range := re_range re - newBound\<rparr>))
         in rbind (re_shift re) (\<lambda>re. Inr (probs, re))))"

section \<open>Bit trees\<close>

record rangeBitTreeCoder =
  models :: "u16 list"
  numBitLevels :: u32

definition newRangeBitTreeCoder :: "u32 \<Rightarrow> rangeBitTreeCoder" where
  "newRangeBitTreeCoder n = \<lparr>models = initBitModels (push_bit (unat n) 1), numBitLevels = n\<rparr>"

fun treeDecodeLoop :: "nat \<Rightarrow> u32 \<Rightarrow> u16 list \<Rightarrow> rangeDecoder \<Rightarrow> (u32 \<times> u16 list \<times> rangeDecoder) res" where
  "treeDecodeLoop 0 res ms rd = Inr (res, ms, rd)"
| "treeDecodeLoop (Suc k) res ms rd =
     rbind (decodeBit ms res rd) (\<lambda>(bt, ms, rd). treeDecodeLoop k (push_bit 1 res + bt) ms rd)"

definition tree_decode :: "rangeBitTreeCoder \<Rightarrow> rangeDecoder \<Rightarrow> (u32 \<times> rangeBitTreeCoder \<times> rangeDecoder) res" where
  "tree_decode rc rd =
     rbind (treeDecodeLoop (unat (numBitLevels rc)) 1 (models rc) rd)
       (\<lambda>(res, ms, rd). Inr (res - push_bit (unat (numBitLevels rc)) 1, rc\<lparr>models := ms\<rparr>, rd))"

text \<open>The reverse loops take the lowest bit first; \<open>st\<close> is the start index, 0 for a coder of its own.\<close>

fun reverseDecodeLoop :: "nat \<Rightarrow> nat \<Rightarrow> u32 \<Rightarrow> u32 \<Rightarrow> u32 \<Rightarrow> u16 list \<Rightarrow> rangeDecoder \<Rightarrow> (u32 \<times> u16 list \<times> rangeDecoder) res" where
  "reverseDecodeLoop 0 i st index res ms rd = Inr (res, ms, rd)"
| "reverseDecodeLoop (Suc k) i st index res ms rd =
     rbind (decodeBit ms (st + index) rd)
       (\<lambda>(bt, ms, rd). reverseDecodeLoop k (Suc i) st (push_bit 1 index + bt) (res OR push_bit i bt) ms rd)"

definition tree_reverseDecode :: "rangeBitTreeCoder \<Rightarrow> rangeDecoder \<Rightarrow> (u32 \<times> rangeBitTreeCoder \<times> rangeDecoder) res" where
  "tree_reverseDecode rc rd =
     rbind (reverseDecodeLoop (unat (numBitLevels rc)) 0 0 1 0 (models rc) rd) (\<lambda>(res, ms, rd). Inr (res, rc\<lparr>models := ms\<rparr>, rd))"

definition reverseDecodeIndex :: "u16 list \<Rightarrow> u32 \<Rightarrow> u32 \<Rightarrow> rangeDecoder \<Rightarrow> (u32 \<times> u16 list \<times> rangeDecoder) res" where
  "reverseDecodeIndex ms startIndex numBitModels rd = reverseDecodeLoop (unat numBitModels) 0 startIndex 1 0 ms rd"

fun treeEncodeLoop :: "nat \<Rightarrow> u32 \<Rightarrow> u32 \<Rightarrow> u16 list \<Rightarrow> rangeEncoder \<Rightarrow> (u16 list \<times> rangeEncoder) res" where
  "treeEncodeLoop 0 m symbol ms re = Inr (ms, re)"
| "treeEncodeLoop (Suc k) m symbol ms re =
     (let bt = drop_bit k symbol AND 1
      in rbind (re_encode ms m bt re) (\<lambda>(ms, re). treeEncodeLoop k (push_bit 1 m OR bt) symbol ms re))"

definition tree_encode :: "rangeBitTreeCoder \<Rightarrow> u32 \<Rightarrow> rangeEncoder \<Rightarrow> (rangeBitTreeCoder \<times> rangeEncoder) res" where
  "tree_encode rc symbol re =
     rbind (treeEncodeLoop (unat (numBitLevels rc)) 1 symbol (models rc) re) (\<lambda>(ms, re). Inr (rc\<lparr>models := ms\<rparr>, re))"

fun reverseEncodeLoop :: "nat \<Rightarrow> u32 \<Rightarrow> u32 \<Rightarrow> u32 \<Rightarrow> u16 list \<Rightarrow> rangeEncoder \<Rightarrow> (u16 list \<times> rangeEncoder) res" where
  "reverseEncodeLoop 0 st m symbol ms re = Inr (ms, re)"
| "reverseEncodeLoop (Suc k) st m symbol ms re =
     (let bt = symbol AND 1
      in rbind (re_encode ms (st + m) bt re) (\<lambda>(ms, re). reverseEncodeLoop k st (push_bit 1 m OR bt) (drop_bit 1 symbol) ms re))"

definition tree_reverseEncode :: "rangeBitTreeCoder \<Rightarrow> u32 \<Rightarrow> rangeEncoder \<Rightarrow> (rangeBitTreeCoder \<times> rangeEncoder) res" where
  "tree_reverseEncode rc symbol re =
     rbind (reverseEncodeLoop (unat (numBitLevels rc)) 0 1 symbol (models rc) re) (\<lambda>(ms, re). Inr (rc\<lparr>models := ms\<rparr>, re))"

definition reverseEncodeIndex :: "u16 list \<Rightarrow> u32 \<Rightarrow> u32 \<Rightarrow> u32 \<Rightarrow> rangeEncoder \<Rightarrow> (u16 list \<times> rangeEncoder) res" where
  "reverseEncodeIndex ms startIndex levels symbol re = reverseEncodeLoop (unat levels) startIndex 1 symbol ms re"

end
