(* ===== verification/Lzma_Coders.thy ===== *)
theory Lzma_Coders
  imports Lzma_Range
begin

text \<open>
  The coders of match lengths (\<^verbatim>\<open>lzma2/lzma_len_coder.go\<close>) and of literal bytes (\<^verbatim>\<open>lzma_lit_coder.go\<close>) and the prices of
  symbols. A slot of a slice of coders that was never filled is nil.
\<close>

unbundle bit_operations_syntax

section \<open>Lengths\<close>

definition kNumPosStatesMax :: nat where "kNumPosStatesMax = 16"
definition kNumLowLenBits :: u32 where "kNumLowLenBits = 3"
definition kNumMidLenBits :: u32 where "kNumMidLenBits = 3"
definition kNumHighLenBits :: u32 where "kNumHighLenBits = 8"
definition kNumLowLenSymbols :: u32 where "kNumLowLenSymbols = 8"
definition kNumMidLenSymbols :: u32 where "kNumMidLenSymbols = 8"

record lenCoder =
  choice :: "u16 list"
  lowCoder :: "rangeBitTreeCoder option list"
  midCoder :: "rangeBitTreeCoder option list"
  highCoder :: rangeBitTreeCoder

text \<open>More position states than there is room for make the code panic.\<close>

definition newLenCoder :: "u32 \<Rightarrow> lenCoder res" where
  "newLenCoder numPosStates =
     (if unat numPosStates > kNumPosStatesMax then Inl IndexOutOfRange
      else
        (let slots = (\<lambda>n. replicate (unat numPosStates) (Some (newRangeBitTreeCoder n)) @ replicate (kNumPosStatesMax - unat numPosStates) None)
         in Inr \<lparr>choice = initBitModels 2, lowCoder = slots kNumLowLenBits, midCoder = slots kNumMidLenBits,
                 highCoder = newRangeBitTreeCoder kNumHighLenBits\<rparr>))"

definition coderAt :: "rangeBitTreeCoder option list \<Rightarrow> u32 \<Rightarrow> rangeBitTreeCoder res" where
  "coderAt l i = (if unat i \<ge> length l then Inl IndexOutOfRange else case l ! unat i of None \<Rightarrow> Inl NilDeref | Some c \<Rightarrow> Inr c)"

definition len_decode :: "u32 \<Rightarrow> lenCoder \<Rightarrow> rangeDecoder \<Rightarrow> (u32 \<times> lenCoder \<times> rangeDecoder) res" where
  "len_decode posState lc rd =
     rbind (decodeBit (choice lc) 0 rd)
       (\<lambda>(i, ch, rd). let lc = lc\<lparr>choice := ch\<rparr>
          in if i = 0 then
               rbind (coderAt (lowCoder lc) posState) (\<lambda>c. rbind (tree_decode c rd)
                 (\<lambda>(res, c, rd). Inr (res, lc\<lparr>lowCoder := (lowCoder lc)[unat posState := Some c]\<rparr>, rd)))
             else
               rbind (decodeBit (choice lc) 1 rd)
                 (\<lambda>(j, ch, rd). let lc = lc\<lparr>choice := ch\<rparr>
                    in if j = 0 then
                         rbind (coderAt (midCoder lc) posState) (\<lambda>c. rbind (tree_decode c rd)
                           (\<lambda>(k, c, rd). Inr (kNumLowLenSymbols + k, lc\<lparr>midCoder := (midCoder lc)[unat posState := Some c]\<rparr>, rd)))
                       else
                         rbind (tree_decode (highCoder lc) rd)
                           (\<lambda>(l, c, rd). Inr (kNumLowLenSymbols + kNumMidLenSymbols + l, lc\<lparr>highCoder := c\<rparr>, rd))))"

definition len_encode :: "u32 \<Rightarrow> u32 \<Rightarrow> lenCoder \<Rightarrow> rangeEncoder \<Rightarrow> (lenCoder \<times> rangeEncoder) res" where
  "len_encode posState symbol lc re =
     (if symbol < kNumLowLenSymbols then
        rbind (re_encode (choice lc) 0 0 re)
          (\<lambda>(ch, re). let lc = lc\<lparr>choice := ch\<rparr>
             in rbind (coderAt (lowCoder lc) posState) (\<lambda>c. rbind (tree_encode c symbol re)
                  (\<lambda>(c, re). Inr (lc\<lparr>lowCoder := (lowCoder lc)[unat posState := Some c]\<rparr>, re))))
      else
        (let symbol = symbol - kNumLowLenSymbols
         in rbind (re_encode (choice lc) 0 1 re)
              (\<lambda>(ch, re). let lc = lc\<lparr>choice := ch\<rparr>
                 in if symbol < kNumMidLenSymbols then
                      rbind (re_encode (choice lc) 1 0 re)
                        (\<lambda>(ch, re). let lc = lc\<lparr>choice := ch\<rparr>
                           in rbind (coderAt (midCoder lc) posState) (\<lambda>c. rbind (tree_encode c symbol re)
                                (\<lambda>(c, re). Inr (lc\<lparr>midCoder := (midCoder lc)[unat posState := Some c]\<rparr>, re))))
                    else
                      rbind (re_encode (choice lc) 1 1 re)
                        (\<lambda>(ch, re). let lc = lc\<lparr>choice := ch\<rparr>
                           in rbind (tree_encode (highCoder lc) (symbol - kNumMidLenSymbols) re)
                                (\<lambda>(c, re). Inr (lc\<lparr>highCoder := c\<rparr>, re))))))"

section \<open>Literals\<close>

record litSubCoder =
  coders :: "u16 list"

definition newLitSubCoder :: litSubCoder where
  "newLitSubCoder = \<lparr>coders = initBitModels 0x300\<rparr>"

partial_function (option) litLoop :: "u32 \<Rightarrow> u16 list \<Rightarrow> rangeDecoder \<Rightarrow> (u32 \<times> u16 list \<times> rangeDecoder) res option" where
  "litLoop symbol ps rd =
     (if symbol < 0x100 then
        (case decodeBit ps symbol rd of
           Inl e \<Rightarrow> Some (Inl e)
         | Inr (i, ps, rd) \<Rightarrow> litLoop (push_bit 1 symbol OR i) ps rd)
      else Some (Inr (symbol, ps, rd)))"

declare litLoop.simps [code]

definition decodeNormal :: "litSubCoder \<Rightarrow> rangeDecoder \<Rightarrow> (byte \<times> litSubCoder \<times> rangeDecoder) res option" where
  "decodeNormal lsc rd =
     map_option (\<lambda>r. rbind r (\<lambda>(symbol, ps, rd). Inr (ucast symbol, lsc\<lparr>coders := ps\<rparr>, rd))) (litLoop 1 (coders lsc) rd)"

partial_function (option) litMatchLoop :: "u32 \<Rightarrow> u32 \<Rightarrow> u16 list \<Rightarrow> rangeDecoder \<Rightarrow> (u32 \<times> u16 list \<times> rangeDecoder) res option" where
  "litMatchLoop uMatchByte symbol ps rd =
     (if symbol < 0x100 then
        (let matchBit = drop_bit 7 uMatchByte AND 1; uMatchByte = push_bit 1 uMatchByte
         in case decodeBit ps (push_bit 8 (1 + matchBit) + symbol) rd of
              Inl e \<Rightarrow> Some (Inl e)
            | Inr (bt, ps, rd) \<Rightarrow>
                (let symbol = push_bit 1 symbol OR bt
                 in if matchBit \<noteq> bt then litLoop symbol ps rd else litMatchLoop uMatchByte symbol ps rd))
      else Some (Inr (symbol, ps, rd)))"

declare litMatchLoop.simps [code]

definition decodeWithMatchByte :: "byte \<Rightarrow> litSubCoder \<Rightarrow> rangeDecoder \<Rightarrow> (byte \<times> litSubCoder \<times> rangeDecoder) res option" where
  "decodeWithMatchByte matchByte lsc rd =
     map_option (\<lambda>r. rbind r (\<lambda>(symbol, ps, rd). Inr (ucast symbol, lsc\<lparr>coders := ps\<rparr>, rd)))
       (litMatchLoop (ucast matchByte) 1 (coders lsc) rd)"

text \<open>The loops of the encoders go down from bit 7; the first argument is one more than the bit.\<close>

fun litEncodeLoop :: "nat \<Rightarrow> u32 \<Rightarrow> u32 \<Rightarrow> u16 list \<Rightarrow> rangeEncoder \<Rightarrow> (u16 list \<times> rangeEncoder) res" where
  "litEncodeLoop 0 uSymbol ctx ps re = Inr (ps, re)"
| "litEncodeLoop (Suc i) uSymbol ctx ps re =
     (let bt = drop_bit i uSymbol AND 1
      in rbind (re_encode ps ctx bt re) (\<lambda>(ps, re). litEncodeLoop i uSymbol (push_bit 1 ctx OR bt) ps re))"

definition lit_encode :: "byte \<Rightarrow> litSubCoder \<Rightarrow> rangeEncoder \<Rightarrow> (litSubCoder \<times> rangeEncoder) res" where
  "lit_encode symbol lsc re =
     rbind (litEncodeLoop 8 (ucast symbol) 1 (coders lsc) re) (\<lambda>(ps, re). Inr (lsc\<lparr>coders := ps\<rparr>, re))"

fun litMatchedLoop :: "nat \<Rightarrow> u32 \<Rightarrow> u32 \<Rightarrow> u32 \<Rightarrow> bool \<Rightarrow> u16 list \<Rightarrow> rangeEncoder \<Rightarrow> (u16 list \<times> rangeEncoder) res" where
  "litMatchedLoop 0 uMatchByte uSymbol ctx same ps re = Inr (ps, re)"
| "litMatchedLoop (Suc i) uMatchByte uSymbol ctx same ps re =
     (let bt = drop_bit i uSymbol AND 1; matchBit = drop_bit i uMatchByte AND 1;
          state = (if same then ctx + push_bit 8 (1 + matchBit) else ctx);
          same = (if same then matchBit = bt else same)
      in rbind (re_encode ps state bt re) (\<lambda>(ps, re). litMatchedLoop i uMatchByte uSymbol (push_bit 1 ctx OR bt) same ps re))"

definition encodeMatched :: "byte \<Rightarrow> byte \<Rightarrow> litSubCoder \<Rightarrow> rangeEncoder \<Rightarrow> (litSubCoder \<times> rangeEncoder) res" where
  "encodeMatched matchByte symbol lsc re =
     rbind (litMatchedLoop 8 (ucast matchByte) (ucast symbol) 1 True (coders lsc) re) (\<lambda>(ps, re). Inr (lsc\<lparr>coders := ps\<rparr>, re))"

record litCoder =
  lit_coders :: "litSubCoder list"
  numPrevBits :: u32
  posMask :: u32

definition newLitCoder :: "u32 \<Rightarrow> u32 \<Rightarrow> litCoder" where
  "newLitCoder numPosBits numPrev =
     (let numStates = push_bit (unat (numPrev + numPosBits)) (1 :: u32)
      in \<lparr>lit_coders = replicate (unat numStates) newLitSubCoder, numPrevBits = numPrev,
          posMask = push_bit (unat numPosBits) 1 - 1\<rparr>)"

text \<open>The index of the coder for a position and the byte before it.\<close>

definition getSubCoder :: "u32 \<Rightarrow> byte \<Rightarrow> litCoder \<Rightarrow> u32" where
  "getSubCoder pos prevByte lc =
     push_bit (unat (numPrevBits lc)) (pos AND posMask lc) + ucast (drop_bit (unat (8 - numPrevBits lc)) prevByte)"

section \<open>Prices\<close>

definition kNumMoveReducingBits :: nat where "kNumMoveReducingBits = 2"
definition kNumBitPriceShiftBits :: nat where "kNumBitPriceShiftBits = 6"

text \<open>
  The table \<open>probPrices\<close>: the loop over \<open>i\<close> goes down from the number of bits less one; the inner loop fills one
  power of two. \<open>i\<close> counts one more than in the code.
\<close>

definition fillPrices :: "u32 \<Rightarrow> u32 list \<Rightarrow> u32 list" where
  "fillPrices i t =
     (let kNumBits = 9 :: u32; start = push_bit (unat (kNumBits - i - 1)) 1 :: u32; fin = push_bit (unat (kNumBits - i)) 1 :: u32
      in fold (\<lambda>j t. t[j := push_bit kNumBitPriceShiftBits i +
             drop_bit (unat (kNumBits - i - 1)) (push_bit kNumBitPriceShiftBits (fin - of_nat j))]) [unat start..<unat fin] t)"

fun fillAll :: "nat \<Rightarrow> u32 list \<Rightarrow> u32 list" where
  "fillAll 0 t = t"
| "fillAll (Suc i) t = fillAll i (fillPrices (of_nat i) t)"

definition initProbPrices :: "u32 list" where
  "initProbPrices = fillAll 9 (replicate 512 0)"

definition priceAt :: "u32 list \<Rightarrow> nat \<Rightarrow> u32 res" where
  "priceAt t i = (if i < length t then Inr (t ! i) else Inl IndexOutOfRange)"

definition getPrice :: "u32 list \<Rightarrow> u16 \<Rightarrow> u32 \<Rightarrow> u32 res" where
  "getPrice t prob symbol =
     priceAt t (unat (drop_bit kNumMoveReducingBits (((ucast prob - symbol) XOR (- symbol)) AND (ucast kBitModelTotal - 1))))"

definition getPrice0 :: "u32 list \<Rightarrow> u16 \<Rightarrow> u32 res" where
  "getPrice0 t prob = priceAt t (unat (drop_bit kNumMoveReducingBits prob))"

definition getPrice1 :: "u32 list \<Rightarrow> u16 \<Rightarrow> u32 res" where
  "getPrice1 t prob = priceAt t (unat (drop_bit kNumMoveReducingBits (kBitModelTotal - prob)))"

end
