(* ===== verification/Lzma_Decoder.thy ===== *)
theory Lzma_Decoder
  imports Lzma_Coders
begin

text \<open>
  The decoder of LZMA streams (\<^verbatim>\<open>lzma2/lzma_decoder.go\<close>) and the window it writes through (\<^verbatim>\<open>lz_window.go\<close>). A writer is
  given by what its \<^verbatim>\<open>Write\<close> returns: a function of the bytes it was given before and of the new ones to the number
  of bytes taken and the error, if any. The decoder returns an option: \<open>None\<close> would be a loop that does not end.
\<close>

unbundle bit_operations_syntax

section \<open>Constants and states\<close>

definition kNumStates :: u32 where "kNumStates = 12"
definition kNumPosStatesBitsMax :: nat where "kNumPosStatesBitsMax = 4"
definition kNumPosSlotBits :: u32 where "kNumPosSlotBits = 6"
definition kNumLenToPosStates :: u32 where "kNumLenToPosStates = 4"
definition kMatchMinLen :: u32 where "kMatchMinLen = 2"
definition kNumAlignBits :: u32 where "kNumAlignBits = 4"
definition kStartPosModelIndex :: u32 where "kStartPosModelIndex = 4"
definition kEndPosModelIndex :: u32 where "kEndPosModelIndex = 14"
definition kNumFullDistances :: u32 where "kNumFullDistances = 128"

definition stateUpdateChar :: "u32 \<Rightarrow> u32" where
  "stateUpdateChar index = (if index < 4 then 0 else if index < 10 then index - 3 else index - 6)"

definition stateUpdateMatch :: "u32 \<Rightarrow> u32" where
  "stateUpdateMatch index = (if index < 7 then 7 else 10)"

definition stateUpdateRep :: "u32 \<Rightarrow> u32" where
  "stateUpdateRep index = (if index < 7 then 8 else 11)"

definition stateUpdateShortRep :: "u32 \<Rightarrow> u32" where
  "stateUpdateShortRep index = (if index < 7 then 9 else 11)"

definition stateIsCharState :: "u32 \<Rightarrow> bool" where
  "stateIsCharState index = (if index < 7 then True else False)"

definition getLenToPosState :: "u32 \<Rightarrow> u32" where
  "getLenToPosState len =
     (let len = len - kMatchMinLen in if len < kNumLenToPosStates then len else kNumLenToPosStates - 1)"

section \<open>Properties of the header\<close>

record props =
  litContextBits :: byte
  litPosStateBits :: byte
  posStateBits :: byte
  dictSize :: u32

text \<open>The slice has the 13 bytes of the header; fewer than five would be a run-time panic.\<close>

definition decodeProps :: "byte list \<Rightarrow> props res" where
  "decodeProps buf =
     (if length buf < 5 then Inl IndexOutOfRange
      else
        (let d = buf ! 0
         in if d > 9 * 5 * 5 then Inl (Err ''error in lzma header'')
            else
              (let lc = d mod 9; d = d div 9; pb = d div 5; lp = d mod 5
               in if lc > 8 \<or> lp > 4 \<or> pb > 4 then Inl (Err ''error in lzma header'')
                  else Inr \<lparr>litContextBits = lc, litPosStateBits = lp, posStateBits = pb,
                            dictSize = fold (\<lambda>i s. s + push_bit (i * 8) (ucast (buf ! (i + 1)))) [0..<4] 0\<rparr>)))"

section \<open>The output window\<close>

type_synonym writer = "byte list \<Rightarrow> byte list \<Rightarrow> nat \<times> string option"

record lzOutWindow =
  ow_w :: "byte list"
  ow_buf :: "byte list"
  winSize :: u32
  ow_pos :: u32
  ow_streamPos :: u32

definition newLzOutWindow :: "u32 \<Rightarrow> lzOutWindow" where
  "newLzOutWindow windowSize =
     \<lparr>ow_w = [], ow_buf = replicate (unat windowSize) 0, winSize = windowSize, ow_pos = 0, ow_streamPos = 0\<rparr>"

definition ow_flush :: "writer \<Rightarrow> lzOutWindow \<Rightarrow> lzOutWindow res" where
  "ow_flush W ow =
     (let sz = ow_pos ow - ow_streamPos ow
      in if sz = 0 then Inr ow
         else if ow_streamPos ow > ow_streamPos ow + sz \<or> unat (ow_streamPos ow + sz) > length (ow_buf ow) then Inl IndexOutOfRange
         else
           (let p = subslice (ow_buf ow) (unat (ow_streamPos ow)) (unat (ow_streamPos ow + sz)); (n, err) = W (ow_w ow) p
            in case err of
                 Some e \<Rightarrow> Inl (Err e)
               | None \<Rightarrow>
                   if (of_nat n :: u32) \<noteq> sz then Inl (Err ''number of bytes returned by Writer.Write() didn't meet expectances'')
                   else
                     (let ow = ow\<lparr>ow_w := ow_w ow @ p, ow_pos := (if ow_pos ow \<ge> winSize ow then 0 else ow_pos ow)\<rparr>
                      in Inr (ow\<lparr>ow_streamPos := ow_pos ow\<rparr>))))"

definition putByte :: "writer \<Rightarrow> byte \<Rightarrow> lzOutWindow \<Rightarrow> lzOutWindow res" where
  "putByte W b ow =
     (if unat (ow_pos ow) \<ge> length (ow_buf ow) then Inl IndexOutOfRange
      else
        (let ow = ow\<lparr>ow_buf := (ow_buf ow)[unat (ow_pos ow) := b], ow_pos := ow_pos ow + 1\<rparr>
         in if ow_pos ow \<ge> winSize ow then ow_flush W ow else Inr ow))"

definition windowPos :: "lzOutWindow \<Rightarrow> u32 \<Rightarrow> u32" where
  "windowPos ow distance =
     (let pos = ow_pos ow - distance - 1 in if pos \<ge> winSize ow then pos + winSize ow else pos)"

text \<open>The loop of \<open>copyBlock\<close> runs once for each byte of the match.\<close>

fun copyLoop :: "writer \<Rightarrow> nat \<Rightarrow> u32 \<Rightarrow> lzOutWindow \<Rightarrow> lzOutWindow res" where
  "copyLoop W 0 pos ow = Inr ow"
| "copyLoop W (Suc len) pos ow =
     (let pos = (if pos \<ge> winSize ow then 0 else pos)
      in if unat pos \<ge> length (ow_buf ow) \<or> unat (ow_pos ow) \<ge> length (ow_buf ow) then Inl IndexOutOfRange
         else
           (let ow = ow\<lparr>ow_buf := (ow_buf ow)[unat (ow_pos ow) := ow_buf ow ! unat pos], ow_pos := ow_pos ow + 1\<rparr>
            in rbind (if ow_pos ow \<ge> winSize ow then ow_flush W ow else Inr ow) (copyLoop W len (pos + 1))))"

definition copyBlock :: "writer \<Rightarrow> u32 \<Rightarrow> u32 \<Rightarrow> lzOutWindow \<Rightarrow> lzOutWindow res" where
  "copyBlock W distance len ow = copyLoop W (unat len) (windowPos ow distance) ow"

definition getByte :: "u32 \<Rightarrow> lzOutWindow \<Rightarrow> byte res" where
  "getByte distance ow =
     (if unat (windowPos ow distance) \<ge> length (ow_buf ow) then Inl IndexOutOfRange else Inr (ow_buf ow ! unat (windowPos ow distance)))"

section \<open>The decoder\<close>

text \<open>
  The adaptive models of the decoder. The encoder keeps the same models: its \<^verbatim>\<open>isMatch\<close>, \<^verbatim>\<open>isRep\<close>, \<^verbatim>\<open>isRepG0\<close>, \<^verbatim>\<open>isRepG1\<close>,
  \<^verbatim>\<open>isRepG2\<close>, \<^verbatim>\<open>isRep0Long\<close>, \<^verbatim>\<open>posSlotCoders\<close>, \<^verbatim>\<open>posCoders\<close>, \<^verbatim>\<open>posAlignCoder\<close>, \<^verbatim>\<open>lenCoder\<close>, \<^verbatim>\<open>repMatchLenCoder\<close> and \<^verbatim>\<open>litCoder\<close>.
\<close>

record lzmaModels =
  matchDecoders :: "u16 list"
  repDecoders :: "u16 list"
  repG0Decoders :: "u16 list"
  repG1Decoders :: "u16 list"
  repG2Decoders :: "u16 list"
  rep0LongDecoders :: "u16 list"
  posSlotCoders :: "rangeBitTreeCoder list"
  posDecoders :: "u16 list"
  posAlignCoder :: rangeBitTreeCoder
  m_lenCoder :: lenCoder
  m_repLenCoder :: lenCoder
  m_litCoder :: litCoder

definition newModels :: "u32 \<Rightarrow> u32 \<Rightarrow> u32 \<Rightarrow> lzmaModels res" where
  "newModels lp lc pb =
     rbind (newLenCoder (push_bit (unat pb) 1)) (\<lambda>len. rbind (newLenCoder (push_bit (unat pb) 1)) (\<lambda>repLen.
       Inr \<lparr>matchDecoders = initBitModels (push_bit kNumPosStatesBitsMax kNumStates), repDecoders = initBitModels kNumStates,
            repG0Decoders = initBitModels kNumStates, repG1Decoders = initBitModels kNumStates,
            repG2Decoders = initBitModels kNumStates, rep0LongDecoders = initBitModels (push_bit kNumPosStatesBitsMax kNumStates),
            posSlotCoders = replicate (unat kNumLenToPosStates) (newRangeBitTreeCoder kNumPosSlotBits),
            posDecoders = initBitModels (kNumFullDistances - kEndPosModelIndex),
            posAlignCoder = newRangeBitTreeCoder kNumAlignBits,
            m_lenCoder = len, m_repLenCoder = repLen, m_litCoder = newLitCoder lp lc\<rparr>))"

record decoder =
  z_rd :: rangeDecoder
  z_outWin :: lzOutWindow
  z_models :: lzmaModels
  z_unpackSize :: "64 word"
  z_dictSizeCheck :: u32
  z_posStateMask :: u32

text \<open>The local variables of \<open>doDecode\<close>.\<close>

record decVars =
  v_state :: u32
  v_rep0 :: u32
  v_rep1 :: u32
  v_rep2 :: u32
  v_rep3 :: u32
  v_nowPos :: u64
  v_prevByte :: byte

text \<open>A literal; the match byte is there when the last packet was not a literal.\<close>

definition decodeLiteral :: "u64 \<Rightarrow> byte \<Rightarrow> byte option \<Rightarrow> lzmaModels \<Rightarrow> rangeDecoder \<Rightarrow> (byte \<times> lzmaModels \<times> rangeDecoder) res option" where
  "decodeLiteral nowPos prevByte matchByte m rd =
     (let i = unat (getSubCoder (ucast nowPos) prevByte (m_litCoder m))
      in if i \<ge> length (lit_coders (m_litCoder m)) then Some (Inl IndexOutOfRange)
         else
           (let lsc = lit_coders (m_litCoder m) ! i
            in map_option (\<lambda>r. rbind r (\<lambda>(b, lsc, rd).
                   Inr (b, m\<lparr>m_litCoder := (m_litCoder m)\<lparr>lit_coders := (lit_coders (m_litCoder m))[i := lsc]\<rparr>\<rparr>, rd)))
                 (case matchByte of Some mb \<Rightarrow> decodeWithMatchByte mb lsc rd | None \<Rightarrow> decodeNormal lsc rd)))"

text \<open>A repeated match: the four distances, the state and the length after it.\<close>

type_synonym reps = "u32 \<times> u32 \<times> u32 \<times> u32"

definition decodeRepDistance :: "u32 \<Rightarrow> reps \<Rightarrow> lzmaModels \<Rightarrow> rangeDecoder \<Rightarrow> (reps \<times> lzmaModels \<times> rangeDecoder) res" where
  "decodeRepDistance state reps m rd =
     (case reps of (rep0, rep1, rep2, rep3) \<Rightarrow>
        rbind (decodeBit (repG1Decoders m) state rd) (\<lambda>(b, ps, rd). let m = m\<lparr>repG1Decoders := ps\<rparr>
          in if b = 0 then Inr ((rep1, rep0, rep2, rep3), m, rd)
             else
               rbind (decodeBit (repG2Decoders m) state rd) (\<lambda>(b, ps, rd). let m = m\<lparr>repG2Decoders := ps\<rparr>
                 in if b = 0 then Inr ((rep2, rep0, rep1, rep3), m, rd)
                    else Inr ((rep3, rep0, rep1, rep2), m, rd))))"

definition decodeRepLen :: "u32 \<Rightarrow> u32 \<Rightarrow> reps \<Rightarrow> lzmaModels \<Rightarrow> rangeDecoder \<Rightarrow> ((u32 \<times> u32 \<times> reps) \<times> lzmaModels \<times> rangeDecoder) res" where
  "decodeRepLen state posState reps m rd =
     rbind (len_decode posState (m_repLenCoder m) rd)
       (\<lambda>(len, lc, rd). Inr ((len + kMatchMinLen, stateUpdateRep state, reps), m\<lparr>m_repLenCoder := lc\<rparr>, rd))"

definition decodeRep :: "u32 \<Rightarrow> u32 \<Rightarrow> reps \<Rightarrow> lzmaModels \<Rightarrow> rangeDecoder \<Rightarrow> ((u32 \<times> u32 \<times> reps) \<times> lzmaModels \<times> rangeDecoder) res" where
  "decodeRep state posState reps m rd =
     rbind (decodeBit (repG0Decoders m) state rd) (\<lambda>(b, ps, rd). let m = m\<lparr>repG0Decoders := ps\<rparr>
       in if b = 0 then
            rbind (decodeBit (rep0LongDecoders m) (push_bit kNumPosStatesBitsMax state + posState) rd) (\<lambda>(b, ps, rd). let m = m\<lparr>rep0LongDecoders := ps\<rparr>
              in if b = 0 then Inr ((1, stateUpdateShortRep state, reps), m, rd) else decodeRepLen state posState reps m rd)
          else rbind (decodeRepDistance state reps m rd) (\<lambda>(reps, m, rd). decodeRepLen state posState reps m rd))"

text \<open>The distance of a new match; \<open>None\<close> is the end marker.\<close>

definition decodeDistance :: "u32 \<Rightarrow> lzmaModels \<Rightarrow> rangeDecoder \<Rightarrow> (u32 option \<times> lzmaModels \<times> rangeDecoder) res" where
  "decodeDistance len m rd =
     (let i = unat (getLenToPosState len)
      in if i \<ge> length (posSlotCoders m) then Inl IndexOutOfRange
         else
           rbind (tree_decode (posSlotCoders m ! i) rd) (\<lambda>(posSlot, c, rd).
             let m = m\<lparr>posSlotCoders := (posSlotCoders m)[i := c]\<rparr>
             in if posSlot \<ge> kStartPosModelIndex then
                  (let numDirectBits = drop_bit 1 posSlot - 1; rep0 = push_bit (unat numDirectBits) (2 OR (posSlot AND 1))
                   in if posSlot < kEndPosModelIndex then
                        rbind (reverseDecodeIndex (posDecoders m) (rep0 - posSlot - 1) numDirectBits rd)
                          (\<lambda>(v, ps, rd). Inr (Some (rep0 + v), m\<lparr>posDecoders := ps\<rparr>, rd))
                      else
                        rbind (decodeDirectBits (numDirectBits - kNumAlignBits) rd) (\<lambda>(v, rd).
                          let rep0 = rep0 + push_bit (unat kNumAlignBits) v
                          in rbind (tree_reverseDecode (posAlignCoder m) rd) (\<lambda>(v, c, rd).
                               let rep0 = rep0 + v; m = m\<lparr>posAlignCoder := c\<rparr>
                               in if sint rep0 < 0 then
                                    (if rep0 = 0xFFFFFFFF then Inr (None, m, rd) else Inl (Err ''error in lzma encoded data stream''))
                                  else Inr (Some rep0, m, rd))))
                else Inr (Some posSlot, m, rd)))"

definition decodeMatch :: "u32 \<Rightarrow> u32 \<Rightarrow> lzmaModels \<Rightarrow> rangeDecoder \<Rightarrow> ((u32 \<times> u32 \<times> u32 option) \<times> lzmaModels \<times> rangeDecoder) res" where
  "decodeMatch state posState m rd =
     rbind (len_decode posState (m_lenCoder m) rd) (\<lambda>(len, lc, rd).
       let len = len + kMatchMinLen
       in rbind (decodeDistance len (m\<lparr>m_lenCoder := lc\<rparr>) rd)
            (\<lambda>(dist, m, rd). Inr ((len, stateUpdateMatch state, dist), m, rd)))"

text \<open>The copy of a match at the end of the body of the loop.\<close>

definition copyMatch :: "writer \<Rightarrow> u32 \<Rightarrow> decoder \<Rightarrow> decVars \<Rightarrow> (decoder \<times> decVars) res" where
  "copyMatch W len z v =
     (if ucast (v_rep0 v) \<ge> v_nowPos v \<or> v_rep0 v \<ge> z_dictSizeCheck z then Inl (Err ''error in lzma encoded data stream'')
      else
        rbind (copyBlock W (v_rep0 v) len (z_outWin z)) (\<lambda>ow. rbind (getByte 0 ow) (\<lambda>b.
          Inr (z\<lparr>z_outWin := ow\<rparr>, v\<lparr>v_nowPos := v_nowPos v + ucast len, v_prevByte := b\<rparr>))))"

text \<open>One turn of the loop; the flag tells whether the end marker was read.\<close>

definition decodeStep :: "writer \<Rightarrow> decoder \<Rightarrow> decVars \<Rightarrow> (bool \<times> decoder \<times> decVars) res option" where
  "decodeStep W z v =
     (let posState = ucast (v_nowPos v) AND z_posStateMask z; m = z_models z; state = v_state v
      in case decodeBit (matchDecoders m) (push_bit kNumPosStatesBitsMax state + posState) (z_rd z) of
           Inl e \<Rightarrow> Some (Inl e)
         | Inr (b, ps, rd) \<Rightarrow>
             (let m = m\<lparr>matchDecoders := ps\<rparr>
              in if b = 0 then
                   (case (if \<not> stateIsCharState state then rbind (getByte (v_rep0 v) (z_outWin z)) (\<lambda>mb. Inr (Some mb)) else Inr None) of
                      Inl e \<Rightarrow> Some (Inl e)
                    | Inr mb \<Rightarrow>
                        map_option (\<lambda>r. rbind r (\<lambda>(b, m, rd). rbind (putByte W b (z_outWin z)) (\<lambda>ow.
                            Inr (False, z\<lparr>z_rd := rd, z_models := m, z_outWin := ow\<rparr>,
                                 v\<lparr>v_prevByte := b, v_state := stateUpdateChar state, v_nowPos := v_nowPos v + 1\<rparr>))))
                          (decodeLiteral (v_nowPos v) (v_prevByte v) mb m rd))
                 else
                   Some (rbind (decodeBit (repDecoders m) state rd) (\<lambda>(b, ps, rd).
                     let m = m\<lparr>repDecoders := ps\<rparr>
                     in if b = 1 then
                          rbind (decodeRep state posState (v_rep0 v, v_rep1 v, v_rep2 v, v_rep3 v) m rd)
                            (\<lambda>((len, state, rep0, rep1, rep2, rep3), m, rd).
                               rbind (copyMatch W len (z\<lparr>z_rd := rd, z_models := m\<rparr>)
                                 (v\<lparr>v_state := state, v_rep0 := rep0, v_rep1 := rep1, v_rep2 := rep2, v_rep3 := rep3\<rparr>)) (\<lambda>(z, v). Inr (False, z, v)))
                        else
                          rbind (decodeMatch state posState m rd) (\<lambda>((len, state, dist), m, rd).
                            let z = z\<lparr>z_rd := rd, z_models := m\<rparr>;
                                v = v\<lparr>v_state := state, v_rep1 := v_rep0 v, v_rep2 := v_rep1 v, v_rep3 := v_rep2 v\<rparr>
                            in case dist of
                                 None \<Rightarrow> Inr (True, z, v\<lparr>v_rep0 := 0xFFFFFFFF\<rparr>)
                               | Some dist \<Rightarrow> rbind (copyMatch W len z (v\<lparr>v_rep0 := dist\<rparr>)) (\<lambda>(z, v). Inr (False, z, v)))))))"

partial_function (option) decodeLoop :: "writer \<Rightarrow> decoder \<Rightarrow> decVars \<Rightarrow> decoder res option" where
  "decodeLoop W z v =
     (if sint (z_unpackSize z) < 0 \<or> sint (v_nowPos v) < sint (z_unpackSize z) then
        Option.bind (decodeStep W z v)
          (\<lambda>r. case r of
                 Inl e \<Rightarrow> Some (Inl e)
               | Inr (fin, z, v) \<Rightarrow> if fin then Some (Inr z) else decodeLoop W z v)
      else Some (Inr z))"

declare decodeLoop.simps [code]

definition doDecode :: "writer \<Rightarrow> decoder \<Rightarrow> lzOutWindow res option" where
  "doDecode W z =
     map_option (\<lambda>r. rbind r (\<lambda>z. ow_flush W (z_outWin z)))
       (decodeLoop W z \<lparr>v_state = 0, v_rep0 = 0, v_rep1 = 0, v_rep2 = 0, v_rep3 = 0, v_nowPos = 0, v_prevByte = 0\<rparr>)"

definition maxUInt32 :: "u32 \<Rightarrow> u32 \<Rightarrow> u32" where
  "maxUInt32 left right = (if left > right then left else right)"

text \<open>
  The decoder on the bytes of a stream: the 13 bytes of the header, then the coder. The result holds the bytes given to
  the writer.
\<close>

definition unpackSizeOf :: "byte list \<Rightarrow> 64 word" where
  "unpackSizeOf header = fold (\<lambda>i s. s OR push_bit (8 * i) (ucast (header ! (5 + i)))) [0..<8] 0"

definition newDecoder :: "byte list \<Rightarrow> decoder res" where
  "newDecoder r =
     (if length r < 13 then Inl (Err ''EOF'')
      else
        rbind (decodeProps (take 13 r)) (\<lambda>prop.
        rbind (newRangeDecoder (drop 13 r)) (\<lambda>rd.
          let dictSizeCheck = maxUInt32 (dictSize prop) 1
          in rbind (newModels (ucast (litPosStateBits prop)) (ucast (litContextBits prop)) (ucast (posStateBits prop))) (\<lambda>m.
               Inr \<lparr>z_rd = rd, z_outWin = newLzOutWindow (maxUInt32 dictSizeCheck (push_bit 12 1)), z_models = m,
                    z_unpackSize = unpackSizeOf (take 13 r), z_dictSizeCheck = dictSizeCheck,
                    z_posStateMask = push_bit (unat (posStateBits prop)) 1 - 1\<rparr>))))"

definition lzma_decoder :: "writer \<Rightarrow> byte list \<Rightarrow> byte list res option" where
  "lzma_decoder W r =
     (case newDecoder r of
        Inl e \<Rightarrow> Some (Inl e)
      | Inr z \<Rightarrow> map_option (\<lambda>r. rbind r (\<lambda>ow. Inr (ow_w ow))) (doDecode W z))"

end
