(* ===== verification/Lzma_Encoder.thy ===== *)
theory Lzma_Encoder
  imports Lzma_Decoder
begin

text \<open>
  The coding part of the LZMA encoder (\<^verbatim>\<open>lzma2/lzma_encoder.go\<close>): compression levels, the header, the slots of distances, how a
  literal, a match or a repeated match is written, the end marker. Which packets are written is decided by the match
  finder (\<^verbatim>\<open>lz_bin_tree.go\<close>) and by the optimal parser (\<^verbatim>\<open>getOptimum\<close>) from prices; here the packets, the pairs of a length and of
  \<^verbatim>\<open>backRes\<close> that \<^verbatim>\<open>getOptimum\<close> returns, are given as a list, and the bytes \<^verbatim>\<open>getIndexByte\<close> reads from the input window are the bytes of
  the data around the current position.
\<close>

unbundle bit_operations_syntax

section \<open>Levels\<close>

record compressionLevel =
  cl_dictSize :: u32
  cl_fastBytes :: u32
  cl_litContextBits :: u32
  cl_litPosStateBits :: u32
  cl_posStateBits :: u32
  cl_matchFinder :: string

definition compLevel :: "u32 \<Rightarrow> u32 \<Rightarrow> compressionLevel" where
  "compLevel d fb = \<lparr>cl_dictSize = d, cl_fastBytes = fb, cl_litContextBits = 3, cl_litPosStateBits = 0, cl_posStateBits = 2, cl_matchFinder = ''bt4''\<rparr>"

definition levels :: "compressionLevel list" where
  "levels =
     [\<lparr>cl_dictSize = 0, cl_fastBytes = 0, cl_litContextBits = 0, cl_litPosStateBits = 0, cl_posStateBits = 0, cl_matchFinder = []\<rparr>,
      compLevel 16 64, compLevel 18 64, compLevel 20 64, compLevel 22 128, compLevel 23 128,
      compLevel 24 128, compLevel 25 256, compLevel 26 256, compLevel 27 256]"

definition checkValues :: "compressionLevel \<Rightarrow> unit res" where
  "checkValues cl =
     (if cl_dictSize cl < 12 \<or> cl_dictSize cl > 29 then Inl (Err ''dictionary size out of range'')
      else if cl_fastBytes cl < 5 \<or> cl_fastBytes cl > 273 then Inl (Err ''number of fast bytes out of range'')
      else if cl_litContextBits cl < 0 \<or> cl_litContextBits cl > 8 then Inl (Err ''number of literal context bits out of range'')
      else if cl_litPosStateBits cl < 0 \<or> cl_litPosStateBits cl > 4 then Inl (Err ''number of literal position bits out of range'')
      else if cl_posStateBits cl < 0 \<or> cl_posStateBits cl > 4 then Inl (Err ''number of position bits out of range'')
      else if cl_matchFinder cl \<noteq> ''bt2'' \<and> cl_matchFinder cl \<noteq> ''bt4'' then Inl (Err ''unsuported match finder'')
      else Inr ())"

section \<open>Slots of distances\<close>

text \<open>The index \<open>c\<close> of the table goes up by one with each write, from 2 on: the table is what the slots write one after the other.\<close>

definition gFastPos :: "byte list" where
  "gFastPos = [0, 1] @ concat (map (\<lambda>slotFast. replicate (2 ^ (slotFast div 2 - 1)) (of_nat slotFast)) [2..<22])"

definition fastPosAt :: "u32 \<Rightarrow> byte res" where
  "fastPosAt i = (if unat i < length gFastPos then Inr (gFastPos ! unat i) else Inl IndexOutOfRange)"

definition getPosSlot :: "u32 \<Rightarrow> u32 res" where
  "getPosSlot pos =
     (if pos < push_bit 11 1 then rbind (fastPosAt pos) (\<lambda>s. Inr (ucast s))
      else if pos < push_bit 21 1 then rbind (fastPosAt (drop_bit 10 pos)) (\<lambda>s. Inr (ucast (s + 20)))
      else rbind (fastPosAt (drop_bit 20 pos)) (\<lambda>s. Inr (ucast (s + 40))))"

section \<open>Packets\<close>

text \<open>The literal coder on the models.\<close>

definition encodeLiteral :: "u64 \<Rightarrow> byte \<Rightarrow> byte option \<Rightarrow> byte \<Rightarrow> lzmaModels \<Rightarrow> rangeEncoder \<Rightarrow> (lzmaModels \<times> rangeEncoder) res" where
  "encodeLiteral nowPos prevByte matchByte curByte m re =
     (let i = unat (getSubCoder (ucast nowPos) prevByte (m_litCoder m))
      in if i \<ge> length (lit_coders (m_litCoder m)) then Inl IndexOutOfRange
         else
           (let lsc = lit_coders (m_litCoder m) ! i
            in rbind (case matchByte of Some mb \<Rightarrow> encodeMatched mb curByte lsc re | None \<Rightarrow> lit_encode curByte lsc re) (\<lambda>(lsc, re).
                 Inr (m\<lparr>m_litCoder := (m_litCoder m)\<lparr>lit_coders := (lit_coders (m_litCoder m))[i := lsc]\<rparr>\<rparr>, re))))"

text \<open>A repeated match: which of the distances, then whether it is one byte long, then the length.\<close>

definition encodeRepIndex :: "u32 \<Rightarrow> u32 \<Rightarrow> u32 \<Rightarrow> u32 \<Rightarrow> lzmaModels \<Rightarrow> rangeEncoder \<Rightarrow> (lzmaModels \<times> rangeEncoder) res" where
  "encodeRepIndex state complexState pos len m re =
     (if pos = 0 then
        rbind (re_encode (repG0Decoders m) state 0 re) (\<lambda>(ps, re). let m = m\<lparr>repG0Decoders := ps\<rparr>
          in rbind (re_encode (rep0LongDecoders m) complexState (if len = 1 then 0 else 1) re) (\<lambda>(ps, re). Inr (m\<lparr>rep0LongDecoders := ps\<rparr>, re)))
      else
        rbind (re_encode (repG0Decoders m) state 1 re) (\<lambda>(ps, re). let m = m\<lparr>repG0Decoders := ps\<rparr>
          in if pos = 1 then rbind (re_encode (repG1Decoders m) state 0 re) (\<lambda>(ps, re). Inr (m\<lparr>repG1Decoders := ps\<rparr>, re))
             else
               rbind (re_encode (repG1Decoders m) state 1 re) (\<lambda>(ps, re). let m = m\<lparr>repG1Decoders := ps\<rparr>
                 in rbind (re_encode (repG2Decoders m) state (pos - 2) re) (\<lambda>(ps, re). Inr (m\<lparr>repG2Decoders := ps\<rparr>, re)))))"

definition encodeRep :: "u32 \<Rightarrow> u32 \<Rightarrow> u32 \<Rightarrow> u32 \<Rightarrow> lzmaModels \<Rightarrow> rangeEncoder \<Rightarrow> (lzmaModels \<times> rangeEncoder) res" where
  "encodeRep state posState pos len m re =
     rbind (encodeRepIndex state (push_bit kNumPosStatesBitsMax state + posState) pos len m re) (\<lambda>(m, re).
       if len = 1 then Inr (m, re)
       else rbind (len_encode posState (len - kMatchMinLen) (m_repLenCoder m) re) (\<lambda>(lc, re). Inr (m\<lparr>m_repLenCoder := lc\<rparr>, re)))"

definition encodeSlot :: "u32 \<Rightarrow> u32 \<Rightarrow> lzmaModels \<Rightarrow> rangeEncoder \<Rightarrow> (lzmaModels \<times> rangeEncoder) res" where
  "encodeSlot len posSlot m re =
     (let i = unat (getLenToPosState len)
      in if i \<ge> length (posSlotCoders m) then Inl IndexOutOfRange
         else rbind (tree_encode (posSlotCoders m ! i) posSlot re) (\<lambda>(c, re). Inr (m\<lparr>posSlotCoders := (posSlotCoders m)[i := c]\<rparr>, re)))"

definition kAlignMask :: u32 where "kAlignMask = 15"

text \<open>The low bits of a distance: direct bits, then the bits of the alignment.\<close>

definition encodeAligned :: "u32 \<Rightarrow> u32 \<Rightarrow> lzmaModels \<Rightarrow> rangeEncoder \<Rightarrow> (lzmaModels \<times> rangeEncoder) res" where
  "encodeAligned posReduced footerBits m re =
     rbind (encodeDirectBits (drop_bit (unat kNumAlignBits) posReduced) (footerBits - kNumAlignBits) re) (\<lambda>re.
       rbind (tree_reverseEncode (posAlignCoder m) (posReduced AND kAlignMask) re) (\<lambda>(c, re). Inr (m\<lparr>posAlignCoder := c\<rparr>, re)))"

definition encodeFooter :: "u32 \<Rightarrow> u32 \<Rightarrow> lzmaModels \<Rightarrow> rangeEncoder \<Rightarrow> (lzmaModels \<times> rangeEncoder) res" where
  "encodeFooter posSlot pos m re =
     (if posSlot \<ge> kStartPosModelIndex then
        (let footerBits = drop_bit 1 posSlot - 1; baseVal = push_bit (unat footerBits) (2 OR (posSlot AND 1)); posReduced = pos - baseVal
         in if posSlot < kEndPosModelIndex then
              rbind (reverseEncodeIndex (posDecoders m) (baseVal - posSlot - 1) footerBits posReduced re) (\<lambda>(ps, re). Inr (m\<lparr>posDecoders := ps\<rparr>, re))
            else encodeAligned posReduced footerBits m re)
      else Inr (m, re))"

text \<open>A new match; \<open>pos\<close> is the distance less one.\<close>

definition encodeMatch :: "u32 \<Rightarrow> u32 \<Rightarrow> u32 \<Rightarrow> lzmaModels \<Rightarrow> rangeEncoder \<Rightarrow> (lzmaModels \<times> rangeEncoder) res" where
  "encodeMatch posState len pos m re =
     rbind (len_encode posState (len - kMatchMinLen) (m_lenCoder m) re) (\<lambda>(lc, re). let m = m\<lparr>m_lenCoder := lc\<rparr>
       in rbind (getPosSlot pos) (\<lambda>posSlot. rbind (encodeSlot len posSlot m re) (\<lambda>(m, re). encodeFooter posSlot pos m re)))"

section \<open>The encoder\<close>

record encoder =
  e_re :: rangeEncoder
  e_models :: lzmaModels
  e_state :: u32
  e_prevByte :: byte
  repDistances :: "u32 list"
  e_nowPos :: u64
  e_writeEndMark :: bool
  e_posStateMask :: u32

definition kNumRepDistances :: u32 where "kNumRepDistances = 4"

text \<open>The byte of the input at an offset from the current position.\<close>

definition getIndexByte :: "byte list \<Rightarrow> u64 \<Rightarrow> int \<Rightarrow> byte res" where
  "getIndexByte data nowPos off =
     (let i = uint nowPos + off in if 0 \<le> i \<and> i < int (length data) then Inr (data ! nat i) else Inl IndexOutOfRange)"

definition codeLiteral :: "byte list \<Rightarrow> encoder \<Rightarrow> encoder res" where
  "codeLiteral data z =
     (let m = e_models z; posState = ucast (e_nowPos z) AND e_posStateMask z
      in rbind (re_encode (matchDecoders m) (push_bit kNumPosStatesBitsMax (e_state z) + posState) 0 (e_re z)) (\<lambda>(ps, re).
           let m = m\<lparr>matchDecoders := ps\<rparr>
           in rbind (getIndexByte data (e_nowPos z) 0) (\<lambda>curByte.
              rbind (if stateIsCharState (e_state z) = False then
                       rbind (getIndexByte data (e_nowPos z) (- sint (repDistances z ! 0) - 1)) (\<lambda>b. Inr (Some b))
                     else Inr None) (\<lambda>matchByte.
              rbind (encodeLiteral (e_nowPos z) (e_prevByte z) matchByte curByte m re) (\<lambda>(m, re).
                Inr (z\<lparr>e_re := re, e_models := m, e_prevByte := curByte, e_state := stateUpdateChar (e_state z)\<rparr>))))))"

text \<open>A distance that is used again moves to the front.\<close>

definition moveToFront :: "nat \<Rightarrow> u32 list \<Rightarrow> u32 list" where
  "moveToFront i ds = (ds ! i) # take i ds @ drop (Suc i) ds"

definition codeMatch :: "byte list \<Rightarrow> u32 \<Rightarrow> u32 \<Rightarrow> encoder \<Rightarrow> encoder res" where
  "codeMatch data len pos z =
     (let m = e_models z; state = e_state z; posState = ucast (e_nowPos z) AND e_posStateMask z
      in rbind (re_encode (matchDecoders m) (push_bit kNumPosStatesBitsMax state + posState) 1 (e_re z)) (\<lambda>(ps, re).
           let m = m\<lparr>matchDecoders := ps\<rparr>
           in rbind
                (if pos < kNumRepDistances then
                   rbind (re_encode (repDecoders m) state 1 re) (\<lambda>(ps, re).
                   rbind (encodeRep state posState pos len (m\<lparr>repDecoders := ps\<rparr>) re) (\<lambda>(m, re).
                     Inr (z\<lparr>e_re := re, e_models := m,
                            e_state := (if len = 1 then stateUpdateShortRep state else stateUpdateRep state),
                            repDistances := moveToFront (unat pos) (repDistances z)\<rparr>)))
                 else
                   rbind (re_encode (repDecoders m) state 0 re) (\<lambda>(ps, re).
                     let pos = pos - kNumRepDistances
                     in rbind (encodeMatch posState len pos (m\<lparr>repDecoders := ps\<rparr>) re) (\<lambda>(m, re).
                          Inr (z\<lparr>e_re := re, e_models := m, e_state := stateUpdateMatch state,
                                 repDistances := pos # take 3 (repDistances z)\<rparr>))))
                (\<lambda>z. rbind (getIndexByte data (e_nowPos z) (uint len - 1)) (\<lambda>b. Inr (z\<lparr>e_prevByte := b\<rparr>)))))"

text \<open>One turn of the loop of \<open>codeOneBlock\<close> with the packet \<open>(len, pos)\<close>.\<close>

definition codePacket :: "byte list \<Rightarrow> u32 \<times> u32 \<Rightarrow> encoder \<Rightarrow> encoder res" where
  "codePacket data packet z =
     (case packet of (len, pos) \<Rightarrow>
        rbind (if len = 1 \<and> pos = 0xFFFFFFFF then codeLiteral data z else codeMatch data len pos z)
          (\<lambda>z. Inr (z\<lparr>e_nowPos := e_nowPos z + ucast len\<rparr>)))"

fun codePackets :: "byte list \<Rightarrow> (u32 \<times> u32) list \<Rightarrow> encoder \<Rightarrow> encoder res" where
  "codePackets data [] z = Inr z"
| "codePackets data (p # ps) z = rbind (codePacket data p z) (codePackets data ps)"

definition writeEndMarker :: "u32 \<Rightarrow> encoder \<Rightarrow> encoder res" where
  "writeEndMarker posState z =
     (if \<not> e_writeEndMark z then Inr z
      else
        (let m = e_models z; state = e_state z
         in rbind (re_encode (matchDecoders m) (push_bit kNumPosStatesBitsMax state + posState) 1 (e_re z)) (\<lambda>(ps, re). let m = m\<lparr>matchDecoders := ps\<rparr>
            in rbind (re_encode (repDecoders m) state 0 re) (\<lambda>(ps, re). let m = m\<lparr>repDecoders := ps\<rparr>
            in rbind (len_encode posState 0 (m_lenCoder m) re) (\<lambda>(lc, re). let m = m\<lparr>m_lenCoder := lc\<rparr>
            in rbind (encodeSlot kMatchMinLen (push_bit (unat kNumPosSlotBits) 1 - 1) m re) (\<lambda>(m, re).
               let posReduced = push_bit 30 1 - 1
               in rbind (encodeAligned posReduced 30 m re) (\<lambda>(m, re).
                    Inr (z\<lparr>e_re := re, e_models := m, e_state := stateUpdateMatch state\<rparr>))))))))"

definition e_flush :: "string option \<Rightarrow> u32 \<Rightarrow> encoder \<Rightarrow> encoder res" where
  "e_flush flushErr nowPos z =
     rbind (writeEndMarker (nowPos AND e_posStateMask z) z) (\<lambda>z. rbind (re_flush flushErr (e_re z)) (\<lambda>re. Inr (z\<lparr>e_re := re\<rparr>)))"

text \<open>
  The blocks of \<open>doEncode\<close> one after the other: the first byte is a literal, then the packets, and the flush once no input
  is left.
\<close>

definition doEncode :: "string option \<Rightarrow> byte list \<Rightarrow> (u32 \<times> u32) list \<Rightarrow> encoder \<Rightarrow> encoder res" where
  "doEncode flushErr data packets z =
     (if data = [] then e_flush flushErr (ucast (e_nowPos z)) z
      else
        rbind (rbind (codeLiteral data z) (\<lambda>z. Inr (z\<lparr>e_nowPos := e_nowPos z + 1\<rparr>))) (\<lambda>z.
        rbind (codePackets data packets z) (\<lambda>z. e_flush flushErr (ucast (e_nowPos z)) z)))"

definition encodeHeader :: "compressionLevel \<Rightarrow> 64 word \<Rightarrow> byte list" where
  "encodeHeader cl sz =
     ucast ((cl_posStateBits cl * 5 + cl_litPosStateBits cl) * 9 + cl_litContextBits cl) #
     map (\<lambda>i. ucast (drop_bit (8 * i) (push_bit (unat (cl_dictSize cl)) 1 :: u32))) [0..<4] @ map (\<lambda>i. ucast (drop_bit (8 * i) sz)) [0..<8]"

text \<open>
  The encoder: \<open>room\<close> is how many bytes the writer takes before it fails. The result is what was written: the header and
  then the bytes of the range coder.
\<close>

definition lzma_encoder :: "nat option \<Rightarrow> string option \<Rightarrow> byte list \<Rightarrow> (u32 \<times> u32) list \<Rightarrow> int \<Rightarrow> int \<Rightarrow> byte list res" where
  "lzma_encoder room flushErr data packets sz level =
     (if level < 1 \<or> level > 9 then Inl (Err ''level out of range'')
      else
        (let cl = levels ! nat level
         in rbind (checkValues cl) (\<lambda>_.
            if sz < -1 then Inl (Err ''illegal size'')
            else if (case room of Some n \<Rightarrow> n < 13 | None \<Rightarrow> False) then Inl (Err ''write'')
            else
              rbind (newModels (cl_litPosStateBits cl) (cl_litContextBits cl) (cl_posStateBits cl)) (\<lambda>m.
              rbind (doEncode flushErr data packets
                \<lparr>e_re = newRangeEncoder (map_option (\<lambda>n. n - 13) room), e_models = m, e_state = 0, e_prevByte = 0,
                 repDistances = [0, 0, 0, 0], e_nowPos = 0, e_writeEndMark = (sz = -1),
                 e_posStateMask = push_bit (unat (cl_posStateBits cl)) 1 - 1\<rparr>)
                (\<lambda>z. Inr (encodeHeader cl (of_int sz) @ re_out (e_re z)))))))"

end
