(* ===== verification/Lzma_Range_Props.thy ===== *)
theory Lzma_Range_Props
  imports Lzma_Range
begin

text \<open>
  The range coder is lossless. The state of the encoder stands for a number, of which the bytes written are
  the leading digits; encoding a bit narrows an interval that starts at this number, and the bytes that are
  written in the end lie in all of these intervals. The decoder keeps the distance of the input from the
  number of the encoder and so takes the same turns.
\<close>


section \<open>The encoder as a number\<close>

text \<open>Bytes as a number, the first byte first.\<close>

definition bval :: "byte list \<Rightarrow> nat" where
  "bval bs = foldl (\<lambda>a b. a * 256 + unat b) 0 bs"

lemma bval_Nil [simp]: "bval [] = 0"
  by (simp add: bval_def)

lemma bval_snoc [simp]: "bval (bs @ [b]) = bval bs * 256 + unat b"
  by (simp add: bval_def)

lemma bval_append: "bval (xs @ ys) = bval xs * 256 ^ length ys + bval ys"
  by (induction ys rule: rev_induct) (simp_all add: append_assoc [symmetric] algebra_simps del: append_assoc)

lemma bval_less: "bval bs < 256 ^ length bs"
proof (induction bs rule: rev_induct)
  case (snoc b bs)
  have "unat b < 256" using unsigned_less [where ?w = b] by simp
  then show ?case using snoc by simp
qed simp

lemma bval_Cons: "bval (b # bs) = unat b * 256 ^ length bs + bval bs"
  using bval_append [of "[b]" bs] bval_snoc [of "[]" b] by simp

text \<open>The bytes that are held back: the cache and the bytes 255 that follow it.\<close>

definition csz :: "rangeEncoder \<Rightarrow> nat" where "csz e = unat (re_cacheSize e)"

definition pend :: "rangeEncoder \<Rightarrow> nat" where
  "pend e = unat (re_cache e) * 256 ^ (csz e - 1) + (256 ^ (csz e - 1) - 1)"

definition esum :: "rangeEncoder \<Rightarrow> nat" where
  "esum e = (bval (re_out e) * 256 ^ csz e + pend e) * 2 ^ 32 + unat (re_low e)"

definition edig :: "rangeEncoder \<Rightarrow> nat" where
  "edig e = length (re_out e) + csz e"

definition sinv :: "nat \<Rightarrow> rangeEncoder \<Rightarrow> bool" where
  "sinv r e \<longleftrightarrow> 0 < r \<and> 1 \<le> csz e \<and> re_fail e = None \<and> unat (re_cache e) \<le> 255 \<and>
     pend e * 2 ^ 32 + unat (re_low e) + r \<le> 256 ^ csz e * 2 ^ 32 \<and> unat (re_low e) + r \<le> 2 ^ 33"

lemma sinv_mono: "sinv r e \<Longrightarrow> 0 < r' \<Longrightarrow> r' \<le> r \<Longrightarrow> sinv r' e"
  by (auto simp: sinv_def)

lemma unat_pred: "unat (w :: u32) = Suc n \<Longrightarrow> unat (w - 1) = n"
  by (metis diff_Suc_1 nat.distinct(1) unat_0 unat_minus_one)

lemma WriteByte_ok: "re_fail e = None \<Longrightarrow> WriteByte b e = Inr (e\<lparr>re_out := re_out e @ [b]\<rparr>)"
  by (cases e) (simp add: WriteByte_def)

lemma shiftLoop_eq:
  assumes "csz e = Suc n" "re_fail e = None"
  shows "shiftLoop temp c e = Inr (e\<lparr>re_out := re_out e @ ucast (temp + c) # replicate n (ucast (0xFF + c)), re_cacheSize := 0\<rparr>)"
  using assms
proof (induction n arbitrary: e temp)
  case 0
  then have "re_cacheSize e - 1 = 0" using unat_pred [of "re_cacheSize e" 0] by (simp add: csz_def unat_eq_zero)
  then show ?case using 0 by (simp add: shiftLoop.simps [of temp] WriteByte_ok Let_def)
next
  case (Suc n)
  let ?e = "e\<lparr>re_out := re_out e @ [ucast (temp + c)], re_cacheSize := re_cacheSize e - 1\<rparr>"
  have cs: "unat (re_cacheSize e - 1) = Suc n" using Suc.prems(1) by (intro unat_pred) (simp add: csz_def)
  then have "re_cacheSize e - 1 \<noteq> 0" by (metis nat.distinct(1) unat_0)
  then have "shiftLoop temp c e = shiftLoop 0xFF c ?e" using Suc.prems(2) by (simp add: shiftLoop.simps [of temp] WriteByte_ok Let_def)
  also have "\<dots> = Inr (?e\<lparr>re_out := re_out ?e @ ucast (0xFF + c) # replicate n (ucast (0xFF + c)), re_cacheSize := 0\<rparr>)"
    by (rule Suc.IH) (use cs Suc.prems(2) in \<open>simp_all add: csz_def\<close>)
  finally show ?case by simp
qed

lemma bval_replicate: "bval (replicate n 0xFF) = 256 ^ n - 1" "bval (replicate n 0) = 0"
proof -
  have "bval (replicate n 0xFF) + 1 = 256 ^ n" by (induction n) (simp_all add: bval_Cons)
  then show "bval (replicate n 0xFF) = 256 ^ n - 1" by simp
  show "bval (replicate n 0) = 0" by (induction n) (simp_all add: bval_Cons)
qed

text \<open>The bytes that the loop of \<open>shiftLow\<close> writes: what was held back, plus the carry.\<close>

lemma shift_bytes:
  assumes "unat t \<le> 255" "c = (0 :: u32) \<or> c = 1" "unat t * 256 ^ n + (256 ^ n - 1) + unat c < 256 ^ Suc n"
  shows "bval (ucast (t + c :: u32) # replicate n (ucast (0xFF + c))) = unat t * 256 ^ n + (256 ^ n - 1) + unat c"
  using assms(2)
proof
  assume c: "c = 0"
  have "unat (ucast t :: byte) = unat t" using assms(1) by (simp add: unsigned_ucast_eq take_bit_eq_mod)
  then show ?thesis using c by (simp add: bval_Cons bval_replicate)
next
  assume c: "c = 1"
  have lt: "unat t < 255"
  proof (rule ccontr)
    assume "\<not> unat t < 255"
    then have "unat t = 255" using assms(1) by simp
    then show False using assms(3) c by simp
  qed
  then have "unat (ucast (t + 1) :: byte) = unat t + 1" by (simp add: unsigned_ucast_eq unat_word_ariths take_bit_eq_mod)
  moreover have "bval (replicate n (256 :: byte)) = 0"
  proof -
    have z: "(256 :: byte) = 0" by code_simp
    show ?thesis unfolding z by (rule bval_replicate)
  qed
  ultimately show ?thesis using c by (simp add: bval_Cons bval_replicate)
qed


lemma unat64: "unat (w :: u64) < 2 ^ 64"
  using unsigned_less [where ?w = w] by simp

lemma unat_ucast32: "unat (ucast (w :: u64) :: u32) = unat w mod 2 ^ 32"
  by (simp add: unsigned_ucast_eq take_bit_eq_mod)

lemma shift_fields:
  fixes w :: u64
  defines "lo \<equiv> ucast w :: u32"
  shows "unat (drop_bit 24 lo) = unat w mod 2 ^ 32 div 2 ^ 24" "unat (ucast (push_bit 8 lo) :: u64) = unat w mod 2 ^ 24 * 256"
proof -
  show "unat (drop_bit 24 lo) = unat w mod 2 ^ 32 div 2 ^ 24" 
    unfolding unsigned_drop_bit_eq lo_def unat_ucast32 by (simp add: drop_bit_eq_div take_bit_eq_mod)
  have "unat (push_bit 8 lo) = unat w mod 2 ^ 32 * 2 ^ 8 mod 2 ^ 32"
    unfolding unsigned_push_bit_eq lo_def unat_ucast32 by (simp add: push_bit_eq_mult take_bit_eq_mod)
  also have "\<dots> = unat w mod 2 ^ 24 * 256" by (simp add: mod_mult_mult2 [of _ 256 "2 ^ 24", simplified] mod_mod_cancel mult.commute [of 256])
  finally show "unat (ucast (push_bit 8 lo) :: u64) = unat w mod 2 ^ 24 * 256" by (simp add: unsigned_ucast_eq take_bit_eq_mod)
qed


lemma times_256: "(m :: nat) = t * 2 ^ 24 + l \<Longrightarrow> d * 2 ^ 32 + m = w \<Longrightarrow> w * 256 = d * 2 ^ 40 + t * 2 ^ 32 + l * 256"
  by (auto simp: algebra_simps)

lemma mod_split: "(w :: nat) mod 2 ^ 32 = (w mod 2 ^ 32 div 2 ^ 24) * 2 ^ 24 + w mod 2 ^ 24"
proof -
  have "w mod 2 ^ 32 mod 2 ^ 24 = w mod 2 ^ 24" by (simp add: mod_mod_cancel)
  then show ?thesis using div_mult_mod_eq [of "w mod 2 ^ 32" "2 ^ 24"] by simp
qed

text \<open>\<open>shiftLow\<close> multiplies the number by 256 and keeps its digits.\<close>

lemma shiftLow_spec:
  assumes I: "sinv r e" and r: "r < 2 ^ 24" and cs: "csz e < 2 ^ 32 - 1"
  shows "\<exists>e'. shiftLow e = Inr e' \<and> sinv (256 * r) e' \<and> esum e' = 256 * esum e \<and> edig e' = Suc (edig e) \<and>
    re_range e' = re_range e \<and> csz e' \<le> Suc (csz e) \<and> unat (re_low e') = unat (re_low e) mod 2 ^ 24 * 256"
proof -
  define w where "w = unat (re_low e)"
  define c where "c = (ucast (drop_bit 32 (re_low e)) :: u32)"
  have J: "0 < r" "1 \<le> csz e" "re_fail e = None" "unat (re_cache e) \<le> 255" "pend e * 2 ^ 32 + w + r \<le> 256 ^ csz e * 2 ^ 32" "w + r \<le> 2 ^ 33"
    using I by (simp_all add: sinv_def w_def)
  have w33: "w < 2 ^ 33" using J by linarith
  have uc: "unat c = w div 2 ^ 32"
  proof -
    have "unat (drop_bit 32 (re_low e)) = w div 2 ^ 32" using unat64 [of "re_low e"] unfolding unsigned_drop_bit_eq w_def by (simp add: drop_bit_eq_div take_bit_eq_mod)
    then show ?thesis using w33 by (simp add: c_def unsigned_ucast_eq take_bit_eq_mod)
  qed
  note S = shift_fields [of "re_low e", folded w_def]
  obtain n where n: "csz e = Suc n" using J(2) by (cases "csz e") auto
  have split: "w mod 2 ^ 32 = (w mod 2 ^ 32 div 2 ^ 24) * 2 ^ 24 + w mod 2 ^ 24" by (rule mod_split)
  show ?thesis
  proof (cases "c \<noteq> 0 \<or> re_low e < 0xFF000000")
    case True
    define bs where "bs = ucast (re_cache e + c) # replicate n (ucast (0xFF + c) :: byte)"
    define e' where "e' = e\<lparr>re_pos := re_pos e + ucast (re_cacheSize e), re_out := re_out e @ bs, re_cache := drop_bit 24 (ucast (re_low e)), re_cacheSize := 1, re_low := ucast (push_bit 8 (ucast (re_low e) :: u32))\<rparr>"
    have "w div 2 ^ 32 = 0 \<or> w div 2 ^ 32 = 1" using w33 by auto
    then have c01: "c = 0 \<or> c = 1" using uc by (metis unat_0 unat_1 word_unat_eq_iff)
    have "(pend e + unat c) * 2 ^ 32 < 256 ^ csz e * 2 ^ 32" using J(1,5) div_mult_mod_eq [of w "2 ^ 32"] unfolding uc by (simp add: algebra_simps)
    then have lt: "unat (re_cache e) * 256 ^ n + (256 ^ n - 1) + unat c < 256 ^ Suc n" by (simp add: pend_def n)
    have bs: "length bs = csz e" "bval bs = pend e + unat c" using shift_bytes [OF J(4) c01 lt] by (simp_all add: bs_def n pend_def)
    let ?p = "e\<lparr>re_pos := re_pos e + ucast (re_cacheSize e)\<rparr>"
    have cz: "csz ?p = Suc n" "re_fail ?p = None" using n J(3) by (simp_all add: csz_def)
    have run: "shiftLow e = Inr e'" unfolding shiftLow_def c_def [symmetric] Let_def if_P [OF True]
      by (simp add: shiftLoop_eq [OF cz] bs_def e'_def)
    have cs': "csz e' = 1" by (simp add: csz_def e'_def)
    have f': "unat (re_cache e') = w mod 2 ^ 32 div 2 ^ 24" "re_out e' = re_out e @ bs" "re_fail e' = None" "re_range e' = re_range e"
      using S(1) J(3) by (simp_all add: e'_def)
    have p': "pend e' = w mod 2 ^ 32 div 2 ^ 24" "unat (re_low e') = w mod 2 ^ 24 * 256" using S(2) by (simp_all add: pend_def cs' f') (simp add: e'_def)
    have lo: "w mod 2 ^ 32 + r \<le> 2 ^ 32"
    proof (cases "c = 0")
      case True
      then have "re_low e < 0xFF000000" using \<open>c \<noteq> 0 \<or> re_low e < 0xFF000000\<close> by simp
      then have "w < 0xFF000000" by (simp add: w_def word_less_nat_alt)
      then show ?thesis using r by simp
    next
      case False
      then have "w div 2 ^ 32 = 1" using c01 uc by auto
      then show ?thesis using J(6) div_mult_mod_eq [of w "2 ^ 32"] by simp
    qed
    have "sinv (256 * r) e'" unfolding sinv_def cs' p'
      using J(1) r lo split by (simp add: f')
    moreover have "w * 256 = (w div 2 ^ 32) * 2 ^ 40 + (w mod 2 ^ 32 div 2 ^ 24) * 2 ^ 32 + w mod 2 ^ 24 * 256"
      by (rule times_256 [OF split div_mult_mod_eq])
    then have "esum e' = 256 * esum e"
      unfolding esum_def cs' p' w_def [symmetric] by (simp add: f' bval_append bs uc algebra_simps)
    moreover have "edig e' = Suc (edig e)" using bs(1) cs' by (simp add: edig_def f')
    ultimately show ?thesis using run cs' p' n by (intro exI [of _ e']) (simp add: w_def f')
  next
    case False
    define e' where "e' = e\<lparr>re_cacheSize := re_cacheSize e + 1, re_low := ucast (push_bit 8 (ucast (re_low e) :: u32))\<rparr>"
    have "w div 2 ^ 32 = 0" using False uc by simp
    then have w32: "w < 2 ^ 32" by simp
    have "\<not> w < 0xFF000000" using False by (simp add: w_def word_less_nat_alt)
    then have "w div 2 ^ 24 = 255" using w32 by (intro div_nat_eqI) simp_all
    then have top: "w = 255 * 2 ^ 24 + w mod 2 ^ 24" using div_mult_mod_eq [of w "2 ^ 24"] by simp
    have run: "shiftLow e = Inr e'" using False by (auto simp: shiftLow_def c_def e'_def Let_def)
    have f': "re_cache e' = re_cache e" "re_out e' = re_out e" "re_fail e' = None" "re_range e' = re_range e" using J(3) by (simp_all add: e'_def)
    have cs': "csz e' = Suc (Suc n)" using cs n by (simp add: csz_def e'_def unat_word_ariths)
    obtain x :: nat where x: "256 ^ n = Suc x" by (metis not0_implies_Suc power_not_zero zero_neq_numeral)
    have p': "pend e' = 256 * pend e + 255" using n cs' by (simp add: pend_def f' x algebra_simps)
    have l': "unat (re_low e') = w mod 2 ^ 24 * 256" using S by (simp add: e'_def)
    have e: "256 * w = 255 * 2 ^ 32 + w mod 2 ^ 24 * 256" using top by simp
    have "sinv (256 * r) e'" unfolding sinv_def p' l'
      using J(1,4,5) r e n cs' by (simp add: f')
    moreover have "esum e' = 256 * esum e"
      unfolding esum_def cs' p' l' w_def [symmetric] using e n by (simp add: f' algebra_simps)
    moreover have "edig e' = Suc (edig e)" using cs' n by (simp add: edig_def f')
    ultimately show ?thesis using run l' cs' n by (intro exI [of _ e']) (simp add: w_def f')
  qed
qed

section \<open>Flushing\<close>

lemma flushLoop_snoc: "flushLoop (Suc k) e = rbind (flushLoop k e) shiftLow"
proof (induction k arbitrary: e)
  case 0
  show ?case by (cases "shiftLow e") simp_all
next
  case (Suc k)
  show ?case using Suc by (cases "shiftLow e") simp_all
qed

lemma flushLoop_spec:
  assumes "sinv 1 e" "csz e + k < 2 ^ 32"
  shows "\<exists>e'. flushLoop k e = Inr e' \<and> sinv 1 e' \<and> esum e' = 256 ^ k * esum e \<and> edig e' = edig e + k \<and>
    csz e' \<le> csz e + k \<and> (0 < k \<longrightarrow> unat (re_low e') = unat (re_low e) * 256 ^ k mod 2 ^ 32)"
  using assms(2)
proof (induction k)
  case 0
  then show ?case using assms(1) by simp
next
  case (Suc k)
  then obtain e1 where e1: "flushLoop k e = Inr e1" "sinv 1 e1" "esum e1 = 256 ^ k * esum e" "edig e1 = edig e + k"
    "csz e1 \<le> csz e + k" "0 < k \<longrightarrow> unat (re_low e1) = unat (re_low e) * 256 ^ k mod 2 ^ 32" by auto
  obtain e' where e': "shiftLow e1 = Inr e'" "sinv 256 e'" "esum e' = 256 * esum e1" "edig e' = Suc (edig e1)" "csz e' \<le> Suc (csz e1)"
    "unat (re_low e') = unat (re_low e1) mod 2 ^ 24 * 256"
    using shiftLow_spec [OF e1(2)] Suc.prems e1(5) by auto
  have "unat (re_low e') = unat (re_low e1) * 256 mod 2 ^ 32" unfolding e'(6) by (simp add: mod_mult_mult2 [of _ 256 "2 ^ 24", simplified])
  also have "\<dots> = unat (re_low e) * 256 ^ Suc k mod 2 ^ 32"
  proof (cases "k = 0")
    case True
    then show ?thesis using e1(1) by simp
  next
    case False
    then show ?thesis using e1(6) mod_mult_left_eq [of "unat (re_low e) * 256 ^ k" "2 ^ 32" 256] by (simp add: ac_simps)
  qed
  finally have "unat (re_low e') = unat (re_low e) * 256 ^ Suc k mod 2 ^ 32" .
  moreover have "sinv 1 e'" by (rule sinv_mono [OF e'(2)]) simp_all
  ultimately show ?case using e' e1 unfolding flushLoop_snoc by simp
qed

lemma shiftLow_clear:
  assumes "sinv 1 e" "re_low e = 0" "shiftLow e = Inr e'"
  shows "csz e' = 1" "re_cache e' = 0" "re_low e' = 0" "re_fail e' = None"
proof -
  obtain n where n: "csz e = Suc n" using assms(1) by (cases "csz e") (auto simp: sinv_def)
  let ?p = "e\<lparr>re_pos := re_pos e + ucast (re_cacheSize e)\<rparr>"
  have cz: "csz ?p = Suc n" "re_fail ?p = None" using n assms(1) by (simp_all add: csz_def sinv_def)
  have "shiftLow e = Inr (?p\<lparr>re_out := re_out e @ ucast (re_cache e) # replicate n (ucast (0xFF :: u32)), re_cache := 0, re_cacheSize := 1, re_low := 0\<rparr>)"
    using shiftLoop_eq [OF cz, of "re_cache e" 0] assms(2) by (simp add: shiftLow_def)
  then show "csz e' = 1" "re_cache e' = 0" "re_low e' = 0" "re_fail e' = None" using assms(3) cz(2) by (auto simp: csz_def)
qed

text \<open>After \<open>flush\<close> the bytes written are the digits of the number.\<close>

lemma flush_spec:
  assumes "sinv r e" "csz e + 5 < 2 ^ 32"
  shows "\<exists>e'. re_flush None e = Inr e' \<and> length (re_out e') = edig e + 4 \<and> bval (re_out e') = esum e"
proof -
  have s: "sinv 1 e" using sinv_mono [OF assms(1), of 1] assms(1) by (simp add: sinv_def)
  obtain e4 where e4: "flushLoop 4 e = Inr e4" "sinv 1 e4" "esum e4 = 256 ^ 4 * esum e" "edig e4 = edig e + 4" "csz e4 \<le> csz e + 4"
    "unat (re_low e4) = unat (re_low e) * 256 ^ 4 mod 2 ^ 32" using flushLoop_spec [OF s, of 4] assms(2) by auto
  have "unat (re_low e4) = 0" unfolding e4(6) by simp
  then have l4: "re_low e4 = 0" by (simp add: unat_eq_zero)
  obtain e5 where e5: "shiftLow e4 = Inr e5" "esum e5 = 256 * esum e4" "edig e5 = Suc (edig e4)"
    using shiftLow_spec [OF e4(2)] e4(5) assms(2) by auto
  note c = shiftLow_clear [OF e4(2) l4 e5(1)]
  have "bval (re_out e5) * 2 ^ 40 = 256 ^ 5 * esum e"
    using e5(2) e4(3) c by (simp add: esum_def pend_def)
  then have "bval (re_out e5) = esum e" by simp
  moreover have "length (re_out e5) = edig e + 4" using e5(3) e4(4) c by (simp add: edig_def)
  moreover have "re_flush None e = Inr e5" using e4(1) e5(1) c(4) flushLoop_snoc [of 4 e] by (simp add: re_flush_def numeral_eq_Suc)
  ultimately show ?thesis by blast
qed

section \<open>One step of the encoder and of the decoder\<close>

definition einv :: "nat \<Rightarrow> rangeEncoder \<Rightarrow> bool" where
  "einv k e \<longleftrightarrow> sinv (unat (re_range e)) e \<and> 2 ^ 24 \<le> unat (re_range e) \<and> csz e + k < 2 ^ 32"

text \<open>The encoder has narrowed its interval and shifted out \<open>j\<close> bytes.\<close>

definition narrows :: "nat \<Rightarrow> nat \<Rightarrow> nat \<Rightarrow> rangeEncoder \<Rightarrow> rangeEncoder \<Rightarrow> bool" where
  "narrows \<delta> R j e e' \<longleftrightarrow> edig e' = edig e + j \<and> esum e' = (esum e + \<delta>) * 256 ^ j \<and> unat (re_range e') = R * 256 ^ j \<and>
     \<delta> + R \<le> unat (re_range e) \<and> j = (if R < 2 ^ 24 then 1 else 0)"

lemma unat32: "unat (w :: u32) < 2 ^ 32"
  using unsigned_less [where ?w = w] by simp

lemma re_shift_spec:
  assumes I: "einv (Suc k) e" and e1: "e1 = e\<lparr>re_low := l, re_range := R\<rparr>"
    and l: "unat l = unat (re_low e) + \<delta>" and R: "\<delta> + unat R \<le> unat (re_range e)" "2 ^ 16 \<le> unat R"
  shows "\<exists>e' j. re_shift e1 = Inr e' \<and> einv k e' \<and> narrows \<delta> (unat R) j e e'"
proof -
  have f: "csz e1 = csz e" "pend e1 = pend e" "edig e1 = edig e" "esum e1 = esum e + \<delta>" "re_range e1 = R"
    using l by (simp_all add: e1 csz_def pend_def edig_def esum_def)
  have s: "sinv (unat R) e1" using I R l by (simp add: einv_def sinv_def f) (simp add: e1)
  show ?thesis
  proof (cases "R < kTopValue")
    case False
    then have "2 ^ 24 \<le> unat R" by (simp add: kTopValue_def word_less_nat_alt)
    then show ?thesis using False s f I R by (intro exI [of _ e1] exI [of _ 0]) (simp add: re_shift_def einv_def narrows_def)
  next
    case True
    then have R24: "unat R < 2 ^ 24" by (simp add: kTopValue_def word_less_nat_alt)
    let ?e = "e1\<lparr>re_range := push_bit 8 R\<rparr>"
    have r: "unat (push_bit 8 R) = 256 * unat R"
      unfolding unsigned_push_bit_eq using R24 by (simp add: push_bit_eq_mult take_bit_eq_mod)
    have f': "csz ?e = csz e1" "pend ?e = pend e1" "edig ?e = edig e1" "esum ?e = esum e1" by (simp_all add: csz_def pend_def edig_def esum_def)
    have "sinv (unat R) ?e" using s by (simp add: sinv_def f')
    then obtain e' where "shiftLow ?e = Inr e'" "sinv (256 * unat R) e'" "esum e' = 256 * esum ?e" "edig e' = Suc (edig ?e)"
      "re_range e' = push_bit 8 R" "csz e' \<le> Suc (csz ?e)"
      using shiftLow_spec [of "unat R" ?e] R24 I by (auto simp: einv_def f f')
    then show ?thesis using True R24 R I r f
      by (intro exI [of _ e'] exI [of _ 1]) (simp add: re_shift_def einv_def narrows_def f')
  qed
qed

text \<open>The final bytes lie in the interval of an encoder, and a decoder that follows the encoder.\<close>

definition covers :: "rangeEncoder \<Rightarrow> byte list \<Rightarrow> bool" where
  "covers e F \<longleftrightarrow> edig e + 4 \<le> length F \<and> esum e \<le> bval (take (edig e + 4) F) \<and>
     bval (take (edig e + 4) F) < esum e + unat (re_range e)"

definition follows :: "byte list \<Rightarrow> rangeEncoder \<Rightarrow> rangeDecoder \<Rightarrow> bool" where
  "follows F e d \<longleftrightarrow> rd_range d = re_range e \<and> rd_in d = drop (edig e + 4) F \<and>
     unat (rd_code d) + esum e = bval (take (edig e + 4) F)"

lemma take_bval:
  assumes "n + j \<le> length F"
  shows "\<exists>x < 256 ^ j. bval (take (n + j) F) = bval (take n F) * 256 ^ j + x"
proof -
  have "take (n + j) F = take n F @ take j (drop n F)" by (simp add: take_add)
  moreover have "length (take j (drop n F)) = j" using assms by simp
  ultimately show ?thesis using bval_append [of "take n F" "take j (drop n F)"] bval_less [of "take j (drop n F)"] by auto
qed

lemma covers_narrows:
  assumes "narrows \<delta> R j e e'" "covers e' F"
  shows "edig e + 4 + j \<le> length F" "esum e + \<delta> \<le> bval (take (edig e + 4) F)" "bval (take (edig e + 4) F) < esum e + \<delta> + R"
    "covers e F"
proof -
  let ?V = "bval (take (edig e + 4) F)" and ?q = "256 ^ j :: nat"
  show len: "edig e + 4 + j \<le> length F" using assms by (simp add: narrows_def covers_def)
  obtain x where x: "x < ?q" "bval (take (edig e + 4 + j) F) = ?V * ?q + x" using take_bval [OF len] by auto
  have b: "(esum e + \<delta>) * ?q \<le> ?V * ?q + x" "?V * ?q + x < (esum e + \<delta> + R) * ?q"
    using assms x(2) by (simp_all add: narrows_def covers_def algebra_simps)
  have "(esum e + \<delta>) * ?q < Suc ?V * ?q" using b(1) x(1) by simp
  then have "esum e + \<delta> < Suc ?V" by (metis mult_less_cancel2)
  then show lo: "esum e + \<delta> \<le> ?V" by simp
  have "?V * ?q < (esum e + \<delta> + R) * ?q" using b(2) by (rule le_less_trans [rotated]) simp
  then show hi: "?V < esum e + \<delta> + R" by (metis mult_less_cancel2)
  show "covers e F" using lo hi len assms(1) by (simp add: covers_def narrows_def)
qed

lemma or_byte: "push_bit 8 (c :: u32) OR ucast (b :: byte) = c * 256 + ucast b"
proof -
  have "push_bit 8 c OR ucast b = push_bit 8 c + ucast b"
    by (rule disjunctive_add [symmetric]) (auto simp: bit_simps dest: bit_imp_le_length)
  then show ?thesis by (simp add: push_bit_eq_mult)
qed

lemma unat_shift_byte:
  assumes "unat (c :: u32) < 2 ^ 24"
  shows "unat (push_bit 8 c OR ucast (b :: byte)) = unat c * 256 + unat b"
proof -
  have b: "unat b < 256" using unsigned_less [where ?w = b] by simp
  have "unat (ucast b :: u32) = unat b" using b by (simp add: unsigned_ucast_eq take_bit_eq_mod)
  moreover have "unat (c * 256) = unat c * 256" using assms by (simp add: unat_word_ariths)
  ultimately show ?thesis unfolding or_byte using assms b by (simp add: unat_word_ariths)
qed

lemma fill_follows:
  assumes n: "narrows \<delta> (unat R) j e e'" and c: "covers e' F"
    and d: "rd_range d = R" "rd_in d = drop (edig e + 4) F" "unat (rd_code d) + (esum e + \<delta>) = bval (take (edig e + 4) F)"
  shows "\<exists>d'. rd_fill d = Inr d' \<and> follows F e' d'"
proof (cases "R < kTopValue")
  case False
  then have "j = 0" using n by (simp add: narrows_def kTopValue_def word_less_nat_alt)
  then have "re_range e' = R" using n by (simp add: narrows_def word_unat_eq_iff)
  then show ?thesis using False n d \<open>j = 0\<close> by (intro exI [of _ d]) (simp add: rd_fill_def narrows_def follows_def)
next
  case True
  then have R: "unat R < 2 ^ 24" and j: "j = 1" using n by (simp_all add: narrows_def kTopValue_def word_less_nat_alt)
  let ?n = "edig e + 4"
  note C = covers_narrows [OF n c]
  have len: "?n < length F" using C(1) j by simp
  then have dr: "drop ?n F = F ! ?n # drop (Suc ?n) F" by (rule Cons_nth_drop_Suc [symmetric])
  have tk: "bval (take (Suc ?n) F) = bval (take ?n F) * 256 + unat (F ! ?n)" unfolding take_Suc_conv_app_nth [OF len] by (rule bval_snoc)
  have "unat (rd_code d) < unat R" using d(3) C(3) by linarith
  then have "unat (push_bit 8 (rd_code d) OR ucast (F ! ?n)) = unat (rd_code d) * 256 + unat (F ! ?n)" using R by (intro unat_shift_byte) simp
  moreover have "unat (push_bit 8 R) = unat R * 256" unfolding unsigned_push_bit_eq using R by (simp add: push_bit_eq_mult take_bit_eq_mod)
  then have "re_range e' = push_bit 8 R" using n j by (simp add: narrows_def word_unat_eq_iff)
  moreover have "esum e' = (esum e + \<delta>) * 256" using n j by (simp add: narrows_def)
  then have "unat (rd_code d) * 256 + esum e' = bval (take ?n F) * 256" unfolding d(3) [symmetric] by (simp add: algebra_simps)
  moreover have "edig e' + 4 = Suc ?n" using n j by (simp add: narrows_def)
  ultimately show ?thesis using True d(1) unfolding rd_fill_def d(2) dr follows_def
    by (simp only: if_True list.case rangeDecoder.simps tk) (simp add: d(1))
qed

section \<open>Codecs\<close>

text \<open>
  \<open>codes c ok enc dec v\<close>: on any model state that is \<open>ok\<close> the encoder \<open>enc\<close> succeeds, with at most \<open>c\<close> shifts, and
  every decoder that follows it decodes \<open>v\<close>, updates the model in the same way and goes on following.
\<close>

definition codes :: "nat \<Rightarrow> ('m \<Rightarrow> bool) \<Rightarrow> ('m \<Rightarrow> rangeEncoder \<Rightarrow> ('m \<times> rangeEncoder) res) \<Rightarrow>
    ('m \<Rightarrow> rangeDecoder \<Rightarrow> ('v \<times> 'm \<times> rangeDecoder) res) \<Rightarrow> 'v \<Rightarrow> bool" where
  "codes c ok enc dec v \<longleftrightarrow> (\<forall>m e k. ok m \<longrightarrow> einv (k + c) e \<longrightarrow>
     (\<exists>m' e'. enc m e = Inr (m', e') \<and> ok m' \<and> einv k e' \<and> (\<forall>F. covers e' F \<longrightarrow> covers e F) \<and>
       (\<forall>F d. covers e' F \<longrightarrow> follows F e d \<longrightarrow> (\<exists>d'. dec m d = Inr (v, m', d') \<and> follows F e' d'))))"

lemma codesE:
  assumes "codes c ok enc dec v" "ok m" "einv (k + c) e"
  obtains m' e' where "enc m e = Inr (m', e')" "ok m'" "einv k e'" "\<And>F. covers e' F \<Longrightarrow> covers e F"
    "\<And>F d. covers e' F \<Longrightarrow> follows F e d \<Longrightarrow> \<exists>d'. dec m d = Inr (v, m', d') \<and> follows F e' d'"
  using assms unfolding codes_def by blast

lemma codesI:
  assumes "\<And>m e k. ok m \<Longrightarrow> einv (k + c) e \<Longrightarrow>
     \<exists>m' e'. enc m e = Inr (m', e') \<and> ok m' \<and> einv k e' \<and> (\<forall>F. covers e' F \<longrightarrow> covers e F) \<and>
       (\<forall>F d. covers e' F \<longrightarrow> follows F e d \<longrightarrow> (\<exists>d'. dec m d = Inr (v, m', d') \<and> follows F e' d'))"
  shows "codes c ok enc dec v"
  using assms unfolding codes_def by blast

text \<open>Sequential composition.\<close>

lemma codes_bind:
  assumes 1: "codes c1 ok enc1 dec1 v1" and 2: "codes c2 ok enc2 (dec2 v1) v2"
    and c: "c = c1 + c2"
    and enc: "\<And>m e. ok m \<Longrightarrow> enc m e = rbind (enc1 m e) (\<lambda>(m, e). enc2 m e)"
    and dec: "\<And>m d. ok m \<Longrightarrow> dec m d = rbind (dec1 m d) (\<lambda>(v, m, d). dec2 v m d)"
  shows "codes c ok enc dec v2"
proof (rule codesI)
  fix m e k assume ok: "ok m" and e: "einv (k + c) e"
  then have "einv ((k + c2) + c1) e" by (simp add: c ac_simps)
  then obtain m1 e1 where s1: "enc1 m e = Inr (m1, e1)" "ok m1" "einv (k + c2) e1" "\<And>F. covers e1 F \<Longrightarrow> covers e F"
    "\<And>F d. covers e1 F \<Longrightarrow> follows F e d \<Longrightarrow> \<exists>d'. dec1 m d = Inr (v1, m1, d') \<and> follows F e1 d'"
    using codesE [OF 1 ok] by metis
  obtain m2 e2 where s2: "enc2 m1 e1 = Inr (m2, e2)" "ok m2" "einv k e2" "\<And>F. covers e2 F \<Longrightarrow> covers e1 F"
    "\<And>F d. covers e2 F \<Longrightarrow> follows F e1 d \<Longrightarrow> \<exists>d'. dec2 v1 m1 d = Inr (v2, m2, d') \<and> follows F e2 d'"
    using codesE [OF 2 s1(2,3)] by metis
  have "\<exists>d'. dec m d = Inr (v2, m2, d') \<and> follows F e2 d'" if F: "covers e2 F" "follows F e d" for F d
  proof -
    obtain d1 where d1: "dec1 m d = Inr (v1, m1, d1)" "follows F e1 d1" using s1(5) [OF s2(4) [OF F(1)] F(2)] by blast
    obtain d2 where "dec2 v1 m1 d1 = Inr (v2, m2, d2)" "follows F e2 d2" using s2(5) [OF F(1) d1(2)] by blast
    then show ?thesis using dec [OF ok] d1 by simp
  qed
  then show "\<exists>m' e'. enc m e = Inr (m', e') \<and> ok m' \<and> einv k e' \<and> (\<forall>F. covers e' F \<longrightarrow> covers e F) \<and>
       (\<forall>F d. covers e' F \<longrightarrow> follows F e d \<longrightarrow> (\<exists>d'. dec m d = Inr (v2, m', d') \<and> follows F e' d'))"
    using enc [OF ok] s1 s2 by (intro exI [of _ m2] exI [of _ e2]) auto
qed

lemma codes_return:
  assumes "\<And>m e. ok m \<Longrightarrow> enc m e = Inr (m, e)" "\<And>m d. ok m \<Longrightarrow> dec m d = Inr (v, m, d)"
  shows "codes 0 ok enc dec v"
  by (rule codesI) (use assms in auto)

text \<open>A codec on one part of a larger model; \<open>f\<close> turns the decoded value into the result.\<close>

lemma codes_part:
  assumes 1: "codes c ok1 enc1 dec1 v1"
    and part: "\<And>m. ok m \<Longrightarrow> ok1 (get m)" "\<And>m x. ok m \<Longrightarrow> ok1 x \<Longrightarrow> ok (put m x)"
    and enc: "\<And>m e. ok m \<Longrightarrow> enc m e = rbind (enc1 (get m) e) (\<lambda>(x, e). Inr (put m x, e))"
    and dec: "\<And>m d. ok m \<Longrightarrow> dec m d = rbind (dec1 (get m) d) (\<lambda>(v, x, d). Inr (f v, put m x, d))"
  shows "codes c ok enc dec (f v1)"
proof (rule codesI)
  fix m e k assume ok: "ok m" and e: "einv (k + c) e"
  obtain x e' where s: "enc1 (get m) e = Inr (x, e')" "ok1 x" "einv k e'" "\<And>F. covers e' F \<Longrightarrow> covers e F"
    "\<And>F d. covers e' F \<Longrightarrow> follows F e d \<Longrightarrow> \<exists>d'. dec1 (get m) d = Inr (v1, x, d') \<and> follows F e' d'"
    using codesE [OF 1 part(1) [OF ok] e] by metis
  have "\<exists>d'. dec m d = Inr (f v1, put m x, d') \<and> follows F e' d'" if "covers e' F" "follows F e d" for F d
    using s(5) [OF that] dec [OF ok] by auto
  then show "\<exists>m' e'. enc m e = Inr (m', e') \<and> ok m' \<and> einv k e' \<and> (\<forall>F. covers e' F \<longrightarrow> covers e F) \<and>
       (\<forall>F d. covers e' F \<longrightarrow> follows F e d \<longrightarrow> (\<exists>d'. dec m d = Inr (f v1, m', d') \<and> follows F e' d'))"
    using enc [OF ok] s part(2) [OF ok] by (intro exI [of _ "put m x"] exI [of _ e']) auto
qed

section \<open>Bits\<close>

definition prob_ok :: "u16 \<Rightarrow> bool" where
  "prob_ok p \<longleftrightarrow> 31 \<le> unat p \<and> unat p \<le> 2017"

lemma unat16: "unat (w :: u16) < 2 ^ 16"
  using unsigned_less [where ?w = w] by simp

lemma prob_update:
  assumes "prob_ok p"
  shows "prob_ok (p + drop_bit kNumMoveBits (kBitModelTotal - p))" "prob_ok (p - drop_bit kNumMoveBits p)"
proof -
  have p: "31 \<le> unat p" "unat p \<le> 2017" using assms by (simp_all add: prob_ok_def)
  have q: "unat (kBitModelTotal - p) = 2048 - unat p" using p by (simp add: kBitModelTotal_def unat_sub word_le_nat_alt)
  have d: "unat (drop_bit kNumMoveBits x) = unat x div 32" for x :: u16
    using unat16 [of x] unfolding unsigned_drop_bit_eq by (simp add: kNumMoveBits_def drop_bit_eq_div take_bit_eq_mod)
  have "unat (p + drop_bit kNumMoveBits (kBitModelTotal - p)) = unat p + (2048 - unat p) div 32"
    using p by (simp add: unat_word_ariths d q)
  then show "prob_ok (p + drop_bit kNumMoveBits (kBitModelTotal - p))" unfolding prob_ok_def using p by auto
  have "unat (p - drop_bit kNumMoveBits p) = unat p - unat p div 32" using p d by (subst unat_sub) (simp_all add: word_le_nat_alt)
  then show "prob_ok (p - drop_bit kNumMoveBits p)" unfolding prob_ok_def using p by auto
qed

lemma bound_spec:
  assumes "2 ^ 24 \<le> unat (r :: u32)" "prob_ok p"
  defines "B \<equiv> unat (drop_bit kNumBitModelTotalBits r * ucast p)"
  shows "2 ^ 16 \<le> B" "B + 2 ^ 16 \<le> unat r"
proof -
  have p: "31 \<le> unat p" "unat p \<le> 2017" using assms by (simp_all add: prob_ok_def)
  let ?q = "unat r div 2048"
  have q: "2 ^ 13 \<le> ?q" using assms(1) by simp
  have "unat (drop_bit kNumBitModelTotalBits r) = ?q" using unat32 [of r] unfolding unsigned_drop_bit_eq
    by (simp add: kNumBitModelTotalBits_def drop_bit_eq_div take_bit_eq_mod)
  moreover have "unat (ucast p :: u32) = unat p" using p by (simp add: unsigned_ucast_eq take_bit_eq_mod)
  moreover have le: "?q * unat p + ?q * 31 \<le> unat r"
  proof -
    have "?q * unat p + ?q * 31 \<le> ?q * 2048" using p by (simp flip: add_mult_distrib2)
    then show ?thesis using div_times_less_eq_dividend [of "unat r" 2048] by linarith
  qed
  moreover have "?q * unat p < 2 ^ 32" using le unat32 [of r] by linarith
  ultimately have B: "B = ?q * unat p" by (simp add: B_def unat_word_ariths)
  have "2 ^ 13 * 31 \<le> ?q * unat p" using q p by (intro mult_mono) auto
  then show "2 ^ 16 \<le> B" using B by simp
  show "B + 2 ^ 16 \<le> unat r" using le q B by simp
qed

definition probs_ok :: "nat \<Rightarrow> u16 list \<Rightarrow> bool" where
  "probs_ok n ps \<longleftrightarrow> length ps = n \<and> (\<forall>p \<in> set ps. prob_ok p)"

lemma probs_ok_update: "probs_ok n ps \<Longrightarrow> prob_ok p \<Longrightarrow> probs_ok n (ps[i := p])"
  by (auto simp: probs_ok_def dest: set_update_subset_insert [THEN subsetD])


lemma mask64 [simp]: "(x :: u64) AND 0xFFFFFFFFFFFFFFFF = x"
proof -
  have m: "(0xFFFFFFFFFFFFFFFF :: u64) = - 1" by code_simp
  show ?thesis unfolding m by (rule and.right_neutral)
qed

lemma low_add:
  assumes "einv k e" "unat (b :: u32) \<le> unat (re_range e)"
  shows "unat (re_low e + ucast b) = unat (re_low e) + unat b"
proof -
  have "unat (ucast b :: u64) = unat b" using unat32 [of b] by (simp add: unsigned_ucast_eq take_bit_eq_mod)
  moreover have "unat (re_low e) + unat b \<le> 2 ^ 33" using assms by (simp add: einv_def sinv_def)
  ultimately show ?thesis by (simp add: unat_word_ariths)
qed

text \<open>Encoding one bit with an adaptive probability.\<close>

lemma codes_bit:
  assumes i: "unat i < n" and s: "s = 0 \<or> s = 1"
  shows "codes 1 (probs_ok n) (\<lambda>ps e. re_encode ps i s e) (\<lambda>ps d. decodeBit ps i d) s"
proof (rule codesI)
  fix ps e k assume ps: "probs_ok n ps" and e: "einv (k + 1) e"
  define p where "p = ps ! unat i"
  define B where "B = drop_bit kNumBitModelTotalBits (re_range e) * ucast p"
  define ps' where "ps' = ps[unat i := if s = 0 then p + drop_bit kNumMoveBits (kBitModelTotal - p) else p - drop_bit kNumMoveBits p]"
  have p: "prob_ok p" using ps i by (auto simp: probs_ok_def p_def)
  have b: "2 ^ 16 \<le> unat B" "unat B + 2 ^ 16 \<le> unat (re_range e)" using bound_spec [OF _ p] e by (simp_all add: einv_def B_def)
  have ps': "probs_ok n ps'" unfolding ps'_def using ps prob_update [OF p] by (intro probs_ok_update) auto
  have len: "\<not> unat i \<ge> length ps" using ps i by (simp add: probs_ok_def)
  let ?\<delta> = "if s = 0 then 0 else unat B" and ?R = "if s = 0 then B else re_range e - B"
  define l where "l = (if s = 0 then re_low e else re_low e + ucast B)"
  have rB: "unat (re_range e - B) = unat (re_range e) - unat B" using b by (intro unat_sub) (simp add: word_le_nat_alt)
  have l: "unat l = unat (re_low e) + ?\<delta>" unfolding l_def using low_add [OF e, of B] b by simp
  have R: "?\<delta> + unat ?R \<le> unat (re_range e)" "2 ^ 16 \<le> unat ?R" using b rB by auto
  obtain e' j where e': "re_shift (e\<lparr>re_low := l, re_range := ?R\<rparr>) = Inr e'" "einv k e'" "narrows ?\<delta> (unat ?R) j e e'"
    using re_shift_spec [OF e [simplified] refl l R] by blast
  have enc: "re_encode ps i s e = Inr (ps', e')"
  proof (cases "s = 0")
    case True
    have "e\<lparr>re_low := re_low e, re_range := B\<rparr> = e\<lparr>re_range := B\<rparr>" by (cases e) simp
    then show ?thesis using True e'(1) len by (simp add: re_encode_def p_def B_def ps'_def l_def Let_def)
  next
    case False
    then show ?thesis using e'(1) len by (simp add: re_encode_def p_def B_def ps'_def l_def Let_def)
  qed
  have "\<exists>d'. decodeBit ps i d = Inr (s, ps', d') \<and> follows F e' d'" if F: "covers e' F" "follows F e d" for F d
  proof -
    let ?V = "bval (take (edig e + 4) F)"
    note C = covers_narrows [OF e'(3) F(1)]
    have fd: "rd_range d = re_range e" "rd_in d = drop (edig e + 4) F" "unat (rd_code d) + esum e = ?V" using F(2) by (simp_all add: follows_def)
    show ?thesis
    proof (cases "s = 0")
      case True
      then have "rd_code d < B" using C(3) fd(3) by (simp add: word_less_nat_alt)
      moreover obtain d' where "rd_fill (d\<lparr>rd_range := B\<rparr>) = Inr d'" "follows F e' d'"
        using fill_follows [OF e'(3) F(1), of "d\<lparr>rd_range := B\<rparr>"] fd True by auto
      ultimately show ?thesis using True len fd(1) by (simp add: decodeBit_def p_def B_def ps'_def Let_def)
    next
      case False
      then have ge: "unat B \<le> unat (rd_code d)" using C(2) fd(3) by simp
      then have "\<not> rd_code d < B" by (simp add: word_less_nat_alt)
      moreover have "unat (rd_code d - B) + (esum e + unat B) = ?V" using ge fd(3) by (subst unat_sub) (simp_all add: word_le_nat_alt)
      then obtain d' where "rd_fill (d\<lparr>rd_range := re_range e - B, rd_code := rd_code d - B\<rparr>) = Inr d'" "follows F e' d'"
        using fill_follows [OF e'(3) F(1), of "d\<lparr>rd_range := re_range e - B, rd_code := rd_code d - B\<rparr>"] fd False by auto
      ultimately show ?thesis using False s len fd(1) by (simp add: decodeBit_def p_def B_def ps'_def Let_def)
    qed
  qed
  then show "\<exists>m' e'. re_encode ps i s e = Inr (m', e') \<and> probs_ok n m' \<and> einv k e' \<and> (\<forall>F. covers e' F \<longrightarrow> covers e F) \<and>
       (\<forall>F d. covers e' F \<longrightarrow> follows F e d \<longrightarrow> (\<exists>d'. decodeBit ps i d = Inr (s, m', d') \<and> follows F e' d'))"
    using enc ps' e'(2) covers_narrows(4) [OF e'(3)] by blast
qed

section \<open>Bit trees and direct bits\<close>

lemma lowbit:
  fixes s :: u32
  shows "drop_bit k s AND 1 = 0 \<or> drop_bit k s AND 1 = 1" "unat (drop_bit k s AND 1) = unat s div 2 ^ k mod 2"
proof -
  have "drop_bit k s AND 1 = of_bool (odd (drop_bit k s))" by (simp add: and_one_eq mod_2_eq_odd)
  then show "drop_bit k s AND 1 = 0 \<or> drop_bit k s AND 1 = 1" by auto
  have "unat (drop_bit k s) = unat s div 2 ^ k" using unat32 [of s] unfolding unsigned_drop_bit_eq by (simp add: drop_bit_eq_div take_bit_eq_mod)
  moreover have "unat (x AND 1) = unat x mod 2" for x :: u32 by (simp add: and_one_eq unat_mod)
  ultimately show "unat (drop_bit k s AND 1) = unat s div 2 ^ k mod 2" by simp
qed

lemma push1:
  assumes "unat (m :: u32) < 2 ^ 31" "b = 0 \<or> b = 1"
  shows "push_bit 1 m OR b = push_bit 1 m + b" "unat (push_bit 1 m + b) = 2 * unat m + unat b"
proof -
  show "push_bit 1 m OR b = push_bit 1 m + b" using assms(2)
    by (auto intro!: disjunctive_add [symmetric] simp: bit_simps bit_0)
  have "unat (push_bit 1 m) = 2 * unat m" unfolding unsigned_push_bit_eq using assms(1) by (simp add: push_bit_eq_mult take_bit_eq_mod)
  then show "unat (push_bit 1 m + b) = 2 * unat m + unat b" using assms by (auto simp: unat_word_ariths)
qed

lemma mod_pow_Suc: "(s :: nat) mod 2 ^ Suc k = (s div 2 ^ k mod 2) * 2 ^ k + s mod 2 ^ k"
  using mod_mult2_eq [of s "2 ^ k" 2] by (simp add: mult.commute)

lemma codes_tree:
  assumes "0 < k \<Longrightarrow> (unat m + 1) * 2 ^ (k - 1) \<le> n" "(unat m + 1) * 2 ^ k \<le> 2 ^ 32"
  shows "codes k (probs_ok n) (\<lambda>ms e. treeEncodeLoop k m s ms e) (\<lambda>ms d. treeDecodeLoop k m ms d)
    (of_nat (unat m * 2 ^ k + unat s mod 2 ^ k))"
  using assms
proof (induction k arbitrary: m)
  case 0
  then show ?case by (intro codes_return) simp_all
next
  case (Suc k)
  define b where "b = drop_bit k s AND 1"
  note lb = lowbit [of k s, folded b_def]
  have p: "(1 :: nat) \<le> 2 ^ k" by simp
  have "(unat m + 1) * 2 \<le> 2 ^ 32" using Suc.prems(2) mult_le_mono [OF le_refl, of 2 "2 ^ Suc k" "unat m + 1"] by simp
  then have m31: "unat m < 2 ^ 31" by simp
  note pm = push1 [OF m31 lb(1)]
  have i: "unat m < n" using Suc.prems(1) mult_le_mono [OF le_refl p, of "unat m + 1"] by simp
  let ?m = "push_bit 1 m + b"
  have b1: "unat b \<le> 1" using lb(1) by auto
  have le: "(unat ?m + 1) * x \<le> (unat m + 1) * (2 * x)" for x
    using mult_le_mono1 [of "unat ?m + 1" "2 * (unat m + 1)" x] b1 pm(2) by (simp add: ac_simps)
  have "codes k (probs_ok n) (\<lambda>ms e. treeEncodeLoop k ?m s ms e) (\<lambda>ms d. treeDecodeLoop k ?m ms d) (of_nat (unat ?m * 2 ^ k + unat s mod 2 ^ k))"
  proof (rule Suc.IH)
    show "(unat ?m + 1) * 2 ^ (k - 1) \<le> n" if "0 < k" using Suc.prems(1) le [of "2 ^ (k - 1)"] that by (cases k) auto
    show "(unat ?m + 1) * 2 ^ k \<le> 2 ^ 32" using Suc.prems(2) le [of "2 ^ k"] by simp
  qed
  then have C: "codes k (probs_ok n) (\<lambda>ms e. treeEncodeLoop k ?m s ms e) ((\<lambda>v ms d. treeDecodeLoop k (push_bit 1 m + v) ms d) b)
      (of_nat (unat ?m * 2 ^ k + unat s mod 2 ^ k))" .
  have "codes (Suc k) (probs_ok n) (\<lambda>ms e. treeEncodeLoop (Suc k) m s ms e) (\<lambda>ms d. treeDecodeLoop (Suc k) m ms d)
      (of_nat (unat ?m * 2 ^ k + unat s mod 2 ^ k))"
    by (rule codes_bind [where ?dec2.0 = "\<lambda>v ms d. treeDecodeLoop k (push_bit 1 m + v) ms d", OF codes_bit [OF i lb(1)] C])
      (simp_all only: treeEncodeLoop.simps treeDecodeLoop.simps Let_def b_def [symmetric] pm(1) plus_1_eq_Suc)
  moreover have "unat ?m * 2 ^ k + unat s mod 2 ^ k = unat m * 2 ^ Suc k + unat s mod 2 ^ Suc k"
    unfolding pm(2) lb(2) mod_pow_Suc by (simp add: algebra_simps)
  ultimately show ?case by (simp only:)
qed

lemma codes_reverse:
  assumes "\<And>x. unat m \<le> x \<Longrightarrow> x < (unat m + 1) * 2 ^ (k - 1) \<Longrightarrow> 0 < k \<Longrightarrow> unat (st + of_nat x) < n" "(unat m + 1) * 2 ^ k \<le> 2 ^ 32"
    and "unat r < 2 ^ i" "i + k \<le> 32"
  shows "codes k (probs_ok n) (\<lambda>ms e. reverseEncodeLoop k st m s ms e) (\<lambda>ms d. reverseDecodeLoop k i st m r ms d)
    (of_nat (unat r + (unat s mod 2 ^ k) * 2 ^ i))"
  using assms
proof (induction k arbitrary: m s r i)
  case 0
  then show ?case by (intro codes_return) simp_all
next
  case (Suc k)
  define b where "b = s AND 1"
  have lb: "b = 0 \<or> b = 1" "unat b = unat s mod 2" using lowbit [of 0 s] by (simp_all add: b_def)
  have p: "(1 :: nat) \<le> 2 ^ k" by simp
  have "(unat m + 1) * 2 \<le> 2 ^ 32" using Suc.prems(2) mult_le_mono [OF le_refl, of 2 "2 ^ Suc k" "unat m + 1"] by simp
  then have m31: "unat m < 2 ^ 31" by simp
  note pm = push1 [OF m31 lb(1)]
  have i: "unat (st + m) < n" using Suc.prems(1) [of "unat m"] mult_le_mono [OF le_refl p, of "unat m + 1"] by simp
  let ?m = "push_bit 1 m + b"
  let ?r = "r OR push_bit i b"
  have b1: "unat b \<le> 1" using lb(1) by auto
  have le: "(unat ?m + 1) * x \<le> (unat m + 1) * (2 * x)" for x
    using mult_le_mono1 [of "unat ?m + 1" "2 * (unat m + 1)" x] b1 pm(2) by (simp add: ac_simps)
  have "(2 :: nat) ^ i < 2 ^ 32" using Suc.prems(4) by (intro power_strict_increasing) auto
  then have pb: "unat (push_bit i b) = unat b * 2 ^ i" unfolding unsigned_push_bit_eq using lb(1)
    by (auto simp: push_bit_eq_mult take_bit_eq_mod)
  have "r = take_bit i r" unfolding word_unat_eq_iff unsigned_take_bit_eq using Suc.prems(3) by (simp add: take_bit_nat_eq_self)
  then have nb: "\<not> bit r j" if "i \<le> j" for j using that by (metis bit_take_bit_iff not_less)
  have "?r = r + push_bit i b" using lb(1) by (intro disjunctive_add [symmetric]) (auto simp: bit_simps nb)
  moreover have "unat r + unat b * 2 ^ i < 2 ^ Suc i" using Suc.prems(3) lb(1) by auto
  moreover have "(2 :: nat) ^ Suc i \<le> 2 ^ 32" using Suc.prems(4) by (intro power_increasing) auto
  ultimately have r: "unat ?r = unat r + unat b * 2 ^ i" "unat ?r < 2 ^ Suc i" by (simp_all add: unat_word_ariths pb)
  have "codes k (probs_ok n) (\<lambda>ms e. reverseEncodeLoop k st ?m (drop_bit 1 s) ms e) (\<lambda>ms d. reverseDecodeLoop k (Suc i) st ?m ?r ms d)
      (of_nat (unat ?r + (unat (drop_bit 1 s) mod 2 ^ k) * 2 ^ Suc i))"
  proof (rule Suc.IH [OF _ _ r(2)])
    show "unat (st + of_nat x) < n" if "unat ?m \<le> x" "x < (unat ?m + 1) * 2 ^ (k - 1)" "0 < k" for x
      by (rule Suc.prems(1)) (use that le [of "2 ^ (k - 1)"] pm(2) in \<open>cases k; simp\<close>)+
    show "(unat ?m + 1) * 2 ^ k \<le> 2 ^ 32" using Suc.prems(2) le [of "2 ^ k"] by simp
    show "Suc i + k \<le> 32" using Suc.prems(4) by simp
  qed
  then have C: "codes k (probs_ok n) (\<lambda>ms e. reverseEncodeLoop k st ?m (drop_bit 1 s) ms e)
      ((\<lambda>v ms d. reverseDecodeLoop k (Suc i) st (push_bit 1 m + v) (r OR push_bit i v) ms d) b)
      (of_nat (unat ?r + (unat (drop_bit 1 s) mod 2 ^ k) * 2 ^ Suc i))" .
  have "codes (Suc k) (probs_ok n) (\<lambda>ms e. reverseEncodeLoop (Suc k) st m s ms e) (\<lambda>ms d. reverseDecodeLoop (Suc k) i st m r ms d)
      (of_nat (unat ?r + (unat (drop_bit 1 s) mod 2 ^ k) * 2 ^ Suc i))"
    by (rule codes_bind [where ?dec2.0 = "\<lambda>v ms d. reverseDecodeLoop k (Suc i) st (push_bit 1 m + v) (r OR push_bit i v) ms d", OF codes_bit [OF i lb(1)] C])
      (simp_all only: reverseEncodeLoop.simps reverseDecodeLoop.simps Let_def b_def [symmetric] pm(1) plus_1_eq_Suc)
  moreover have "unat (drop_bit 1 s) = unat s div 2" using unat32 [of s] unfolding unsigned_drop_bit_eq by (simp add: drop_bit_eq_div take_bit_eq_mod)
  then have "unat ?r + (unat (drop_bit 1 s) mod 2 ^ k) * 2 ^ Suc i = unat r + (unat s mod 2 ^ Suc k) * 2 ^ i"
    using mod_mult2_eq [of "unat s" 2 "2 ^ k"] unfolding r(1) lb(2) by (simp add: algebra_simps)
  ultimately show ?case by (simp only:)
qed

lemma direct_bit:
  fixes r c :: u32
  assumes "unat c < unat r + unat r + 1" "unat r < 2 ^ 31"
  shows "drop_bit 31 (c - r) = (if c < r then 1 else 0)"
proof -
  have d: "unat (drop_bit 31 x) = unat x div 2 ^ 31" for x :: u32
    using unat32 [of x] unfolding unsigned_drop_bit_eq by (simp add: drop_bit_eq_div take_bit_eq_mod)
  show ?thesis
  proof (cases "c < r")
    case True
    then have lt: "unat c < unat r" by (simp add: word_less_nat_alt)
    have "unat (c - r) = 2 ^ 32 - (unat r - unat c)" using lt assms(2) by (simp add: unat_sub_if_size word_size)
    then have "unat (c - r) div 2 ^ 31 = 1" using lt assms(2) by (intro div_nat_eqI) auto
    then show ?thesis using True by (simp add: word_unat_eq_iff d)
  next
    case False
    then have "unat (c - r) = unat c - unat r" by (intro unat_sub) (simp add: not_less)
    then have "unat (c - r) < 2 ^ 31" using assms by linarith
    then show ?thesis using False by (simp add: word_unat_eq_iff d)
  qed
qed

definition direct_enc :: "u32 \<Rightarrow> rangeEncoder \<Rightarrow> rangeEncoder" where
  "direct_enc b e = (let h = drop_bit 1 (re_range e) in if b = 1 then e\<lparr>re_range := h, re_low := re_low e + ucast h\<rparr> else e\<lparr>re_range := h\<rparr>)"

definition direct_dec :: "u32 \<Rightarrow> rangeDecoder \<Rightarrow> (u32 \<times> rangeDecoder) res" where
  "direct_dec r d = (let q = drop_bit 1 (rd_range d); t = drop_bit 31 (rd_code d - q)
     in rbind (rd_fill (d\<lparr>rd_range := q, rd_code := rd_code d - (q AND (t - 1))\<rparr>)) (\<lambda>d. Inr (push_bit 1 r OR (1 - t), d)))"

lemma codes_direct1:
  assumes r31: "unat r < 2 ^ 31" and b: "b = 0 \<or> b = 1"
  shows "codes 1 ok (\<lambda>m e. rbind (re_shift (direct_enc b e)) (\<lambda>e. Inr (m, e))) (\<lambda>m d. rbind (direct_dec r d) (\<lambda>(x, d). Inr (x, m, d))) (push_bit 1 r + b)"
proof (rule codesI)
  fix m e j assume ok: "ok m" and e: "einv (j + 1) e"
  define h where "h = (\<lambda>e :: rangeEncoder. drop_bit 1 (re_range e))"
  have hf: "drop_bit 1 (re_range e) = h e" by (simp only: h_def)
  let ?r = "push_bit 1 r + b"
  have R: "2 ^ 24 \<le> unat (re_range e)" using e by (simp add: einv_def)
  have hh: "unat (h e) = unat (re_range e) div 2" using unat32 [of "re_range e"] unfolding h_def unsigned_drop_bit_eq
    by (simp add: drop_bit_eq_div take_bit_eq_mod)
  define \<delta> where "\<delta> = (if b = 1 then unat (h e) else 0)"
  define l where "l = (if b = 1 then re_low e + ucast (h e) else re_low e)"
  have l: "unat l = unat (re_low e) + \<delta>" unfolding l_def \<delta>_def using low_add [OF e, of "h e"] hh by simp
  have ge: "direct_enc b e = e\<lparr>re_low := l, re_range := h e\<rparr>" unfolding direct_enc_def hf Let_def by (cases e) (simp add: l_def)
  have R': "\<delta> + unat (h e) \<le> unat (re_range e)" "2 ^ 16 \<le> unat (h e)" using R hh by (auto simp: \<delta>_def)
  obtain e' i where e': "re_shift (direct_enc b e) = Inr e'" "einv j e'" "narrows \<delta> (unat (h e)) i e e'"
    using re_shift_spec [OF e [simplified] ge l R'] by blast
  have "\<exists>d'. direct_dec r d = Inr (?r, d') \<and> follows F e' d'" if F: "covers e' F" "follows F e d" for F d
  proof -
    let ?V = "bval (take (edig e + 4) F)"
    note Cn = covers_narrows [OF e'(3) F(1)]
    have fd: "rd_range d = re_range e" "rd_in d = drop (edig e + 4) F" "unat (rd_code d) + esum e = ?V" using F(2) by (simp_all add: follows_def)
    have cl: "rd_code d < h e \<longleftrightarrow> b \<noteq> 1" using Cn(2,3) fd(3) by (auto simp: \<delta>_def word_less_nat_alt split: if_splits)
    have "drop_bit 31 (rd_code d - h e) = (if rd_code d < h e then 1 else 0)"
      by (rule direct_bit) (use Cn(3) fd(3) hh unat32 [of "re_range e"] in \<open>auto simp: \<delta>_def split: if_splits\<close>)
    then have t: "drop_bit 31 (rd_code d - h e) = (if b = 1 then 0 else 1)" using cl by simp
    let ?c = "if b = 1 then rd_code d - h e else rd_code d"
    have c: "unat ?c + (esum e + \<delta>) = ?V"
    proof (cases "b = 1")
      case True
      then have "unat (rd_code d - h e) = unat (rd_code d) - unat (h e)" using cl by (intro unat_sub) (simp add: not_less)
      then show ?thesis using True fd(3) Cn(2) by (simp add: \<delta>_def)
    qed (use fd in \<open>simp add: \<delta>_def\<close>)
    obtain d' where d': "rd_fill (d\<lparr>rd_range := h e, rd_code := ?c\<rparr>) = Inr d'" "follows F e' d'"
      using fill_follows [OF e'(3) F(1), of "d\<lparr>rd_range := h e, rd_code := ?c\<rparr>"] fd c by auto
    have "rd_code d - (h e AND (drop_bit 31 (rd_code d - h e) - 1)) = ?c" unfolding t by simp
    moreover have "push_bit 1 r OR (1 - drop_bit 31 (rd_code d - h e)) = ?r" unfolding t using push1(1) [OF r31 b] b by auto
    ultimately have "direct_dec r d = Inr (?r, d')" using d'(1) unfolding direct_dec_def fd(1) hf Let_def by (simp only: rbind_simps)
    then show ?thesis using d'(2) by blast
  qed
  then show "\<exists>m' e'. rbind (re_shift (direct_enc b e)) (\<lambda>e. Inr (m, e)) = Inr (m', e') \<and> ok m' \<and> einv j e' \<and> (\<forall>F. covers e' F \<longrightarrow> covers e F) \<and>
     (\<forall>F d. covers e' F \<longrightarrow> follows F e d \<longrightarrow> (\<exists>d'. rbind (direct_dec r d) (\<lambda>(x, d). Inr (x, m, d)) = Inr (?r, m', d') \<and> follows F e' d'))"
    using ok e'(1,2) covers_narrows(4) [OF e'(3)] by (intro exI [of _ m] exI [of _ e']) fastforce
qed

lemma codes_direct:
  assumes "(unat r + 1) * 2 ^ k \<le> 2 ^ 32"
  shows "codes k ok (\<lambda>m e. rbind (encodeDirectLoop k v e) (\<lambda>e. Inr (m, e)))
    (\<lambda>m d. rbind (decodeDirectLoop k r d) (\<lambda>(x, d). Inr (x, m, d))) (of_nat (unat r * 2 ^ k + unat v mod 2 ^ k))"
  using assms
proof (induction k arbitrary: r)
  case 0
  then show ?case by (intro codes_return) simp_all
next
  case (Suc k)
  define b where "b = drop_bit k v AND 1"
  note lb = lowbit [of k v, folded b_def]
  have "(unat r + 1) * 2 \<le> 2 ^ 32" using Suc.prems mult_le_mono [OF le_refl, of 2 "2 ^ Suc k" "unat r + 1"] by simp
  then have r31: "unat r < 2 ^ 31" by simp
  note pr = push1 [OF r31 lb(1)]
  let ?r = "push_bit 1 r + b"
  have "codes k ok (\<lambda>m e. rbind (encodeDirectLoop k v e) (\<lambda>e. Inr (m, e)))
      (\<lambda>m d. rbind (decodeDirectLoop k ?r d) (\<lambda>(x, d). Inr (x, m, d))) (of_nat (unat ?r * 2 ^ k + unat v mod 2 ^ k))"
  proof (rule Suc.IH)
    have "(unat ?r + 1) * 2 ^ k \<le> 2 * (unat r + 1) * 2 ^ k" using pr(2) lb(1) by (intro mult_le_mono1) auto
    then show "(unat ?r + 1) * 2 ^ k \<le> 2 ^ 32" using Suc.prems by (simp add: ac_simps)
  qed
  then have C: "codes k ok (\<lambda>m e. rbind (encodeDirectLoop k v e) (\<lambda>e. Inr (m, e)))
      ((\<lambda>x m d. rbind (decodeDirectLoop k x d) (\<lambda>(x, d). Inr (x, m, d))) ?r) (of_nat (unat ?r * 2 ^ k + unat v mod 2 ^ k))" .
  have "codes (Suc k) ok (\<lambda>m e. rbind (encodeDirectLoop (Suc k) v e) (\<lambda>e. Inr (m, e)))
      (\<lambda>m d. rbind (decodeDirectLoop (Suc k) r d) (\<lambda>(x, d). Inr (x, m, d))) (of_nat (unat ?r * 2 ^ k + unat v mod 2 ^ k))"
  proof (rule codes_bind [where ?dec2.0 = "\<lambda>x m d. rbind (decodeDirectLoop k x d) (\<lambda>(x, d). Inr (x, m, d))", OF codes_direct1 [OF r31 lb(1)] C])
    show "rbind (encodeDirectLoop (Suc k) v e) (\<lambda>e. Inr (m, e)) =
        rbind (rbind (re_shift (direct_enc b e)) (\<lambda>e. Inr (m, e))) (\<lambda>(m, e). rbind (encodeDirectLoop k v e) (\<lambda>e. Inr (m, e)))" for m :: 'a and e
    proof -
      have "encodeDirectLoop (Suc k) v e = rbind (re_shift (direct_enc b e)) (encodeDirectLoop k v)"
        by (simp only: encodeDirectLoop.simps Let_def b_def [symmetric] direct_enc_def) simp
      then show ?thesis by (cases "re_shift (direct_enc b e)") simp_all
    qed
    show "rbind (decodeDirectLoop (Suc k) r d) (\<lambda>(x, d). Inr (x, m, d)) =
        rbind (rbind (direct_dec r d) (\<lambda>(x, d). Inr (x, m, d))) (\<lambda>(v, m, d). rbind (decodeDirectLoop k v d) (\<lambda>(x, d). Inr (x, m, d)))" for m :: 'a and d
      by (cases "rd_fill (d\<lparr>rd_range := drop_bit 1 (rd_range d), rd_code := rd_code d - (drop_bit 1 (rd_range d) AND (drop_bit 31 (rd_code d - drop_bit 1 (rd_range d)) - 1))\<rparr>)")
        (simp_all only: decodeDirectLoop.simps direct_dec_def Let_def rbind_simps prod.case)
  qed simp
  moreover have "unat ?r * 2 ^ k + unat v mod 2 ^ k = unat r * 2 ^ Suc k + unat v mod 2 ^ Suc k"
    unfolding pr(2) lb(2) mod_pow_Suc by (simp add: algebra_simps)
  ultimately show ?case by (simp only:)
qed

section \<open>Whole streams\<close>

lemma new_einv: "1 + k < 2 ^ 32 \<Longrightarrow> einv k (newRangeEncoder None)"
  by (simp add: einv_def sinv_def csz_def pend_def newRangeEncoder_def)

lemma code_of_bytes: "fold (\<lambda>b code. push_bit 8 code OR ucast b) bs (c :: u32) = of_nat (unat c * 256 ^ length bs + bval bs)"
proof (induction bs arbitrary: c)
  case (Cons b bs)
  have "(of_nat (unat (push_bit 8 c OR ucast b)) :: u32) = c * 256 + of_nat (unat b)"
    unfolding or_byte by simp
  then show ?case using Cons by (simp add: bval_Cons algebra_simps)
qed simp

lemma new_follows:
  assumes "covers (newRangeEncoder None) F"
  shows "\<exists>d. newRangeDecoder F = Inr d \<and> follows F (newRangeEncoder None) d"
proof -
  have e: "edig (newRangeEncoder None) = 1" "esum (newRangeEncoder None) = 0" "re_range (newRangeEncoder None) = 0xFFFFFFFF"
    by (simp_all add: edig_def esum_def csz_def pend_def newRangeEncoder_def)
  have len: "5 \<le> length F" and v: "bval (take 5 F) < 2 ^ 32" using assms by (simp_all add: covers_def e)
  have "unat (fold (\<lambda>b code. push_bit 8 code OR ucast b) (take 5 F) 0 :: u32) = bval (take 5 F)"
    unfolding code_of_bytes using v by (simp add: unat_of_nat)
  then show ?thesis using len by (simp add: newRangeDecoder_def follows_def e)
qed

text \<open>What is encoded with a new encoder and flushed is decoded by a new decoder.\<close>

lemma codes_stream:
  assumes C: "codes c ok enc dec v" and ok: "ok m" and c: "c + 6 < 2 ^ 32"
  shows "\<exists>m' e' f d d'. enc m (newRangeEncoder None) = Inr (m', e') \<and> ok m' \<and> re_flush None e' = Inr f \<and>
    newRangeDecoder (re_out f) = Inr d \<and> dec m d = Inr (v, m', d')"
proof -
  have "einv (5 + c) (newRangeEncoder None)" by (rule new_einv) (use c in simp)
  then obtain m' e' where e': "enc m (newRangeEncoder None) = Inr (m', e')" "ok m'" "einv 5 e'"
    "\<And>F. covers e' F \<Longrightarrow> covers (newRangeEncoder None) F"
    "\<And>F d. covers e' F \<Longrightarrow> follows F (newRangeEncoder None) d \<Longrightarrow> \<exists>d'. dec m d = Inr (v, m', d') \<and> follows F e' d'"
    using codesE [OF C ok] by metis
  obtain f where f: "re_flush None e' = Inr f" "length (re_out f) = edig e' + 4" "bval (re_out f) = esum e'"
    using flush_spec [of "unat (re_range e')" e'] e'(3) by (auto simp: einv_def)
  have cov: "covers e' (re_out f)" using f(2,3) e'(3) by (simp add: covers_def einv_def)
  obtain d where d: "newRangeDecoder (re_out f) = Inr d" "follows (re_out f) (newRangeEncoder None) d" using new_follows [OF e'(4) [OF cov]] by blast
  then show ?thesis using e'(1,2) f(1) e'(5) [OF cov d(2)] by blast
qed

fun encodeAll :: "('c \<Rightarrow> 'v \<Rightarrow> 'm \<Rightarrow> rangeEncoder \<Rightarrow> ('m \<times> rangeEncoder) res) \<Rightarrow> ('c \<times> 'v) list \<Rightarrow> 'm \<Rightarrow> rangeEncoder \<Rightarrow> ('m \<times> rangeEncoder) res" where
  "encodeAll enc [] m e = Inr (m, e)"
| "encodeAll enc ((c, v) # xs) m e = rbind (enc c v m e) (\<lambda>(m, e). encodeAll enc xs m e)"

fun decodeAll :: "('c \<Rightarrow> 'm \<Rightarrow> rangeDecoder \<Rightarrow> ('v \<times> 'm \<times> rangeDecoder) res) \<Rightarrow> 'c list \<Rightarrow> 'm \<Rightarrow> rangeDecoder \<Rightarrow> ('v list \<times> 'm \<times> rangeDecoder) res" where
  "decodeAll dec [] m d = Inr ([], m, d)"
| "decodeAll dec (c # cs) m d = rbind (dec c m d) (\<lambda>(v, m, d). rbind (decodeAll dec cs m d) (\<lambda>(vs, m, d). Inr (v # vs, m, d)))"

text \<open>
  The contract of a coder on top of the range coder: values in a context, which both sides know, and a model
  that both sides update.
\<close>

locale range_codec =
  fixes ok :: "'m \<Rightarrow> bool"
    and enc :: "'c \<Rightarrow> 'v \<Rightarrow> 'm \<Rightarrow> rangeEncoder \<Rightarrow> ('m \<times> rangeEncoder) res"
    and dec :: "'c \<Rightarrow> 'm \<Rightarrow> rangeDecoder \<Rightarrow> ('v \<times> 'm \<times> rangeDecoder) res"
    and valid :: "'c \<Rightarrow> 'v \<Rightarrow> bool"
    and cost :: "'c \<Rightarrow> nat"
  assumes codec: "valid c v \<Longrightarrow> codes (cost c) ok (enc c v) (dec c) v"
begin

lemma all_codes:
  assumes "\<forall>(c, v) \<in> set xs. valid c v"
  shows "codes (sum_list (map (cost \<circ> fst) xs)) ok (encodeAll enc xs) (decodeAll dec (map fst xs)) (map snd xs)"
  using assms
proof (induction xs)
  case Nil
  then show ?case by (simp add: codes_return)
next
  case (Cons x xs)
  obtain c v where x: "x = (c, v)" by fastforce
  have IH: "codes (sum_list (map (cost \<circ> fst) xs)) ok (encodeAll enc xs) (decodeAll dec (map fst xs)) (map snd xs)"
    by (rule Cons.IH) (use Cons.prems in auto)
  have 2: "codes (sum_list (map (cost \<circ> fst) xs)) ok (encodeAll enc xs)
      ((\<lambda>w m d. rbind (decodeAll dec (map fst xs) m d) (\<lambda>(vs, m, d). Inr (w # vs, m, d))) v) (v # map snd xs)"
    by (rule codes_part [OF IH, where get = "\<lambda>m. m" and put = "\<lambda>m x. x"]) (auto split: sum.splits simp: rbind_def)
  have 1: "codes (cost c) ok (enc c v) (dec c) v" by (rule codec) (use Cons.prems x in auto)
  have "codes (sum_list (map (cost \<circ> fst) (x # xs))) ok (encodeAll enc (x # xs)) (decodeAll dec (map fst (x # xs))) (v # map snd xs)"
    by (rule codes_bind [where ?dec2.0 = "\<lambda>w m d. rbind (decodeAll dec (map fst xs) m d) (\<lambda>(vs, m, d). Inr (w # vs, m, d))", OF 1 2]) (simp_all add: x)
  moreover have "map snd (x # xs) = v # map snd xs" by (simp add: x)
  ultimately show ?case by (simp only:)
qed

lemma stream_roundtrip:
  assumes "\<forall>(c, v) \<in> set xs. valid c v" "ok m" "sum_list (map (cost \<circ> fst) xs) + 6 < 2 ^ 32"
  shows "\<exists>m' e' f d d'. encodeAll enc xs m (newRangeEncoder None) = Inr (m', e') \<and> re_flush None e' = Inr f \<and>
    newRangeDecoder (re_out f) = Inr d \<and> decodeAll dec (map fst xs) m d = Inr (map snd xs, m', d')"
  using codes_stream [OF all_codes [OF assms(1)] assms(2,3)] by blast

end

end
