(* ===== verification/Lzma_Coders_Props.thy ===== *)
theory Lzma_Coders_Props
  imports Lzma_Coders Lzma_Range_Props
begin

text \<open>
  The coders of bit trees, lengths and literals are codecs over the range coder, and so is any mixture of them
  in one stream.
\<close>


section \<open>Bit tree coders\<close>

definition tree_ok :: "nat \<Rightarrow> rangeBitTreeCoder \<Rightarrow> bool" where
  "tree_ok L c \<longleftrightarrow> unat (numBitLevels c) = L \<and> probs_ok (2 ^ L) (models c)"

lemma init_probs: "probs_ok (unat n) (initBitModels n)"
proof -
  have "unat (drop_bit 1 kBitModelTotal) = 1024" unfolding unsigned_drop_bit_eq by (simp add: kBitModelTotal_def drop_bit_eq_div take_bit_eq_mod)
  then show ?thesis by (auto simp: initBitModels_def probs_ok_def prob_ok_def)
qed

lemma unat_pow: "n < 32 \<Longrightarrow> unat (push_bit n 1 :: u32) = 2 ^ n"
proof -
  assume "n < 32"
  then have "(2 :: nat) ^ n < 2 ^ 32" by (intro power_strict_increasing) auto
  then show ?thesis unfolding unsigned_push_bit_eq by (simp add: push_bit_eq_mult take_bit_eq_mod)
qed

lemma new_tree_ok: "unat n < 32 \<Longrightarrow> tree_ok (unat n) (newRangeBitTreeCoder n)"
  using init_probs [of "push_bit (unat n) 1"] unfolding tree_ok_def newRangeBitTreeCoder_def rangeBitTreeCoder.simps
  by (simp only: unat_pow simp_thms)

lemma codes_tree_coder:
  assumes "0 < L" "L < 32" "unat s < 2 ^ L"
  shows "codes L (tree_ok L) (\<lambda>c e. tree_encode c s e) (\<lambda>c d. tree_decode c d) s"
proof -
  have le: "(2 :: nat) ^ Suc L \<le> 2 ^ 32" using assms(2) by (intro power_increasing) auto
  have 1: "codes L (probs_ok (2 ^ L)) (\<lambda>ms e. treeEncodeLoop L 1 s ms e) (\<lambda>ms d. treeDecodeLoop L 1 ms d) (of_nat (unat (1 :: u32) * 2 ^ L + unat s mod 2 ^ L))"
    by (rule codes_tree) (use assms(1) le in \<open>cases L; simp\<close>)+
  have "codes L (tree_ok L) (\<lambda>c e. tree_encode c s e) (\<lambda>c d. tree_decode c d)
      ((\<lambda>r. r - push_bit L 1) (of_nat (unat (1 :: u32) * 2 ^ L + unat s mod 2 ^ L)))"
    by (rule codes_part [OF 1, where get = models and put = "\<lambda>c ms. c\<lparr>models := ms\<rparr>"])
      (auto simp: tree_ok_def tree_encode_def tree_decode_def)
  moreover have "of_nat (unat (1 :: u32) * 2 ^ L + unat s mod 2 ^ L) - push_bit L 1 = s"
    using assms(3) by (simp add: push_bit_eq_mult)
  ultimately show ?thesis by simp
qed

lemma codes_reverse_coder:
  assumes "0 < L" "L < 32" "unat s < 2 ^ L"
  shows "codes L (tree_ok L) (\<lambda>c e. tree_reverseEncode c s e) (\<lambda>c d. tree_reverseDecode c d) s"
proof -
  have le: "(2 :: nat) ^ Suc L \<le> 2 ^ 32" using assms(2) by (intro power_increasing) auto
  have 1: "codes L (probs_ok (2 ^ L)) (\<lambda>ms e. reverseEncodeLoop L 0 1 s ms e) (\<lambda>ms d. reverseDecodeLoop L 0 0 1 0 ms d)
      (of_nat (unat (0 :: u32) + (unat s mod 2 ^ L) * 2 ^ 0))"
  proof (rule codes_reverse)
    show "unat (0 + of_nat x :: u32) < 2 ^ L" if "x < (unat (1 :: u32) + 1) * 2 ^ (L - 1)" "0 < L" for x
    proof -
      have "x < 2 ^ L" using that by (cases L) auto
      then show ?thesis using le by (simp add: unat_of_nat)
    qed
  qed (use le assms(2) in simp_all)
  have "codes L (tree_ok L) (\<lambda>c e. tree_reverseEncode c s e) (\<lambda>c d. tree_reverseDecode c d)
      ((\<lambda>r. r) (of_nat (unat (0 :: u32) + (unat s mod 2 ^ L) * 2 ^ 0)))"
    by (rule codes_part [OF 1, where get = models and put = "\<lambda>c ms. c\<lparr>models := ms\<rparr>"])
      (auto simp: tree_ok_def tree_reverseEncode_def tree_reverseDecode_def)
  then show ?thesis using assms(3) by simp
qed

section \<open>Lengths\<close>

definition slots_ok :: "nat \<Rightarrow> nat \<Rightarrow> rangeBitTreeCoder option list \<Rightarrow> bool" where
  "slots_ok n L l \<longleftrightarrow> n \<le> length l \<and> (\<forall>i < n. \<exists>c. l ! i = Some c \<and> tree_ok L c)"

definition len_ok :: "nat \<Rightarrow> lenCoder \<Rightarrow> bool" where
  "len_ok n lc \<longleftrightarrow> probs_ok 2 (choice lc) \<and> slots_ok n 3 (lowCoder lc) \<and> slots_ok n 3 (midCoder lc) \<and> tree_ok 8 (highCoder lc)"

lemma slots_at: "slots_ok n L l \<Longrightarrow> unat p < n \<Longrightarrow> coderAt l p = Inr (the (l ! unat p)) \<and> tree_ok L (the (l ! unat p))"
  by (auto simp: slots_ok_def coderAt_def)

lemma slots_put: "slots_ok n L l \<Longrightarrow> tree_ok L c \<Longrightarrow> slots_ok n L (l[i := Some c])"
  unfolding slots_ok_def by (metis length_list_update nth_list_update_eq nth_list_update_neq order_less_le_trans)

lemma newLenCoder_ok:
  assumes "unat n \<le> 16"
  shows "\<exists>lc. newLenCoder n = Inr lc \<and> len_ok (unat n) lc"
  using assms init_probs [of 2] new_tree_ok [of 3] new_tree_ok [of 8]
  by (auto simp: newLenCoder_def len_ok_def slots_ok_def nth_append kNumPosStatesMax_def kNumLowLenBits_def kNumMidLenBits_def kNumHighLenBits_def Let_def)

text \<open>A bit of the choice models.\<close>

lemma codes_choice:
  assumes "unat i < 2" "b = 0 \<or> b = 1"
  shows "codes 1 (len_ok n) (\<lambda>lc e. rbind (re_encode (choice lc) i b e) (\<lambda>(ch, e). Inr (lc\<lparr>choice := ch\<rparr>, e)))
    (\<lambda>lc d. rbind (decodeBit (choice lc) i d) (\<lambda>(v, ch, d). Inr (v, lc\<lparr>choice := ch\<rparr>, d))) b"
  by (rule codes_part [OF codes_bit [OF assms], where get = choice and put = "\<lambda>lc ch. lc\<lparr>choice := ch\<rparr>" and f = "\<lambda>v. v"])
    (auto simp: len_ok_def)

lemma codes_low:
  assumes "unat p < n" "unat s < 8"
  shows "codes 3 (len_ok n)
    (\<lambda>lc e. rbind (coderAt (lowCoder lc) p) (\<lambda>c. rbind (tree_encode c s e) (\<lambda>(c, e). Inr (lc\<lparr>lowCoder := (lowCoder lc)[unat p := Some c]\<rparr>, e))))
    (\<lambda>lc d. rbind (coderAt (lowCoder lc) p) (\<lambda>c. rbind (tree_decode c d) (\<lambda>(v, c, d). Inr (v, lc\<lparr>lowCoder := (lowCoder lc)[unat p := Some c]\<rparr>, d)))) s"
  by (rule codes_part [OF codes_tree_coder [of 3 s], where get = "\<lambda>lc. the (lowCoder lc ! unat p)" and
        put = "\<lambda>lc c. lc\<lparr>lowCoder := (lowCoder lc)[unat p := Some c]\<rparr>" and f = "\<lambda>v. v"])
    (use assms in \<open>auto simp: len_ok_def slots_at slots_put\<close>)

lemma codes_mid:
  assumes "unat p < n" "unat s < 8"
  shows "codes 3 (len_ok n)
    (\<lambda>lc e. rbind (coderAt (midCoder lc) p) (\<lambda>c. rbind (tree_encode c s e) (\<lambda>(c, e). Inr (lc\<lparr>midCoder := (midCoder lc)[unat p := Some c]\<rparr>, e))))
    (\<lambda>lc d. rbind (coderAt (midCoder lc) p) (\<lambda>c. rbind (tree_decode c d) (\<lambda>(v, c, d). Inr (kNumLowLenSymbols + v, lc\<lparr>midCoder := (midCoder lc)[unat p := Some c]\<rparr>, d))))
    (kNumLowLenSymbols + s)"
  by (rule codes_part [OF codes_tree_coder [of 3 s], where get = "\<lambda>lc. the (midCoder lc ! unat p)" and
        put = "\<lambda>lc c. lc\<lparr>midCoder := (midCoder lc)[unat p := Some c]\<rparr>" and f = "\<lambda>v. kNumLowLenSymbols + v"])
    (use assms in \<open>auto simp: len_ok_def slots_at slots_put\<close>)

lemma codes_high:
  assumes "unat s < 256"
  shows "codes 8 (len_ok n)
    (\<lambda>lc e. rbind (tree_encode (highCoder lc) s e) (\<lambda>(c, e). Inr (lc\<lparr>highCoder := c\<rparr>, e)))
    (\<lambda>lc d. rbind (tree_decode (highCoder lc) d) (\<lambda>(v, c, d). Inr (kNumLowLenSymbols + kNumMidLenSymbols + v, lc\<lparr>highCoder := c\<rparr>, d)))
    (kNumLowLenSymbols + kNumMidLenSymbols + s)"
  by (rule codes_part [OF codes_tree_coder [of 8 s], where get = highCoder and put = "\<lambda>lc c. lc\<lparr>highCoder := c\<rparr>" and
        f = "\<lambda>v. kNumLowLenSymbols + kNumMidLenSymbols + v"])
    (use assms in \<open>auto simp: len_ok_def\<close>)


lemma rbind_assoc: "rbind (rbind x f) g = rbind x (\<lambda>v. rbind (f v) g)"
  by (cases x) simp_all

lemma codes_mono:
  assumes "codes c ok enc dec v" "c \<le> c'"
  shows "codes c' ok enc dec v"
proof (rule codesI)
  fix m e k assume ok: "ok m" and e: "einv (k + c') e"
  have "einv ((k + (c' - c)) + c) e" using e assms(2) by simp
  from codesE [OF assms(1) ok this] obtain m' e' where s: "enc m e = Inr (m', e')" "ok m'" "einv (k + (c' - c)) e'"
    "\<And>F. covers e' F \<Longrightarrow> covers e F" "\<And>F d. covers e' F \<Longrightarrow> follows F e d \<Longrightarrow> \<exists>d'. dec m d = Inr (v, m', d') \<and> follows F e' d'" by metis
  moreover have "einv k e'" using s(3) by (simp add: einv_def)
  ultimately show "\<exists>m' e'. enc m e = Inr (m', e') \<and> ok m' \<and> einv k e' \<and> (\<forall>F. covers e' F \<longrightarrow> covers e F) \<and>
       (\<forall>F d. covers e' F \<longrightarrow> follows F e d \<longrightarrow> (\<exists>d'. dec m d = Inr (v, m', d') \<and> follows F e' d'))" by blast
qed

text \<open>The decoder of lengths after the first and after the second choice.\<close>

definition len_dec2 :: "u32 \<Rightarrow> u32 \<Rightarrow> lenCoder \<Rightarrow> rangeDecoder \<Rightarrow> (u32 \<times> lenCoder \<times> rangeDecoder) res" where
  "len_dec2 p j lc d =
     (if j = 0 then rbind (coderAt (midCoder lc) p) (\<lambda>c. rbind (tree_decode c d) (\<lambda>(v, c, d). Inr (kNumLowLenSymbols + v, lc\<lparr>midCoder := (midCoder lc)[unat p := Some c]\<rparr>, d)))
      else rbind (tree_decode (highCoder lc) d) (\<lambda>(v, c, d). Inr (kNumLowLenSymbols + kNumMidLenSymbols + v, lc\<lparr>highCoder := c\<rparr>, d)))"

definition len_dec1 :: "u32 \<Rightarrow> u32 \<Rightarrow> lenCoder \<Rightarrow> rangeDecoder \<Rightarrow> (u32 \<times> lenCoder \<times> rangeDecoder) res" where
  "len_dec1 p i lc d =
     (if i = 0 then rbind (coderAt (lowCoder lc) p) (\<lambda>c. rbind (tree_decode c d) (\<lambda>(v, c, d). Inr (v, lc\<lparr>lowCoder := (lowCoder lc)[unat p := Some c]\<rparr>, d)))
      else rbind (rbind (decodeBit (choice lc) 1 d) (\<lambda>(v, ch, d). Inr (v, lc\<lparr>choice := ch\<rparr>, d))) (\<lambda>(j, lc, d). len_dec2 p j lc d))"

lemma len_decode_eq:
  "len_decode p lc d = rbind (rbind (decodeBit (choice lc) 0 d) (\<lambda>(v, ch, d). Inr (v, lc\<lparr>choice := ch\<rparr>, d))) (\<lambda>(i, lc, d). len_dec1 p i lc d)"
  unfolding len_decode_def len_dec1_def len_dec2_def rbind_assoc Let_def
  by (simp add: case_prod_unfold cong: if_cong)

lemma codes_len_high:
  assumes p: "unat p < n" and s: "8 \<le> unat s" "unat s < 272"
  shows "codes 9 (len_ok n) (\<lambda>lc e. let s = s - kNumLowLenSymbols in
      if s < kNumMidLenSymbols then
        rbind (rbind (re_encode (choice lc) 1 0 e) (\<lambda>(ch, e). Inr (lc\<lparr>choice := ch\<rparr>, e)))
          (\<lambda>(lc, e). rbind (coderAt (midCoder lc) p) (\<lambda>c. rbind (tree_encode c s e) (\<lambda>(c, e). Inr (lc\<lparr>midCoder := (midCoder lc)[unat p := Some c]\<rparr>, e))))
      else
        rbind (rbind (re_encode (choice lc) 1 1 e) (\<lambda>(ch, e). Inr (lc\<lparr>choice := ch\<rparr>, e)))
          (\<lambda>(lc, e). rbind (tree_encode (highCoder lc) (s - kNumMidLenSymbols) e) (\<lambda>(c, e). Inr (lc\<lparr>highCoder := c\<rparr>, e))))
    (len_dec1 p 1) s"
proof -
  have u: "unat (s - kNumLowLenSymbols) = unat s - 8" using s(1) by (subst unat_sub) (simp_all add: kNumLowLenSymbols_def word_le_nat_alt)
  have d: "len_dec1 p 1 lc d = rbind (rbind (decodeBit (choice lc) 1 d) (\<lambda>(v, ch, d). Inr (v, lc\<lparr>choice := ch\<rparr>, d))) (\<lambda>(j, lc, d). len_dec2 p j lc d)" for lc d
    by (simp add: len_dec1_def)
  show ?thesis
  proof (cases "s - kNumLowLenSymbols < kNumMidLenSymbols")
    case True
    then have "unat (s - kNumLowLenSymbols) < 8" by (simp add: kNumMidLenSymbols_def word_less_nat_alt)
    from codes_mid [OF p this] have M: "codes 3 (len_ok n)
      (\<lambda>lc e. rbind (coderAt (midCoder lc) p) (\<lambda>c. rbind (tree_encode c (s - kNumLowLenSymbols) e) (\<lambda>(c, e). Inr (lc\<lparr>midCoder := (midCoder lc)[unat p := Some c]\<rparr>, e))))
      (len_dec2 p 0) s" by (simp add: len_dec2_def [abs_def])
    show ?thesis by (rule codes_mono [OF codes_bind [where ?dec2.0 = "len_dec2 p", OF codes_choice [of 1 0] M refl]]) (simp_all add: d True)
  next
    case False
    then have "8 \<le> unat (s - kNumLowLenSymbols)" by (simp add: kNumMidLenSymbols_def word_less_nat_alt)
    then have u2: "unat (s - kNumLowLenSymbols - kNumMidLenSymbols) = unat s - 16"
      using u by (subst unat_sub) (simp_all add: kNumMidLenSymbols_def word_le_nat_alt)
    then have "unat (s - kNumLowLenSymbols - kNumMidLenSymbols) < 256" using s(2) by simp
    from codes_high [OF this] have H: "codes 8 (len_ok n)
      (\<lambda>lc e. rbind (tree_encode (highCoder lc) (s - kNumLowLenSymbols - kNumMidLenSymbols) e) (\<lambda>(c, e). Inr (lc\<lparr>highCoder := c\<rparr>, e)))
      (len_dec2 p 1) s" by (simp add: len_dec2_def [abs_def])
    show ?thesis by (rule codes_mono [OF codes_bind [where ?dec2.0 = "len_dec2 p", OF codes_choice [of 1 1] H refl]]) (simp_all add: d False)
  qed
qed

lemma codes_len:
  assumes p: "unat p < n" and s: "unat s < 272"
  shows "codes 10 (len_ok n) (\<lambda>lc e. len_encode p s lc e) (\<lambda>lc d. len_decode p lc d) s"
proof (cases "s < kNumLowLenSymbols")
  case True
  then have "unat s < 8" by (simp add: kNumLowLenSymbols_def word_less_nat_alt)
  from codes_low [OF p this] have L: "codes 3 (len_ok n)
    (\<lambda>lc e. rbind (coderAt (lowCoder lc) p) (\<lambda>c. rbind (tree_encode c s e) (\<lambda>(c, e). Inr (lc\<lparr>lowCoder := (lowCoder lc)[unat p := Some c]\<rparr>, e))))
    (len_dec1 p 0) s" by (simp add: len_dec1_def [abs_def])
  show ?thesis by (rule codes_mono [OF codes_bind [where ?dec2.0 = "len_dec1 p", OF codes_choice [of 0 0] L refl]])
    (simp_all add: len_decode_eq len_encode_def True rbind_assoc case_prod_unfold Let_def)
next
  case False
  then have "8 \<le> unat s" by (simp add: kNumLowLenSymbols_def word_less_nat_alt)
  note H = codes_len_high [OF p this s]
  show ?thesis by (rule codes_bind [where ?dec2.0 = "len_dec1 p", OF codes_choice [of 0 1] H])
    (simp_all add: len_decode_eq len_encode_def False rbind_assoc case_prod_unfold Let_def cong: if_cong)
qed

section \<open>Literals\<close>

lemma litEncodeLoop_tree: "litEncodeLoop k s m ps e = treeEncodeLoop k m s ps e"
  by (induction k arbitrary: m ps e) (simp_all only: litEncodeLoop.simps treeEncodeLoop.simps Let_def case_prod_unfold)

lemma litMatchedLoop_tree: "litMatchedLoop k mb s m False ps e = treeEncodeLoop k m s ps e"
  by (induction k arbitrary: m ps e) (simp_all only: litMatchedLoop.simps treeEncodeLoop.simps Let_def if_False case_prod_unfold)

lemma decodeBit_bit: "decodeBit ps i d = Inr (v, ps', d') \<Longrightarrow> v = 0 \<or> v = 1"
  by (auto simp: decodeBit_def rbind_def Let_def split: if_splits sum.splits)

lemma litLoop_tree:
  assumes "k \<le> 8" "2 ^ (8 - k) \<le> unat m" "unat m < 2 ^ (9 - k)"
  shows "litLoop m ps d = Some (treeDecodeLoop k m ps d)"
  using assms
proof (induction k arbitrary: m ps d)
  case 0
  then have "\<not> m < 0x100" by (simp add: word_less_nat_alt)
  then show ?case by (simp add: litLoop.simps)
next
  case (Suc k)
  have "(2 :: nat) ^ (8 - k) \<le> 2 ^ 8" by (intro power_increasing) auto
  then have m: "unat m < 256" using Suc.prems(3) by simp
  then have lt: "m < 0x100" by (simp add: word_less_nat_alt)
  show ?case
  proof (cases "decodeBit ps m d")
    case (Inl e)
    then show ?thesis using lt by (simp add: litLoop.simps)
  next
    case (Inr r)
    obtain v ps' d' where r: "r = (v, ps', d')" by (cases r) auto
    have v: "v = 0 \<or> v = 1" using decodeBit_bit Inr r by blast
    have m31: "unat m < 2 ^ 31" using m by simp
    note pm = push1 [OF m31 v]
    have "8 - k = Suc (8 - Suc k)" "9 - k = Suc (9 - Suc k)" using Suc.prems(1) by auto
    then have "2 ^ (8 - k) \<le> unat (push_bit 1 m + v)" "unat (push_bit 1 m + v) < 2 ^ (9 - k)"
      using Suc.prems(2,3) v unfolding pm(2) by auto
    then have "litLoop (push_bit 1 m + v) ps' d' = Some (treeDecodeLoop k (push_bit 1 m + v) ps' d')" by (intro Suc.IH) (use Suc.prems(1) in auto)
    then show ?thesis using lt Inr r pm(1) unfolding litLoop.simps [of m] by simp
  qed
qed

text \<open>A loop of the code that returns.\<close>

definition returned :: "'a res option \<Rightarrow> 'a res" where
  "returned x = (case x of None \<Rightarrow> Inl (Err ''no result'') | Some r \<Rightarrow> r)"

lemma returned_Some [simp]: "returned (Some r) = r"
  by (simp add: returned_def)

lemma returned_Inr: "returned x = Inr v \<longleftrightarrow> x = Some (Inr v)"
  by (auto simp: returned_def split: option.splits)

lemma matchBit:
  assumes "k < 8"
  shows "drop_bit 7 (push_bit (7 - k) (mb :: u32)) AND 1 = drop_bit k mb AND 1"
proof -
  have "bit (push_bit (7 - k) mb) 7 = bit mb k" using assms by (auto simp: bit_simps)
  moreover have "x AND 1 = of_bool (bit x 0)" for x :: u32 by (simp add: and_one_eq mod_2_eq_odd bit_0)
  ultimately show ?thesis by (simp add: bit_drop_bit_eq)
qed

lemma codes_matched:
  assumes "k \<le> 8" "2 ^ (8 - k) \<le> unat m" "unat m < 2 ^ (9 - k)"
  shows "codes k (probs_ok 0x300) (\<lambda>ps e. litMatchedLoop k mb s m True ps e) (\<lambda>ps d. returned (litMatchLoop (push_bit (8 - k) mb) m ps d))
    (of_nat (unat m * 2 ^ k + unat s mod 2 ^ k))"
  using assms
proof (induction k arbitrary: m)
  case 0
  then have "\<not> m < 0x100" by (simp add: word_less_nat_alt)
  then show ?case by (intro codes_return) (simp_all add: litMatchLoop.simps)
next
  case (Suc k)
  have "(2 :: nat) ^ (8 - k) \<le> 2 ^ 8" by (intro power_increasing) auto
  then have m: "unat m < 256" using Suc.prems(3) by simp
  then have lt: "m < 0x100" by (simp add: word_less_nat_alt)
  define b where "b = drop_bit k s AND 1"
  define c where "c = drop_bit k mb AND 1"
  note lb = lowbit [of k s, folded b_def] and lc = lowbit [of k mb, folded c_def]
  have m31: "unat m < 2 ^ 31" using m by simp
  note pm = push1 [OF m31 lb(1)]
  let ?m = "push_bit 1 m + b" and ?i = "m + push_bit 8 (1 + c)" and ?v = "of_nat (unat (push_bit 1 m + b) * 2 ^ k + unat s mod 2 ^ k) :: u32"
  have "8 - k = Suc (8 - Suc k)" "9 - k = Suc (9 - Suc k)" using Suc.prems(1) by auto
  then have m': "2 ^ (8 - k) \<le> unat ?m" "unat ?m < 2 ^ (9 - k)" using Suc.prems(2,3) lb(1) unfolding pm(2) by auto
  have "unat (push_bit 8 (1 + c)) \<le> 512" unfolding unsigned_push_bit_eq using lc(1) by (auto simp: push_bit_eq_mult take_bit_eq_mod)
  then have i: "unat ?i < 0x300" using m by (simp add: unat_word_ariths)
  have mbit: "drop_bit 7 (push_bit (8 - Suc k) mb) AND 1 = c" "push_bit 1 (push_bit (8 - Suc k) mb) = push_bit (8 - k) mb"
  proof -
    show "drop_bit 7 (push_bit (8 - Suc k) mb) AND 1 = c" using matchBit [of k mb] Suc.prems(1) by (simp add: c_def)
    have "1 + (8 - Suc k) = 8 - k" using Suc.prems(1) by simp
    then show "push_bit 1 (push_bit (8 - Suc k) mb) = push_bit (8 - k) mb" by (simp only: push_bit_push_bit)
  qed
  let ?dec = "\<lambda>v ps d. returned (if c \<noteq> v then litLoop (push_bit 1 m OR v) ps d else litMatchLoop (push_bit (8 - k) mb) (push_bit 1 m OR v) ps d)"
  have C: "codes k (probs_ok 0x300) (\<lambda>ps e. litMatchedLoop k mb s ?m (c = b) ps e) (?dec b) ?v"
  proof (cases "c = b")
    case True
    then show ?thesis using Suc.IH [OF _ m'] Suc.prems(1) pm(1) by simp
  next
    case False
    have T: "codes k (probs_ok 0x300) (\<lambda>ps e. treeEncodeLoop k ?m s ps e) (\<lambda>ps d. treeDecodeLoop k ?m ps d) ?v"
    proof (rule codes_tree)
      have "(unat ?m + 1) * 2 ^ j \<le> 2 ^ (9 - k) * 2 ^ j" for j using m'(2) by (intro mult_le_mono1) simp
      then have *: "(unat ?m + 1) * 2 ^ j \<le> 2 ^ (9 - k + j)" for j by (simp add: power_add)
      show "(unat ?m + 1) * 2 ^ (k - 1) \<le> 0x300" if "0 < k"
        using * [of "k - 1"] that Suc.prems(1) by (simp add: order_trans)
      show "(unat ?m + 1) * 2 ^ k \<le> 2 ^ 32" using * [of k] Suc.prems(1) by (simp add: order_trans)
    qed
    have "litLoop ?m ps d = Some (treeDecodeLoop k ?m ps d)" for ps d by (rule litLoop_tree) (use Suc.prems(1) m' in auto)
    then show ?thesis using T False pm(1) by (simp add: litMatchedLoop_tree)
  qed
  have "codes (Suc k) (probs_ok 0x300) (\<lambda>ps e. litMatchedLoop (Suc k) mb s m True ps e)
      (\<lambda>ps d. returned (litMatchLoop (push_bit (8 - Suc k) mb) m ps d)) ?v"
  proof (rule codes_bind [where ?dec2.0 = ?dec, OF codes_bit [OF i lb(1)] C])
    show "litMatchedLoop (Suc k) mb s m True ps e = rbind (re_encode ps ?i b e) (\<lambda>(ps, e). litMatchedLoop k mb s ?m (c = b) ps e)" for ps e
      by (simp only: litMatchedLoop.simps Let_def b_def [symmetric] c_def [symmetric] pm(1) if_True)
    show "returned (litMatchLoop (push_bit (8 - Suc k) mb) m ps d) = rbind (decodeBit ps ?i d) (\<lambda>(v, ps, d). ?dec v ps d)" for ps d
      unfolding litMatchLoop.simps [of _ m] if_P [OF lt] Let_def mbit add.commute [of "push_bit 8 (1 + c)" m]
      by (simp add: rbind_def returned_def split: sum.splits)
  qed simp
  moreover have "unat ?m * 2 ^ k + unat s mod 2 ^ k = unat m * 2 ^ Suc k + unat s mod 2 ^ Suc k"
    unfolding pm(2) lb(2) mod_pow_Suc by (simp add: algebra_simps)
  ultimately show ?case by (simp only:)
qed

section \<open>Streams\<close>

text \<open>The contract of the range coder's locale holds for single bits with adaptive probabilities, for bit trees and for lengths.\<close>

definition bit_valid :: "nat \<Rightarrow> u32 \<Rightarrow> u32 \<Rightarrow> bool" where
  "bit_valid n i b \<longleftrightarrow> unat i < n \<and> (b = 0 \<or> b = 1)"

interpretation bits: range_codec "probs_ok n" "\<lambda>i b ps e. re_encode ps i b e" "\<lambda>i ps d. decodeBit ps i d" "bit_valid n" "\<lambda>i. 1" for n
  by unfold_locales (auto simp only: bit_valid_def intro: codes_bit)

interpretation trees: range_codec "tree_ok (Suc L)" "\<lambda>rev s c e. if rev then tree_reverseEncode c s e else tree_encode c s e"
    "\<lambda>rev c d. if rev then tree_reverseDecode c d else tree_decode c d" "\<lambda>rev s. L < 31 \<and> unat s < 2 ^ Suc L" "\<lambda>rev. Suc L" for L
proof unfold_locales
  fix rev :: bool and s :: u32 assume "L < 31 \<and> unat s < 2 ^ Suc L"
  then show "codes (Suc L) (tree_ok (Suc L)) (\<lambda>c e. if rev then tree_reverseEncode c s e else tree_encode c s e)
      (\<lambda>c d. if rev then tree_reverseDecode c d else tree_decode c d) s"
    using codes_tree_coder [of "Suc L" s] codes_reverse_coder [of "Suc L" s] by (cases rev) simp_all
qed

interpretation lens: range_codec "len_ok n" "\<lambda>p s lc e. len_encode p s lc e" "\<lambda>p lc d. len_decode p lc d" "\<lambda>p s. unat p < n \<and> unat s < 272" "\<lambda>p. 10" for n
  by unfold_locales (simp add: codes_len)

text \<open>
  C7. The range coder is lossless: any sequence of bits, each encoded with one of the adaptive probabilities of a table,
  then flushed, is read back bit by bit by a new decoder that starts from the same table, carries in the low bytes
  included; and both sides end with the same probabilities.
\<close>

theorem range_coder_roundtrip:
  assumes "\<forall>(i, b) \<in> set bits. bit_valid (unat n) i b" "length bits + 6 < 2 ^ 32"
  shows "\<exists>ps e f d d'. encodeAll (\<lambda>i b ps e. re_encode ps i b e) bits (initBitModels n) (newRangeEncoder None) = Inr (ps, e) \<and>
    re_flush None e = Inr f \<and> newRangeDecoder (re_out f) = Inr d \<and>
    decodeAll (\<lambda>i ps d. decodeBit ps i d) (map fst bits) (initBitModels n) d = Inr (map snd bits, ps, d')"
proof -
  have "sum_list (map ((\<lambda>i. 1) \<circ> fst) bits) = length bits" by (induction bits) simp_all
  then show ?thesis using bits.stream_roundtrip [OF assms(1) init_probs] assms(2) by simp
qed

lemma range_coder_roundtrip_witness:
  "\<exists>ps e f d d'. encodeAll (\<lambda>i b ps e. re_encode ps i b e) [(0, 1), (1, 0), (0, 1), (0, 0)] (initBitModels 2) (newRangeEncoder None) = Inr (ps, e) \<and>
    re_flush None e = Inr f \<and> newRangeDecoder (re_out f) = Inr d \<and> decodeAll (\<lambda>i ps d. decodeBit ps i d) [0, 1, 0, 0] (initBitModels 2) d = Inr ([1, 0, 1, 0], ps, d')"
  using range_coder_roundtrip [of "[(0, 1), (1, 0), (0, 1), (0, 0)]" 2] by (simp add: bit_valid_def)

end
