(* ===== verification/Lzma_Safety.thy ===== *)
theory Lzma_Safety
  imports Lzma_Decoder Lzma_Coders_Props
begin

text \<open>
  The decoder on any input: it returns, and what goes wrong is an error it reports, never a run-time panic. The argument
  is a calculus of decoding steps that keep the models well formed and use up the input.
\<close>

section \<open>Decoding steps\<close>

text \<open>
  A step uses up \<open>dmeas\<close>: a byte of the input weighs more than any range. \<open>safe c ok P dec\<close>: on well-formed models,
  \<open>dec\<close> reports an error or gives a value with \<open>P\<close>, well-formed models and a measure that is smaller by \<open>c\<close>.
\<close>

definition dmeas :: "rangeDecoder \<Rightarrow> nat" where
  "dmeas d = length (rd_in d) * 2 ^ 32 + unat (rd_range d)"

definition dok :: "rangeDecoder \<Rightarrow> bool" where
  "dok d \<longleftrightarrow> 2 ^ 24 \<le> unat (rd_range d)"

definition benign :: "go_error \<Rightarrow> bool" where
  "benign e \<longleftrightarrow> (\<exists>s. e = Err s)"

lemma benign_Err [simp]: "benign (Err s)"
  by (simp add: benign_def)

definition safe :: "nat \<Rightarrow> ('m \<Rightarrow> bool) \<Rightarrow> ('v \<Rightarrow> bool) \<Rightarrow> ('m \<Rightarrow> rangeDecoder \<Rightarrow> ('v \<times> 'm \<times> rangeDecoder) res) \<Rightarrow> bool" where
  "safe c ok P dec \<longleftrightarrow> (\<forall>m d. ok m \<longrightarrow> dok d \<longrightarrow>
     (case dec m d of Inl e \<Rightarrow> benign e | Inr (v, m', d') \<Rightarrow> P v \<and> ok m' \<and> dok d' \<and> dmeas d' + c \<le> dmeas d))"

lemma safeI:
  assumes "\<And>m d. ok m \<Longrightarrow> dok d \<Longrightarrow>
    (\<exists>e. dec m d = Inl e \<and> benign e) \<or> (\<exists>v m' d'. dec m d = Inr (v, m', d') \<and> P v \<and> ok m' \<and> dok d' \<and> dmeas d' + c \<le> dmeas d)"
  shows "safe c ok P dec"
  unfolding safe_def
proof (intro allI impI)
  fix m d assume "ok m" "dok d"
  from assms [OF this] show "case dec m d of Inl e \<Rightarrow> benign e | Inr (v, m', d') \<Rightarrow> P v \<and> ok m' \<and> dok d' \<and> dmeas d' + c \<le> dmeas d" by auto
qed

lemma safeE:
  assumes "safe c ok P dec" "ok m" "dok d"
  obtains e where "dec m d = Inl e" "benign e"
  | v m' d' where "dec m d = Inr (v, m', d')" "P v" "ok m'" "dok d'" "dmeas d' + c \<le> dmeas d"
proof -
  have "case dec m d of Inl e \<Rightarrow> benign e | Inr (v, m', d') \<Rightarrow> P v \<and> ok m' \<and> dok d' \<and> dmeas d' + c \<le> dmeas d" using assms by (simp add: safe_def)
  then show ?thesis using that by (cases "dec m d") auto
qed

lemma safe_bind:
  assumes 1: "safe c1 ok P dec1" and 2: "\<And>v. P v \<Longrightarrow> safe c2 ok Q (dec2 v)" and c: "c \<le> c1 + c2"
    and dec: "\<And>m d. ok m \<Longrightarrow> dec m d = rbind (dec1 m d) (\<lambda>(v, m, d). dec2 v m d)"
  shows "safe c ok Q dec"
proof (rule safeI)
  fix m d assume ok: "ok m" "dok d"
  show "(\<exists>e. dec m d = Inl e \<and> benign e) \<or> (\<exists>v m' d'. dec m d = Inr (v, m', d') \<and> Q v \<and> ok m' \<and> dok d' \<and> dmeas d' + c \<le> dmeas d)"
  proof (rule safeE [OF 1 ok])
    fix v m' d' assume 3: "dec1 m d = Inr (v, m', d')" "P v" "ok m'" "dok d'" "dmeas d' + c1 \<le> dmeas d"
    show ?thesis by (rule safeE [OF 2 [OF 3(2)] 3(3,4)]) (use 3 c in \<open>simp_all add: dec [OF ok(1)]\<close>)
  qed (simp add: dec [OF ok(1)])
qed

lemma safe_return:
  assumes "\<And>m d. ok m \<Longrightarrow> dec m d = Inr (v, m, d)" "P v"
  shows "safe 0 ok P dec"
  by (rule safeI) (simp add: assms)

lemma safe_part:
  assumes 1: "safe c ok1 P dec1"
    and part: "\<And>m. ok m \<Longrightarrow> ok1 (get m)" "\<And>m x. ok m \<Longrightarrow> ok1 x \<Longrightarrow> ok (put m x)"
    and dec: "\<And>m d. ok m \<Longrightarrow> dec m d = rbind (dec1 (get m) d) (\<lambda>(v, x, d). Inr (f v, put m x, d))"
    and Q: "\<And>v. P v \<Longrightarrow> Q (f v)"
  shows "safe c ok Q dec"
proof (rule safeI)
  fix m d assume ok: "ok m" "dok d"
  show "(\<exists>e. dec m d = Inl e \<and> benign e) \<or> (\<exists>v m' d'. dec m d = Inr (v, m', d') \<and> Q v \<and> ok m' \<and> dok d' \<and> dmeas d' + c \<le> dmeas d)"
    by (rule safeE [OF 1 part(1) [OF ok(1)] ok(2)]) (use ok(1) part(2) Q in \<open>simp_all add: dec\<close>)
qed

lemma safe_mono: "safe c ok P dec \<Longrightarrow> (\<And>v. P v \<Longrightarrow> Q v) \<Longrightarrow> c' \<le> c \<Longrightarrow> safe c' ok Q dec"
proof (rule safeI)
  fix m d assume 1: "safe c ok P dec" "\<And>v. P v \<Longrightarrow> Q v" "c' \<le> c" and ok: "ok m" "dok d"
  show "(\<exists>e. dec m d = Inl e \<and> benign e) \<or> (\<exists>v m' d'. dec m d = Inr (v, m', d') \<and> Q v \<and> ok m' \<and> dok d' \<and> dmeas d' + c' \<le> dmeas d)"
    by (rule safeE [OF 1(1) ok]) (use 1(2,3) in auto)
qed

section \<open>The range decoder\<close>

lemma fill_safe:
  assumes "2 ^ 16 \<le> unat (rd_range d)"
  shows "(\<exists>e. rd_fill d = Inl e \<and> benign e) \<or> (\<exists>d'. rd_fill d = Inr d' \<and> dok d' \<and> dmeas d' \<le> dmeas d)"
proof (cases "rd_range d < kTopValue")
  case False
  then show ?thesis by (simp add: rd_fill_def dok_def kTopValue_def word_less_nat_alt)
next
  case True
  then have "unat (rd_range d) < 2 ^ 24" by (simp add: kTopValue_def word_less_nat_alt)
  then have "unat (push_bit 8 (rd_range d)) = unat (rd_range d) * 256"
    unfolding unsigned_push_bit_eq by (simp add: push_bit_eq_mult take_bit_eq_mod)
  then show ?thesis using True assms \<open>unat (rd_range d) < 2 ^ 24\<close>
    by (cases "rd_in d") (simp_all add: rd_fill_def dok_def dmeas_def)
qed

lemma fill_then:
  assumes "2 ^ 16 \<le> unat (rd_range d0)" "dmeas d0 + c \<le> dmeas d" "ok m'" "P v"
  shows "(\<exists>e. rbind (rd_fill d0) (\<lambda>d. Inr (v, m', d)) = Inl e \<and> benign e) \<or>
    (\<exists>w n d'. rbind (rd_fill d0) (\<lambda>d. Inr (v, m', d)) = Inr (w, n, d') \<and> P w \<and> ok n \<and> dok d' \<and> dmeas d' + c \<le> dmeas d)"
  using fill_safe [OF assms(1)]
proof
  assume "\<exists>d'. rd_fill d0 = Inr d' \<and> dok d' \<and> dmeas d' \<le> dmeas d0"
  then show ?thesis using assms(2-4) by auto
qed auto

lemma safe_bit:
  assumes i: "unat i < n"
  shows "safe 1 (probs_ok n) (\<lambda>v. v = 0 \<or> v = 1) (\<lambda>ps d. decodeBit ps i d)"
proof (rule safeI)
  fix ps d assume ps: "probs_ok n ps" and d: "dok d"
  define p where "p = ps ! unat i"
  define B where "B = drop_bit kNumBitModelTotalBits (rd_range d) * ucast p"
  have p: "prob_ok p" using ps i by (auto simp: probs_ok_def p_def)
  have b: "2 ^ 16 \<le> unat B" "unat B + 2 ^ 16 \<le> unat (rd_range d)" using bound_spec [OF _ p] d by (simp_all add: dok_def B_def)
  have u: "unat (rd_range d - B) = unat (rd_range d) - unat B" using b by (subst unat_sub) (simp_all add: word_le_nat_alt)
  have up: "probs_ok n (ps[unat i := p + drop_bit kNumMoveBits (kBitModelTotal - p)])" "probs_ok n (ps[unat i := p - drop_bit kNumMoveBits p])"
    using ps prob_update [OF p] by (auto intro: probs_ok_update)
  have eq: "decodeBit ps i d = (if rd_code d < B then rbind (rd_fill (d\<lparr>rd_range := B\<rparr>)) (\<lambda>d. Inr (0, ps[unat i := p + drop_bit kNumMoveBits (kBitModelTotal - p)], d))
      else rbind (rd_fill (d\<lparr>rd_range := rd_range d - B, rd_code := rd_code d - B\<rparr>)) (\<lambda>d. Inr (1, ps[unat i := p - drop_bit kNumMoveBits p], d)))"
    using ps i by (simp add: decodeBit_def probs_ok_def p_def B_def Let_def)
  show "(\<exists>e. decodeBit ps i d = Inl e \<and> benign e) \<or>
      (\<exists>v m' d'. decodeBit ps i d = Inr (v, m', d') \<and> (v = 0 \<or> v = 1) \<and> probs_ok n m' \<and> dok d' \<and> dmeas d' + 1 \<le> dmeas d)"
  proof (cases "rd_code d < B")
    case True
    show ?thesis unfolding eq if_P [OF True] by (rule fill_then) (use b up in \<open>simp_all add: dmeas_def\<close>)
  next
    case False
    show ?thesis unfolding eq if_not_P [OF False] by (rule fill_then) (use b u up in \<open>simp_all add: dmeas_def\<close>)
  qed
qed

lemma safe_tree:
  assumes "0 < k \<Longrightarrow> (unat m + 1) * 2 ^ (k - 1) \<le> n" "(unat m + 1) * 2 ^ k \<le> 2 ^ 32"
  shows "safe 0 (probs_ok n) (\<lambda>v. unat m * 2 ^ k \<le> unat v \<and> unat v < (unat m + 1) * 2 ^ k) (\<lambda>ms d. treeDecodeLoop k m ms d)"
  using assms
proof (induction k arbitrary: m)
  case 0
  show ?case by (rule safe_return [where v = m]) auto
next
  case (Suc k)
  have p: "(1 :: nat) \<le> 2 ^ k" by simp
  have "(unat m + 1) * 2 \<le> 2 ^ 32" using Suc.prems(2) mult_le_mono [OF le_refl, of 2 "2 ^ Suc k" "unat m + 1"] by simp
  then have m31: "unat m < 2 ^ 31" by simp
  have i: "unat m < n" using Suc.prems(1) mult_le_mono [OF le_refl p, of "unat m + 1"] by simp
  show ?case
  proof (rule safe_bind [where ?dec2.0 = "\<lambda>v ms d. treeDecodeLoop k (push_bit 1 m + v) ms d", OF safe_bit [OF i]])
    fix v :: u32 assume v: "v = 0 \<or> v = 1"
    note pm = push1 [OF m31 v]
    have le: "unat (push_bit 1 m + v) + 1 \<le> 2 * (unat m + 1)" "2 * unat m \<le> unat (push_bit 1 m + v)" using v unfolding pm(2) by auto
    have n: "(unat (push_bit 1 m + v) + 1) * 2 ^ (k - 1) \<le> n" if "0 < k"
    proof -
      have "(unat (push_bit 1 m + v) + 1) * 2 ^ (k - 1) \<le> 2 * (unat m + 1) * 2 ^ (k - 1)" by (rule mult_le_mono1 [OF le(1)])
      also have "\<dots> = (unat m + 1) * 2 ^ k" using that by (cases k) auto
      finally show ?thesis using Suc.prems(1) by simp
    qed
    have b: "(unat (push_bit 1 m + v) + 1) * 2 ^ k \<le> (unat m + 1) * 2 ^ Suc k" "unat m * 2 ^ Suc k \<le> unat (push_bit 1 m + v) * 2 ^ k"
      using mult_le_mono1 [OF le(1), of "2 ^ k"] mult_le_mono1 [OF le(2), of "2 ^ k"] by (simp_all add: algebra_simps)
    show "safe 0 (probs_ok n) (\<lambda>v. unat m * 2 ^ Suc k \<le> unat v \<and> unat v < (unat m + 1) * 2 ^ Suc k) (\<lambda>ms d. treeDecodeLoop k (push_bit 1 m + v) ms d)"
    proof (rule safe_mono [OF Suc.IH [OF n order_trans [OF b(1) Suc.prems(2)]]])
      show "unat m * 2 ^ Suc k \<le> unat w \<and> unat w < (unat m + 1) * 2 ^ Suc k"
        if "unat (push_bit 1 m + v) * 2 ^ k \<le> unat w \<and> unat w < (unat (push_bit 1 m + v) + 1) * 2 ^ k" for w :: u32
        using that order_trans [OF b(2)] order_less_le_trans [OF _ b(1)] by blast
    qed simp_all
  qed simp_all
qed

lemma safe_reverse:
  assumes "\<And>x. unat m \<le> x \<Longrightarrow> x < (unat m + 1) * 2 ^ (k - 1) \<Longrightarrow> 0 < k \<Longrightarrow> unat (st + of_nat x) < n" "(unat m + 1) * 2 ^ k \<le> 2 ^ 32"
  shows "safe 0 (probs_ok n) (\<lambda>v. True) (\<lambda>ms d. reverseDecodeLoop k i st m r ms d)"
  using assms
proof (induction k arbitrary: m i r)
  case 0
  then show ?case by (intro safe_return) simp_all
next
  case (Suc k)
  have p: "(1 :: nat) \<le> 2 ^ k" by simp
  have "(unat m + 1) * 2 \<le> 2 ^ 32" using Suc.prems(2) mult_le_mono [OF le_refl, of 2 "2 ^ Suc k" "unat m + 1"] by simp
  then have m31: "unat m < 2 ^ 31" by simp
  have i: "unat (st + m) < n" using Suc.prems(1) [of "unat m"] mult_le_mono [OF le_refl p, of "unat m + 1"] by simp
  show ?case
  proof (rule safe_bind [where ?dec2.0 = "\<lambda>v ms d. reverseDecodeLoop k (Suc i) st (push_bit 1 m + v) (r OR push_bit i v) ms d", OF safe_bit [OF i]])
    fix v :: u32 assume v: "v = 0 \<or> v = 1"
    note pm = push1 [OF m31 v]
    have le: "unat (push_bit 1 m + v) + 1 \<le> 2 * (unat m + 1)" "unat m \<le> unat (push_bit 1 m + v)" using v unfolding pm(2) by auto
    show "safe 0 (probs_ok n) (\<lambda>v. True) (\<lambda>ms d. reverseDecodeLoop k (Suc i) st (push_bit 1 m + v) (r OR push_bit i v) ms d)"
    proof (rule Suc.IH)
      show "(unat (push_bit 1 m + v) + 1) * 2 ^ k \<le> 2 ^ 32"
        using mult_le_mono1 [OF le(1), of "2 ^ k"] Suc.prems(2) by (simp add: algebra_simps)
      fix x assume x: "unat (push_bit 1 m + v) \<le> x" "x < (unat (push_bit 1 m + v) + 1) * 2 ^ (k - 1)" "0 < k"
      have "(unat (push_bit 1 m + v) + 1) * 2 ^ (k - 1) \<le> 2 * (unat m + 1) * 2 ^ (k - 1)" by (rule mult_le_mono1 [OF le(1)])
      also have "\<dots> = (unat m + 1) * 2 ^ k" using x(3) by (cases k) auto
      finally show "unat (st + of_nat x) < n" using Suc.prems(1) [of x] x le by simp
    qed
  qed simp_all
qed

lemma direct_safe: "dok d \<Longrightarrow> (\<exists>e. decodeDirectLoop k r d = Inl e \<and> benign e) \<or> (\<exists>v d'. decodeDirectLoop k r d = Inr (v, d') \<and> dok d' \<and> dmeas d' \<le> dmeas d)"
proof (induction k arbitrary: r d)
  case (Suc k)
  define h where "h = drop_bit 1 (rd_range d)"
  have h: "unat h = unat (rd_range d) div 2" unfolding h_def unsigned_drop_bit_eq using unat32 [of "rd_range d"] by (simp add: drop_bit_eq_div take_bit_eq_mod)
  let ?d = "\<lambda>c. d\<lparr>rd_range := h, rd_code := c\<rparr>"
  have *: "2 ^ 16 \<le> unat (rd_range (?d c))" "dmeas (?d c) \<le> dmeas d" for c using Suc.prems by (simp_all add: dok_def dmeas_def h)
  define c where "c = rd_code d - (h AND (drop_bit 31 (rd_code d - h) - 1))"
  have eq: "decodeDirectLoop (Suc k) r d = rbind (rd_fill (?d c)) (decodeDirectLoop k (push_bit 1 r OR (1 - drop_bit 31 (rd_code d - h))))"
    by (simp only: decodeDirectLoop.simps Let_def h_def c_def)
  from fill_safe [OF *(1), of c] show ?case
  proof
    assume "\<exists>d'. rd_fill (?d c) = Inr d' \<and> dok d' \<and> dmeas d' \<le> dmeas (?d c)"
    then obtain d' where d': "rd_fill (?d c) = Inr d'" "dok d'" "dmeas d' \<le> dmeas d" using *(2) [of c] by (meson order_trans)
    show ?thesis unfolding eq d'(1) rbind_simps using Suc.IH [OF d'(2)] d'(3) by (meson order_trans)
  next
    assume "\<exists>e. rd_fill (?d c) = Inl e \<and> benign e"
    then show ?thesis unfolding eq by auto
  qed
qed simp

section \<open>The coders\<close>

lemma safe_tree_coder:
  assumes "0 < L" "L < 32"
  shows "safe 0 (tree_ok L) (\<lambda>v. unat v < 2 ^ L) (\<lambda>c d. tree_decode c d)"
proof -
  have le: "(2 :: nat) ^ Suc L \<le> 2 ^ 32" using assms(2) by (intro power_increasing) auto
  have 1: "safe 0 (probs_ok (2 ^ L)) (\<lambda>v. unat (1 :: u32) * 2 ^ L \<le> unat v \<and> unat v < (unat (1 :: u32) + 1) * 2 ^ L) (\<lambda>ms d. treeDecodeLoop L 1 ms d)"
    by (rule safe_tree) (use assms(1) le in \<open>cases L; simp\<close>)+
  show ?thesis
  proof (rule safe_part [OF 1, where get = models and put = "\<lambda>c ms. c\<lparr>models := ms\<rparr>" and f = "\<lambda>r. r - push_bit L 1"])
    fix v :: u32 assume v: "unat (1 :: u32) * 2 ^ L \<le> unat v \<and> unat v < (unat (1 :: u32) + 1) * 2 ^ L"
    then have "push_bit L 1 \<le> v" unfolding word_le_nat_alt unat_pow [OF assms(2)] by simp
    then have "unat (v - push_bit L 1) = unat v - 2 ^ L" by (simp only: unat_sub unat_pow [OF assms(2)])
    then show "unat (v - push_bit L 1) < 2 ^ L" using v by (simp only:) (auto simp: less_diff_conv2)
  qed (auto simp: tree_ok_def tree_decode_def)
qed

lemma safe_reverse_coder:
  assumes "0 < L" "L < 32"
  shows "safe 0 (tree_ok L) (\<lambda>v. True) (\<lambda>c d. tree_reverseDecode c d)"
proof -
  have le: "(2 :: nat) ^ Suc L \<le> 2 ^ 32" using assms(2) by (intro power_increasing) auto
  have 1: "safe 0 (probs_ok (2 ^ L)) (\<lambda>v. True) (\<lambda>ms d. reverseDecodeLoop L 0 0 1 0 ms d)"
  proof (rule safe_reverse)
    show "unat (0 + of_nat x :: u32) < 2 ^ L" if "x < (unat (1 :: u32) + 1) * 2 ^ (L - 1)" "0 < L" for x
    proof -
      have "x < 2 ^ L" using that by (cases L) auto
      then show ?thesis using le by (simp add: unat_of_nat)
    qed
  qed (use le in simp)
  show ?thesis by (rule safe_part [OF 1, where get = models and put = "\<lambda>c ms. c\<lparr>models := ms\<rparr>" and f = "\<lambda>r. r"])
    (auto simp: tree_ok_def tree_reverseDecode_def)
qed

lemma safe_choice:
  assumes "unat i < 2"
  shows "safe 0 (len_ok n) (\<lambda>v. True) (\<lambda>lc d. rbind (decodeBit (choice lc) i d) (\<lambda>(v, ch, d). Inr (v, lc\<lparr>choice := ch\<rparr>, d)))"
  by (rule safe_mono [OF safe_part [OF safe_bit [OF assms], where get = choice and put = "\<lambda>lc ch. lc\<lparr>choice := ch\<rparr>" and f = "\<lambda>v. v"]])
    (auto simp: len_ok_def)

lemma safe_len2:
  assumes "unat p < n"
  shows "safe 0 (len_ok n) (\<lambda>v. True) (len_dec2 p j)"
proof (cases "j = 0")
  case True
  show ?thesis
    by (rule safe_part [OF safe_tree_coder [of 3], where get = "\<lambda>lc. the (midCoder lc ! unat p)" and
        put = "\<lambda>lc c. lc\<lparr>midCoder := (midCoder lc)[unat p := Some c]\<rparr>" and f = "\<lambda>v. kNumLowLenSymbols + v"])
      (use assms True in \<open>auto simp: len_ok_def slots_at slots_put len_dec2_def\<close>)
next
  case False
  show ?thesis
    by (rule safe_part [OF safe_tree_coder [of 8], where get = highCoder and put = "\<lambda>lc c. lc\<lparr>highCoder := c\<rparr>" and
        f = "\<lambda>v. kNumLowLenSymbols + kNumMidLenSymbols + v"])
      (use False in \<open>auto simp: len_ok_def len_dec2_def\<close>)
qed

lemma safe_len1:
  assumes "unat p < n"
  shows "safe 0 (len_ok n) (\<lambda>v. True) (len_dec1 p i)"
proof (cases "i = 0")
  case True
  show ?thesis
    by (rule safe_part [OF safe_tree_coder [of 3], where get = "\<lambda>lc. the (lowCoder lc ! unat p)" and
        put = "\<lambda>lc c. lc\<lparr>lowCoder := (lowCoder lc)[unat p := Some c]\<rparr>" and f = "\<lambda>v. v"])
      (use assms True in \<open>auto simp: len_ok_def slots_at slots_put len_dec1_def\<close>)
next
  case False
  show ?thesis
    by (rule safe_bind [OF safe_choice [of 1] safe_len2 [OF assms]]) (use False in \<open>auto simp: len_dec1_def\<close>)
qed

lemma safe_len:
  assumes "unat p < n"
  shows "safe 0 (len_ok n) (\<lambda>v. True) (\<lambda>lc d. len_decode p lc d)"
  by (rule safe_bind [OF safe_choice [of 0] safe_len1 [OF assms]]) (auto simp: len_decode_eq)

section \<open>Literals\<close>

definition sub_ok :: "litSubCoder \<Rightarrow> bool" where
  "sub_ok l \<longleftrightarrow> probs_ok 0x300 (coders l)"

lemma litLoop_start: "litLoop 1 ps d = Some (treeDecodeLoop 8 1 ps d)"
  by (rule litLoop_tree) simp_all

lemma decodeNormal_eq:
  "decodeNormal l d = Some (rbind (treeDecodeLoop 8 1 (coders l) d) (\<lambda>(s, ps, d). Inr (ucast s, l\<lparr>coders := ps\<rparr>, d)))"
  by (simp add: decodeNormal_def litLoop_start)

lemma litMatch_returns:
  assumes "k \<le> 8" "2 ^ (8 - k) \<le> unat m" "unat m < 2 ^ (9 - k)"
  shows "litMatchLoop mb m ps d \<noteq> None"
  using assms
proof (induction k arbitrary: m mb ps d)
  case 0
  then have "\<not> m < 0x100" by (simp add: word_less_nat_alt)
  then show ?case by (simp add: litMatchLoop.simps)
next
  case (Suc k)
  have "(2 :: nat) ^ (8 - k) \<le> 2 ^ 8" by (intro power_increasing) auto
  then have m31: "unat m < 2 ^ 31" using Suc.prems(3) by simp
  have *: "8 - k = Suc (8 - Suc k)" "9 - k = Suc (9 - Suc k)" using Suc.prems(1) by auto
  have r: "2 ^ (8 - k) \<le> unat (push_bit 1 m + v)" "unat (push_bit 1 m + v) < 2 ^ (9 - k)" if "v = 0 \<or> v = 1" for v
    using Suc.prems(2,3) that * unfolding push1(2) [OF m31 that] by auto
  have "litMatchLoop mb (push_bit 1 m OR v) ps d \<noteq> None" "litLoop (push_bit 1 m OR v) ps d \<noteq> None" if v: "v = 0 \<or> v = 1" for v mb ps d
  proof -
    show "litMatchLoop mb (push_bit 1 m OR v) ps d \<noteq> None" unfolding push1(1) [OF m31 v] using Suc.IH [OF _ r [OF v]] Suc.prems(1) by simp
    show "litLoop (push_bit 1 m OR v) ps d \<noteq> None" unfolding push1(1) [OF m31 v] using litLoop_tree [OF _ r [OF v]] Suc.prems(1) by simp
  qed
  note nx = this
  show ?case
  proof (cases "decodeBit ps (push_bit 8 (1 + (drop_bit 7 mb AND 1)) + m) d")
    case (Inr r)
    obtain v ps' d' where r: "r = (v, ps', d')" by (cases r) auto
    have "v = 0 \<or> v = 1" using decodeBit_bit Inr r by blast
    then show ?thesis unfolding litMatchLoop.simps [of mb m] Let_def using nx Inr r by simp
  qed (unfold litMatchLoop.simps [of mb m] Let_def, simp)
qed

lemma decodeWithMatchByte_returns: "decodeWithMatchByte mb l d \<noteq> None"
  using litMatch_returns [of 8 1] by (simp add: decodeWithMatchByte_def)

lemma safe_litTree:
  assumes "k \<le> 8" "2 ^ (8 - k) \<le> unat m" "unat m < 2 ^ (9 - k)"
  shows "safe 0 (probs_ok 0x300) (\<lambda>v. True) (\<lambda>ps d. treeDecodeLoop k m ps d)"
proof (rule safe_mono [OF safe_tree])
  have "(unat m + 1) * 2 ^ j \<le> 2 ^ (9 - k) * 2 ^ j" for j using assms(3) by (intro mult_le_mono1) simp
  then have *: "(unat m + 1) * 2 ^ j \<le> 2 ^ (9 - k + j)" for j by (simp add: power_add)
  show "(unat m + 1) * 2 ^ (k - 1) \<le> 0x300" if "0 < k" using * [of "k - 1"] that assms(1) by (simp add: order_trans)
  show "(unat m + 1) * 2 ^ k \<le> 2 ^ 32" using * [of k] assms(1) by (simp add: order_trans)
qed simp_all

lemma safe_matched:
  assumes "k \<le> 8" "2 ^ (8 - k) \<le> unat m" "unat m < 2 ^ (9 - k)"
  shows "safe 0 (probs_ok 0x300) (\<lambda>v. True) (\<lambda>ps d. returned (litMatchLoop mb m ps d))"
  using assms
proof (induction k arbitrary: m mb)
  case 0
  then have "\<not> m < 0x100" by (simp add: word_less_nat_alt)
  then show ?case by (intro safe_return) (simp_all add: litMatchLoop.simps)
next
  case (Suc k)
  have "(2 :: nat) ^ (8 - k) \<le> 2 ^ 8" by (intro power_increasing) auto
  then have m: "unat m < 256" using Suc.prems(3) by simp
  then have lt: "m < 0x100" and m31: "unat m < 2 ^ 31" by (simp_all add: word_less_nat_alt)
  define c where "c = drop_bit 7 mb AND 1"
  note lc = lowbit [of 7 mb, folded c_def]
  have "unat (push_bit 8 (1 + c)) \<le> 512" unfolding unsigned_push_bit_eq using lc(1) by (auto simp: push_bit_eq_mult take_bit_eq_mod)
  then have i: "unat (push_bit 8 (1 + c) + m) < 0x300" using m by (simp add: unat_word_ariths)
  let ?dec = "\<lambda>v ps d. returned (if c \<noteq> v then litLoop (push_bit 1 m OR v) ps d else litMatchLoop (push_bit 1 mb) (push_bit 1 m OR v) ps d)"
  show ?case
  proof (rule safe_bind [where ?dec2.0 = ?dec, OF safe_bit [OF i]])
    fix v :: u32 assume v: "v = 0 \<or> v = 1"
    have "8 - k = Suc (8 - Suc k)" "9 - k = Suc (9 - Suc k)" using Suc.prems(1) by auto
    then have r: "2 ^ (8 - k) \<le> unat (push_bit 1 m + v)" "unat (push_bit 1 m + v) < 2 ^ (9 - k)"
      using Suc.prems(2,3) v unfolding push1(2) [OF m31 v] by auto
    have k: "k \<le> 8" using Suc.prems(1) by simp
    show "safe 0 (probs_ok 0x300) (\<lambda>v. True) (?dec v)"
    proof (cases "c = v")
      case True
      then show ?thesis unfolding push1(1) [OF m31 v] using Suc.IH [OF k r, of "push_bit 1 mb"] by simp
    next
      case False
      then show ?thesis unfolding push1(1) [OF m31 v] litLoop_tree [OF k r] using safe_litTree [OF k r] by simp
    qed
  next
    show "returned (litMatchLoop mb m ps d) = rbind (decodeBit ps (push_bit 8 (1 + c) + m) d) (\<lambda>(v, ps, d). ?dec v ps d)" for ps d
      unfolding litMatchLoop.simps [of _ m] if_P [OF lt] Let_def c_def [symmetric] by (simp add: rbind_def returned_def split: sum.splits)
  qed simp
qed

lemma unat8: "unat (w :: byte) < 2 ^ 8"
  using unsigned_less [where ?w = w] by simp

lemma unat_byte32: "unat (ucast (w :: byte) :: u32) = unat w"
  using unat8 [of w] by (simp add: unsigned_ucast_eq take_bit_eq_mod)

lemma and_pow_mask: "n < 32 \<Longrightarrow> unat ((x :: u32) AND (push_bit n 1 - 1)) = unat x mod 2 ^ n"
proof -
  have "x AND (push_bit n 1 - 1) = take_bit n x" by (simp add: take_bit_eq_mask mask_eq_exp_minus_1 push_bit_eq_mult)
  then show ?thesis by (simp only: unsigned_take_bit_eq) (simp add: take_bit_eq_mod)
qed

definition lit_ok :: "nat \<Rightarrow> nat \<Rightarrow> litCoder \<Rightarrow> bool" where
  "lit_ok lc lp l \<longleftrightarrow> lc \<le> 8 \<and> lp \<le> 4 \<and> unat (numPrevBits l) = lc \<and> posMask l = push_bit lp 1 - 1 \<and>
     length (lit_coders l) = 2 ^ (lc + lp) \<and> (\<forall>s \<in> set (lit_coders l). sub_ok s)"

lemma new_lit_ok:
  assumes "unat lc \<le> 8" "unat lp \<le> 4"
  shows "lit_ok (unat lc) (unat lp) (newLitCoder lp lc)"
proof -
  have s: "unat (lc + lp) = unat lc + unat lp" using assms by (simp add: unat_word_ariths)
  then have "unat (push_bit (unat (lc + lp)) (1 :: u32)) = 2 ^ (unat lc + unat lp)" using assms unat_pow [of "unat (lc + lp)"] by simp
  then show ?thesis unfolding lit_ok_def newLitCoder_def Let_def litCoder.simps
    using assms init_probs [of "0x300"] by (simp only: simp_thms length_replicate) (auto simp: sub_ok_def newLitSubCoder_def)
qed

lemma sub_index:
  assumes "lit_ok lc lp l"
  shows "unat (getSubCoder pos prev l) < length (lit_coders l)"
proof -
  have l: "lc \<le> 8" "lp \<le> 4" "unat (numPrevBits l) = lc" "posMask l = push_bit lp 1 - 1" "length (lit_coders l) = 2 ^ (lc + lp)"
    using assms by (simp_all add: lit_ok_def)
  have c: "(2 :: nat) ^ lc \<le> 2 ^ 8" using l(1) by (rule power_increasing) simp
  have a: "unat (pos AND posMask l) = unat pos mod 2 ^ lp" using and_pow_mask [of lp pos] l(2,4) by simp
  then have a2: "unat (pos AND posMask l) + 1 \<le> 2 ^ lp" by (simp add: Suc_le_eq)
  have "(unat (pos AND posMask l) + 1) * 2 ^ lc \<le> 2 ^ lp * 2 ^ lc" by (rule mult_le_mono1 [OF a2])
  then have b: "unat (pos AND posMask l) * 2 ^ lc + 2 ^ lc \<le> 2 ^ (lc + lp)" by (simp add: power_add algebra_simps)
  have e: "(2 :: nat) ^ (lc + lp) \<le> 2 ^ 12" using l(1,2) by (intro power_increasing) auto
  have sh: "unat (push_bit lc (pos AND posMask l)) = unat (pos AND posMask l) * 2 ^ lc"
    unfolding unsigned_push_bit_eq using b e by (simp add: push_bit_eq_mult take_bit_eq_mod)
  have n8: "unat (8 - numPrevBits l) = 8 - lc" using l(1,3) by (subst unat_sub) (simp_all add: word_le_nat_alt)
  have "unat prev < 256" using unsigned_less [where ?w = prev] by simp
  moreover have "2 ^ (8 - lc) * 2 ^ lc = (256 :: nat)" using l(1) by (simp flip: power_add)
  ultimately have "unat prev div 2 ^ (8 - lc) < 2 ^ lc" by (simp add: div_less_iff_less_mult mult.commute)
  moreover have "unat (drop_bit (8 - lc) prev) = unat prev div 2 ^ (8 - lc)"
    using \<open>unat prev < 256\<close> unfolding unsigned_drop_bit_eq by (simp add: drop_bit_eq_div take_bit_eq_mod)
  ultimately have p: "unat (ucast (drop_bit (8 - lc) prev) :: u32) < 2 ^ lc" by (simp only: unat_byte32)
  then show ?thesis unfolding getSubCoder_def l(3) n8 l(5) using b e sh by (simp add: unat_word_ariths)
qed

lemma sub_get: "lit_ok lc lp l \<Longrightarrow> sub_ok (lit_coders l ! unat (getSubCoder pos prev l))"
  using sub_index by (auto simp: lit_ok_def)

lemma sub_put: "lit_ok lc lp l \<Longrightarrow> sub_ok s \<Longrightarrow> lit_ok lc lp (l\<lparr>lit_coders := (lit_coders l)[i := s]\<rparr>)"
  by (auto simp: lit_ok_def dest: set_update_subset_insert [THEN subsetD])

section \<open>The models\<close>

definition models_ok :: "nat \<Rightarrow> nat \<Rightarrow> nat \<Rightarrow> lzmaModels \<Rightarrow> bool" where
  "models_ok lc lp pb m \<longleftrightarrow> probs_ok 192 (matchDecoders m) \<and> probs_ok 12 (repDecoders m) \<and> probs_ok 12 (repG0Decoders m) \<and>
     probs_ok 12 (repG1Decoders m) \<and> probs_ok 12 (repG2Decoders m) \<and> probs_ok 192 (rep0LongDecoders m) \<and>
     length (posSlotCoders m) = 4 \<and> (\<forall>c \<in> set (posSlotCoders m). tree_ok 6 c) \<and> probs_ok 114 (posDecoders m) \<and>
     tree_ok 4 (posAlignCoder m) \<and> len_ok (2 ^ pb) (m_lenCoder m) \<and> len_ok (2 ^ pb) (m_repLenCoder m) \<and> lit_ok lc lp (m_litCoder m)"

lemma newModels_ok:
  assumes "unat lc \<le> 8" "unat lp \<le> 4" "unat pb \<le> 4"
  shows "\<exists>m. newModels lp lc pb = Inr m \<and> models_ok (unat lc) (unat lp) (unat pb) m"
proof -
  have p: "unat (push_bit (unat pb) 1 :: u32) = 2 ^ unat pb" using unat_pow [of "unat pb"] assms(3) by simp
  have "(2 :: nat) ^ unat pb \<le> 2 ^ 4" using assms(3) by (intro power_increasing) auto
  then obtain l where l: "newLenCoder (push_bit (unat pb) 1) = Inr l" "len_ok (2 ^ unat pb) l" using newLenCoder_ok [of "push_bit (unat pb) 1"] unfolding p by auto
  have c: "push_bit kNumPosStatesBitsMax kNumStates = 192" "kNumFullDistances - kEndPosModelIndex = 114"
    by (simp_all add: kNumPosStatesBitsMax_def kNumStates_def kNumFullDistances_def kEndPosModelIndex_def)
  show ?thesis unfolding newModels_def l(1) rbind_simps c
    using init_probs [of 192] init_probs [of 114] init_probs [of 12] new_tree_ok [of 6] new_tree_ok [of 4] l(2) new_lit_ok [OF assms(1,2)]
    by (simp add: models_ok_def kNumStates_def kNumLenToPosStates_def kNumPosSlotBits_def kNumAlignBits_def)
qed

text \<open>A bit of one of the arrays of the models.\<close>

lemma safe_field:
  assumes "unat i < n"
    and "\<And>m. models_ok lc lp pb m \<Longrightarrow> probs_ok n (get m)" "\<And>m x. models_ok lc lp pb m \<Longrightarrow> probs_ok n x \<Longrightarrow> models_ok lc lp pb (put m x)"
  shows "safe 1 (models_ok lc lp pb) (\<lambda>v. v = 0 \<or> v = 1) (\<lambda>m d. rbind (decodeBit (get m) i d) (\<lambda>(v, x, d). Inr (v, put m x, d)))"
  by (rule safe_part [OF safe_bit [OF assms(1)], where f = "\<lambda>v. v" and get = get and put = put]) (simp_all add: assms)

lemma safe_lit:
  "safe 0 (models_ok lc lp pb) (\<lambda>v. True) (\<lambda>m d. returned (decodeLiteral pos prev mb m d))"
  "decodeLiteral pos prev mb m d \<noteq> None"
proof -
  let ?i = "\<lambda>m. unat (getSubCoder (ucast pos) prev (m_litCoder m))"
  let ?sub = "\<lambda>l d. returned (case mb of Some mb \<Rightarrow> decodeWithMatchByte mb l d | None \<Rightarrow> decodeNormal l d)"
  have "safe 0 sub_ok (\<lambda>v. True) ?sub"
  proof (cases mb)
    case None
    show ?thesis
      by (rule safe_part [OF safe_litTree [of 8 1], where get = coders and put = "\<lambda>l ps. l\<lparr>coders := ps\<rparr>" and f = ucast])
        (auto simp: None sub_ok_def decodeNormal_eq)
  next
    case (Some b)
    show ?thesis
      by (rule safe_part [OF safe_matched [of 8 1], where get = coders and put = "\<lambda>l ps. l\<lparr>coders := ps\<rparr>" and f = ucast])
        (auto simp: Some sub_ok_def decodeWithMatchByte_def returned_def rbind_def split: option.splits sum.splits)
  qed
  then show "safe 0 (models_ok lc lp pb) (\<lambda>v. True) (\<lambda>m d. returned (decodeLiteral pos prev mb m d))"
  proof (rule safe_part [where get = "\<lambda>m. lit_coders (m_litCoder m) ! ?i m" and f = "\<lambda>v. v" and
        put = "\<lambda>m s. m\<lparr>m_litCoder := (m_litCoder m)\<lparr>lit_coders := (lit_coders (m_litCoder m))[?i m := s]\<rparr>\<rparr>"])
    fix m d assume "models_ok lc lp pb m"
    then have "\<not> length (lit_coders (m_litCoder m)) \<le> ?i m" by (metis models_ok_def sub_index not_le)
    then show "returned (decodeLiteral pos prev mb m d) = rbind (?sub (lit_coders (m_litCoder m) ! ?i m) d)
        (\<lambda>(v, s, d). Inr (v, m\<lparr>m_litCoder := (m_litCoder m)\<lparr>lit_coders := (lit_coders (m_litCoder m))[?i m := s]\<rparr>\<rparr>, d))"
      by (auto simp: decodeLiteral_def Let_def returned_def rbind_def split: option.splits sum.splits)
  qed (auto simp: models_ok_def sub_get sub_put)
  show "decodeLiteral pos prev mb m d \<noteq> None"
    using decodeWithMatchByte_returns by (auto simp: decodeLiteral_def Let_def decodeNormal_eq split: option.splits)
qed

section \<open>Distances\<close>

definition slotBits :: "u32 \<Rightarrow> u32" where
  "slotBits p = drop_bit 1 p - 1"

definition slotBase :: "u32 \<Rightarrow> u32" where
  "slotBase p = push_bit (unat (slotBits p)) (2 OR (p AND 1))"

lemma slot_cases:
  assumes "4 \<le> p" "p < 14"
  obtains "p = (4 :: u32)" | "p = 5" | "p = 6" | "p = 7" | "p = 8" | "p = 9" | "p = 10" | "p = 11" | "p = 12" | "p = 13"
proof -
  have "4 \<le> unat p" "unat p < 14" using assms by (simp_all add: word_le_nat_alt word_less_nat_alt)
  then have "unat p = 4 \<or> unat p = 5 \<or> unat p = 6 \<or> unat p = 7 \<or> unat p = 8 \<or> unat p = 9 \<or> unat p = 10 \<or> unat p = 11 \<or> unat p = 12 \<or> unat p = 13" by arith
  then show ?thesis by (elim disjE) (rule that, simp add: word_unat_eq_iff)+
qed

lemma slot_index:
  assumes "4 \<le> p" "p < 14"
  shows "0 < unat (slotBits p)" "unat (slotBits p) \<le> 5"
    "1 \<le> x \<Longrightarrow> x < 2 ^ unat (slotBits p) \<Longrightarrow> unat (slotBase p - p - 1 + of_nat x) < 114"
proof -
  show "0 < unat (slotBits p)" "unat (slotBits p) \<le> 5" using assms by (elim slot_cases; simp add: slotBits_def)+
  assume x: "1 \<le> x" "x < 2 ^ unat (slotBits p)"
  show "unat (slotBase p - p - 1 + of_nat x) < 114"
  proof (cases "p = 4")
    case True
    then have "x = 1" using x by (simp add: slotBits_def)
    then show ?thesis using True by (simp add: slotBase_def slotBits_def)
  next
    case False
    show ?thesis using assms False x by (elim slot_cases) (auto simp: slotBase_def slotBits_def unat_word_ariths unat_of_nat)
  qed
qed

text \<open>The parts of \<open>decodeDistance\<close>: the check of the sign, the bits below the slot, the slot.\<close>

definition checkDist :: "u32 \<Rightarrow> lzmaModels \<Rightarrow> rangeDecoder \<Rightarrow> (u32 option \<times> lzmaModels \<times> rangeDecoder) res" where
  "checkDist x m d =
     (if sint x < 0 then (if x = 0xFFFFFFFF then Inr (None, m, d) else Inl (Err ''error in lzma encoded data stream'')) else Inr (Some x, m, d))"

definition decodeAlign :: "lzmaModels \<Rightarrow> rangeDecoder \<Rightarrow> (u32 \<times> lzmaModels \<times> rangeDecoder) res" where
  "decodeAlign m d = rbind (tree_reverseDecode (posAlignCoder m) d) (\<lambda>(w, c, d). Inr (w, m\<lparr>posAlignCoder := c\<rparr>, d))"

definition alignFoot :: "u32 \<Rightarrow> lzmaModels \<Rightarrow> rangeDecoder \<Rightarrow> (u32 option \<times> lzmaModels \<times> rangeDecoder) res" where
  "alignFoot b m d = rbind (decodeAlign m d) (\<lambda>(w, m, d). checkDist (b + w) m d)"

definition distFoot :: "u32 \<Rightarrow> lzmaModels \<Rightarrow> rangeDecoder \<Rightarrow> (u32 option \<times> lzmaModels \<times> rangeDecoder) res" where
  "distFoot p m d =
     (if p \<ge> kStartPosModelIndex then
        (if p < kEndPosModelIndex then
           rbind (reverseDecodeIndex (posDecoders m) (slotBase p - p - 1) (slotBits p) d) (\<lambda>(v, ps, d). Inr (Some (slotBase p + v), m\<lparr>posDecoders := ps\<rparr>, d))
         else
           rbind (rbind (decodeDirectBits (slotBits p - kNumAlignBits) d) (\<lambda>(v, d). Inr (v, m, d)))
             (\<lambda>(v, m, d). alignFoot (slotBase p + push_bit (unat kNumAlignBits) v) m d))
      else Inr (Some p, m, d))"

definition decodeSlot :: "nat \<Rightarrow> lzmaModels \<Rightarrow> rangeDecoder \<Rightarrow> (u32 \<times> lzmaModels \<times> rangeDecoder) res" where
  "decodeSlot i m d = rbind (tree_decode (posSlotCoders m ! i) d) (\<lambda>(p, c, d). Inr (p, m\<lparr>posSlotCoders := (posSlotCoders m)[i := c]\<rparr>, d))"

lemma lenToPosState_less: "unat (getLenToPosState len) < 4"
  by (auto simp: getLenToPosState_def kNumLenToPosStates_def Let_def word_less_nat_alt)

lemma decodeDistance_eq:
  assumes "length (posSlotCoders m) = 4"
  shows "decodeDistance len m d = rbind (decodeSlot (unat (getLenToPosState len)) m d) (\<lambda>(p, m, d). distFoot p m d)"
  unfolding decodeDistance_def decodeSlot_def distFoot_def alignFoot_def decodeAlign_def checkDist_def slotBase_def slotBits_def rbind_assoc Let_def
  using lenToPosState_less [of len] assms by (simp add: case_prod_unfold cong: if_cong)

lemma safe_check: "safe 0 ok (\<lambda>v. True) (checkDist x)"
  by (rule safeI) (auto simp: checkDist_def)

lemma safe_align: "safe 0 (models_ok lc lp pb) (\<lambda>v. True) (alignFoot b)"
proof -
  have "safe 0 (models_ok lc lp pb) (\<lambda>v. True) decodeAlign"
    by (rule safe_part [OF safe_reverse_coder [of 4], where get = posAlignCoder and put = "\<lambda>m c. m\<lparr>posAlignCoder := c\<rparr>" and f = "\<lambda>v. v"])
      (auto simp: models_ok_def decodeAlign_def)
  then show ?thesis by (rule safe_bind [where ?dec2.0 = "\<lambda>w. checkDist (b + w)", OF _ safe_check]) (simp_all add: alignFoot_def)
qed

lemma safe_direct: "safe 0 ok (\<lambda>v. True) (\<lambda>m d. rbind (decodeDirectBits n d) (\<lambda>(v, d). Inr (v, m, d)))"
proof (rule safeI)
  fix m d assume "ok m" "dok d"
  then show "(\<exists>e. rbind (decodeDirectBits n d) (\<lambda>(v, d). Inr (v, m, d)) = Inl e \<and> benign e) \<or>
     (\<exists>v m' d'. rbind (decodeDirectBits n d) (\<lambda>(v, d). Inr (v, m, d)) = Inr (v, m', d') \<and> True \<and> ok m' \<and> dok d' \<and> dmeas d' + 0 \<le> dmeas d)"
    using direct_safe [of d "unat n" 0] by (auto simp: decodeDirectBits_def)
qed

lemma safe_foot: "safe 0 (models_ok lc lp pb) (\<lambda>v. True) (distFoot p)"
proof -
  consider (low) "p < 4" | (mid) "4 \<le> p" "p < 14" | (high) "14 \<le> p" by fastforce
  then show ?thesis
  proof cases
    case low
    then have "\<not> kStartPosModelIndex \<le> p" by (simp add: kStartPosModelIndex_def)
    then show ?thesis by (intro safe_return [where v = "Some p"]) (simp_all add: distFoot_def)
  next
    case mid
    have 3: "safe 0 (probs_ok 114) (\<lambda>v. True) (\<lambda>ps d. reverseDecodeIndex ps (slotBase p - p - 1) (slotBits p) d)"
      unfolding reverseDecodeIndex_def
    proof (rule safe_reverse)
      have "(2 :: nat) ^ unat (slotBits p) \<le> 2 ^ 5" using slot_index(2) [OF mid] by (intro power_increasing) auto
      then show "(unat (1 :: u32) + 1) * 2 ^ unat (slotBits p) \<le> 2 ^ 32" by simp
      show "unat (slotBase p - p - 1 + of_nat x) < 114" if "unat (1 :: u32) \<le> x" "x < (unat (1 :: u32) + 1) * 2 ^ (unat (slotBits p) - 1)" "0 < unat (slotBits p)" for x
      proof (rule slot_index(3) [OF mid])
        show "x < 2 ^ unat (slotBits p)" using that(2,3) by (cases "unat (slotBits p)") simp_all
      qed (use that(1) in simp)
    qed
    show ?thesis
      by (rule safe_part [OF 3, where get = posDecoders and put = "\<lambda>m ps. m\<lparr>posDecoders := ps\<rparr>" and f = "\<lambda>v. Some (slotBase p + v)"])
        (use mid in \<open>auto simp: models_ok_def distFoot_def kStartPosModelIndex_def kEndPosModelIndex_def\<close>)
  next
    case high
    have s: "kStartPosModelIndex \<le> p" "\<not> p < kEndPosModelIndex" using high by (auto simp: kStartPosModelIndex_def kEndPosModelIndex_def word_le_nat_alt word_less_nat_alt)
    show ?thesis
      by (rule safe_bind [where ?dec2.0 = "\<lambda>v. alignFoot (slotBase p + push_bit (unat kNumAlignBits) v)", OF safe_direct safe_align])
        (simp_all add: distFoot_def s)
  qed
qed

lemma safe_distance: "safe 0 (models_ok lc lp pb) (\<lambda>v. True) (\<lambda>m d. decodeDistance len m d)"
proof -
  have "safe 0 (models_ok lc lp pb) (\<lambda>v. True) (decodeSlot (unat (getLenToPosState len)))"
    by (rule safe_part [OF safe_tree_coder [of 6], where get = "\<lambda>m. posSlotCoders m ! unat (getLenToPosState len)" and
          put = "\<lambda>m c. m\<lparr>posSlotCoders := (posSlotCoders m)[unat (getLenToPosState len) := c]\<rparr>" and f = "\<lambda>v. v"])
      (use lenToPosState_less [of len] in \<open>auto simp: models_ok_def decodeSlot_def dest: set_update_subset_insert [THEN subsetD]\<close>)
  then show ?thesis by (rule safe_bind [OF _ safe_foot]) (simp_all add: decodeDistance_eq models_ok_def)
qed

lemma safe_match:
  assumes "unat p < 2 ^ pb"
  shows "safe 0 (models_ok lc lp pb) (\<lambda>(len, s, dist). s = stateUpdateMatch state) (\<lambda>m d. decodeMatch state p m d)"
proof -
  have 1: "safe 0 (models_ok lc lp pb) (\<lambda>v. True) (\<lambda>m d. rbind (len_decode p (m_lenCoder m) d) (\<lambda>(v, c, d). Inr (v + kMatchMinLen, m\<lparr>m_lenCoder := c\<rparr>, d)))"
    by (rule safe_part [OF safe_len [OF assms], where get = m_lenCoder and put = "\<lambda>m c. m\<lparr>m_lenCoder := c\<rparr>" and f = "\<lambda>v. v + kMatchMinLen"])
      (auto simp: models_ok_def)
  have 2: "safe 0 (models_ok lc lp pb) (\<lambda>(len, s, dist). s = stateUpdateMatch state) (\<lambda>m d. rbind (decodeDistance len m d) (\<lambda>(x, m, d). Inr ((len, stateUpdateMatch state, x), m, d)))" for len
    by (rule safe_part [OF safe_distance, where get = "\<lambda>m. m" and put = "\<lambda>m x. x" and f = "\<lambda>x. (len, stateUpdateMatch state, x)"]) auto
  show ?thesis
    by (rule safe_bind [OF 1 2])
      (simp_all add: decodeMatch_def Let_def rbind_assoc case_prod_unfold)
qed

section \<open>Repeated matches\<close>

lemma index12: "unat (s :: u32) < 12 \<Longrightarrow> unat p < 16 \<Longrightarrow> unat (push_bit kNumPosStatesBitsMax s + p) < 192"
proof -
  assume s: "unat s < 12" and p: "unat p < 16"
  have "unat (push_bit 4 s) = unat s * 16" unfolding unsigned_push_bit_eq using s by (simp add: push_bit_eq_mult take_bit_eq_mod)
  then show ?thesis using s p by (simp only: kNumPosStatesBitsMax_def) (simp add: unat_word_ariths)
qed

lemma pow_pb: "pb \<le> 4 \<Longrightarrow> (2 :: nat) ^ pb \<le> 16"
  using power_increasing [of pb 4 "2 :: nat"] by simp

lemma state_less:
  "unat s < 12 \<Longrightarrow> unat (stateUpdateChar s) < 7" "unat (stateUpdateMatch s) < 12" "unat (stateUpdateRep s) < 12" "unat (stateUpdateShortRep s) < 12"
  by (auto simp: stateUpdateChar_def stateUpdateMatch_def stateUpdateRep_def stateUpdateShortRep_def word_less_nat_alt unat_sub_if')

lemma safe_repDistance:
  assumes "unat s < 12"
  shows "safe 0 (models_ok lc lp pb) (\<lambda>v. True) (\<lambda>m d. decodeRepDistance s reps m d)"
proof -
  obtain r0 r1 r2 r3 where r: "reps = (r0, r1, r2, r3)" by (cases reps)
  note G1 = safe_field [OF assms, where get = repG1Decoders and put = "\<lambda>m x. m\<lparr>repG1Decoders := x\<rparr>" and lc = lc and lp = lp and pb = pb]
  note G2 = safe_field [OF assms, where get = repG2Decoders and put = "\<lambda>m x. m\<lparr>repG2Decoders := x\<rparr>" and lc = lc and lp = lp and pb = pb]
  have 2: "safe 0 (models_ok lc lp pb) (\<lambda>v. True) (\<lambda>m d. if b = (0 :: u32) then Inr ((r2, r0, r1, r3), m, d) else Inr ((r3, r0, r1, r2), m, d))" for b
    by (rule safeI) simp
  have 1: "safe 0 (models_ok lc lp pb) (\<lambda>v. True) (\<lambda>m d. if b = (0 :: u32) then Inr ((r1, r0, r2, r3), m, d) else
     rbind (rbind (decodeBit (repG2Decoders m) s d) (\<lambda>(v, x, d). Inr (v, m\<lparr>repG2Decoders := x\<rparr>, d)))
       (\<lambda>(b, m, d). if b = 0 then Inr ((r2, r0, r1, r3), m, d) else Inr ((r3, r0, r1, r2), m, d)))" for b
  proof (cases "b = 0")
    case True
    then show ?thesis by (intro safeI) simp
  next
    case False
    show ?thesis unfolding if_not_P [OF False] by (rule safe_bind [OF G2 2]) (auto simp: models_ok_def)
  qed
  show ?thesis
    by (rule safe_bind [OF G1 1]) (auto simp: models_ok_def decodeRepDistance_def r rbind_assoc case_prod_unfold Let_def cong: if_cong)
qed

lemma safe_repLen:
  assumes "unat p < 2 ^ pb"
  shows "safe 0 (models_ok lc lp pb) (\<lambda>(len, s, reps). unat s < 12) (\<lambda>m d. decodeRepLen s p reps m d)"
  by (rule safe_part [OF safe_len [OF assms], where get = m_repLenCoder and put = "\<lambda>m c. m\<lparr>m_repLenCoder := c\<rparr>" and f = "\<lambda>v. (v + kMatchMinLen, stateUpdateRep s, reps)"])
    (auto simp: models_ok_def decodeRepLen_def state_less)

lemma safe_rep:
  assumes s: "unat s < 12" and p: "unat p < 2 ^ pb" "pb \<le> 4"
  shows "safe 0 (models_ok lc lp pb) (\<lambda>(len, s, reps). unat s < 12) (\<lambda>m d. decodeRep s p reps m d)"
proof -
  have p16: "unat p < 16" using p pow_pb order_less_le_trans by blast
  note G0 = safe_field [OF s, where get = repG0Decoders and put = "\<lambda>m x. m\<lparr>repG0Decoders := x\<rparr>" and lc = lc and lp = lp and pb = pb]
  note L = safe_field [OF index12 [OF s p16], where get = rep0LongDecoders and put = "\<lambda>m x. m\<lparr>rep0LongDecoders := x\<rparr>" and lc = lc and lp = lp and pb = pb]
  have 3: "safe 0 (models_ok lc lp pb) (\<lambda>(len, s, reps). unat s < 12) (\<lambda>m d. if b = (0 :: u32) then Inr ((1, stateUpdateShortRep s, reps), m, d) else decodeRepLen s p reps m d)" for b
    using safe_repLen [OF p(1), where s = s and reps = reps] by (cases "b = 0") (auto intro!: safeI simp: state_less)
  have 2: "safe 0 (models_ok lc lp pb) (\<lambda>(len, s, reps). unat s < 12) (\<lambda>m d. if b = (0 :: u32) then
      rbind (rbind (decodeBit (rep0LongDecoders m) (push_bit kNumPosStatesBitsMax s + p) d) (\<lambda>(v, x, d). Inr (v, m\<lparr>rep0LongDecoders := x\<rparr>, d)))
        (\<lambda>(b, m, d). if b = 0 then Inr ((1, stateUpdateShortRep s, reps), m, d) else decodeRepLen s p reps m d)
      else rbind (decodeRepDistance s reps m d) (\<lambda>(reps, m, d). decodeRepLen s p reps m d))" for b
  proof (cases "b = 0")
    case True
    show ?thesis unfolding if_P [OF True] by (rule safe_bind [OF L 3]) (auto simp: models_ok_def)
  next
    case False
    show ?thesis unfolding if_not_P [OF False] by (rule safe_bind [OF safe_repDistance [OF s] safe_repLen [OF p(1)]]) auto
  qed
  show ?thesis
    by (rule safe_bind [OF G0 2]) (auto simp: models_ok_def decodeRep_def rbind_assoc case_prod_unfold Let_def cong: if_cong)
qed

section \<open>The window\<close>

text \<open>The window between two operations; with \<open>b\<close> it may be full.\<close>

definition wok :: "bool \<Rightarrow> lzOutWindow \<Rightarrow> bool" where
  "wok b ow \<longleftrightarrow> length (ow_buf ow) = unat (winSize ow) \<and> 0 < unat (winSize ow) \<and> unat (ow_streamPos ow) \<le> unat (ow_pos ow) \<and>
     (if b then unat (ow_pos ow) \<le> unat (winSize ow) \<and> ow_streamPos ow \<noteq> ow_pos ow else unat (ow_pos ow) < unat (winSize ow))"

definition wres :: "u32 \<Rightarrow> lzOutWindow res \<Rightarrow> bool" where
  "wres n r \<longleftrightarrow> (case r of Inl e \<Rightarrow> benign e | Inr ow \<Rightarrow> wok False ow \<and> winSize ow = n)"

lemma flush_ok:
  assumes "wok b ow"
  shows "wres (winSize ow) (ow_flush W ow)"
proof (cases "ow_pos ow = ow_streamPos ow")
  case True
  then show ?thesis using assms by (auto simp: ow_flush_def wres_def wok_def split: if_splits)
next
  case False
  have w: "length (ow_buf ow) = unat (winSize ow)" "0 < unat (winSize ow)" "unat (ow_streamPos ow) \<le> unat (ow_pos ow)" "unat (ow_pos ow) \<le> unat (winSize ow)"
    using assms by (auto simp: wok_def split: if_splits)
  have z: "ow_pos ow - ow_streamPos ow \<noteq> 0" using False by simp
  have "ow_streamPos ow + (ow_pos ow - ow_streamPos ow) = ow_pos ow" by simp
  then show ?thesis using w z unfolding ow_flush_def Let_def
    by (auto simp: wres_def wok_def word_le_nat_alt word_less_nat_alt split: option.splits prod.splits)
qed

lemma put_next:
  assumes "wok False ow" "ow' = ow\<lparr>ow_buf := (ow_buf ow)[unat (ow_pos ow) := b], ow_pos := ow_pos ow + 1\<rparr>"
  shows "wres (winSize ow) (if ow_pos ow' \<ge> winSize ow' then ow_flush W ow' else Inr ow')"
proof -
  have w: "length (ow_buf ow) = unat (winSize ow)" "0 < unat (winSize ow)" "unat (ow_streamPos ow) \<le> unat (ow_pos ow)" "unat (ow_pos ow) < unat (winSize ow)"
    using assms by (auto simp: wok_def)
  have u: "unat (ow_pos ow + 1) = unat (ow_pos ow) + 1" using w(4) unat32 [of "winSize ow"] by (simp add: unat_word_ariths)
  have "wok True ow'" using w u by (auto simp: wok_def assms(2) word_unat_eq_iff)
  from flush_ok [OF this, of W] show ?thesis using w u by (auto simp: assms(2) wres_def wok_def word_le_nat_alt)
qed

lemma putByte_ok: "wok False ow \<Longrightarrow> wres (winSize ow) (putByte W b ow)"
  using put_next [OF _ refl] by (auto simp: putByte_def wok_def Let_def)

lemma copyLoop_ok: "wok False ow \<Longrightarrow> wres (winSize ow) (copyLoop W n pos ow)"
proof (induction n arbitrary: pos ow)
  case 0
  then show ?case by (simp add: wres_def)
next
  case (Suc n)
  define q where "q = (if pos \<ge> winSize ow then 0 else pos)"
  have w: "length (ow_buf ow) = unat (winSize ow)" "0 < unat (winSize ow)" "unat (ow_pos ow) < unat (winSize ow)" using Suc.prems by (auto simp: wok_def)
  have q: "unat q < unat (winSize ow)" using w(2) by (auto simp: q_def word_le_nat_alt)
  define ow' where "ow' = ow\<lparr>ow_buf := (ow_buf ow)[unat (ow_pos ow) := ow_buf ow ! unat q], ow_pos := ow_pos ow + 1\<rparr>"
  have eq: "copyLoop W (Suc n) pos ow = rbind (if ow_pos ow' \<ge> winSize ow' then ow_flush W ow' else Inr ow') (copyLoop W n (q + 1))"
    using w q by (simp only: copyLoop.simps Let_def ow'_def q_def [symmetric]) simp
  show ?case
  proof (cases "if ow_pos ow' \<ge> winSize ow' then ow_flush W ow' else Inr ow'")
    case (Inl e)
    show ?thesis unfolding eq Inl rbind_simps using put_next [OF Suc.prems ow'_def, of W, unfolded Inl] by (simp add: wres_def)
  next
    case (Inr ow2)
    have "wok False ow2" "winSize ow2 = winSize ow" using put_next [OF Suc.prems ow'_def, of W, unfolded Inr] by (simp_all add: wres_def)
    then show ?thesis unfolding eq Inr rbind_simps using Suc.IH [of ow2 "q + 1"] by simp
  qed
qed

lemma windowPos_back:
  assumes "unat dist < unat (ow_pos ow)" "unat (ow_pos ow) < unat (winSize ow)"
  shows "unat (windowPos ow dist) = unat (ow_pos ow) - unat dist - 1"
proof -
  have "unat (ow_pos ow - dist) = unat (ow_pos ow) - unat dist" using assms(1) by (subst unat_sub) (simp_all add: word_le_nat_alt)
  then have "unat (ow_pos ow - dist - 1) = unat (ow_pos ow) - unat dist - 1" using assms(1) by (subst unat_sub) (simp_all add: word_le_nat_alt)
  then show ?thesis using assms by (auto simp: windowPos_def Let_def word_le_nat_alt)
qed

lemma windowPos_wrap:
  assumes "unat (ow_pos ow) \<le> unat dist" "unat dist < unat (winSize ow)"
  defines "k \<equiv> unat dist + 1 - unat (ow_pos ow)"
  shows "unat (windowPos ow dist) = (if unat (winSize ow) + k \<le> 2 ^ 32 then unat (winSize ow) - k else 2 ^ 32 - k)"
proof -
  have p: "ow_pos ow - dist - 1 = - of_nat k"
  proof -
    have "unat (ow_pos ow) + k = unat dist + 1" using assms(1) by (simp add: k_def)
    then have "(of_nat (unat (ow_pos ow) + k) :: u32) = of_nat (unat dist + 1)" by (simp only:)
    then show ?thesis by (simp add: algebra_simps)
  qed
  have k: "0 < k" "k \<le> unat (winSize ow)" "k < 2 ^ 32" using assms(1,2) unat32 [of "winSize ow"] by (simp_all add: k_def)
  have uk: "unat (of_nat k :: u32) = k" using k(3) by (simp add: unat_of_nat)
  have m: "unat (- of_nat k :: u32) = 2 ^ 32 - k"
  proof -
    have "(of_nat (2 ^ 32 - k) :: u32) = - of_nat k" using k(3) by (simp add: of_nat_diff)
    then show ?thesis using k unat_of_nat [where 'a = 32, of "2 ^ 32 - k"] by simp
  qed
  show ?thesis
  proof (cases "unat (winSize ow) + k \<le> 2 ^ 32")
    case True
    then have "winSize ow \<le> - of_nat k" unfolding word_le_nat_alt m by simp
    moreover have "unat (winSize ow - of_nat k) = unat (winSize ow) - k" using k(2) by (subst unat_sub) (simp_all add: word_le_nat_alt uk)
    ultimately show ?thesis using True by (simp add: windowPos_def p)
  next
    case False
    then have "\<not> winSize ow \<le> - of_nat k" unfolding word_le_nat_alt m using k(3) by simp
    then show ?thesis using False m by (simp add: windowPos_def p)
  qed
qed

lemma windowPos_less:
  assumes "wok False ow" "unat dist < unat (winSize ow)"
  shows "unat (windowPos ow dist) < unat (winSize ow)"
proof -
  have w: "unat (ow_pos ow) < unat (winSize ow)" using assms by (auto simp: wok_def)
  show ?thesis
  proof (cases "unat dist < unat (ow_pos ow)")
    case True
    then show ?thesis using windowPos_back [OF True w] w by simp
  next
    case False
    then show ?thesis using windowPos_wrap [OF _ assms(2)] w by (auto split: if_splits)
  qed
qed

section \<open>The loop\<close>

definition zok :: "nat \<Rightarrow> nat \<Rightarrow> nat \<Rightarrow> decoder \<Rightarrow> decVars \<Rightarrow> bool" where
  "zok lc lp pb z v \<longleftrightarrow> models_ok lc lp pb (z_models z) \<and> dok (z_rd z) \<and> wok False (z_outWin z) \<and> pb \<le> 4 \<and>
     z_posStateMask z = push_bit pb 1 - 1 \<and> unat (z_dictSizeCheck z) \<le> unat (winSize (z_outWin z)) \<and> unat (v_state v) < 12 \<and>
     (stateIsCharState (v_state v) \<or> unat (v_rep0 v) < unat (z_dictSizeCheck z))"

text \<open>What a turn of the loop may leave: a reported error, or a state with less to read.\<close>

definition stepres :: "nat \<Rightarrow> nat \<Rightarrow> nat \<Rightarrow> nat \<Rightarrow> (bool \<times> decoder \<times> decVars) res \<Rightarrow> bool" where
  "stepres lc lp pb n r \<longleftrightarrow>
     (case r of Inl e \<Rightarrow> benign e
      | Inr (fin, z, v) \<Rightarrow> dmeas (z_rd z) < n \<and> wok False (z_outWin z) \<and> (fin \<or> zok lc lp pb z v))"

lemma copyMatch_ok:
  assumes "models_ok lc lp pb (z_models z)" "dok (z_rd z)" "wok False (z_outWin z)" "pb \<le> 4" "z_posStateMask z = push_bit pb 1 - 1"
    "unat (z_dictSizeCheck z) \<le> unat (winSize (z_outWin z))" "unat (v_state v) < 12" "dmeas (z_rd z) < n"
  shows "stepres lc lp pb n (rbind (copyMatch W len z v) (\<lambda>(z, v). Inr (False, z, v)))"
proof (cases "ucast (v_rep0 v) \<ge> v_nowPos v \<or> v_rep0 v \<ge> z_dictSizeCheck z")
  case True
  then show ?thesis by (simp add: copyMatch_def stepres_def)
next
  case False
  have c: "wres (winSize (z_outWin z)) (copyBlock W (v_rep0 v) len (z_outWin z))" unfolding copyBlock_def by (rule copyLoop_ok [OF assms(3)])
  show ?thesis
  proof (cases "copyBlock W (v_rep0 v) len (z_outWin z)")
    case (Inl e)
    then show ?thesis using c False by (simp add: copyMatch_def stepres_def wres_def)
  next
    case (Inr ow)
    then have ow: "wok False ow" "winSize ow = winSize (z_outWin z)" using c by (simp_all add: wres_def)
    have "unat (windowPos ow 0) < unat (winSize ow)" by (rule windowPos_less [OF ow(1)]) (use ow(1) in \<open>simp add: wok_def\<close>)
    then have "\<not> length (ow_buf ow) \<le> unat (windowPos ow 0)" using ow(1) by (simp add: wok_def)
    then show ?thesis using False Inr ow assms by (simp add: copyMatch_def getByte_def stepres_def zok_def word_le_nat_alt)
  qed
qed

lemma literal_ok:
  assumes z: "zok lc lp pb z v" and m: "models_ok lc lp pb m" and d: "dok rd" "dmeas rd < n"
  shows "\<exists>r. map_option (\<lambda>r. rbind r (\<lambda>(b, m, rd). rbind (putByte W b (z_outWin z)) (\<lambda>ow.
            Inr (False, z\<lparr>z_rd := rd, z_models := m, z_outWin := ow\<rparr>,
                 v\<lparr>v_prevByte := b, v_state := stateUpdateChar (v_state v), v_nowPos := v_nowPos v + 1\<rparr>))))
          (decodeLiteral (v_nowPos v) (v_prevByte v) mb m rd) = Some r \<and> stepres lc lp pb n r"
proof -
  obtain x where x: "decodeLiteral (v_nowPos v) (v_prevByte v) mb m rd = Some x" using safe_lit(2) by blast
  from safe_lit(1) m d(1) show ?thesis
  proof (rule safeE)
    fix e assume "returned (decodeLiteral (v_nowPos v) (v_prevByte v) mb m rd) = Inl e" "benign e"
    then show ?thesis by (simp add: x stepres_def)
  next
    fix b m' rd' assume r: "returned (decodeLiteral (v_nowPos v) (v_prevByte v) mb m rd) = Inr (b, m', rd')" "models_ok lc lp pb m'" "dok rd'" "dmeas rd' + 0 \<le> dmeas rd"
    have w: "wok False (z_outWin z)" using z by (simp add: zok_def)
    have s: "unat (stateUpdateChar (v_state v)) < 7" using z by (intro state_less) (simp add: zok_def)
    then have "stateIsCharState (stateUpdateChar (v_state v))" "unat (stateUpdateChar (v_state v)) < 12" by (auto simp: stateIsCharState_def word_less_nat_alt)
    then show ?thesis using r z d(2) putByte_ok [OF w, of W b]
      by (cases "putByte W b (z_outWin z)") (auto simp: x stepres_def wres_def zok_def)
  qed
qed

lemma decodeStep_ok:
  assumes z: "zok lc lp pb z v"
  shows "\<exists>r. decodeStep W z v = Some r \<and> stepres lc lp pb (dmeas (z_rd z)) r"
proof -
  have k: "models_ok lc lp pb (z_models z)" "dok (z_rd z)" "wok False (z_outWin z)" "pb \<le> 4" "z_posStateMask z = push_bit pb 1 - 1"
    "unat (z_dictSizeCheck z) \<le> unat (winSize (z_outWin z))" and s: "unat (v_state v) < 12" using z by (simp_all add: zok_def)
  define p where "p = ucast (v_nowPos v) AND z_posStateMask z"
  have p: "unat p < 2 ^ pb" using and_pow_mask [of pb] k(4,5) by (simp add: p_def)
  then have p16: "unat p < 16" using pow_pb [OF k(4)] by simp
  have M: "probs_ok 192 (matchDecoders (z_models z))" using k(1) by (simp add: models_ok_def)
  note step = decodeStep_def [of W z v, unfolded Let_def, folded p_def]
  from safe_bit [OF index12 [OF s p16]] M k(2) show ?thesis
  proof (rule safeE)
    fix e assume "decodeBit (matchDecoders (z_models z)) (push_bit kNumPosStatesBitsMax (v_state v) + p) (z_rd z) = Inl e" "benign e"
    then show ?thesis by (simp add: step stepres_def)
  next
    fix b ps rd assume b: "decodeBit (matchDecoders (z_models z)) (push_bit kNumPosStatesBitsMax (v_state v) + p) (z_rd z) = Inr (b, ps, rd)"
      "probs_ok 192 ps" "dok rd" "dmeas rd + 1 \<le> dmeas (z_rd z)"
    let ?m = "z_models z\<lparr>matchDecoders := ps\<rparr>"
    have m: "models_ok lc lp pb ?m" using k(1) b(2) by (simp add: models_ok_def)
    have n: "dmeas rd < dmeas (z_rd z)" using b(4) by simp
    show ?thesis
    proof (cases "b = 0")
      case True
      show ?thesis
      proof (cases "stateIsCharState (v_state v)")
        case char: True
        show ?thesis using literal_ok [OF z m b(3) n, of W None] by (simp add: step b(1) True char)
      next
        case False
        then have "unat (v_rep0 v) < unat (winSize (z_outWin z))" using z by (auto simp: zok_def)
        then have "getByte (v_rep0 v) (z_outWin z) = Inr (ow_buf (z_outWin z) ! unat (windowPos (z_outWin z) (v_rep0 v)))"
          using windowPos_less [OF k(3)] k(3) by (simp add: getByte_def wok_def not_le)
        then show ?thesis using literal_ok [OF z m b(3) n, of W "Some (ow_buf (z_outWin z) ! unat (windowPos (z_outWin z) (v_rep0 v)))"]
          by (simp add: step b(1) True False)
      qed
    next
      case False
      note R = safe_field [OF s, where get = repDecoders and put = "\<lambda>m x. m\<lparr>repDecoders := x\<rparr>" and lc = lc and lp = lp and pb = pb]
      have fld: "safe 1 (models_ok lc lp pb) (\<lambda>v. v = 0 \<or> v = 1) (\<lambda>m d. rbind (decodeBit (repDecoders m) (v_state v) d) (\<lambda>(v, x, d). Inr (v, m\<lparr>repDecoders := x\<rparr>, d)))"
        by (rule R) (auto simp: models_ok_def)
      show ?thesis
      proof (rule safeE [OF fld m b(3)])
        fix e assume "rbind (decodeBit (repDecoders ?m) (v_state v) rd) (\<lambda>(v, x, d). Inr (v, ?m\<lparr>repDecoders := x\<rparr>, d)) = Inl e" "benign e"
        then show ?thesis by (auto simp: step b(1) False stepres_def rbind_def split: sum.splits)
      next
        fix c m2 rd2 assume c: "rbind (decodeBit (repDecoders ?m) (v_state v) rd) (\<lambda>(v, x, d). Inr (v, ?m\<lparr>repDecoders := x\<rparr>, d)) = Inr (c, m2, rd2)"
          "models_ok lc lp pb m2" "dok rd2" "dmeas rd2 + 1 \<le> dmeas rd"
        have n2: "dmeas rd2 < dmeas (z_rd z)" using n c(4) by simp
        obtain ps2 where c1: "decodeBit (repDecoders (z_models z)) (v_state v) rd = Inr (c, ps2, rd2)" "m2 = ?m\<lparr>repDecoders := ps2\<rparr>"
          using c(1) by (auto simp: rbind_def split: sum.splits)
        show ?thesis
        proof (cases "c = 1")
          case True
          note S = safe_rep [OF s p k(4), of lc lp "(v_rep0 v, v_rep1 v, v_rep2 v, v_rep3 v)"]
          show ?thesis
            by (rule safeE [OF S c(2,3)])
              (use n2 k in \<open>auto simp: step b(1) False c1 True stepres_def split: prod.splits intro!: copyMatch_ok [unfolded stepres_def]\<close>)
        next
          case no: False
          show ?thesis
            by (rule safeE [OF safe_match [OF p, of lc lp "v_state v"] c(2,3)])
              (use n2 k in \<open>auto simp: step b(1) False c1 no stepres_def state_less split: prod.splits option.splits intro!: copyMatch_ok [unfolded stepres_def]\<close>)
        qed
      qed
    qed
  qed
qed

lemma decodeLoop_ok:
  assumes "zok lc lp pb z v"
  shows "\<exists>r. decodeLoop W z v = Some r \<and> (case r of Inl e \<Rightarrow> benign e | Inr z' \<Rightarrow> wok False (z_outWin z'))"
  using assms
proof (induction "dmeas (z_rd z)" arbitrary: z v rule: less_induct)
  case less
  obtain r where r: "decodeStep W z v = Some r" "stepres lc lp pb (dmeas (z_rd z)) r" using decodeStep_ok [OF less.prems] by blast
  have w: "wok False (z_outWin z)" using less.prems by (simp add: zok_def)
  show ?case
  proof (cases r)
    case (Inl e)
    then show ?thesis using r w unfolding decodeLoop.simps [of W z v] by (simp add: stepres_def)
  next
    case (Inr x)
    obtain fin z' v' where x: "x = (fin, z', v')" by (cases x)
    show ?thesis
    proof (cases fin)
      case True
      then show ?thesis using r w Inr x unfolding decodeLoop.simps [of W z v] by (simp add: stepres_def)
    next
      case False
      then have "\<exists>r. decodeLoop W z' v' = Some r \<and> (case r of Inl e \<Rightarrow> benign e | Inr z' \<Rightarrow> wok False (z_outWin z'))"
        using r(2) Inr x by (intro less.hyps) (simp_all add: stepres_def)
      then show ?thesis using r w Inr x False unfolding decodeLoop.simps [of W z v] by simp
    qed
  qed
qed

lemma props_ok:
  assumes "decodeProps buf = Inr p"
  shows "unat (litContextBits p) \<le> 8" "unat (litPosStateBits p) \<le> 4" "unat (posStateBits p) \<le> 4"
  using assms by (auto simp: decodeProps_def Let_def word_less_nat_alt split: if_splits)

definition startVars :: decVars where
  "startVars = \<lparr>v_state = 0, v_rep0 = 0, v_rep1 = 0, v_rep2 = 0, v_rep3 = 0, v_nowPos = 0, v_prevByte = 0\<rparr>"

lemma newDecoder_ok:
  "case newDecoder r of Inl e \<Rightarrow> benign e | Inr z \<Rightarrow> \<exists>lc lp pb. zok lc lp pb z startVars"
proof (cases "length r < 13")
  case True
  then show ?thesis by (simp add: newDecoder_def)
next
  case False
  show ?thesis
  proof (cases "decodeProps (take 13 r)")
    case (Inl e)
    then show ?thesis using False by (auto simp: newDecoder_def decodeProps_def Let_def split: if_splits)
  next
    case (Inr p)
    note p = props_ok [OF Inr]
    obtain m where m: "newModels (ucast (litPosStateBits p)) (ucast (litContextBits p)) (ucast (posStateBits p)) = Inr m"
      "models_ok (unat (litContextBits p)) (unat (litPosStateBits p)) (unat (posStateBits p)) m"
      using newModels_ok [of "ucast (litContextBits p)" "ucast (litPosStateBits p)" "ucast (posStateBits p)"] p by (auto simp: unat_byte32)
    have w: "wok False (newLzOutWindow (maxUInt32 c (push_bit 12 1)))" "unat c \<le> unat (winSize (newLzOutWindow (maxUInt32 c (push_bit 12 1))))" for c
      by (auto simp: wok_def newLzOutWindow_def maxUInt32_def word_less_nat_alt)
    show ?thesis
    proof (cases "length r - 13 < 5")
      case True
      then show ?thesis using False Inr by (simp add: newDecoder_def newRangeDecoder_def)
    next
      case long: False
      then obtain z where z: "newDecoder r = Inr z" "zok (unat (litContextBits p)) (unat (litPosStateBits p)) (unat (posStateBits p)) z startVars"
        using False Inr m p w by (simp add: newDecoder_def newRangeDecoder_def Let_def zok_def startVars_def dok_def stateIsCharState_def)
      then show ?thesis by auto
    qed
  qed
qed

text \<open>
  C4. The LZMA decoder returns on every input and with every writer: there is no stream, however corrupt, on which its
  loops run forever. What it returns is the decoded bytes or a reported error (the header, the stream, the end of the
  input, the writer); no index of a model, of the window or of a slice of coders is ever out of range, so the goroutine
  behind \<^verbatim>\<open>NewReader\<close> does not crash the program.
\<close>

theorem decoder_total: "\<exists>r. lzma_decoder W input = Some r \<and> (case r of Inl e \<Rightarrow> \<exists>msg. e = Err msg | Inr out \<Rightarrow> True)"
proof (cases "newDecoder input")
  case (Inl e)
  then show ?thesis using newDecoder_ok [of input] by (simp add: lzma_decoder_def benign_def)
next
  case (Inr z)
  then obtain lc lp pb where "zok lc lp pb z startVars" using newDecoder_ok [of input] by auto
  from decodeLoop_ok [OF this, of W] obtain r where r: "decodeLoop W z startVars = Some r" "case r of Inl e \<Rightarrow> benign e | Inr z' \<Rightarrow> wok False (z_outWin z')" by blast
  show ?thesis
  proof (cases r)
    case l: (Inl e)
    then show ?thesis using Inr r by (simp add: lzma_decoder_def doDecode_def startVars_def benign_def)
  next
    case l: (Inr z')
    then have "wres (winSize (z_outWin z')) (ow_flush W (z_outWin z'))" using r by (simp add: flush_ok)
    then show ?thesis using Inr r l by (cases "ow_flush W (z_outWin z')") (simp_all add: lzma_decoder_def doDecode_def startVars_def benign_def wres_def)
  qed
qed

end
