(* ===== verification/Lzma_Packets.thy ===== *)
theory Lzma_Packets
  imports Lzma_Encoder Lzma_Safety
begin

text \<open>
  The packets of LZMA, literals, matches, repeated matches and the end marker, are codecs over the range coder: what
  \<open>encodeLiteral\<close>, \<open>encodeRep\<close>, \<open>encodeMatch\<close> and \<open>writeEndMarker\<close> write is what \<open>decodeLiteral\<close>, \<open>decodeRep\<close> and \<open>decodeMatch\<close> read.
\<close>

section \<open>Slots of distances\<close>

definition slotNat :: "nat \<Rightarrow> nat" where
  "slotNat s = (2 + s mod 2) * 2 ^ (s div 2 - 1)"

lemma slotNat_Suc: "2 \<le> s \<Longrightarrow> slotNat (Suc s) = slotNat s + 2 ^ (s div 2 - 1)"
proof -
  assume s: "2 \<le> s"
  show ?thesis
  proof (cases "even s")
    case True
    then have "Suc s mod 2 = 1" "s mod 2 = 0" "Suc s div 2 = s div 2" by presburger+
    then show ?thesis by (simp add: slotNat_def)
  next
    case False
    then obtain k where k: "s = Suc (2 * k)" "0 < k" using s by (auto elim: oddE)
    have "Suc s div 2 - 1 = Suc (k - 1)" "Suc s mod 2 = 0" "s mod 2 = 1" "s div 2 - 1 = k - 1" using k by simp_all
    then show ?thesis unfolding slotNat_def by (simp only: power_Suc) simp
  qed
qed

lemma slotNat_scale: "2 \<le> s \<Longrightarrow> slotNat (s + 20) = slotNat s * 2 ^ 10" "2 \<le> s \<Longrightarrow> slotNat (s + 40) = slotNat s * 2 ^ 20"
proof -
  assume s: "2 \<le> s"
  have "(s + 20) div 2 - 1 = (s div 2 - 1) + 10" "(s + 20) mod 2 = s mod 2" "(s + 40) div 2 - 1 = (s div 2 - 1) + 20" "(s + 40) mod 2 = s mod 2" using s by presburger+
  then show "slotNat (s + 20) = slotNat s * 2 ^ 10" "slotNat (s + 40) = slotNat s * 2 ^ 20" unfolding slotNat_def by (simp_all only: power_add mult.assoc)
qed

text \<open>The table up to a slot: every index from 2 on has the slot whose interval holds it.\<close>

definition fastUpto :: "nat \<Rightarrow> byte list" where
  "fastUpto n = [0, 1] @ concat (map (\<lambda>s. replicate (2 ^ (s div 2 - 1)) (of_nat s)) [2..<n])"

lemma fastUpto_Suc: "2 \<le> n \<Longrightarrow> fastUpto (Suc n) = fastUpto n @ replicate (2 ^ (n div 2 - 1)) (of_nat n)"
  by (simp add: fastUpto_def)

lemma fastUpto_spec:
  assumes "2 \<le> n" "n \<le> 22"
  shows "length (fastUpto n) = slotNat n"
    "2 \<le> c \<Longrightarrow> c < slotNat n \<Longrightarrow> \<exists>s \<ge> 2. s < n \<and> fastUpto n ! c = of_nat s \<and> slotNat s \<le> c \<and> c < slotNat (Suc s)"
proof -
  have "length (fastUpto n) = slotNat n \<and> (\<forall>c. 2 \<le> c \<longrightarrow> c < slotNat n \<longrightarrow> (\<exists>s \<ge> 2. s < n \<and> fastUpto n ! c = of_nat s \<and> slotNat s \<le> c \<and> c < slotNat (Suc s)))"
    using assms
  proof (induction n rule: nat_induct_at_least)
    case base
    then show ?case by (simp add: fastUpto_def slotNat_def)
  next
    case (Suc n)
    then have IH: "length (fastUpto n) = slotNat n" "\<And>c. 2 \<le> c \<Longrightarrow> c < slotNat n \<Longrightarrow> \<exists>s \<ge> 2. s < n \<and> fastUpto n ! c = of_nat s \<and> slotNat s \<le> c \<and> c < slotNat (Suc s)" by auto
    have "\<exists>s \<ge> 2. s < Suc n \<and> fastUpto (Suc n) ! c = of_nat s \<and> slotNat s \<le> c \<and> c < slotNat (Suc s)" if c: "2 \<le> c" "c < slotNat (Suc n)" for c
    proof (cases "c < slotNat n")
      case True
      then show ?thesis using IH(2) [OF c(1) True] by (auto simp: fastUpto_Suc [OF Suc.hyps(1)] nth_append IH(1) intro: less_SucI)
    next
      case False
      then show ?thesis using c slotNat_Suc [OF Suc.hyps(1)] Suc.hyps(1)
        by (intro exI [of _ n]) (auto simp: fastUpto_Suc [OF Suc.hyps(1)] nth_append IH(1) nth_replicate)
    qed
    then show ?case using IH(1) slotNat_Suc [OF Suc.hyps(1)] by (simp add: fastUpto_Suc [OF Suc.hyps(1)])
  qed
  then show "length (fastUpto n) = slotNat n"
    "2 \<le> c \<Longrightarrow> c < slotNat n \<Longrightarrow> \<exists>s \<ge> 2. s < n \<and> fastUpto n ! c = of_nat s \<and> slotNat s \<le> c \<and> c < slotNat (Suc s)" by blast+
qed

lemma fastPos_spec:
  assumes "2 \<le> unat i" "unat i < 2048"
  shows "\<exists>s. fastPosAt i = Inr (of_nat s) \<and> 2 \<le> s \<and> s < 22 \<and> slotNat s \<le> unat i \<and> unat i < slotNat (Suc s)"
proof -
  have g: "gFastPos = fastUpto 22" by (simp only: gFastPos_def fastUpto_def)
  have n: "slotNat 22 = 2048" by (simp add: slotNat_def)
  show ?thesis using fastUpto_spec(1) [of 22] fastUpto_spec(2) [of 22 "unat i"] assms n by (auto simp: fastPosAt_def g)
qed

text \<open>The slot of a distance: a small distance is its own slot; otherwise it lies in the interval of the slot.\<close>

lemma unat_byte_nat: "s < 256 \<Longrightarrow> unat (ucast (of_nat s :: byte) :: u32) = s"
  unfolding unat_byte32 by (simp add: unat_of_nat)

lemma getPosSlot_spec:
  assumes "unat pos < 2 ^ 31"
  shows "\<exists>p. getPosSlot pos = Inr p \<and> unat p < 62 \<and> (unat p < 4 \<longrightarrow> p = pos) \<and>
    (4 \<le> unat p \<longrightarrow> slotNat (unat p) \<le> unat pos \<and> unat pos < slotNat (unat p) + 2 ^ (unat p div 2 - 1))"
proof -
  have d: "unat (drop_bit k pos) = unat pos div 2 ^ k" for k
    unfolding unsigned_drop_bit_eq using unat32 [of pos] by (simp add: drop_bit_eq_div take_bit_eq_mod)
  have fin: "\<exists>p. getPosSlot pos = Inr p \<and> unat p < 62 \<and> (unat p < 4 \<longrightarrow> p = pos) \<and>
    (4 \<le> unat p \<longrightarrow> slotNat (unat p) \<le> unat pos \<and> unat pos < slotNat (unat p) + 2 ^ (unat p div 2 - 1))"
    if "getPosSlot pos = Inr p" "unat p = t" "t < 62" "2 \<le> t" "slotNat t \<le> unat pos" "unat pos < slotNat (Suc t)" for p t
  proof -
    have "t < 4 \<Longrightarrow> p = pos"
    proof -
      assume "t < 4"
      then have "t = 2 \<or> t = 3" using that(4) by arith
      then have "unat pos = t" using that(5,6) by (auto simp: slotNat_def)
      then show "p = pos" using that(2) by (simp add: word_unat_eq_iff)
    qed
    then show ?thesis using that slotNat_Suc [OF that(4)] by auto
  qed
  consider (tiny) "unat pos < 2" | (small) "2 \<le> unat pos" "unat pos < 2 ^ 11" | (mid) "2 ^ 11 \<le> unat pos" "unat pos < 2 ^ 21" | (big) "2 ^ 21 \<le> unat pos" by linarith
  then show ?thesis
  proof cases
    case tiny
    then have "pos = 0 \<or> pos = 1" by (auto simp: word_unat_eq_iff less_2_cases_iff)
    then show ?thesis by (auto simp: getPosSlot_def fastPosAt_def gFastPos_def)
  next
    case small
    then obtain s where s: "fastPosAt pos = Inr (of_nat s)" "2 \<le> s" "s < 22" "slotNat s \<le> unat pos" "unat pos < slotNat (Suc s)" using fastPos_spec [of pos] by auto
    have "pos < push_bit 11 1" using small by (simp add: word_less_nat_alt)
    then have "getPosSlot pos = Inr (ucast (of_nat s :: byte))" by (simp only: getPosSlot_def s(1) if_True rbind_simps)
    then show ?thesis by (rule fin [of _ s]) (use s unat_byte_nat in simp_all)
  next
    case mid
    then have "2 \<le> unat (drop_bit 10 pos)" "unat (drop_bit 10 pos) < 2048" unfolding d by auto
    then obtain s where s: "fastPosAt (drop_bit 10 pos) = Inr (of_nat s)" "2 \<le> s" "s < 22" "slotNat s \<le> unat pos div 2 ^ 10" "unat pos div 2 ^ 10 < slotNat (Suc s)"
      using fastPos_spec [of "drop_bit 10 pos"] unfolding d by auto
    have c: "\<not> pos < push_bit 11 1" "pos < push_bit 21 1" using mid by (simp_all add: word_less_nat_alt)
    have "getPosSlot pos = Inr (ucast (of_nat (s + 20) :: byte))" unfolding getPosSlot_def s(1) if_not_P [OF c(1)] if_P [OF c(2)] by simp
    moreover have "slotNat (s + 20) \<le> unat pos" "unat pos < slotNat (Suc (s + 20))"
      using s slotNat_scale(1) [of s] slotNat_scale(1) [of "Suc s"] by (simp_all add: less_eq_div_iff_mult_less_eq div_less_iff_less_mult)
    ultimately show ?thesis by (intro fin [of _ "s + 20"]) (use s unat_byte_nat [of "s + 20"] in simp_all)
  next
    case big
    then have "2 \<le> unat (drop_bit 20 pos)" "unat (drop_bit 20 pos) < 2048" unfolding d using assms by auto
    then obtain s where s: "fastPosAt (drop_bit 20 pos) = Inr (of_nat s)" "2 \<le> s" "s < 22" "slotNat s \<le> unat pos div 2 ^ 20" "unat pos div 2 ^ 20 < slotNat (Suc s)"
      using fastPos_spec [of "drop_bit 20 pos"] unfolding d by auto
    have c: "\<not> pos < push_bit 11 1" "\<not> pos < push_bit 21 1" using big by (simp_all add: word_less_nat_alt)
    have "getPosSlot pos = Inr (ucast (of_nat (s + 40) :: byte))" unfolding getPosSlot_def s(1) if_not_P [OF c(1)] if_not_P [OF c(2)] by simp
    moreover have "slotNat (s + 40) \<le> unat pos" "unat pos < slotNat (Suc (s + 40))"
      using s slotNat_scale(2) [of s] slotNat_scale(2) [of "Suc s"] by (simp_all add: less_eq_div_iff_mult_less_eq div_less_iff_less_mult)
    ultimately show ?thesis by (intro fin [of _ "s + 40"]) (use s unat_byte_nat [of "s + 40"] in simp_all)
  qed
qed

lemma slotBase_nat:
  assumes "4 \<le> unat p" "unat p < 64"
  shows "unat (slotBits p) = unat p div 2 - 1" "unat (slotBase p) = slotNat (unat p)"
proof -
  have "unat (drop_bit 1 p) = unat p div 2" unfolding unsigned_drop_bit_eq using unat32 [of p] by (simp add: drop_bit_eq_div take_bit_eq_mod)
  then show b: "unat (slotBits p) = unat p div 2 - 1" unfolding slotBits_def using assms(1) by (subst unat_sub) (simp_all add: word_le_nat_alt)
  note lb = lowbit [of 0 p, simplified]
  have "2 OR (p AND 1) = 2 + (p AND 1)" using lb(1) by auto
  moreover have "unat (2 + (p AND 1)) = 2 + unat p mod 2" using lb(2) by (simp add: unat_word_ariths)
  ultimately have o: "unat (2 OR (p AND 1)) = 2 + unat p mod 2" by simp
  have "unat p div 2 - 1 \<le> 30" using assms(2) by auto
  then have "(2 :: nat) ^ (unat p div 2 - 1) \<le> 2 ^ 30" by (intro power_increasing) auto
  moreover have "2 + unat p mod 2 \<le> 3" by simp
  ultimately have "(2 + unat p mod 2) * 2 ^ (unat p div 2 - 1) \<le> 3 * 2 ^ 30" by (rule mult_le_mono [rotated])
  then show "unat (slotBase p) = slotNat (unat p)" unfolding slotBase_def b unsigned_push_bit_eq o slotNat_def by (simp add: push_bit_eq_mult take_bit_eq_mod)
qed

section \<open>Bits and literals\<close>

lemma codes_field:
  assumes "unat i < n" "b = 0 \<or> b = 1"
    and "\<And>m. models_ok lc lp pb m \<Longrightarrow> probs_ok n (get m)" "\<And>m x. models_ok lc lp pb m \<Longrightarrow> probs_ok n x \<Longrightarrow> models_ok lc lp pb (put m x)"
  shows "codes 1 (models_ok lc lp pb) (\<lambda>m e. rbind (re_encode (get m) i b e) (\<lambda>(x, e). Inr (put m x, e)))
    (\<lambda>m d. rbind (decodeBit (get m) i d) (\<lambda>(v, x, d). Inr (v, put m x, d))) b"
  by (rule codes_part [OF codes_bit [OF assms(1,2)], where f = "\<lambda>v. v" and get = get and put = put]) (simp_all add: assms)

lemma byte_of_symbol: "ucast (of_nat (unat (1 :: u32) * 2 ^ 8 + unat (ucast (c :: byte) :: u32) mod 2 ^ 8) :: u32) = c"
proof -
  have "unat (ucast c :: u32) mod 2 ^ 8 = unat c" using unat8 [of c] by (simp add: unat_byte32)
  moreover have "unat (256 + ucast c :: u32) = 256 + unat c" using unat8 [of c] by (simp add: unat_word_ariths unat_byte32)
  then have "unat (ucast (256 + ucast c :: u32) :: byte) = unat c" using unat8 [of c] by (simp add: unsigned_ucast_eq take_bit_eq_mod)
  ultimately show ?thesis by (simp add: word_unat_eq_iff)
qed

lemma codes_sub:
  "codes 8 sub_ok (\<lambda>l e. case mb of Some mb \<Rightarrow> encodeMatched mb cur l e | None \<Rightarrow> lit_encode cur l e)
    (\<lambda>l d. returned (case mb of Some mb \<Rightarrow> decodeWithMatchByte mb l d | None \<Rightarrow> decodeNormal l d)) cur"
proof (cases mb)
  case None
  have 1: "codes 8 (probs_ok 0x300) (\<lambda>ps e. litEncodeLoop 8 (ucast cur) 1 ps e) (\<lambda>ps d. treeDecodeLoop 8 1 ps d)
      (of_nat (unat (1 :: u32) * 2 ^ 8 + unat (ucast cur :: u32) mod 2 ^ 8))"
    unfolding litEncodeLoop_tree by (rule codes_tree) simp_all
  have "codes 8 sub_ok (\<lambda>l e. case mb of Some mb \<Rightarrow> encodeMatched mb cur l e | None \<Rightarrow> lit_encode cur l e)
    (\<lambda>l d. returned (case mb of Some mb \<Rightarrow> decodeWithMatchByte mb l d | None \<Rightarrow> decodeNormal l d))
    (ucast (of_nat (unat (1 :: u32) * 2 ^ 8 + unat (ucast cur :: u32) mod 2 ^ 8) :: u32))"
    by (rule codes_part [OF 1, where get = coders and put = "\<lambda>l ps. l\<lparr>coders := ps\<rparr>" and f = ucast])
      (auto simp: None sub_ok_def decodeNormal_eq lit_encode_def)
  then show ?thesis by (simp only: byte_of_symbol)
next
  case (Some b)
  have 1: "codes 8 (probs_ok 0x300) (\<lambda>ps e. litMatchedLoop 8 (ucast b) (ucast cur) 1 True ps e) (\<lambda>ps d. returned (litMatchLoop (ucast b) 1 ps d))
      (of_nat (unat (1 :: u32) * 2 ^ 8 + unat (ucast cur :: u32) mod 2 ^ 8))"
    using codes_matched [of 8 1 "ucast b" "ucast cur"] by simp
  have "codes 8 sub_ok (\<lambda>l e. case mb of Some mb \<Rightarrow> encodeMatched mb cur l e | None \<Rightarrow> lit_encode cur l e)
    (\<lambda>l d. returned (case mb of Some mb \<Rightarrow> decodeWithMatchByte mb l d | None \<Rightarrow> decodeNormal l d))
    (ucast (of_nat (unat (1 :: u32) * 2 ^ 8 + unat (ucast cur :: u32) mod 2 ^ 8) :: u32))"
    by (rule codes_part [OF 1, where get = coders and put = "\<lambda>l ps. l\<lparr>coders := ps\<rparr>" and f = ucast])
      (auto simp: Some sub_ok_def encodeMatched_def decodeWithMatchByte_def returned_def rbind_def split: option.splits sum.splits)
  then show ?thesis by (simp only: byte_of_symbol)
qed

lemma codes_literal:
  "codes 8 (models_ok lc lp pb) (\<lambda>m e. encodeLiteral pos prev mb cur m e) (\<lambda>m d. returned (decodeLiteral pos prev mb m d)) cur"
proof -
  let ?i = "\<lambda>m. unat (getSubCoder (ucast pos) prev (m_litCoder m))"
  show ?thesis
  proof (rule codes_part [OF codes_sub [where mb = mb and cur = cur], where get = "\<lambda>m. lit_coders (m_litCoder m) ! ?i m" and f = "\<lambda>v. v" and
        put = "\<lambda>m s. m\<lparr>m_litCoder := (m_litCoder m)\<lparr>lit_coders := (lit_coders (m_litCoder m))[?i m := s]\<rparr>\<rparr>"])
    fix m assume "models_ok lc lp pb m"
    then have i: "\<not> length (lit_coders (m_litCoder m)) \<le> ?i m" by (metis models_ok_def sub_index not_le)
    let ?l = "lit_coders (m_litCoder m) ! ?i m"
    show "encodeLiteral pos prev mb cur m e = rbind (case mb of None \<Rightarrow> lit_encode cur ?l e | Some mb \<Rightarrow> encodeMatched mb cur ?l e)
        (\<lambda>(s, e). Inr (m\<lparr>m_litCoder := (m_litCoder m)\<lparr>lit_coders := (lit_coders (m_litCoder m))[?i m := s]\<rparr>\<rparr>, e))" for e
      using i by (simp add: encodeLiteral_def Let_def)
    show "returned (decodeLiteral pos prev mb m d) = rbind (returned (case mb of None \<Rightarrow> decodeNormal ?l d | Some mb \<Rightarrow> decodeWithMatchByte mb ?l d))
        (\<lambda>(v, s, d). Inr (v, m\<lparr>m_litCoder := (m_litCoder m)\<lparr>lit_coders := (lit_coders (m_litCoder m))[?i m := s]\<rparr>\<rparr>, d))" for d
      using i by (auto simp: decodeLiteral_def Let_def returned_def rbind_def split: option.splits sum.splits)
  qed (auto simp: models_ok_def sub_get sub_put)
qed

section \<open>Distances\<close>

lemma sint_small: "unat (x :: u32) < 2 ^ 31 \<Longrightarrow> sint x = int (unat x)"
proof -
  assume "unat x < 2 ^ 31"
  then have "unat x < 2147483648" by simp
  moreover have "uint x = int (unat x)" by simp
  ultimately have "- 2147483648 \<le> uint x" "uint x < 2147483648" by linarith+
  then have "- (2 ^ 31) \<le> uint x" "uint x < 2 ^ 31" by simp_all
  then have "signed_take_bit 31 (uint x) = uint x" by (rule signed_take_bit_int_eq_self)
  then show ?thesis by (simp add: sint_uint)
qed

lemma rbind_Inr [simp]: "rbind x Inr = x"
  by (cases x) auto

lemma codes_direct_bits:
  assumes "0 < unat n" "unat n < 32" "unat v < 2 ^ unat n"
  shows "codes (unat n) ok (\<lambda>m e. rbind (encodeDirectBits v n e) (\<lambda>e. Inr (m, e)))
    (\<lambda>m d. rbind (decodeDirectBits n d) (\<lambda>(x, d). Inr (x, m, d))) v"
proof -
  have le: "(2 :: nat) ^ unat n \<le> 2 ^ 32" using assms(2) by (intro power_increasing) auto
  have "unat (n - 1) < 2 ^ 31" using assms by (simp add: unat_sub word_le_nat_alt)
  then have "\<not> sint (n - 1) < 0" by (simp add: sint_small)
  then show ?thesis using codes_direct [of 0 "unat n" ok v] le assms(3) by (simp add: encodeDirectBits_def decodeDirectBits_def)
qed

lemma codes_align:
  assumes "unat w < 16"
  shows "codes 4 (models_ok lc lp pb) (\<lambda>m e. rbind (tree_reverseEncode (posAlignCoder m) w e) (\<lambda>(c, e). Inr (m\<lparr>posAlignCoder := c\<rparr>, e))) decodeAlign w"
  by (rule codes_part [OF codes_reverse_coder [of 4 w], where get = posAlignCoder and put = "\<lambda>m c. m\<lparr>posAlignCoder := c\<rparr>" and f = "\<lambda>v. v"])
    (use assms in \<open>auto simp: models_ok_def decodeAlign_def\<close>)

lemma split_aligned: "push_bit 4 (drop_bit 4 x) + (x AND kAlignMask) = (x :: u32)" "unat (x AND kAlignMask) < 16"
proof -
  have m: "x AND kAlignMask = take_bit 4 x" by (simp add: kAlignMask_def take_bit_eq_mask mask_eq_exp_minus_1)
  show "push_bit 4 (drop_bit 4 x) + (x AND kAlignMask) = x" unfolding m by (metis bits_ident)
  show "unat (x AND kAlignMask) < 16" unfolding m by (simp only: unsigned_take_bit_eq) (simp add: take_bit_eq_mod)
qed

lemma codes_aligned:
  assumes fb: "4 < unat fb" "unat fb \<le> 30" and r: "unat posReduced < 2 ^ unat fb"
    and chk: "\<And>m d. checkDist (b + posReduced) m d = Inr (v, m, d)"
  shows "codes 30 (models_ok lc lp pb) (\<lambda>m e. encodeAligned posReduced fb m e)
    (\<lambda>m d. rbind (rbind (decodeDirectBits (fb - kNumAlignBits) d) (\<lambda>(x, d). Inr (x, m, d))) (\<lambda>(x, m, d). alignFoot (b + push_bit (unat kNumAlignBits) x) m d)) v"
proof -
  have k4: "unat kNumAlignBits = 4" by (simp add: kNumAlignBits_def)
  have n: "unat (fb - kNumAlignBits) = unat fb - 4" using fb(1) by (subst unat_sub) (simp_all add: word_le_nat_alt k4)
  have dv: "unat (drop_bit 4 posReduced) = unat posReduced div 16"
    unfolding unsigned_drop_bit_eq using unat32 [of posReduced] by (simp add: drop_bit_eq_div take_bit_eq_mod)
  have "(2 :: nat) ^ unat fb = 2 ^ (unat fb - 4) * 16" using fb(1) by (simp flip: power_add [of "2 :: nat" _ 4, simplified])
  then have v: "unat (drop_bit 4 posReduced) < 2 ^ unat (fb - kNumAlignBits)" unfolding dv n using r by (simp add: div_less_iff_less_mult)
  have 1: "codes (unat fb - 4) (models_ok lc lp pb) (\<lambda>m e. rbind (encodeDirectBits (drop_bit 4 posReduced) (fb - kNumAlignBits) e) (\<lambda>e. Inr (m, e)))
    (\<lambda>m d. rbind (decodeDirectBits (fb - kNumAlignBits) d) (\<lambda>(x, d). Inr (x, m, d))) (drop_bit 4 posReduced)"
    using codes_direct_bits [OF _ _ v, where ok = "models_ok lc lp pb"] fb by (simp add: n)
  have "codes 4 (models_ok lc lp pb) (\<lambda>m e. rbind (tree_reverseEncode (posAlignCoder m) (posReduced AND kAlignMask) e) (\<lambda>(c, e). Inr (m\<lparr>posAlignCoder := c\<rparr>, e)))
    (alignFoot (b + push_bit 4 (drop_bit 4 posReduced))) v"
  proof (rule codes_bind [where ?dec2.0 = "\<lambda>w. checkDist (b + push_bit 4 (drop_bit 4 posReduced) + w)", OF codes_align [OF split_aligned(2)]])
    have "b + push_bit 4 (drop_bit 4 posReduced) + (posReduced AND kAlignMask) = b + posReduced" by (simp only: add.assoc split_aligned(1))
    then show "codes 0 (models_ok lc lp pb) (\<lambda>m e. Inr (m, e)) (checkDist (b + push_bit 4 (drop_bit 4 posReduced) + (posReduced AND kAlignMask))) v"
      by (intro codes_return) (simp_all only: chk)
  qed (simp_all add: alignFoot_def)
  note 2 = this
  have "codes (unat fb - 4 + 4) (models_ok lc lp pb) (\<lambda>m e. encodeAligned posReduced fb m e)
    (\<lambda>m d. rbind (rbind (decodeDirectBits (fb - kNumAlignBits) d) (\<lambda>(x, d). Inr (x, m, d))) (\<lambda>(x, m, d). alignFoot (b + push_bit (unat kNumAlignBits) x) m d)) v"
    by (rule codes_bind [where ?dec2.0 = "\<lambda>x. alignFoot (b + push_bit 4 x)", OF 1 2 refl])
      (simp_all add: encodeAligned_def k4 rbind_assoc)
  then show ?thesis by (rule codes_mono) (use fb in simp)
qed

lemma checkDist_pos: "unat x < 2 ^ 31 \<Longrightarrow> checkDist x m d = Inr (Some x, m, d)"
  by (simp add: checkDist_def sint_small)

lemma encodeFooter_eq:
  "encodeFooter p pos m e =
     (if p \<ge> kStartPosModelIndex then
        (if p < kEndPosModelIndex then
           rbind (reverseEncodeIndex (posDecoders m) (slotBase p - p - 1) (slotBits p) (pos - slotBase p) e) (\<lambda>(ps, e). Inr (m\<lparr>posDecoders := ps\<rparr>, e))
         else encodeAligned (pos - slotBase p) (slotBits p) m e)
      else Inr (m, e))"
  by (simp only: encodeFooter_def Let_def slotBase_def slotBits_def)

lemma codes_footer:
  assumes pos: "unat pos < 2 ^ 31" and p: "unat p < 62" "unat p < 4 \<longrightarrow> p = pos"
    "4 \<le> unat p \<longrightarrow> slotNat (unat p) \<le> unat pos \<and> unat pos < slotNat (unat p) + 2 ^ (unat p div 2 - 1)"
  shows "codes 30 (models_ok lc lp pb) (\<lambda>m e. encodeFooter p pos m e) (distFoot p) (Some pos)"
proof (cases "unat p < 4")
  case True
  then have "\<not> kStartPosModelIndex \<le> p" by (simp add: kStartPosModelIndex_def word_le_nat_alt)
  then have "codes 0 (models_ok lc lp pb) (\<lambda>m e. encodeFooter p pos m e) (distFoot p) (Some pos)"
    using p(2) True by (intro codes_return) (simp_all add: encodeFooter_def distFoot_def)
  then show ?thesis by (rule codes_mono) simp
next
  case False
  have b: "unat (slotBits p) = unat p div 2 - 1" "unat (slotBase p) = slotNat (unat p)" using slotBase_nat [of p] False p(1) by simp_all
  have s: "kStartPosModelIndex \<le> p" using False by (simp add: kStartPosModelIndex_def word_le_nat_alt)
  have r: "unat (pos - slotBase p) < 2 ^ unat (slotBits p)" using p(3) False b by (subst unat_sub) (auto simp: word_le_nat_alt)
  show ?thesis
  proof (cases "p < kEndPosModelIndex")
    case True
    have p4: "4 \<le> p" "p < 14" using True s by (simp_all add: kStartPosModelIndex_def kEndPosModelIndex_def)
    note k = slot_index(1,2) [OF p4]
    have le: "(2 :: nat) ^ unat (slotBits p) \<le> 2 ^ 5" using k(2) by (intro power_increasing) auto
    have 1: "codes (unat (slotBits p)) (probs_ok 114) (\<lambda>ps e. reverseEncodeIndex ps (slotBase p - p - 1) (slotBits p) (pos - slotBase p) e)
      (\<lambda>ps d. reverseDecodeIndex ps (slotBase p - p - 1) (slotBits p) d) (of_nat (unat (0 :: u32) + (unat (pos - slotBase p) mod 2 ^ unat (slotBits p)) * 2 ^ 0))"
      unfolding reverseEncodeIndex_def reverseDecodeIndex_def
    proof (rule codes_reverse)
      show "(unat (1 :: u32) + 1) * 2 ^ unat (slotBits p) \<le> 2 ^ 32" using le by simp
      show "unat (slotBase p - p - 1 + of_nat x) < 114" if "unat (1 :: u32) \<le> x" "x < (unat (1 :: u32) + 1) * 2 ^ (unat (slotBits p) - 1)" "0 < unat (slotBits p)" for x
      proof (rule slot_index(3) [OF p4])
        show "x < 2 ^ unat (slotBits p)" using that(2,3) by (cases "unat (slotBits p)") simp_all
      qed (use that(1) in simp)
    qed (use k in simp_all)
    have "codes (unat (slotBits p)) (models_ok lc lp pb) (\<lambda>m e. encodeFooter p pos m e) (distFoot p)
        ((\<lambda>v. Some (slotBase p + v)) (of_nat (unat (0 :: u32) + (unat (pos - slotBase p) mod 2 ^ unat (slotBits p)) * 2 ^ 0)))"
      by (rule codes_part [OF 1, where get = posDecoders and put = "\<lambda>m ps. m\<lparr>posDecoders := ps\<rparr>" and f = "\<lambda>v. Some (slotBase p + v)"])
        (use s True in \<open>auto simp: models_ok_def encodeFooter_eq distFoot_def\<close>)
    then have "codes (unat (slotBits p)) (models_ok lc lp pb) (\<lambda>m e. encodeFooter p pos m e) (distFoot p) (Some pos)" using r by simp
    then show ?thesis by (rule codes_mono) (use k(2) in simp)
  next
    case high: False
    then have "14 \<le> unat p" by (simp add: kEndPosModelIndex_def word_less_nat_alt)
    then have fb: "4 < unat (slotBits p)" "unat (slotBits p) \<le> 30" unfolding b using p(1) by auto
    have e: "slotBase p + (pos - slotBase p) = pos" by simp
    show ?thesis
      using codes_aligned [OF fb r, where b = "slotBase p" and v = "Some pos", unfolded e, OF checkDist_pos [OF pos], where lc = lc and lp = lp and pb = pb]
      using s high by (simp add: encodeFooter_eq distFoot_def [abs_def])
  qed
qed

section \<open>Matches\<close>

lemma codes_slot:
  assumes "unat p < 64"
  shows "codes 6 (models_ok lc lp pb) (\<lambda>m e. encodeSlot len p m e) (decodeSlot (unat (getLenToPosState len))) p"
  by (rule codes_part [OF codes_tree_coder [of 6 p], where get = "\<lambda>m. posSlotCoders m ! unat (getLenToPosState len)" and
        put = "\<lambda>m c. m\<lparr>posSlotCoders := (posSlotCoders m)[unat (getLenToPosState len) := c]\<rparr>" and f = "\<lambda>v. v"])
    (use assms lenToPosState_less [of len] in \<open>auto simp: models_ok_def encodeSlot_def decodeSlot_def Let_def dest: set_update_subset_insert [THEN subsetD]\<close>)

text \<open>The length of a match, and any code for the rest of its distance.\<close>

lemma codes_match_gen:
  assumes ps: "unat ps < 2 ^ pb" and len: "2 \<le> unat len" "unat len \<le> 273" and p: "unat p < 64"
    and foot: "codes 30 (models_ok lc lp pb) foot (distFoot p) v"
  shows "codes 46 (models_ok lc lp pb)
    (\<lambda>m e. rbind (len_encode ps (len - kMatchMinLen) (m_lenCoder m) e) (\<lambda>(c, e). rbind (encodeSlot len p (m\<lparr>m_lenCoder := c\<rparr>) e) (\<lambda>(m, e). foot m e)))
    (\<lambda>m d. decodeMatch state ps m d) (len, stateUpdateMatch state, v)"
proof -
  have l: "unat (len - kMatchMinLen) = unat len - 2" using len(1) by (subst unat_sub) (simp_all add: kMatchMinLen_def word_le_nat_alt)
  have "codes 10 (models_ok lc lp pb) (\<lambda>m e. rbind (len_encode ps (len - kMatchMinLen) (m_lenCoder m) e) (\<lambda>(c, e). Inr (m\<lparr>m_lenCoder := c\<rparr>, e)))
    (\<lambda>m d. rbind (len_decode ps (m_lenCoder m) d) (\<lambda>(x, c, d). Inr (x + kMatchMinLen, m\<lparr>m_lenCoder := c\<rparr>, d))) (len - kMatchMinLen + kMatchMinLen)"
    by (rule codes_part [OF codes_len [OF ps, of "len - kMatchMinLen"], where get = m_lenCoder and put = "\<lambda>m c. m\<lparr>m_lenCoder := c\<rparr>" and f = "\<lambda>x. x + kMatchMinLen"])
      (use len(2) l in \<open>auto simp: models_ok_def\<close>)
  then have 1: "codes 10 (models_ok lc lp pb) (\<lambda>m e. rbind (len_encode ps (len - kMatchMinLen) (m_lenCoder m) e) (\<lambda>(c, e). Inr (m\<lparr>m_lenCoder := c\<rparr>, e)))
    (\<lambda>m d. rbind (len_decode ps (m_lenCoder m) d) (\<lambda>(x, c, d). Inr (x + kMatchMinLen, m\<lparr>m_lenCoder := c\<rparr>, d))) len" by simp
  have 2: "codes 36 (models_ok lc lp pb) (\<lambda>m e. rbind (encodeSlot len p m e) (\<lambda>(m, e). foot m e)) (\<lambda>m d. decodeDistance len m d) v"
    by (rule codes_bind [where ?dec2.0 = distFoot, OF codes_slot [OF p] foot]) (simp_all add: decodeDistance_eq models_ok_def)
  have 3: "codes 36 (models_ok lc lp pb) (\<lambda>m e. rbind (encodeSlot len p m e) (\<lambda>(m, e). foot m e))
      (\<lambda>m d. rbind (decodeDistance len m d) (\<lambda>(x, m, d). Inr ((len, stateUpdateMatch state, x), m, d))) (len, stateUpdateMatch state, v)"
    by (rule codes_part [OF 2, where get = "\<lambda>m. m" and put = "\<lambda>m x. x" and f = "\<lambda>x. (len, stateUpdateMatch state, x)"]) simp_all
  show ?thesis
    by (rule codes_bind [where ?dec2.0 = "\<lambda>len m d. rbind (decodeDistance len m d) (\<lambda>(x, m, d). Inr ((len, stateUpdateMatch state, x), m, d))", OF 1 3])
      (simp_all add: decodeMatch_def Let_def rbind_assoc case_prod_unfold)
qed

lemma codes_match:
  assumes ps: "unat ps < 2 ^ pb" and len: "2 \<le> unat len" "unat len \<le> 273" and pos: "unat pos < 2 ^ 31"
  shows "codes 46 (models_ok lc lp pb) (\<lambda>m e. encodeMatch ps len pos m e) (\<lambda>m d. decodeMatch state ps m d) (len, stateUpdateMatch state, Some pos)"
proof -
  obtain p where p: "getPosSlot pos = Inr p" "unat p < 62" "unat p < 4 \<longrightarrow> p = pos"
    "4 \<le> unat p \<longrightarrow> slotNat (unat p) \<le> unat pos \<and> unat pos < slotNat (unat p) + 2 ^ (unat p div 2 - 1)" using getPosSlot_spec [OF pos] by blast
  have p64: "unat p < 64" using p(2) by simp
  show ?thesis using codes_match_gen [OF ps len p64 codes_footer [OF pos p(2-4)], where state = state and lc = lc and lp = lp]
    by (simp add: encodeMatch_def [abs_def] p(1) Let_def)
qed

lemma codes_endMark:
  assumes ps: "unat ps < 2 ^ pb"
  shows "codes 46 (models_ok lc lp pb)
    (\<lambda>m e. rbind (len_encode ps 0 (m_lenCoder m) e) (\<lambda>(c, e). rbind (encodeSlot kMatchMinLen 63 (m\<lparr>m_lenCoder := c\<rparr>) e) (\<lambda>(m, e). encodeAligned 0x3FFFFFFF 30 m e)))
    (\<lambda>m d. decodeMatch state ps m d) (kMatchMinLen, stateUpdateMatch state, None)"
proof -
  have b: "slotBits 63 = 30" "slotBase 63 = 0xC0000000" by (simp_all add: slotBits_def slotBase_def)
  have "checkDist (0xC0000000 + 0x3FFFFFFF) m d = Inr (None, m, d)" for m d by (simp add: checkDist_def)
  then have "codes 30 (models_ok lc lp pb) (\<lambda>m e. encodeAligned 0x3FFFFFFF 30 m e)
    (\<lambda>m d. rbind (rbind (decodeDirectBits (30 - kNumAlignBits) d) (\<lambda>(x, d). Inr (x, m, d))) (\<lambda>(x, m, d). alignFoot (0xC0000000 + push_bit (unat kNumAlignBits) x) m d)) None"
    by (intro codes_aligned) simp_all
  then have "codes 30 (models_ok lc lp pb) (\<lambda>m e. encodeAligned 0x3FFFFFFF 30 m e) (distFoot 63) None"
    by (simp add: distFoot_def [abs_def] b kStartPosModelIndex_def kEndPosModelIndex_def)
  from codes_match_gen [OF ps _ _ _ this, of kMatchMinLen state] show ?thesis by (simp add: kMatchMinLen_def)
qed

section \<open>Repeated matches\<close>

definition repAt :: "nat \<Rightarrow> reps \<Rightarrow> reps" where
  "repAt i r = (case r of (r0, r1, r2, r3) \<Rightarrow> if i = 0 then r else if i = 1 then (r1, r0, r2, r3) else if i = 2 then (r2, r0, r1, r3) else (r3, r0, r1, r2))"

lemma codes_repLen:
  assumes ps: "unat ps < 2 ^ pb" and len: "2 \<le> unat len" "unat len \<le> 273"
  shows "codes 10 (models_ok lc lp pb) (\<lambda>m e. rbind (len_encode ps (len - kMatchMinLen) (m_repLenCoder m) e) (\<lambda>(c, e). Inr (m\<lparr>m_repLenCoder := c\<rparr>, e)))
    (\<lambda>m d. decodeRepLen state ps reps m d) (len, stateUpdateRep state, reps)"
proof -
  have l: "unat (len - kMatchMinLen) = unat len - 2" using len(1) by (subst unat_sub) (simp_all add: kMatchMinLen_def word_le_nat_alt)
  have "codes 10 (models_ok lc lp pb) (\<lambda>m e. rbind (len_encode ps (len - kMatchMinLen) (m_repLenCoder m) e) (\<lambda>(c, e). Inr (m\<lparr>m_repLenCoder := c\<rparr>, e)))
    (\<lambda>m d. decodeRepLen state ps reps m d) ((\<lambda>x. (x + kMatchMinLen, stateUpdateRep state, reps)) (len - kMatchMinLen))"
    by (rule codes_part [OF codes_len [OF ps, of "len - kMatchMinLen"], where get = m_repLenCoder and put = "\<lambda>m c. m\<lparr>m_repLenCoder := c\<rparr>"])
      (use len(2) l in \<open>auto simp: models_ok_def decodeRepLen_def\<close>)
  then show ?thesis by simp
qed

lemma codes_repDistance:
  assumes s: "unat state < 12" and i: "1 \<le> i" "i < 4"
  shows "codes 2 (models_ok lc lp pb)
    (\<lambda>m e. if i = 1 then rbind (re_encode (repG1Decoders m) state 0 e) (\<lambda>(ps, e). Inr (m\<lparr>repG1Decoders := ps\<rparr>, e))
      else rbind (rbind (re_encode (repG1Decoders m) state 1 e) (\<lambda>(ps, e). Inr (m\<lparr>repG1Decoders := ps\<rparr>, e)))
        (\<lambda>(m, e). rbind (re_encode (repG2Decoders m) state (of_nat i - 2) e) (\<lambda>(ps, e). Inr (m\<lparr>repG2Decoders := ps\<rparr>, e))))
    (\<lambda>m d. decodeRepDistance state reps m d) (repAt i reps)"
proof -
  obtain r0 r1 r2 r3 where r: "reps = (r0, r1, r2, r3)" by (cases reps)
  have G1: "codes 1 (models_ok lc lp pb) (\<lambda>m e. rbind (re_encode (repG1Decoders m) state b e) (\<lambda>(x, e). Inr (m\<lparr>repG1Decoders := x\<rparr>, e)))
    (\<lambda>m d. rbind (decodeBit (repG1Decoders m) state d) (\<lambda>(v, x, d). Inr (v, m\<lparr>repG1Decoders := x\<rparr>, d))) b" if "b = 0 \<or> b = 1" for b
    by (rule codes_field [OF s that]) (auto simp: models_ok_def)
  have G2: "codes 1 (models_ok lc lp pb) (\<lambda>m e. rbind (re_encode (repG2Decoders m) state b e) (\<lambda>(x, e). Inr (m\<lparr>repG2Decoders := x\<rparr>, e)))
    (\<lambda>m d. rbind (decodeBit (repG2Decoders m) state d) (\<lambda>(v, x, d). Inr (v, m\<lparr>repG2Decoders := x\<rparr>, d))) b" if "b = 0 \<or> b = 1" for b
    by (rule codes_field [OF s that]) (auto simp: models_ok_def)
  let ?d2 = "\<lambda>b m d. if b = (0 :: u32) then Inr ((r2, r0, r1, r3), m, d) else Inr ((r3, r0, r1, r2), m, d)"
  let ?d1 = "\<lambda>b m d. if b = (0 :: u32) then Inr ((r1, r0, r2, r3), m, d) else
     rbind (rbind (decodeBit (repG2Decoders m) state d) (\<lambda>(v, x, d). Inr (v, m\<lparr>repG2Decoders := x\<rparr>, d))) (\<lambda>(b, m, d). ?d2 b m d)"
  have dec: "decodeRepDistance state reps m d = rbind (rbind (decodeBit (repG1Decoders m) state d) (\<lambda>(v, x, d). Inr (v, m\<lparr>repG1Decoders := x\<rparr>, d))) (\<lambda>(b, m, d). ?d1 b m d)" for m d
    by (simp add: decodeRepDistance_def r rbind_assoc case_prod_unfold Let_def cong: if_cong)
  show ?thesis
  proof (cases "i = 1")
    case True
    have 0: "codes 0 (models_ok lc lp pb) (\<lambda>m e. Inr (m, e)) (?d1 0) (r1, r0, r2, r3)" by (rule codes_return) simp_all
    have "codes 1 (models_ok lc lp pb) (\<lambda>m e. rbind (re_encode (repG1Decoders m) state 0 e) (\<lambda>(ps, e). Inr (m\<lparr>repG1Decoders := ps\<rparr>, e)))
      (\<lambda>m d. decodeRepDistance state reps m d) (r1, r0, r2, r3)"
      by (rule codes_bind [where ?dec2.0 = ?d1, OF G1 0]) (simp_all only: dec rbind_Inr case_prod_eta, simp_all)
    then have "codes 2 (models_ok lc lp pb) (\<lambda>m e. rbind (re_encode (repG1Decoders m) state 0 e) (\<lambda>(ps, e). Inr (m\<lparr>repG1Decoders := ps\<rparr>, e)))
      (\<lambda>m d. decodeRepDistance state reps m d) (r1, r0, r2, r3)" by (rule codes_mono) simp
    then show ?thesis using True by (simp add: repAt_def r)
  next
    case False
    then have i2: "i = 2 \<or> i = 3" using i by auto
    then have b: "(of_nat i - 2 :: u32) = 0 \<or> (of_nat i - 2 :: u32) = 1" by auto
    have 0: "codes 0 (models_ok lc lp pb) (\<lambda>m e. Inr (m, e)) (?d2 (of_nat i - 2)) (repAt i reps)"
      using i2 by (intro codes_return) (auto simp: repAt_def r)
    have "codes 1 (models_ok lc lp pb) (\<lambda>m e. rbind (re_encode (repG2Decoders m) state (of_nat i - 2) e) (\<lambda>(ps, e). Inr (m\<lparr>repG2Decoders := ps\<rparr>, e))) (?d1 1) (repAt i reps)"
      by (rule codes_bind [where ?dec2.0 = ?d2, OF G2 [OF b] 0]) simp_all
    note 1 = this
    show ?thesis by (rule codes_bind [where ?dec2.0 = ?d1, OF G1 [of 1] 1]) (use False in \<open>simp_all add: dec\<close>)
  qed
qed

text \<open>The decoder of a repeated match after its first bit.\<close>

definition decodeRepRest :: "u32 \<Rightarrow> u32 \<Rightarrow> reps \<Rightarrow> u32 \<Rightarrow> lzmaModels \<Rightarrow> rangeDecoder \<Rightarrow> ((u32 \<times> u32 \<times> reps) \<times> lzmaModels \<times> rangeDecoder) res" where
  "decodeRepRest state ps reps b m d =
     (if b = 0 then
        rbind (rbind (decodeBit (rep0LongDecoders m) (push_bit kNumPosStatesBitsMax state + ps) d) (\<lambda>(v, x, d). Inr (v, m\<lparr>rep0LongDecoders := x\<rparr>, d)))
          (\<lambda>(b, m, d). if b = 0 then Inr ((1, stateUpdateShortRep state, reps), m, d) else decodeRepLen state ps reps m d)
      else rbind (decodeRepDistance state reps m d) (\<lambda>(reps, m, d). decodeRepLen state ps reps m d))"

lemma decodeRep_eq:
  "decodeRep state ps reps m d =
     rbind (rbind (decodeBit (repG0Decoders m) state d) (\<lambda>(v, x, d). Inr (v, m\<lparr>repG0Decoders := x\<rparr>, d))) (\<lambda>(b, m, d). decodeRepRest state ps reps b m d)"
  by (simp add: decodeRep_def decodeRepRest_def rbind_assoc case_prod_unfold Let_def cong: if_cong)

definition rep_valid :: "u32 \<Rightarrow> u32 \<Rightarrow> bool" where
  "rep_valid len pos \<longleftrightarrow> pos = 0 \<and> len = 1 \<or> 2 \<le> unat len \<and> unat len \<le> 273 \<and> unat pos < 4"

lemma codes_rep0:
  assumes s: "unat state < 12" and ps: "unat ps < 2 ^ pb" "pb \<le> 4" and len: "len = 1 \<or> 2 \<le> unat len \<and> unat len \<le> 273"
  shows "codes 11 (models_ok lc lp pb)
    (\<lambda>m e. rbind (rbind (re_encode (rep0LongDecoders m) (push_bit kNumPosStatesBitsMax state + ps) (if len = 1 then 0 else 1) e) (\<lambda>(x, e). Inr (m\<lparr>rep0LongDecoders := x\<rparr>, e)))
      (\<lambda>(m, e). if len = 1 then Inr (m, e) else rbind (len_encode ps (len - kMatchMinLen) (m_repLenCoder m) e) (\<lambda>(c, e). Inr (m\<lparr>m_repLenCoder := c\<rparr>, e))))
    (decodeRepRest state ps reps 0) (len, if len = 1 then stateUpdateShortRep state else stateUpdateRep state, reps)"
proof -
  have p16: "unat ps < 16" using ps pow_pb order_less_le_trans by blast
  let ?b = "if len = 1 then 0 else 1 :: u32"
  have L: "codes 1 (models_ok lc lp pb) (\<lambda>m e. rbind (re_encode (rep0LongDecoders m) (push_bit kNumPosStatesBitsMax state + ps) ?b e) (\<lambda>(x, e). Inr (m\<lparr>rep0LongDecoders := x\<rparr>, e)))
    (\<lambda>m d. rbind (decodeBit (rep0LongDecoders m) (push_bit kNumPosStatesBitsMax state + ps) d) (\<lambda>(v, x, d). Inr (v, m\<lparr>rep0LongDecoders := x\<rparr>, d))) ?b"
    by (rule codes_field [OF index12 [OF s p16]]) (auto simp: models_ok_def)
  let ?d = "\<lambda>b m d. if b = (0 :: u32) then Inr ((1, stateUpdateShortRep state, reps), m, d) else decodeRepLen state ps reps m d"
  have "codes 10 (models_ok lc lp pb) (\<lambda>m e. if len = 1 then Inr (m, e) else rbind (len_encode ps (len - kMatchMinLen) (m_repLenCoder m) e) (\<lambda>(c, e). Inr (m\<lparr>m_repLenCoder := c\<rparr>, e)))
    (?d ?b) (len, if len = 1 then stateUpdateShortRep state else stateUpdateRep state, reps)"
  proof (cases "len = 1")
    case True
    then have "codes 0 (models_ok lc lp pb) (\<lambda>m e. if len = 1 then Inr (m, e) else rbind (len_encode ps (len - kMatchMinLen) (m_repLenCoder m) e) (\<lambda>(c, e). Inr (m\<lparr>m_repLenCoder := c\<rparr>, e)))
    (?d ?b) (len, if len = 1 then stateUpdateShortRep state else stateUpdateRep state, reps)" by (intro codes_return) simp_all
    then show ?thesis by (rule codes_mono) simp
  next
    case False
    then show ?thesis using codes_repLen [OF ps(1), of len lc lp state reps] len by simp
  qed
  note 2 = this
  show ?thesis by (rule codes_bind [where ?dec2.0 = ?d, OF L 2]) (simp_all add: decodeRepRest_def)
qed

lemma codes_rep1:
  assumes s: "unat state < 12" and ps: "unat ps < 2 ^ pb" and pos: "1 \<le> unat pos" "unat pos < 4" and len: "2 \<le> unat len" "unat len \<le> 273"
  shows "codes 12 (models_ok lc lp pb)
    (\<lambda>m e. rbind (if pos = 1 then rbind (re_encode (repG1Decoders m) state 0 e) (\<lambda>(ps, e). Inr (m\<lparr>repG1Decoders := ps\<rparr>, e))
      else rbind (rbind (re_encode (repG1Decoders m) state 1 e) (\<lambda>(ps, e). Inr (m\<lparr>repG1Decoders := ps\<rparr>, e)))
        (\<lambda>(m, e). rbind (re_encode (repG2Decoders m) state (pos - 2) e) (\<lambda>(ps, e). Inr (m\<lparr>repG2Decoders := ps\<rparr>, e))))
      (\<lambda>(m, e). rbind (len_encode ps (len - kMatchMinLen) (m_repLenCoder m) e) (\<lambda>(c, e). Inr (m\<lparr>m_repLenCoder := c\<rparr>, e))))
    (decodeRepRest state ps reps 1) (len, stateUpdateRep state, repAt (unat pos) reps)"
proof -
  have c: "(unat pos = 1) = (pos = 1)" by (simp add: word_unat_eq_iff)
  show ?thesis
    by (rule codes_bind [where ?dec2.0 = "\<lambda>reps. decodeRepLen state ps reps", OF codes_repDistance [OF s pos, unfolded c of_nat_unat] codes_repLen [OF ps len]])
      (simp_all add: decodeRepRest_def)
qed

lemma codes_rep:
  assumes s: "unat state < 12" and ps: "unat ps < 2 ^ pb" "pb \<le> 4" and v: "rep_valid len pos"
  shows "codes 14 (models_ok lc lp pb) (\<lambda>m e. encodeRep state ps pos len m e) (\<lambda>m d. decodeRep state ps reps m d)
    (len, if len = 1 then stateUpdateShortRep state else stateUpdateRep state, repAt (unat pos) reps)"
proof -
  have G0: "codes 1 (models_ok lc lp pb) (\<lambda>m e. rbind (re_encode (repG0Decoders m) state b e) (\<lambda>(x, e). Inr (m\<lparr>repG0Decoders := x\<rparr>, e)))
    (\<lambda>m d. rbind (decodeBit (repG0Decoders m) state d) (\<lambda>(v, x, d). Inr (v, m\<lparr>repG0Decoders := x\<rparr>, d))) b" if "b = 0 \<or> b = 1" for b
    by (rule codes_field [OF s that]) (auto simp: models_ok_def)
  show ?thesis
  proof (cases "pos = 0")
    case True
    then have r: "repAt (unat pos) reps = reps" by (simp add: repAt_def split: prod.splits)
    have "len = 1 \<or> 2 \<le> unat len \<and> unat len \<le> 273" using v by (auto simp: rep_valid_def)
    note 2 = codes_rep0 [OF s ps this, where reps = reps and lc = lc and lp = lp]
    have "codes 12 (models_ok lc lp pb) (\<lambda>m e. encodeRep state ps pos len m e) (\<lambda>m d. decodeRep state ps reps m d)
      (len, if len = 1 then stateUpdateShortRep state else stateUpdateRep state, reps)"
      by (rule codes_bind [where ?dec2.0 = "decodeRepRest state ps reps", OF G0 [of 0] 2])
        (simp_all add: decodeRep_eq encodeRep_def encodeRepIndex_def True rbind_assoc case_prod_unfold Let_def cong: if_cong)
    then show ?thesis unfolding r by (rule codes_mono) simp
  next
    case False
    then have p: "1 \<le> unat pos" "unat pos < 4" "2 \<le> unat len" "unat len \<le> 273" using v by (auto simp: rep_valid_def word_unat_eq_iff)
    then have l1: "len \<noteq> 1" by auto
    note 2 = codes_rep1 [OF s ps(1) p, where reps = reps and lc = lc and lp = lp]
    have "codes 13 (models_ok lc lp pb) (\<lambda>m e. encodeRep state ps pos len m e) (\<lambda>m d. decodeRep state ps reps m d)
      (len, stateUpdateRep state, repAt (unat pos) reps)"
      by (rule codes_bind [where ?dec2.0 = "decodeRepRest state ps reps", OF G0 [of 1] 2])
        (simp_all add: decodeRep_eq encodeRep_def encodeRepIndex_def False l1 rbind_assoc case_prod_unfold Let_def if_distrib [where f = "\<lambda>x. rbind x _"] cong: if_cong)
    then show ?thesis unfolding if_not_P [OF l1] by (rule codes_mono) simp
  qed
qed

end
