(* ===== verification/Lzma_Window.thy ===== *)
theory Lzma_Window
  imports Lzma_Safety
begin

text \<open>
  The circular output window against its specification, the list of all bytes decoded so far: a put appends, a get looks
  back, a block copy is the copy of LZ77, which may overlap itself, and a flush has written the whole list.
\<close>

definition accepting :: writer where
  "accepting w p = (length p, None)"

text \<open>The window holds the history: what was written before, then the part of the buffer up to the position, and behind the
  position what was written last.\<close>

definition hist :: "lzOutWindow \<Rightarrow> byte list \<Rightarrow> bool" where
  "hist ow H \<longleftrightarrow> length (ow_buf ow) = unat (winSize ow) \<and> unat (ow_pos ow) < unat (winSize ow) \<and> ow_streamPos ow = 0 \<and> unat (winSize ow) \<le> 2 ^ 31 \<and>
     (ow_w ow = [] \<or> unat (winSize ow) \<le> length (ow_w ow)) \<and>
     H = ow_w ow @ take (unat (ow_pos ow)) (ow_buf ow) \<and>
     (ow_w ow \<noteq> [] \<longrightarrow> drop (unat (ow_pos ow)) (ow_buf ow) = drop (length (ow_w ow) - unat (winSize ow) + unat (ow_pos ow)) (ow_w ow))"

fun lzcopy :: "nat \<Rightarrow> nat \<Rightarrow> byte list \<Rightarrow> byte list" where
  "lzcopy 0 dist H = H"
| "lzcopy (Suc n) dist H = lzcopy n dist (H @ [H ! (length H - 1 - dist)])"

lemma new_hist: "0 < unat n \<Longrightarrow> unat n \<le> 2 ^ 31 \<Longrightarrow> hist (newLzOutWindow n) []"
  by (simp add: hist_def newLzOutWindow_def)

lemma mod_back: "d < p \<Longrightarrow> p < n \<Longrightarrow> (p + n - (d + 1)) mod n = p - d - (1 :: nat)"
proof -
  assume "d < p" "p < n"
  then have "p + n - (d + 1) = p - d - 1 + n" "p - d - 1 < n" by linarith+
  then show ?thesis by (simp only: mod_add_self2 mod_less)
qed

lemma mod_wrap: "p \<le> d \<Longrightarrow> d < n \<Longrightarrow> (p + n - (d + 1)) mod n = n - (d + 1 - p :: nat)"
proof -
  assume "p \<le> d" "d < n"
  then have "p + n - (d + 1) = n - (d + 1 - p)" "n - (d + 1 - p) < n" by linarith+
  then show ?thesis by (simp only: mod_less)
qed

lemma windowPos_mod:
  assumes "hist ow H" "unat dist < unat (winSize ow)"
  shows "unat (windowPos ow dist) = (unat (ow_pos ow) + unat (winSize ow) - (unat dist + 1)) mod unat (winSize ow)"
proof -
  have w: "unat (ow_pos ow) < unat (winSize ow)" "unat (winSize ow) \<le> 2 ^ 31" using assms(1) by (simp_all add: hist_def)
  show ?thesis
  proof (cases "unat dist < unat (ow_pos ow)")
    case True
    show ?thesis unfolding windowPos_back [OF True w(1)] mod_back [OF True w(1)] ..
  next
    case False
    then have le: "unat (ow_pos ow) \<le> unat dist" by simp
    have "unat (winSize ow) + (unat dist + 1 - unat (ow_pos ow)) \<le> 2 ^ 32" using assms(2) w(2) by simp
    then show ?thesis unfolding windowPos_wrap [OF le assms(2)] mod_wrap [OF le assms(2)] by (rule if_P)
  qed
qed

lemma getByte_hist:
  assumes h: "hist ow H" and d: "unat dist < length H" "unat dist < unat (winSize ow)"
  shows "getByte dist ow = Inr (H ! (length H - 1 - unat dist))" "unat (windowPos ow dist) < unat (winSize ow)"
    "ow_buf ow ! unat (windowPos ow dist) = H ! (length H - 1 - unat dist)"
proof -
  let ?p = "unat (ow_pos ow)" and ?n = "unat (winSize ow)" and ?d = "unat dist" and ?w = "ow_w ow"
  have k: "length (ow_buf ow) = ?n" "?p < ?n" "?w = [] \<or> ?n \<le> length ?w" "H = ?w @ take ?p (ow_buf ow)"
    "?w \<noteq> [] \<longrightarrow> drop ?p (ow_buf ow) = drop (length ?w - ?n + ?p) ?w" "unat (winSize ow) \<le> 2 ^ 31" using h by (auto simp: hist_def)
  have "unat (windowPos ow dist) < ?n \<and> ow_buf ow ! unat (windowPos ow dist) = H ! (length H - 1 - ?d)"
  proof (cases "?d < ?p")
    case True
    have "H ! (length H - 1 - ?d) = take ?p (ow_buf ow) ! (?p - ?d - 1)"
      unfolding k(4) using True k(1,2) by (subst nth_append) (auto simp: less_diff_conv2 intro: arg_cong)
    then show ?thesis using windowPos_back [OF True k(2)] True k(2) by simp
  next
    case False
    then have w: "?w \<noteq> []" "?n \<le> length ?w" using d(1) k(1-4) by auto
    define j where "j = ?n - (?d + 1 - ?p)"
    have j: "?p \<le> j" "j < ?n" using False d(2) k(2) by (auto simp: j_def)
    have wp: "unat (windowPos ow dist) = j" using windowPos_wrap [OF _ d(2)] False k(2,6) d(2) by (simp add: j_def)
    have "ow_buf ow ! j = drop ?p (ow_buf ow) ! (j - ?p)" using j k(1) by simp
    also have "\<dots> = ?w ! (length ?w - ?n + j)" using k(5) w j by simp
    also have "\<dots> = H ! (length H - 1 - ?d)"
    proof -
      have "length ?w - ?n + j = length H - 1 - ?d" "length H - 1 - ?d < length ?w" unfolding k(4) using False d(2) w(2) k(1,2) by (auto simp: j_def)
      then show ?thesis unfolding k(4) by (simp add: nth_append)
    qed
    finally show ?thesis using wp j by simp
  qed
  then show *: "unat (windowPos ow dist) < ?n" "ow_buf ow ! unat (windowPos ow dist) = H ! (length H - 1 - ?d)" by blast+
  then show "getByte dist ow = Inr (H ! (length H - 1 - ?d))" using k(1) by (simp add: getByte_def)
qed

lemma push_hist:
  assumes h: "hist ow H" and ow': "ow' = ow\<lparr>ow_buf := (ow_buf ow)[unat (ow_pos ow) := b], ow_pos := ow_pos ow + 1\<rparr>"
  obtains ow2 where "(if ow_pos ow' \<ge> winSize ow' then ow_flush accepting ow' else Inr ow') = Inr ow2" "hist ow2 (H @ [b])" "winSize ow2 = winSize ow"
    "unat (ow_pos ow2) = (unat (ow_pos ow) + 1) mod unat (winSize ow)"
proof -
  let ?p = "unat (ow_pos ow)" and ?n = "unat (winSize ow)" and ?w = "ow_w ow"
  have k: "length (ow_buf ow) = ?n" "?p < ?n" "ow_streamPos ow = 0" "?n \<le> 2 ^ 31" "?w = [] \<or> ?n \<le> length ?w" "H = ?w @ take ?p (ow_buf ow)"
    "?w \<noteq> [] \<longrightarrow> drop ?p (ow_buf ow) = drop (length ?w - ?n + ?p) ?w" using h by (auto simp: hist_def)
  have u: "unat (ow_pos ow + 1) = ?p + 1" using k(2,4) by (simp add: unat_word_ariths)
  have t: "take (?p + 1) ((ow_buf ow)[?p := b]) = take ?p (ow_buf ow) @ [b]" using k(1,2) by (simp add: take_Suc_conv_app_nth)
  show ?thesis
  proof (cases "ow_pos ow' \<ge> winSize ow'")
    case True
    then have full: "?p + 1 = ?n" "ow_pos ow + 1 = winSize ow" using k(2) u by (auto simp: ow' word_le_nat_alt word_unat_eq_iff)
    have all: "take ?n ((ow_buf ow)[?p := b]) = take ?p (ow_buf ow) @ [b]" "take ?n ((ow_buf ow)[?p := b]) = (ow_buf ow)[?p := b]" using t full k(1) by simp_all
    have "winSize ow \<noteq> 0" using k(2) by auto
    then have "ow_flush accepting ow' = Inr (ow'\<lparr>ow_w := ?w @ (ow_buf ow)[?p := b], ow_pos := 0, ow_streamPos := 0\<rparr>)"
      using full k(1,3) all(2) by (simp add: ow' ow_flush_def accepting_def subslice_def Let_def)
    moreover have "hist (ow'\<lparr>ow_w := ?w @ (ow_buf ow)[?p := b], ow_pos := 0, ow_streamPos := 0\<rparr>) (H @ [b])"
      using k all full by (auto simp: hist_def ow')
    ultimately show ?thesis using that True full by (simp add: ow')
  next
    case False
    then have nf: "?p + 1 < ?n" using u by (simp add: ow' word_le_nat_alt not_le)
    have d: "drop (?p + 1) ((ow_buf ow)[?p := b]) = drop 1 (drop ?p (ow_buf ow))" by simp
    have "?w \<noteq> [] \<longrightarrow> drop (?p + 1) ((ow_buf ow)[?p := b]) = drop (length ?w - ?n + (?p + 1)) ?w"
    proof
      assume "?w \<noteq> []"
      then have "drop 1 (drop ?p (ow_buf ow)) = drop 1 (drop (length ?w - ?n + ?p) ?w)" using k(7) by (simp only: simp_thms)
      then show "drop (?p + 1) ((ow_buf ow)[?p := b]) = drop (length ?w - ?n + (?p + 1)) ?w" unfolding d by (simp add: add.commute)
    qed
    then have "hist ow' (H @ [b])" using k t nf u by (simp add: hist_def ow')
    then show ?thesis using that False nf u by (simp add: ow')
  qed
qed

lemma putByte_hist:
  assumes h: "hist ow H"
  obtains ow2 where "putByte accepting b ow = Inr ow2" "hist ow2 (H @ [b])" "winSize ow2 = winSize ow"
proof -
  let ?ow = "ow\<lparr>ow_buf := (ow_buf ow)[unat (ow_pos ow) := b], ow_pos := ow_pos ow + 1\<rparr>"
  obtain ow2 where o: "(if ow_pos ?ow \<ge> winSize ?ow then ow_flush accepting ?ow else Inr ?ow) = Inr ow2" "hist ow2 (H @ [b])" "winSize ow2 = winSize ow"
    using push_hist [OF h refl, of b] by metis
  have "\<not> length (ow_buf ow) \<le> unat (ow_pos ow)" using h by (simp add: hist_def)
  then have "putByte accepting b ow = Inr ow2" unfolding putByte_def Let_def o(1) by (rule if_not_P)
  then show ?thesis using that o(2,3) by blast
qed

lemma mod_step: "d < n \<Longrightarrow> p < n \<Longrightarrow> ((p + 1) mod n + n - (d + 1)) mod n = ((p + n - (d + 1)) mod n + 1) mod (n :: nat)"
proof -
  assume d: "d < n" "p < n"
  have a: "x + n - (d + 1) = x + (n - (d + 1))" for x using d(1) by linarith
  have "((p + 1) mod n + (n - (d + 1))) mod n = (p + 1 + (n - (d + 1))) mod n" by (rule mod_add_left_eq)
  also have "p + 1 + (n - (d + 1)) = p + (n - (d + 1)) + 1" by simp
  also have "(p + (n - (d + 1)) + 1) mod n = ((p + (n - (d + 1))) mod n + 1) mod n" by (rule mod_add_left_eq [symmetric])
  finally show ?thesis unfolding a .
qed

lemma copyLoop_hist:
  assumes "hist ow H" "unat dist < length H" "unat dist < unat (winSize ow)"
    and "(if pos \<ge> winSize ow then 0 else pos) = windowPos ow dist"
  shows "\<exists>ow2. copyLoop accepting n pos ow = Inr ow2 \<and> hist ow2 (lzcopy n (unat dist) H) \<and> winSize ow2 = winSize ow"
  using assms
proof (induction n arbitrary: pos ow H)
  case 0
  then show ?case by simp
next
  case (Suc n)
  note g = getByte_hist [OF Suc.prems(1-3)]
  define ow' where "ow' = ow\<lparr>ow_buf := (ow_buf ow)[unat (ow_pos ow) := H ! (length H - 1 - unat dist)], ow_pos := ow_pos ow + 1\<rparr>"
  obtain ow2 where o: "(if ow_pos ow' \<ge> winSize ow' then ow_flush accepting ow' else Inr ow') = Inr ow2" "hist ow2 (H @ [H ! (length H - 1 - unat dist)])"
    "winSize ow2 = winSize ow" "unat (ow_pos ow2) = (unat (ow_pos ow) + 1) mod unat (winSize ow)" using push_hist [OF Suc.prems(1) ow'_def] by blast
  have k: "length (ow_buf ow) = unat (winSize ow)" "unat (ow_pos ow) < unat (winSize ow)" "unat (winSize ow) \<le> 2 ^ 31" using Suc.prems(1) by (simp_all add: hist_def)
  have eq: "copyLoop accepting (Suc n) pos ow = copyLoop accepting n (windowPos ow dist + 1) ow2"
  proof -
    have "copyLoop accepting (Suc n) pos ow = rbind (if ow_pos ow' \<ge> winSize ow' then ow_flush accepting ow' else Inr ow') (copyLoop accepting n (windowPos ow dist + 1))"
      using g(2) k unfolding copyLoop.simps Let_def Suc.prems(4) g(3) ow'_def by simp
    then show ?thesis unfolding o(1) by simp
  qed
  have u: "unat (windowPos ow dist + 1) = unat (windowPos ow dist) + 1" using g(2) k(3) by (simp add: unat_word_ariths)
  have "unat (windowPos ow2 dist) = (unat (windowPos ow dist) + 1) mod unat (winSize ow)"
    using windowPos_mod [OF o(2), of dist] windowPos_mod [OF Suc.prems(1), of dist] Suc.prems(3) mod_step [OF Suc.prems(3) k(2)] o(3,4) by simp
  then have "unat (if windowPos ow dist + 1 \<ge> winSize ow2 then 0 else windowPos ow dist + 1) = unat (windowPos ow2 dist)"
    using g(2) u o(3) by (auto simp: word_le_nat_alt mod_if)
  then have next_pos: "(if windowPos ow dist + 1 \<ge> winSize ow2 then 0 else windowPos ow dist + 1) = windowPos ow2 dist" by (simp add: word_unat_eq_iff)
  show ?case using Suc.IH [OF o(2) _ _ next_pos] Suc.prems(2,3) o(3) eq by simp
qed

lemma copyBlock_hist:
  assumes "hist ow H" "unat dist < length H" "unat dist < unat (winSize ow)"
  obtains ow2 where "copyBlock accepting dist len ow = Inr ow2" "hist ow2 (lzcopy (unat len) (unat dist) H)" "winSize ow2 = winSize ow"
proof -
  have "\<not> windowPos ow dist \<ge> winSize ow" using getByte_hist(2) [OF assms] by (simp add: word_le_nat_alt)
  then show ?thesis using copyLoop_hist [OF assms, of "windowPos ow dist" "unat len"] that by (auto simp: copyBlock_def)
qed

lemma flush_hist:
  assumes "hist ow H"
  shows "\<exists>ow2. ow_flush accepting ow = Inr ow2 \<and> ow_w ow2 = H"
proof -
  have k: "length (ow_buf ow) = unat (winSize ow)" "unat (ow_pos ow) < unat (winSize ow)" "ow_streamPos ow = 0" "H = ow_w ow @ take (unat (ow_pos ow)) (ow_buf ow)"
    using assms by (auto simp: hist_def)
  show ?thesis using k by (auto simp: ow_flush_def Let_def accepting_def subslice_def)
qed



text \<open>
  Windows of more than 2 GiB are outside the bound of \<open>hist\<close> for a reason: the subtraction wraps around at \<^verbatim>\<open>2^32\<close>, and the
  test against the window size no longer sees it. Here the distance 1 at position 0 of a window of \<^verbatim>\<open>2^32 - 1\<close> bytes gives the
  last byte of the window instead of the one before it.
\<close>

lemma windowPos_large: "windowPos \<lparr>ow_w = w, ow_buf = b, winSize = 0xFFFFFFFF, ow_pos = 0, ow_streamPos = 0\<rparr> 1 = 0xFFFFFFFF - 1"
  by (simp add: windowPos_def)

end
