(* ===== verification/Lzma_Roundtrip.thy ===== *)
theory Lzma_Roundtrip
  imports Lzma_Packets Lzma_Window
begin

text \<open>
  The LZMA encoder and decoder together: whatever packets the parser chooses, as long as they describe the data, the
  decoder gives the data back. A step of the encoder is simulated by a turn of the decoder's loop.
\<close>

section \<open>Packets that describe the data\<close>

text \<open>From position \<open>n\<close> on, \<open>len\<close> bytes repeat those \<open>dist + 1\<close> bytes before.\<close>

definition copies :: "byte list \<Rightarrow> nat \<Rightarrow> nat \<Rightarrow> nat \<Rightarrow> bool" where
  "copies data n dist len \<longleftrightarrow> dist < n \<and> n + len \<le> length data \<and> (\<forall>j < len. data ! (n + j) = data ! (n + j - dist - 1))"

definition packet_ok :: "byte list \<Rightarrow> nat \<Rightarrow> nat \<Rightarrow> u32 list \<Rightarrow> u32 \<times> u32 \<Rightarrow> bool" where
  "packet_ok data D n reps p =
     (case p of (len, pos) \<Rightarrow>
        if len = 1 \<and> pos = 0xFFFFFFFF then n < length data
        else if pos < 4 then rep_valid len pos \<and> unat (reps ! unat pos) < D \<and> copies data n (unat (reps ! unat pos)) (unat len)
        else 2 \<le> unat len \<and> unat len \<le> 273 \<and> unat (pos - 4) < D \<and> copies data n (unat (pos - 4)) (unat len))"

definition newReps :: "u32 list \<Rightarrow> u32 \<times> u32 \<Rightarrow> u32 list" where
  "newReps reps p =
     (case p of (len, pos) \<Rightarrow>
        if len = 1 \<and> pos = 0xFFFFFFFF then reps else if pos < 4 then moveToFront (unat pos) reps else (pos - 4) # take 3 reps)"

fun packets_ok :: "byte list \<Rightarrow> nat \<Rightarrow> nat \<Rightarrow> u32 list \<Rightarrow> (u32 \<times> u32) list \<Rightarrow> bool" where
  "packets_ok data D n reps [] = (n = length data)"
| "packets_ok data D n reps (p # ps) = (packet_ok data D n reps p \<and> packets_ok data D (n + unat (fst p)) (newReps reps p) ps)"

lemma copies_lzcopy: "copies data n dist len \<Longrightarrow> lzcopy len dist (take n data) = take (n + len) data"
proof (induction len arbitrary: n)
  case (Suc len)
  have c: "dist < n" "n + Suc len \<le> length data" "\<And>j. j < Suc len \<Longrightarrow> data ! (n + j) = data ! (n + j - dist - 1)" using Suc.prems by (auto simp: copies_def)
  have "take n data ! (length (take n data) - 1 - dist) = data ! n" using c(1,2) c(3) [of 0] by (simp add: min_def diff_right_commute)
  then have "take n data @ [take n data ! (length (take n data) - 1 - dist)] = take (Suc n) data" using c(2) by (simp add: take_Suc_conv_app_nth)
  moreover have "copies data (Suc n) dist len" using c(1,2) c(3) [of "Suc _"] by (auto simp: copies_def)
  ultimately show ?case using Suc.IH [of "Suc n"] by simp
qed simp

section \<open>States of the encoder and of the decoder\<close>

definition eok :: "byte list \<Rightarrow> nat \<Rightarrow> nat \<Rightarrow> nat \<Rightarrow> nat \<Rightarrow> nat \<Rightarrow> encoder \<Rightarrow> bool" where
  "eok data D lc lp pb n E \<longleftrightarrow> length data \<le> 2 ^ 25 \<and> D \<le> 2 ^ 31 \<and> pb \<le> 4 \<and> n \<le> length data \<and> e_nowPos E = of_nat n \<and> unat (e_state E) < 12 \<and> length (repDistances E) = 4 \<and>
     e_posStateMask E = push_bit pb 1 - 1 \<and> models_ok lc lp pb (e_models E) \<and>
     (stateIsCharState (e_state E) \<or> unat (repDistances E ! 0) < n \<and> unat (repDistances E ! 0) < D) \<and>
     e_prevByte E = (if n = 0 then 0 else data ! (n - 1))"

definition sim :: "byte list \<Rightarrow> nat \<Rightarrow> nat \<Rightarrow> encoder \<Rightarrow> decoder \<Rightarrow> decVars \<Rightarrow> bool" where
  "sim data D n E z v \<longleftrightarrow> z_models z = e_models E \<and> v_state v = e_state E \<and> [v_rep0 v, v_rep1 v, v_rep2 v, v_rep3 v] = repDistances E \<and>
     v_nowPos v = e_nowPos E \<and> v_prevByte v = e_prevByte E \<and> hist (z_outWin z) (take n data) \<and> z_posStateMask z = e_posStateMask E \<and>
     unat (z_dictSizeCheck z) = D \<and> D \<le> unat (winSize (z_outWin z))"

text \<open>A step of the encoder from \<open>E\<close> to \<open>E'\<close> that a turn of the decoder follows.\<close>

definition followed :: "byte list \<Rightarrow> nat \<Rightarrow> nat \<Rightarrow> nat \<Rightarrow> encoder \<Rightarrow> encoder \<Rightarrow> bool" where
  "followed data D n n' E E' \<longleftrightarrow> (\<forall>F. covers (e_re E') F \<longrightarrow> covers (e_re E) F) \<and>
     (\<forall>F z v. covers (e_re E') F \<longrightarrow> follows F (e_re E) (z_rd z) \<longrightarrow> sim data D n E z v \<longrightarrow>
        (\<exists>z' v'. decodeStep accepting z v = Some (Inr (False, z', v')) \<and> follows F (e_re E') (z_rd z') \<and> sim data D n' E' z' v' \<and> z_unpackSize z' = z_unpackSize z))"

lemma nowPos:
  assumes "eok data D lc lp pb n E"
  shows "uint (e_nowPos E) = int n" "unat (e_nowPos E) = n" "unat (ucast (e_nowPos E) AND e_posStateMask E :: u32) < 2 ^ pb"
proof -
  have n: "n \<le> 2 ^ 25" "e_nowPos E = of_nat n" "pb \<le> 4" "e_posStateMask E = push_bit pb 1 - 1" using assms by (auto simp: eok_def)
  show u: "unat (e_nowPos E) = n" using n(1,2) by (simp add: unat_of_nat)
  then show "uint (e_nowPos E) = int n" by (metis int_nat_eq uint_nonnegative unat_eq_nat_uint)
  show "unat (ucast (e_nowPos E) AND e_posStateMask E :: u32) < 2 ^ pb" using and_pow_mask [of pb] n(3,4) by simp
qed

lemma index_byte:
  assumes "eok data D lc lp pb n E" "0 \<le> int n + off" "nat (int n + off) < length data"
  shows "getIndexByte data (e_nowPos E) off = Inr (data ! nat (int n + off))"
  using assms nowPos(1) [OF assms(1)] by (auto simp: getIndexByte_def Let_def)

section \<open>Literals\<close>

lemma literal_step:
  assumes E: "eok data D lc lp pb n E" and n: "n < length data" and e: "einv (k + 64) (e_re E)"
  obtains E' where "rbind (codeLiteral data E) (\<lambda>z. Inr (z\<lparr>e_nowPos := e_nowPos z + 1\<rparr>)) = Inr E'" "einv k (e_re E')"
    "eok data D lc lp pb (Suc n) E'" "repDistances E' = repDistances E" "e_writeEndMark E' = e_writeEndMark E" "followed data D n (Suc n) E E'"
proof -
  have k: "pb \<le> 4" "D \<le> 2 ^ 31" "unat (e_state E) < 12" "models_ok lc lp pb (e_models E)" "e_nowPos E = of_nat n" "length data \<le> 2 ^ 25" "length (repDistances E) = 4"
    and ch: "stateIsCharState (e_state E) \<or> unat (repDistances E ! 0) < n \<and> unat (repDistances E ! 0) < D" using E by (auto simp: eok_def)
  define ps where "ps = (ucast (e_nowPos E) AND e_posStateMask E :: u32)"
  have p16: "unat ps < 16" using nowPos(3) [OF E] pow_pb [OF k(1)] by (simp add: ps_def)
  define r0 where "r0 = unat (repDistances E ! 0)"
  define mb where "mb = (if stateIsCharState (e_state E) then None else Some (data ! (n - 1 - r0)))"
  have cur: "getIndexByte data (e_nowPos E) 0 = Inr (data ! n)" using index_byte [OF E, of 0] n by simp
  have mbE: "(if stateIsCharState (e_state E) = False then rbind (getIndexByte data (e_nowPos E) (- sint (repDistances E ! 0) - 1)) (\<lambda>b. Inr (Some b)) else Inr None) = Inr mb"
  proof (cases "stateIsCharState (e_state E)")
    case False
    then have r: "r0 < n" "r0 < 2 ^ 31" using ch k(2) by (auto simp: r0_def)
    have si: "sint (repDistances E ! 0) = int r0" unfolding r0_def by (rule sint_small) (use r in \<open>simp add: r0_def\<close>)
    have "getIndexByte data (e_nowPos E) (- sint (repDistances E ! 0) - 1) = Inr (data ! nat (int n + (- int r0 - 1)))"
      unfolding si by (rule index_byte [OF E]) (use r n in linarith)+
    moreover have "nat (int n + (- int r0 - 1)) = n - 1 - r0" using r by simp
    ultimately show ?thesis using False by (simp add: mb_def)
  qed (simp add: mb_def)
  have M: "probs_ok 192 (matchDecoders (e_models E))" using k(4) by (simp add: models_ok_def)
  have e1: "einv ((k + 55 + 8) + 1) (e_re E)" using e by (simp add: ac_simps)
  obtain x f1 where s1: "re_encode (matchDecoders (e_models E)) (push_bit kNumPosStatesBitsMax (e_state E) + ps) 0 (e_re E) = Inr (x, f1)" "probs_ok 192 x" "einv (k + 55 + 8) f1"
    "\<And>F. covers f1 F \<Longrightarrow> covers (e_re E) F"
    "\<And>F d. covers f1 F \<Longrightarrow> follows F (e_re E) d \<Longrightarrow> \<exists>d'. decodeBit (matchDecoders (e_models E)) (push_bit kNumPosStatesBitsMax (e_state E) + ps) d = Inr (0, x, d') \<and> follows F f1 d'"
    using codesE [OF codes_bit [OF index12 [OF k(3) p16]] M e1, of 0] by metis
  let ?m = "e_models E\<lparr>matchDecoders := x\<rparr>"
  have m1: "models_ok lc lp pb ?m" using k(4) s1(2) by (simp add: models_ok_def)
  obtain m2 f2 where s2: "encodeLiteral (e_nowPos E) (e_prevByte E) mb (data ! n) ?m f1 = Inr (m2, f2)" "models_ok lc lp pb m2" "einv (k + 55) f2"
    "\<And>F. covers f2 F \<Longrightarrow> covers f1 F"
    "\<And>F d. covers f2 F \<Longrightarrow> follows F f1 d \<Longrightarrow> \<exists>d'. returned (decodeLiteral (e_nowPos E) (e_prevByte E) mb ?m d) = Inr (data ! n, m2, d') \<and> follows F f2 d'"
    using codesE [OF codes_literal m1 s1(3)] by metis
  define E' where "E' = E\<lparr>e_re := f2, e_models := m2, e_prevByte := data ! n, e_state := stateUpdateChar (e_state E), e_nowPos := e_nowPos E + 1\<rparr>"
  have st: "unat (stateUpdateChar (e_state E)) < 7" by (rule state_less(1) [OF k(3)])
  have enc: "rbind (codeLiteral data E) (\<lambda>z. Inr (z\<lparr>e_nowPos := e_nowPos z + 1\<rparr>)) = Inr E'"
    using s1(1) s2(1) unfolding codeLiteral_def Let_def ps_def [symmetric] by (simp add: cur mbE [simplified] E'_def)
  have ok: "eok data D lc lp pb (Suc n) E'"
    using E n s2(2) st by (auto simp: eok_def E'_def stateIsCharState_def word_less_nat_alt)
  have dec: "followed data D n (Suc n) E E'"
    unfolding followed_def
  proof (intro conjI allI impI)
    show "covers (e_re E) F" if "covers (e_re E') F" for F using that s1(4) s2(4) by (simp add: E'_def)
    fix F z v assume F: "covers (e_re E') F" and f: "follows F (e_re E) (z_rd z)" and s: "sim data D n E z v"
    have c2: "covers f2 F" "covers f1 F" using F s2(4) by (auto simp: E'_def)
    obtain d1 where d1: "decodeBit (matchDecoders (e_models E)) (push_bit kNumPosStatesBitsMax (e_state E) + ps) (z_rd z) = Inr (0, x, d1)" "follows F f1 d1" using s1(5) [OF c2(2) f] by blast
    obtain d2 where d2: "decodeLiteral (e_nowPos E) (e_prevByte E) mb ?m d1 = Some (Inr (data ! n, m2, d2))" "follows F f2 d2" using s2(5) [OF c2(1) d1(2)] by (auto simp: returned_Inr)
    have "repDistances E = [v_rep0 v, v_rep1 v, v_rep2 v, v_rep3 v]" using s by (simp add: sim_def)
    then have z: "z_models z = e_models E" "v_state v = e_state E" "v_rep0 v = repDistances E ! 0" "v_nowPos v = e_nowPos E" "v_prevByte v = e_prevByte E" "hist (z_outWin z) (take n data)"
      "z_posStateMask z = e_posStateMask E" "D \<le> unat (winSize (z_outWin z))" using s by (auto simp: sim_def)
    have g: "getByte (v_rep0 v) (z_outWin z) = Inr (data ! (n - 1 - r0))" if "\<not> stateIsCharState (e_state E)"
      using getByte_hist(1) [OF z(6), of "v_rep0 v"] ch that n z(3,8) by (auto simp: r0_def)
    obtain ow where ow: "putByte accepting (data ! n) (z_outWin z) = Inr ow" "hist ow (take n data @ [data ! n])" "winSize ow = winSize (z_outWin z)" using putByte_hist [OF z(6)] by metis
    have h: "hist ow (take (Suc n) data)" using ow(2) n by (simp add: take_Suc_conv_app_nth)
    show "\<exists>z' v'. decodeStep accepting z v = Some (Inr (False, z', v')) \<and> follows F (e_re E') (z_rd z') \<and> sim data D (Suc n) E' z' v' \<and> z_unpackSize z' = z_unpackSize z"
      using d1(1) d2(1) ow(1,3) d2(2) s h z g unfolding decodeStep_def Let_def z(7) z(4) ps_def [symmetric]
      by (auto simp: mb_def sim_def E'_def)
  qed
  show ?thesis by (rule that [OF enc _ ok _ _ dec]) (use s2(3) in \<open>auto simp: E'_def einv_def\<close>)
qed

section \<open>Matches\<close>

text \<open>The two bits in front of a match: it is not a literal; it is or is not a repeated one.\<close>

lemma two_bits:
  assumes m: "models_ok lc lp pb m" and s: "unat s < 12" and p: "unat ps < 16" and b: "b = 0 \<or> b = 1" and e: "einv (k + 2) e"
  obtains x y f1 f2 where "re_encode (matchDecoders m) (push_bit kNumPosStatesBitsMax s + ps) 1 e = Inr (x, f1)" "re_encode (repDecoders m) s b f1 = Inr (y, f2)"
    "models_ok lc lp pb (m\<lparr>matchDecoders := x, repDecoders := y\<rparr>)" "einv k f2" "\<And>F. covers f2 F \<Longrightarrow> covers e F"
    "\<And>F d. covers f2 F \<Longrightarrow> follows F e d \<Longrightarrow> \<exists>d1 d2. decodeBit (matchDecoders m) (push_bit kNumPosStatesBitsMax s + ps) d = Inr (1, x, d1) \<and>
       decodeBit (repDecoders m) s d1 = Inr (b, y, d2) \<and> follows F f2 d2"
proof -
  have e1: "einv ((k + 1) + 1) e" using e by (simp add: ac_simps)
  have M: "probs_ok 192 (matchDecoders m)" "probs_ok 12 (repDecoders m)" using m by (simp_all add: models_ok_def)
  obtain x f1 where s1: "re_encode (matchDecoders m) (push_bit kNumPosStatesBitsMax s + ps) 1 e = Inr (x, f1)" "probs_ok 192 x" "einv (k + 1) f1"
    "\<And>F. covers f1 F \<Longrightarrow> covers e F"
    "\<And>F d. covers f1 F \<Longrightarrow> follows F e d \<Longrightarrow> \<exists>d'. decodeBit (matchDecoders m) (push_bit kNumPosStatesBitsMax s + ps) d = Inr (1, x, d') \<and> follows F f1 d'"
    using codesE [OF codes_bit [OF index12 [OF s p]] M(1) e1, of 1] by metis
  obtain y f2 where s2: "re_encode (repDecoders m) s b f1 = Inr (y, f2)" "probs_ok 12 y" "einv k f2" "\<And>F. covers f2 F \<Longrightarrow> covers f1 F"
    "\<And>F d. covers f2 F \<Longrightarrow> follows F f1 d \<Longrightarrow> \<exists>d'. decodeBit (repDecoders m) s d = Inr (b, y, d') \<and> follows F f2 d'"
    using codesE [OF codes_bit [OF s b] M(2) s1(3)] by metis
  show ?thesis
  proof (rule that [OF s1(1) s2(1) _ s2(3)])
    show "models_ok lc lp pb (m\<lparr>matchDecoders := x, repDecoders := y\<rparr>)" using m s1(2) s2(2) by (simp add: models_ok_def)
  qed (use s1(4,5) s2(4,5) in meson)+
qed

lemma copyMatch_hist:
  assumes h: "hist (z_outWin z) (take n data)" and n: "v_nowPos v = of_nat n" "length data \<le> 2 ^ 25" and len: "0 < unat len"
    and d: "unat (v_rep0 v) < unat (z_dictSizeCheck z)" "unat (z_dictSizeCheck z) \<le> unat (winSize (z_outWin z))" and c: "copies data n (unat (v_rep0 v)) (unat len)"
  obtains ow where "copyMatch accepting len z v = Inr (z\<lparr>z_outWin := ow\<rparr>, v\<lparr>v_nowPos := v_nowPos v + ucast len, v_prevByte := data ! (n + unat len - 1)\<rparr>)"
    "hist ow (take (n + unat len) data)" "winSize ow = winSize (z_outWin z)"
proof -
  have c': "unat (v_rep0 v) < n" "n + unat len \<le> length data" using c by (auto simp: copies_def)
  have un: "unat (of_nat n :: u64) = n" using c'(2) n(2) by (simp add: unat_of_nat)
  have ur: "unat (ucast (v_rep0 v) :: u64) = unat (v_rep0 v)" using unat32 [of "v_rep0 v"] by (simp add: unsigned_ucast_eq take_bit_eq_mod)
  have chk: "\<not> (ucast (v_rep0 v) \<ge> v_nowPos v \<or> v_rep0 v \<ge> z_dictSizeCheck z)"
    unfolding n(1) word_le_nat_alt un ur using c'(1) d(1) by simp
  obtain ow where ow: "copyBlock accepting (v_rep0 v) len (z_outWin z) = Inr ow" "hist ow (lzcopy (unat len) (unat (v_rep0 v)) (take n data))" "winSize ow = winSize (z_outWin z)"
    using copyBlock_hist [OF h, of "v_rep0 v" len] c' d by auto
  have h': "hist ow (take (n + unat len) data)" using ow(2) by (simp add: copies_lzcopy [OF c])
  have "getByte 0 ow = Inr (data ! (n + unat len - 1))"
    using getByte_hist(1) [OF h', of 0] c'(2) len d(1) d(2) ow(3) by auto
  then have "copyMatch accepting len z v = Inr (z\<lparr>z_outWin := ow\<rparr>, v\<lparr>v_nowPos := v_nowPos v + ucast len, v_prevByte := data ! (n + unat len - 1)\<rparr>)"
    unfolding copyMatch_def if_not_P [OF chk] ow(1) by simp
  then show ?thesis using that h' ow(3) by blast
qed

lemma state_match: "\<not> stateIsCharState (stateUpdateMatch s)" "\<not> stateIsCharState (stateUpdateRep s)" "\<not> stateIsCharState (stateUpdateShortRep s)"
  by (auto simp: stateIsCharState_def stateUpdateMatch_def stateUpdateRep_def stateUpdateShortRep_def)

text \<open>The encoder after a match of \<open>len\<close> bytes.\<close>

definition matched :: "byte list \<Rightarrow> nat \<Rightarrow> u32 \<Rightarrow> rangeEncoder \<Rightarrow> lzmaModels \<Rightarrow> u32 \<Rightarrow> u32 list \<Rightarrow> encoder \<Rightarrow> encoder" where
  "matched data n len f m st reps E =
     E\<lparr>e_re := f, e_models := m, e_state := st, repDistances := reps, e_prevByte := data ! (n + unat len - 1), e_nowPos := e_nowPos E + ucast len\<rparr>"

lemma matched_eok:
  assumes E: "eok data D lc lp pb n E" and "models_ok lc lp pb m" "unat st < 12" "length reps = 4" "unat (reps ! 0) < D" and c: "copies data n (unat (reps ! 0)) (unat len)" and len: "0 < unat len"
  shows "eok data D lc lp pb (n + unat len) (matched data n len f m st reps E)"
proof -
  have "n + unat len \<le> length data" "unat (reps ! 0) < n" using c by (auto simp: copies_def)
  moreover have "e_nowPos E + ucast len = of_nat (n + unat len)" using E by (simp add: eok_def)
  ultimately show ?thesis using assms by (auto simp: eok_def matched_def)
qed

lemma matched_byte:
  assumes E: "eok data D lc lp pb n E" and c: "copies data n d (unat len)" and len: "0 < unat len"
  shows "getIndexByte data (e_nowPos E) (uint len - 1) = Inr (data ! (n + unat len - 1))"
proof -
  have c': "n + unat len \<le> length data" using c by (simp add: copies_def)
  have u: "uint len = int (unat len)" by simp
  have "getIndexByte data (e_nowPos E) (int (unat len) - 1) = Inr (data ! nat (int n + (int (unat len) - 1)))"
    by (rule index_byte [OF E]) (use c' len in linarith)+
  moreover have "nat (int n + (int (unat len) - 1)) = n + unat len - 1" using len by linarith
  ultimately show ?thesis unfolding u by (simp only:)
qed

lemma repAt_list: "i < 4 \<Longrightarrow> (case repAt i (r0, r1, r2, r3) of (a, b, c, d) \<Rightarrow> [a, b, c, d]) = moveToFront i [r0, r1, r2, r3]"
proof -
  assume "i < 4"
  then have "i = 0 \<or> i = 1 \<or> i = 2 \<or> i = 3" by arith
  then show ?thesis by (auto simp: repAt_def moveToFront_def)
qed

lemma match_step:
  assumes E: "eok data D lc lp pb n E" and e: "einv (k + 64) (e_re E)" and pk: "packet_ok data D n (repDistances E) (len, pos)" "\<not> pos < 4" "\<not> (len = 1 \<and> pos = 0xFFFFFFFF)"
  obtains E' where "codePacket data (len, pos) E = Inr E'" "einv k (e_re E')" "eok data D lc lp pb (n + unat len) E'" "repDistances E' = newReps (repDistances E) (len, pos)"
    "e_writeEndMark E' = e_writeEndMark E" "followed data D n (n + unat len) E E'"
proof -
  have k: "pb \<le> 4" "D \<le> 2 ^ 31" "unat (e_state E) < 12" "models_ok lc lp pb (e_models E)" "e_nowPos E = of_nat n" "length data \<le> 2 ^ 25" "length (repDistances E) = 4" using E by (auto simp: eok_def)
  define dist where "dist = pos - 4"
  have len: "2 \<le> unat len" "unat len \<le> 273" "0 < unat len" and d: "unat dist < D" "copies data n (unat dist) (unat len)"
    using pk by (auto simp: packet_ok_def dist_def split: if_splits)
  define ps where "ps = (ucast (e_nowPos E) AND e_posStateMask E :: u32)"
  have ps: "unat ps < 2 ^ pb" using nowPos(3) [OF E] by (simp add: ps_def)
  then have p16: "unat ps < 16" using pow_pb [OF k(1)] by simp
  have e2: "einv ((k + 16 + 46) + 2) (e_re E)" using e by (simp add: ac_simps)
  obtain x y f1 f2 where s1: "re_encode (matchDecoders (e_models E)) (push_bit kNumPosStatesBitsMax (e_state E) + ps) 1 (e_re E) = Inr (x, f1)" "re_encode (repDecoders (e_models E)) (e_state E) 0 f1 = Inr (y, f2)"
    "models_ok lc lp pb (e_models E\<lparr>matchDecoders := x, repDecoders := y\<rparr>)" "einv (k + 16 + 46) f2" "\<And>F. covers f2 F \<Longrightarrow> covers (e_re E) F"
    "\<And>F d. covers f2 F \<Longrightarrow> follows F (e_re E) d \<Longrightarrow> \<exists>d1 d2. decodeBit (matchDecoders (e_models E)) (push_bit kNumPosStatesBitsMax (e_state E) + ps) d = Inr (1, x, d1) \<and>
       decodeBit (repDecoders (e_models E)) (e_state E) d1 = Inr (0, y, d2) \<and> follows F f2 d2"
    using two_bits [OF k(4,3) p16 _ e2, of 0] by metis
  let ?m = "e_models E\<lparr>matchDecoders := x, repDecoders := y\<rparr>"
  have d31: "unat dist < 2 ^ 31" using d(1) k(2) by simp
  obtain m3 f3 where s3: "encodeMatch ps len dist ?m f2 = Inr (m3, f3)" "models_ok lc lp pb m3" "einv (k + 16) f3" "\<And>F. covers f3 F \<Longrightarrow> covers f2 F"
    "\<And>F d. covers f3 F \<Longrightarrow> follows F f2 d \<Longrightarrow> \<exists>d'. decodeMatch (e_state E) ps ?m d = Inr ((len, stateUpdateMatch (e_state E), Some dist), m3, d') \<and> follows F f3 d'"
    using codesE [OF codes_match [OF ps len(1,2) d31, where state = "e_state E"] s1(3,4)] by metis
  define E' where "E' = matched data n len f3 m3 (stateUpdateMatch (e_state E)) (dist # take 3 (repDistances E)) E"
  have enc: "codePacket data (len, pos) E = Inr E'"
    using pk(2) s1(1,2) s3(1) matched_byte [OF E d(2) len(3)] unfolding codePacket_def prod.case if_not_P [OF pk(3)] codeMatch_def Let_def ps_def [symmetric]
    by (simp add: kNumRepDistances_def dist_def [symmetric] E'_def matched_def)
  have ok: "eok data D lc lp pb (n + unat len) E'" unfolding E'_def by (rule matched_eok [OF E s3(2)]) (use k(7) d len state_less in auto)
  have dec: "followed data D n (n + unat len) E E'"
    unfolding followed_def
  proof (intro conjI allI impI)
    show "covers (e_re E) F" if "covers (e_re E') F" for F using that s1(5) s3(4) by (simp add: E'_def matched_def)
    fix F z v assume F: "covers (e_re E') F" and f: "follows F (e_re E) (z_rd z)" and s: "sim data D n E z v"
    have c2: "covers f3 F" "covers f2 F" using F s3(4) by (auto simp: E'_def matched_def)
    obtain d1 d2 where d1: "decodeBit (matchDecoders (e_models E)) (push_bit kNumPosStatesBitsMax (e_state E) + ps) (z_rd z) = Inr (1, x, d1)"
      "decodeBit (repDecoders (e_models E)) (e_state E) d1 = Inr (0, y, d2)" "follows F f2 d2" using s1(6) [OF c2(2) f] by blast
    obtain d3 where d3: "decodeMatch (e_state E) ps ?m d2 = Inr ((len, stateUpdateMatch (e_state E), Some dist), m3, d3)" "follows F f3 d3" using s3(5) [OF c2(1) d1(3)] by blast
    have z: "z_models z = e_models E" "v_state v = e_state E" "repDistances E = [v_rep0 v, v_rep1 v, v_rep2 v, v_rep3 v]" "v_nowPos v = e_nowPos E" "hist (z_outWin z) (take n data)"
      "z_posStateMask z = e_posStateMask E" "unat (z_dictSizeCheck z) = D" "D \<le> unat (winSize (z_outWin z))" using s by (auto simp: sim_def)
    let ?z = "z\<lparr>z_rd := d3, z_models := m3\<rparr>"
    let ?v = "v\<lparr>v_state := stateUpdateMatch (e_state E), v_rep1 := v_rep0 v, v_rep2 := v_rep1 v, v_rep3 := v_rep2 v, v_rep0 := dist\<rparr>"
    obtain ow where ow: "copyMatch accepting len ?z ?v = Inr (?z\<lparr>z_outWin := ow\<rparr>, ?v\<lparr>v_nowPos := v_nowPos v + ucast len, v_prevByte := data ! (n + unat len - 1)\<rparr>)"
      "hist ow (take (n + unat len) data)" "winSize ow = winSize (z_outWin z)"
      using copyMatch_hist [of ?z n data ?v len] z k(5,6) d len(3) by auto
    have "decodeStep accepting z v = Some (Inr (False, ?z\<lparr>z_outWin := ow\<rparr>, ?v\<lparr>v_nowPos := v_nowPos v + ucast len, v_prevByte := data ! (n + unat len - 1)\<rparr>))"
      using d1(1,2) d3(1) ow(1) z unfolding decodeStep_def Let_def z(6) z(4) ps_def [symmetric] by simp
    then show "\<exists>z' v'. decodeStep accepting z v = Some (Inr (False, z', v')) \<and> follows F (e_re E') (z_rd z') \<and> sim data D (n + unat len) E' z' v' \<and> z_unpackSize z' = z_unpackSize z"
      using d3(2) ow(2,3) z by (auto simp: sim_def E'_def matched_def)
  qed
  have "newReps (repDistances E) (len, pos) = dist # take 3 (repDistances E)" using pk(2) unfolding newReps_def prod.case if_not_P [OF pk(3)] by (simp add: dist_def)
  then show ?thesis by (intro that [OF enc _ ok _ _ dec]) (use s3(3) in \<open>auto simp: E'_def matched_def einv_def\<close>)
qed

lemma rep_step:
  assumes E: "eok data D lc lp pb n E" and e: "einv (k + 64) (e_re E)" and pk: "packet_ok data D n (repDistances E) (len, pos)" "pos < 4" "\<not> (len = 1 \<and> pos = 0xFFFFFFFF)"
  obtains E' where "codePacket data (len, pos) E = Inr E'" "einv k (e_re E')" "eok data D lc lp pb (n + unat len) E'" "repDistances E' = newReps (repDistances E) (len, pos)"
    "e_writeEndMark E' = e_writeEndMark E" "followed data D n (n + unat len) E E'"
proof -
  have k: "pb \<le> 4" "D \<le> 2 ^ 31" "unat (e_state E) < 12" "models_ok lc lp pb (e_models E)" "e_nowPos E = of_nat n" "length data \<le> 2 ^ 25" "length (repDistances E) = 4" using E by (auto simp: eok_def)
  have p4: "unat pos < 4" using pk(2) by (simp add: word_less_nat_alt)
  define dist where "dist = repDistances E ! unat pos"
  have rv: "rep_valid len pos" and d: "unat dist < D" "copies data n (unat dist) (unat len)" using pk by (auto simp: packet_ok_def dist_def split: if_splits)
  have len: "0 < unat len" using rv by (auto simp: rep_valid_def)
  obtain r0 r1 r2 r3 where r: "repDistances E = [r0, r1, r2, r3]" using k(7) by (auto simp: eval_nat_numeral length_Suc_conv)
  obtain a b c g where abc: "repAt (unat pos) (r0, r1, r2, r3) = (a, b, c, g)" by (metis prod_cases4)
  have mf: "moveToFront (unat pos) (repDistances E) = [a, b, c, g]" using repAt_list [OF p4, of r0 r1 r2 r3] abc r by simp
  then have a: "a = dist" by (simp add: moveToFront_def dist_def)
  define ps where "ps = (ucast (e_nowPos E) AND e_posStateMask E :: u32)"
  have ps: "unat ps < 2 ^ pb" using nowPos(3) [OF E] by (simp add: ps_def)
  then have p16: "unat ps < 16" using pow_pb [OF k(1)] by simp
  define st where "st = (if len = 1 then stateUpdateShortRep (e_state E) else stateUpdateRep (e_state E))"
  have e2: "einv ((k + 48 + 14) + 2) (e_re E)" using e by (simp add: ac_simps)
  obtain x y f1 f2 where s1: "re_encode (matchDecoders (e_models E)) (push_bit kNumPosStatesBitsMax (e_state E) + ps) 1 (e_re E) = Inr (x, f1)" "re_encode (repDecoders (e_models E)) (e_state E) 1 f1 = Inr (y, f2)"
    "models_ok lc lp pb (e_models E\<lparr>matchDecoders := x, repDecoders := y\<rparr>)" "einv (k + 48 + 14) f2" "\<And>F. covers f2 F \<Longrightarrow> covers (e_re E) F"
    "\<And>F d. covers f2 F \<Longrightarrow> follows F (e_re E) d \<Longrightarrow> \<exists>d1 d2. decodeBit (matchDecoders (e_models E)) (push_bit kNumPosStatesBitsMax (e_state E) + ps) d = Inr (1, x, d1) \<and>
       decodeBit (repDecoders (e_models E)) (e_state E) d1 = Inr (1, y, d2) \<and> follows F f2 d2"
    using two_bits [OF k(4,3) p16 _ e2, of 1] by metis
  let ?m = "e_models E\<lparr>matchDecoders := x, repDecoders := y\<rparr>"
  obtain m3 f3 where s3: "encodeRep (e_state E) ps pos len ?m f2 = Inr (m3, f3)" "models_ok lc lp pb m3" "einv (k + 48) f3" "\<And>F. covers f3 F \<Longrightarrow> covers f2 F"
    "\<And>F d. covers f3 F \<Longrightarrow> follows F f2 d \<Longrightarrow> \<exists>d'. decodeRep (e_state E) ps (r0, r1, r2, r3) ?m d = Inr ((len, st, a, b, c, g), m3, d') \<and> follows F f3 d'"
    using codesE [OF codes_rep [OF k(3) ps k(1) rv, where reps = "(r0, r1, r2, r3)", unfolded abc] s1(3,4)] unfolding st_def by metis
  define E' where "E' = matched data n len f3 m3 st [a, b, c, g] E"
  have enc: "codePacket data (len, pos) E = Inr E'"
    using pk(2) s1(1,2) s3(1) matched_byte [OF E d(2) len] unfolding codePacket_def prod.case if_not_P [OF pk(3)] codeMatch_def Let_def ps_def [symmetric]
    by (simp add: kNumRepDistances_def E'_def matched_def mf st_def)
  have ok: "eok data D lc lp pb (n + unat len) E'" unfolding E'_def by (rule matched_eok [OF E s3(2)]) (use a d len state_less in \<open>auto simp: st_def\<close>)
  have dec: "followed data D n (n + unat len) E E'"
    unfolding followed_def
  proof (intro conjI allI impI)
    show "covers (e_re E) F" if "covers (e_re E') F" for F using that s1(5) s3(4) by (simp add: E'_def matched_def)
    fix F z v assume F: "covers (e_re E') F" and f: "follows F (e_re E) (z_rd z)" and s: "sim data D n E z v"
    have c2: "covers f3 F" "covers f2 F" using F s3(4) by (auto simp: E'_def matched_def)
    obtain d1 d2 where d1: "decodeBit (matchDecoders (e_models E)) (push_bit kNumPosStatesBitsMax (e_state E) + ps) (z_rd z) = Inr (1, x, d1)"
      "decodeBit (repDecoders (e_models E)) (e_state E) d1 = Inr (1, y, d2)" "follows F f2 d2" using s1(6) [OF c2(2) f] by blast
    obtain d3 where d3: "decodeRep (e_state E) ps (r0, r1, r2, r3) ?m d2 = Inr ((len, st, a, b, c, g), m3, d3)" "follows F f3 d3" using s3(5) [OF c2(1) d1(3)] by blast
    have z: "z_models z = e_models E" "v_state v = e_state E" "v_rep0 v = r0" "v_rep1 v = r1" "v_rep2 v = r2" "v_rep3 v = r3" "v_nowPos v = e_nowPos E" "hist (z_outWin z) (take n data)"
      "z_posStateMask z = e_posStateMask E" "unat (z_dictSizeCheck z) = D" "D \<le> unat (winSize (z_outWin z))" using s r by (auto simp: sim_def)
    let ?z = "z\<lparr>z_rd := d3, z_models := m3\<rparr>"
    let ?v = "v\<lparr>v_state := st, v_rep0 := a, v_rep1 := b, v_rep2 := c, v_rep3 := g\<rparr>"
    obtain ow where ow: "copyMatch accepting len ?z ?v = Inr (?z\<lparr>z_outWin := ow\<rparr>, ?v\<lparr>v_nowPos := v_nowPos v + ucast len, v_prevByte := data ! (n + unat len - 1)\<rparr>)"
      "hist ow (take (n + unat len) data)" "winSize ow = winSize (z_outWin z)"
      using copyMatch_hist [of ?z n data ?v len] z k(5,6) d len a by auto
    have "decodeStep accepting z v = Some (Inr (False, ?z\<lparr>z_outWin := ow\<rparr>, ?v\<lparr>v_nowPos := v_nowPos v + ucast len, v_prevByte := data ! (n + unat len - 1)\<rparr>))"
      using d1(1,2) d3(1) ow(1) z unfolding decodeStep_def Let_def z(9) z(7) ps_def [symmetric] by simp
    then show "\<exists>z' v'. decodeStep accepting z v = Some (Inr (False, z', v')) \<and> follows F (e_re E') (z_rd z') \<and> sim data D (n + unat len) E' z' v' \<and> z_unpackSize z' = z_unpackSize z"
      using d3(2) ow(2,3) z by (auto simp: sim_def E'_def matched_def)
  qed
  have "newReps (repDistances E) (len, pos) = [a, b, c, g]" using pk(2) mf unfolding newReps_def prod.case if_not_P [OF pk(3)] by simp
  then show ?thesis by (intro that [OF enc _ ok _ _ dec]) (use s3(3) in \<open>auto simp: E'_def matched_def einv_def\<close>)
qed

section \<open>The loop\<close>

lemma packet_step:
  assumes E: "eok data D lc lp pb n E" and e: "einv (k + 64) (e_re E)" and pk: "packet_ok data D n (repDistances E) p"
  obtains E' where "codePacket data p E = Inr E'" "einv k (e_re E')" "eok data D lc lp pb (n + unat (fst p)) E'" "repDistances E' = newReps (repDistances E) p"
    "e_writeEndMark E' = e_writeEndMark E" "followed data D n (n + unat (fst p)) E E'"
proof -
  obtain len pos where p: "p = (len, pos)" by (cases p)
  consider (lit) "len = 1 \<and> pos = 0xFFFFFFFF" | (rep) "\<not> (len = 1 \<and> pos = 0xFFFFFFFF)" "pos < 4" | (mat) "\<not> (len = 1 \<and> pos = 0xFFFFFFFF)" "\<not> pos < 4" by blast
  then show ?thesis
  proof cases
    case lit
    then have n: "n < length data" using pk p by (simp add: packet_ok_def)
    obtain E' where "rbind (codeLiteral data E) (\<lambda>z. Inr (z\<lparr>e_nowPos := e_nowPos z + 1\<rparr>)) = Inr E'" "einv k (e_re E')"
      "eok data D lc lp pb (Suc n) E'" "repDistances E' = repDistances E" "e_writeEndMark E' = e_writeEndMark E" "followed data D n (Suc n) E E'"
      using literal_step [OF E n e] by blast
    then show ?thesis using lit by (intro that [of E']) (auto simp: p codePacket_def newReps_def)
  next
    case rep
    then show ?thesis using rep_step [OF E e, of len pos] pk that by (auto simp: p)
  next
    case mat
    then show ?thesis using match_step [OF E e, of len pos] pk that by (auto simp: p)
  qed
qed

text \<open>The decoder knows the size of the data, or reads until the end marker.\<close>

definition sized :: "byte list \<Rightarrow> decoder \<Rightarrow> bool" where
  "sized data z \<longleftrightarrow> sint (z_unpackSize z) < 0 \<or> sint (z_unpackSize z) = int (length data)"

definition runs :: "byte list \<Rightarrow> nat \<Rightarrow> nat \<Rightarrow> nat \<Rightarrow> encoder \<Rightarrow> encoder \<Rightarrow> bool" where
  "runs data D n n' E E' \<longleftrightarrow> (\<forall>F. covers (e_re E') F \<longrightarrow> covers (e_re E) F) \<and>
     (\<forall>F z v. covers (e_re E') F \<longrightarrow> follows F (e_re E) (z_rd z) \<longrightarrow> sim data D n E z v \<longrightarrow> sized data z \<longrightarrow>
        (\<exists>z' v'. decodeLoop accepting z v = decodeLoop accepting z' v' \<and> follows F (e_re E') (z_rd z') \<and> sim data D n' E' z' v' \<and> z_unpackSize z' = z_unpackSize z))"

lemma sint_nowPos: "n \<le> 2 ^ 25 \<Longrightarrow> sint (of_nat n :: u64) = int n"
proof -
  assume n: "n \<le> 2 ^ 25"
  have "uint (of_nat n :: u64) = int n" using n by (simp add: unsigned_of_nat take_bit_eq_mod)
  moreover have "signed_take_bit 63 (int n) = int n" by (rule signed_take_bit_int_eq_self) (use n in simp_all)
  ultimately show ?thesis by (simp add: sint_uint)
qed

lemma followed_runs:
  assumes "followed data D n n' E E'" "eok data D lc lp pb n E" "n < length data"
  shows "runs data D n n' E E'"
  unfolding runs_def
proof (intro conjI allI impI)
  show "covers (e_re E') F \<Longrightarrow> covers (e_re E) F" for F using assms(1) by (simp add: followed_def)
  fix F z v assume h: "covers (e_re E') F" "follows F (e_re E) (z_rd z)" "sim data D n E z v" "sized data z"
  then obtain z' v' where z': "decodeStep accepting z v = Some (Inr (False, z', v'))" "follows F (e_re E') (z_rd z')" "sim data D n' E' z' v'" "z_unpackSize z' = z_unpackSize z"
    using assms(1) unfolding followed_def by meson
  have "v_nowPos v = of_nat n" "n \<le> 2 ^ 25" using h(3) assms(2) by (auto simp: sim_def eok_def)
  then have "sint (z_unpackSize z) < 0 \<or> sint (v_nowPos v) < sint (z_unpackSize z)" using h(4) assms(3) by (auto simp: sized_def sint_nowPos)
  then have "decodeLoop accepting z v = decodeLoop accepting z' v'" using z'(1) unfolding decodeLoop.simps [of accepting z v] by simp
  then show "\<exists>z' v'. decodeLoop accepting z v = decodeLoop accepting z' v' \<and> follows F (e_re E') (z_rd z') \<and> sim data D n' E' z' v' \<and> z_unpackSize z' = z_unpackSize z"
    using z' by blast
qed

lemma runs_trans:
  assumes 1: "runs data D n n' E E'" and 2: "runs data D n' n'' E' E''"
  shows "runs data D n n'' E E''"
  unfolding runs_def
proof (intro conjI allI impI)
  show "covers (e_re E'') F \<Longrightarrow> covers (e_re E) F" for F using 1 2 by (simp add: runs_def)
  fix F z v assume h: "covers (e_re E'') F" "follows F (e_re E) (z_rd z)" "sim data D n E z v" "sized data z"
  have c: "covers (e_re E') F" using 2 h(1) by (simp add: runs_def)
  obtain z' v' where z': "decodeLoop accepting z v = decodeLoop accepting z' v'" "follows F (e_re E') (z_rd z')" "sim data D n' E' z' v'" "z_unpackSize z' = z_unpackSize z"
    using 1 c h unfolding runs_def by meson
  have "sized data z'" using h(4) z'(4) by (simp add: sized_def)
  then obtain z2 v2 where "decodeLoop accepting z' v' = decodeLoop accepting z2 v2" "follows F (e_re E'') (z_rd z2)" "sim data D n'' E'' z2 v2" "z_unpackSize z2 = z_unpackSize z'"
    using 2 h(1) z'(2,3) unfolding runs_def by meson
  then show "\<exists>z' v'. decodeLoop accepting z v = decodeLoop accepting z' v' \<and> follows F (e_re E'') (z_rd z') \<and> sim data D n'' E'' z' v' \<and> z_unpackSize z' = z_unpackSize z"
    using z' by metis
qed

lemma packet_less: "packet_ok data D n reps p \<Longrightarrow> n < length data"
  by (auto simp: packet_ok_def copies_def rep_valid_def split: if_splits prod.splits)

lemma packets_run:
  assumes "packets_ok data D n (repDistances E) ps" "eok data D lc lp pb n E" "einv (k + 64 * length ps) (e_re E)"
  shows "\<exists>E'. codePackets data ps E = Inr E' \<and> einv k (e_re E') \<and> eok data D lc lp pb (length data) E' \<and> e_writeEndMark E' = e_writeEndMark E \<and> runs data D n (length data) E E'"
  using assms
proof (induction ps arbitrary: n E)
  case Nil
  then have "runs data D n (length data) E E" by (auto simp: runs_def)
  then show ?case using Nil by simp
next
  case (Cons p ps)
  have pk: "packet_ok data D n (repDistances E) p" "packets_ok data D (n + unat (fst p)) (newReps (repDistances E) p) ps" using Cons.prems(1) by simp_all
  have e: "einv ((k + 64 * length ps) + 64) (e_re E)" using Cons.prems(3) by (simp add: ac_simps)
  obtain E1 where s: "codePacket data p E = Inr E1" "einv (k + 64 * length ps) (e_re E1)" "eok data D lc lp pb (n + unat (fst p)) E1" "repDistances E1 = newReps (repDistances E) p"
    "e_writeEndMark E1 = e_writeEndMark E" "followed data D n (n + unat (fst p)) E E1" using packet_step [OF Cons.prems(2) e pk(1)] by blast
  have r: "runs data D n (n + unat (fst p)) E E1" by (rule followed_runs [OF s(6) Cons.prems(2) packet_less [OF pk(1)]])
  obtain E2 where "codePackets data ps E1 = Inr E2" "einv k (e_re E2)" "eok data D lc lp pb (length data) E2" "e_writeEndMark E2 = e_writeEndMark E1" "runs data D (n + unat (fst p)) (length data) E1 E2"
    using Cons.IH [of "n + unat (fst p)" E1] pk(2) s(2,3,4) by auto
  then show ?case using s(1,5) runs_trans [OF r] by auto
qed

section \<open>The end of the stream\<close>

lemma end_step:
  assumes E: "eok data D lc lp pb n E" and e: "einv (k + 64) (e_re E)"
  shows "\<exists>E'. writeEndMarker (ucast (e_nowPos E) AND e_posStateMask E) E = Inr E' \<and> einv k (e_re E') \<and> (\<forall>F. covers (e_re E') F \<longrightarrow> covers (e_re E) F) \<and>
    (e_writeEndMark E \<longrightarrow> (\<forall>F z v. covers (e_re E') F \<longrightarrow> follows F (e_re E) (z_rd z) \<longrightarrow> sim data D n E z v \<longrightarrow>
      (\<exists>z' v'. decodeStep accepting z v = Some (Inr (True, z', v')) \<and> z_outWin z' = z_outWin z)))"
proof (cases "e_writeEndMark E")
  case False
  then show ?thesis using e by (auto simp: writeEndMarker_def einv_def)
next
  case True
  have k: "pb \<le> 4" "unat (e_state E) < 12" "models_ok lc lp pb (e_models E)" using E by (auto simp: eok_def)
  define ps where "ps = (ucast (e_nowPos E) AND e_posStateMask E :: u32)"
  have ps: "unat ps < 2 ^ pb" using nowPos(3) [OF E] by (simp add: ps_def)
  then have p16: "unat ps < 16" using pow_pb [OF k(1)] by simp
  have e2: "einv ((k + 16 + 46) + 2) (e_re E)" using e by (simp add: ac_simps)
  obtain x y f1 f2 where s1: "re_encode (matchDecoders (e_models E)) (push_bit kNumPosStatesBitsMax (e_state E) + ps) 1 (e_re E) = Inr (x, f1)" "re_encode (repDecoders (e_models E)) (e_state E) 0 f1 = Inr (y, f2)"
    "models_ok lc lp pb (e_models E\<lparr>matchDecoders := x, repDecoders := y\<rparr>)" "einv (k + 16 + 46) f2" "\<And>F. covers f2 F \<Longrightarrow> covers (e_re E) F"
    "\<And>F d. covers f2 F \<Longrightarrow> follows F (e_re E) d \<Longrightarrow> \<exists>d1 d2. decodeBit (matchDecoders (e_models E)) (push_bit kNumPosStatesBitsMax (e_state E) + ps) d = Inr (1, x, d1) \<and>
       decodeBit (repDecoders (e_models E)) (e_state E) d1 = Inr (0, y, d2) \<and> follows F f2 d2"
    using two_bits [OF k(3,2) p16 _ e2, of 0] by metis
  let ?m = "e_models E\<lparr>matchDecoders := x, repDecoders := y\<rparr>"
  define en where "en m e = rbind (len_encode ps 0 (m_lenCoder m) e) (\<lambda>(c, e). rbind (encodeSlot kMatchMinLen 63 (m\<lparr>m_lenCoder := c\<rparr>) e) (\<lambda>(m, e). encodeAligned 0x3FFFFFFF 30 m e))" for m e
  obtain m3 f3 where s3: "en ?m f2 = Inr (m3, f3)"
    "einv (k + 16) f3" "\<And>F. covers f3 F \<Longrightarrow> covers f2 F"
    "\<And>F d. covers f3 F \<Longrightarrow> follows F f2 d \<Longrightarrow> \<exists>d'. decodeMatch (e_state E) ps ?m d = Inr ((kMatchMinLen, stateUpdateMatch (e_state E), None), m3, d') \<and> follows F f3 d'"
    using codesE [OF codes_endMark [OF ps, where state = "e_state E", folded en_def] s1(3,4)] by metis
  define E' where "E' = E\<lparr>e_re := f3, e_models := m3, e_state := stateUpdateMatch (e_state E)\<rparr>"
  have c: "push_bit (unat kNumPosSlotBits) 1 - 1 = (63 :: u32)" "push_bit 30 1 - 1 = (0x3FFFFFFF :: u32)" by (simp_all add: kNumPosSlotBits_def)
  have enc: "writeEndMarker ps E = Inr E'"
  proof -
    have "writeEndMarker ps E = rbind (en ?m f2) (\<lambda>(m, e). Inr (E\<lparr>e_re := e, e_models := m, e_state := stateUpdateMatch (e_state E)\<rparr>))"
      using True s1(1,2) unfolding writeEndMarker_def Let_def c en_def by (simp add: rbind_assoc case_prod_unfold)
    then show ?thesis unfolding s3(1) by (simp add: E'_def)
  qed
  have dec: "\<exists>z' v'. decodeStep accepting z v = Some (Inr (True, z', v')) \<and> z_outWin z' = z_outWin z"
    if F: "covers f3 F" and f: "follows F (e_re E) (z_rd z)" and s: "sim data D n E z v" for F z v
  proof -
    obtain d1 d2 where d1: "decodeBit (matchDecoders (e_models E)) (push_bit kNumPosStatesBitsMax (e_state E) + ps) (z_rd z) = Inr (1, x, d1)"
      "decodeBit (repDecoders (e_models E)) (e_state E) d1 = Inr (0, y, d2)" "follows F f2 d2" using s1(6) [OF s3(3) [OF F] f] by blast
    obtain d3 where d3: "decodeMatch (e_state E) ps ?m d2 = Inr ((kMatchMinLen, stateUpdateMatch (e_state E), None), m3, d3)" using s3(4) [OF F d1(3)] by blast
    have z: "z_models z = e_models E" "v_state v = e_state E" "v_nowPos v = e_nowPos E" "z_posStateMask z = e_posStateMask E" using s by (auto simp: sim_def)
    show ?thesis using d1(1,2) d3(1) z unfolding decodeStep_def Let_def z(4) z(3) ps_def [symmetric] by simp
  qed
  have "einv k (e_re E')" "\<forall>F. covers (e_re E') F \<longrightarrow> covers (e_re E) F" using s3(2,3) s1(5) by (auto simp: E'_def einv_def)
  then show ?thesis using enc dec unfolding ps_def [symmetric] by (auto simp: E'_def)
qed

lemma flush_step:
  assumes E: "eok data D lc lp pb (length data) E" and e: "einv (5 + 64) (e_re E)"
  shows "\<exists>E'. e_flush None (ucast (e_nowPos E)) E = Inr E' \<and> covers (e_re E) (re_out (e_re E')) \<and>
    (\<forall>z v. follows (re_out (e_re E')) (e_re E) (z_rd z) \<longrightarrow> sim data D (length data) E z v \<longrightarrow>
      sint (z_unpackSize z) = (if e_writeEndMark E then -1 else int (length data)) \<longrightarrow>
      (\<exists>z'. decodeLoop accepting z v = Some (Inr z') \<and> hist (z_outWin z') data))"
proof -
  obtain E1 where s: "writeEndMarker (ucast (e_nowPos E) AND e_posStateMask E) E = Inr E1" "einv 5 (e_re E1)" "\<And>F. covers (e_re E1) F \<Longrightarrow> covers (e_re E) F"
    "\<And>F z v. e_writeEndMark E \<Longrightarrow> covers (e_re E1) F \<Longrightarrow> follows F (e_re E) (z_rd z) \<Longrightarrow> sim data D (length data) E z v \<Longrightarrow>
      \<exists>z' v'. decodeStep accepting z v = Some (Inr (True, z', v')) \<and> z_outWin z' = z_outWin z"
    using end_step [OF E e] by blast
  obtain f where f: "re_flush None (e_re E1) = Inr f" "length (re_out f) = edig (e_re E1) + 4" "bval (re_out f) = esum (e_re E1)"
    using flush_spec [of "unat (re_range (e_re E1))" "e_re E1"] s(2) by (auto simp: einv_def)
  have cov: "covers (e_re E1) (re_out f)" using f(2,3) s(2) by (simp add: covers_def einv_def)
  have L: "length data \<le> 2 ^ 25" "e_nowPos E = of_nat (length data)" using E by (auto simp: eok_def)
  have dec: "\<exists>z'. decodeLoop accepting z v = Some (Inr z') \<and> hist (z_outWin z') data"
    if fol: "follows (re_out f) (e_re E) (z_rd z)" and sm: "sim data D (length data) E z v" and u: "sint (z_unpackSize z) = (if e_writeEndMark E then -1 else int (length data))" for z v
  proof -
    have h: "hist (z_outWin z) data" "v_nowPos v = of_nat (length data)" using sm L(2) by (auto simp: sim_def)
    show ?thesis
    proof (cases "e_writeEndMark E")
      case True
      then show ?thesis using s(4) [OF True cov fol sm] u h(1) unfolding decodeLoop.simps [of accepting z v] by auto
    next
      case False
      then show ?thesis using u h sint_nowPos [OF L(1)] unfolding decodeLoop.simps [of accepting z v] by simp
    qed
  qed
  show ?thesis using s(1) f(1) s(3) [OF cov] dec by (auto simp: e_flush_def)
qed

section \<open>The header\<close>

lemma level_cases:
  assumes "1 \<le> level" "level \<le> 9"
  obtains d fb where "levels ! nat level = compLevel d fb" "checkValues (compLevel d fb) = Inr ()" "d \<in> {16, 18, 20, 22, 23, 24, 25, 26, 27}"
proof -
  have "level = 1 \<or> level = 2 \<or> level = 3 \<or> level = 4 \<or> level = 5 \<or> level = 6 \<or> level = 7 \<or> level = 8 \<or> level = 9" using assms by arith
  then have "\<exists>d fb. levels ! nat level = compLevel d fb \<and> d \<in> {16, 18, 20, 22, 23, 24, 25, 26, 27} \<and> fb \<in> {64, 128, 256}"
    by (elim disjE) (auto simp: levels_def)
  then obtain d fb where l: "levels ! nat level = compLevel d fb" "d \<in> {16, 18, 20, 22, 23, 24, 25, 26, 27}" "fb \<in> {64, 128, 256}" by blast
  then have "checkValues (compLevel d fb) = Inr ()" by (auto simp: checkValues_def compLevel_def)
  then show ?thesis using that l(1,2) by blast
qed

lemma take_bit_join: "take_bit n (x :: 64 word) OR push_bit n (take_bit m (drop_bit n x)) = take_bit (n + m) x"
  by (rule bit_eqI) (auto simp: bit_simps)

lemma byte_at: "(ucast (ucast (drop_bit n (x :: 64 word)) :: byte) :: 64 word) = take_bit 8 (drop_bit n x)"
  by (rule bit_eqI) (auto simp: bit_simps)

lemma unpackSize_header: "unpackSizeOf (encodeHeader cl w) = w"
proof -
  have n: "encodeHeader cl w ! (5 + i) = ucast (drop_bit (8 * i) w)" if "i < 8" for i
  proof -
    have "5 + i = Suc (4 + i)" by simp
    then show ?thesis using that by (simp only: encodeHeader_def nth_Cons_Suc) (simp add: nth_append)
  qed
  have "fold (\<lambda>i s. s OR push_bit (8 * i) (ucast (encodeHeader cl w ! (5 + i)))) [0..<k] 0 = take_bit (8 * k) w" if "k \<le> 8" for k
    using that
  proof (induction k)
    case (Suc k)
    then show ?case using n [of k] take_bit_join [of "8 * k" w 8] byte_at [of "8 * k" w] by (simp add: add.commute)
  qed simp
  from this [of 8] show ?thesis unfolding unpackSizeOf_def by (simp add: take_bit_word_eq_self)
qed

lemma props_header:
  assumes "d \<in> {16, 18, 20, 22, 23, 24, 25, 26, 27}"
  shows "decodeProps (encodeHeader (compLevel d fb) w) = Inr \<lparr>litContextBits = 3, litPosStateBits = 0, posStateBits = 2, dictSize = push_bit (unat d) 1\<rparr>"
  using assms by (elim insertE emptyE) (simp_all add: decodeProps_def encodeHeader_def compLevel_def upt_rec [of 0] upt_rec nth_append)

lemma length_header [simp]: "length (encodeHeader cl w) = 13"
  by (simp add: encodeHeader_def)

lemma newDecoder_header:
  assumes d: "d \<in> {16, 18, 20, 22, 23, 24, 25, 26, 27}" and rd: "newRangeDecoder F = Inr rd" and m: "newModels 0 3 2 = Inr m"
  shows "newDecoder (encodeHeader (compLevel d fb) w @ F) = Inr \<lparr>z_rd = rd, z_outWin = newLzOutWindow (push_bit (unat d) 1), z_models = m, z_unpackSize = w,
      z_dictSizeCheck = push_bit (unat d) 1, z_posStateMask = push_bit 2 1 - 1\<rparr>"
proof -
  have mx: "maxUInt32 (push_bit (unat d) 1) 1 = push_bit (unat d) 1" "maxUInt32 (push_bit (unat d) 1) (push_bit 12 1) = push_bit (unat d) 1"
    using d by (elim insertE emptyE; simp add: maxUInt32_def)+
  have t: "take 13 (encodeHeader (compLevel d fb) w @ F) = encodeHeader (compLevel d fb) w" "drop 13 (encodeHeader (compLevel d fb) w @ F) = F" by simp_all
  show ?thesis unfolding newDecoder_def t props_header [OF d] rbind_simps rd unpackSize_header Let_def
    using m by (simp add: mx [simplified])
qed

lemma dict_bounds: "(d :: u32) \<in> {16, 18, 20, 22, 23, 24, 25, 26, 27} \<Longrightarrow> unat (push_bit (unat d) (1 :: u32)) = 2 ^ unat d \<and> 0 < unat d \<and> (2 :: nat) ^ unat d \<le> 2 ^ 31"
  by (elim insertE emptyE; simp)

lemma packets_len: "packets_ok data D n reps ps \<Longrightarrow> n + length ps \<le> length data"
proof (induction ps arbitrary: n reps)
  case (Cons p ps)
  have "0 < unat (fst p)" using Cons.prems by (auto simp: packet_ok_def rep_valid_def split: if_splits prod.splits)
  then show ?case using Cons.IH [of "n + unat (fst p)" "newReps reps p"] Cons.prems by simp
qed simp

section \<open>The whole stream\<close>

lemma einv_less: "einv k e \<Longrightarrow> j \<le> k \<Longrightarrow> einv j e"
  by (auto simp: einv_def)

text \<open>The encoder's blocks, from any state at the start of the data, and the loop of the decoder.\<close>

lemma doEncode_run:
  assumes E: "eok data D lc lp pb 0 E" and e: "einv (5 + 64 + 64 * length data + 64) (e_re E)" and pk: "data \<noteq> [] \<longrightarrow> packets_ok data D 1 (repDistances E) packets"
  shows "\<exists>E'. doEncode None data packets E = Inr E' \<and> covers (e_re E) (re_out (e_re E')) \<and>
    (\<forall>z v. follows (re_out (e_re E')) (e_re E) (z_rd z) \<longrightarrow> sim data D 0 E z v \<longrightarrow> sint (z_unpackSize z) = (if e_writeEndMark E then -1 else int (length data)) \<longrightarrow>
      (\<exists>z'. decodeLoop accepting z v = Some (Inr z') \<and> hist (z_outWin z') data))"
proof (cases "data = []")
  case True
  have "eok data D lc lp pb (length data) E" "einv (5 + 64) (e_re E)" using E e True by (auto elim: einv_less)
  from flush_step [OF this] show ?thesis using True by (simp add: doEncode_def)
next
  case False
  then have n: "0 < length data" and pk: "packets_ok data D 1 (repDistances E) packets" using pk by auto
  have "length packets \<le> length data" using packets_len [OF pk] by simp
  then have e1: "einv ((5 + 64 + 64 * length packets) + 64) (e_re E)" by (intro einv_less [OF e]) simp
  obtain E1 where s1: "rbind (codeLiteral data E) (\<lambda>z. Inr (z\<lparr>e_nowPos := e_nowPos z + 1\<rparr>)) = Inr E1" "einv (5 + 64 + 64 * length packets) (e_re E1)"
    "eok data D lc lp pb (Suc 0) E1" "repDistances E1 = repDistances E" "e_writeEndMark E1 = e_writeEndMark E" "followed data D 0 (Suc 0) E E1"
    using literal_step [OF E n e1] by blast
  have r1: "runs data D 0 (Suc 0) E E1" by (rule followed_runs [OF s1(6) E n])
  obtain E2 where s2: "codePackets data packets E1 = Inr E2" "einv (5 + 64) (e_re E2)" "eok data D lc lp pb (length data) E2" "e_writeEndMark E2 = e_writeEndMark E1" "runs data D (Suc 0) (length data) E1 E2"
    using packets_run [of data D "Suc 0" E1 packets lc lp pb "5 + 64"] pk s1(2-4) by auto
  have r: "runs data D 0 (length data) E E2" by (rule runs_trans [OF r1 s2(5)])
  obtain E3 where s3: "e_flush None (ucast (e_nowPos E2)) E2 = Inr E3" "covers (e_re E2) (re_out (e_re E3))"
    "\<And>z v. follows (re_out (e_re E3)) (e_re E2) (z_rd z) \<Longrightarrow> sim data D (length data) E2 z v \<Longrightarrow> sint (z_unpackSize z) = (if e_writeEndMark E2 then -1 else int (length data)) \<Longrightarrow>
      \<exists>z'. decodeLoop accepting z v = Some (Inr z') \<and> hist (z_outWin z') data" using flush_step [OF s2(3,2)] by blast
  have "\<exists>z'. decodeLoop accepting z v = Some (Inr z') \<and> hist (z_outWin z') data"
    if f: "follows (re_out (e_re E3)) (e_re E) (z_rd z)" and sm: "sim data D 0 E z v" and u: "sint (z_unpackSize z) = (if e_writeEndMark E then -1 else int (length data))" for z v
  proof -
    have "sized data z" using u by (auto simp: sized_def split: if_splits)
    then obtain z' v' where z': "decodeLoop accepting z v = decodeLoop accepting z' v'" "follows (re_out (e_re E3)) (e_re E2) (z_rd z')" "sim data D (length data) E2 z' v'" "z_unpackSize z' = z_unpackSize z"
      using r s3(2) f sm unfolding runs_def by meson
    then show ?thesis using s3(3) [OF z'(2,3)] u s1(5) s2(4) by simp
  qed
  then show ?thesis using False s1(1) s2(1) s3(1,2) r by (auto simp: doEncode_def runs_def)
qed

text \<open>
  C3. What the LZMA encoder writes, the LZMA decoder reads back: for every level, with the size of the data in the header
  or with the end marker, whichever literals, matches and repeated matches the encoder chose to describe the data, the
  encoder succeeds, and the decoder returns on the bytes it wrote and gives exactly the data.
\<close>

theorem lzma_roundtrip:
  assumes "1 \<le> level" "level \<le> 9" "sz = -1 \<or> sz = int (length data)" "length data \<le> 2 ^ 25"
    and "data \<noteq> [] \<longrightarrow> packets_ok data (2 ^ unat (cl_dictSize (levels ! nat level))) 1 [0, 0, 0, 0] packets"
  shows "\<exists>bytes. lzma_encoder None None data packets sz level = Inr bytes \<and> lzma_decoder accepting bytes = Some (Inr data)"
proof -
  obtain d fb where l: "levels ! nat level = compLevel d fb" "checkValues (compLevel d fb) = Inr ()" "d \<in> {16, 18, 20, 22, 23, 24, 25, 26, 27}"
    using level_cases [OF assms(1,2)] by blast
  note db = dict_bounds [OF l(3)]
  obtain m where m: "newModels 0 3 2 = Inr m" "models_ok 3 0 2 m" using newModels_ok [of 3 0 2] by auto
  define E where "E = \<lparr>e_re = newRangeEncoder None, e_models = m, e_state = 0, e_prevByte = 0, repDistances = [0, 0, 0, 0], e_nowPos = 0, e_writeEndMark = (sz = -1), e_posStateMask = push_bit 2 1 - 1\<rparr>"
  have ok: "eok data (2 ^ unat d) 3 0 2 0 E" using assms(4) db m(2) by (simp add: eok_def E_def stateIsCharState_def)
  have e: "einv (5 + 64 + 64 * length data + 64) (e_re E)" unfolding E_def encoder.simps by (rule new_einv) (use assms(4) in simp)
  have pk: "data \<noteq> [] \<longrightarrow> packets_ok data (2 ^ unat d) 1 (repDistances E) packets" using assms(5) l(1) by (simp add: E_def compLevel_def)
  obtain E' where s: "doEncode None data packets E = Inr E'" "covers (e_re E) (re_out (e_re E'))"
    "\<And>z v. follows (re_out (e_re E')) (e_re E) (z_rd z) \<Longrightarrow> sim data (2 ^ unat d) 0 E z v \<Longrightarrow> sint (z_unpackSize z) = (if e_writeEndMark E then -1 else int (length data)) \<Longrightarrow>
      \<exists>z'. decodeLoop accepting z v = Some (Inr z') \<and> hist (z_outWin z') data" using doEncode_run [OF ok e pk] by blast
  obtain rd where rd: "newRangeDecoder (re_out (e_re E')) = Inr rd" "follows (re_out (e_re E')) (newRangeEncoder None) rd"
    using new_follows [of "re_out (e_re E')"] s(2) by (auto simp: E_def)
  define bytes where "bytes = encodeHeader (compLevel d fb) (of_int sz) @ re_out (e_re E')"
  define z where "z = \<lparr>z_rd = rd, z_outWin = newLzOutWindow (push_bit (unat d) 1), z_models = m, z_unpackSize = of_int sz,
      z_dictSizeCheck = push_bit (unat d) 1, z_posStateMask = push_bit 2 1 - 1\<rparr>"
  have nd: "newDecoder bytes = Inr z" unfolding bytes_def z_def by (rule newDecoder_header [OF l(3) rd(1) m(1)])
  have su: "sint (z_unpackSize z) = (if e_writeEndMark E then -1 else int (length data))"
    using assms(3,4) sint_nowPos [of "length data"] by (auto simp: z_def E_def)
  have "hist (newLzOutWindow (push_bit (unat d) 1)) []" by (rule new_hist) (use db in \<open>simp_all only: zero_less_power zero_less_numeral simp_thms\<close>)
  then have "sim data (2 ^ unat d) 0 E z startVars" using db by (simp add: sim_def z_def E_def startVars_def newLzOutWindow_def)
  moreover have "follows (re_out (e_re E')) (e_re E) (z_rd z)" using rd(2) by (simp add: z_def E_def)
  ultimately obtain z' where z': "decodeLoop accepting z startVars = Some (Inr z')" "hist (z_outWin z') data" using s(3) su by blast
  obtain ow where ow: "ow_flush accepting (z_outWin z') = Inr ow" "ow_w ow = data" using flush_hist [OF z'(2)] by blast
  have "lzma_decoder accepting bytes = Some (Inr data)" using nd z'(1) ow by (simp add: lzma_decoder_def doDecode_def startVars_def)
  moreover have "lzma_encoder None None data packets sz level = Inr bytes"
    using assms(1-3) l(1,2) m(1) s(1) unfolding lzma_encoder_def Let_def l(1)
    by (auto simp: compLevel_def E_def bytes_def)
  ultimately show ?thesis by blast
qed

lemma lzma_roundtrip_witness:
  "\<exists>bytes. lzma_encoder None None [97, 98, 97, 98, 97, 98, 97, 33] [(1, 0xFFFFFFFF), (4, 5), (1, 0), (1, 0xFFFFFFFF)] (-1) 5 = Inr bytes \<and>
    lzma_decoder accepting bytes = Some (Inr [97, 98, 97, 98, 97, 98, 97, 33])"
proof (rule lzma_roundtrip)
  have c: "copies [97, 98, 97, 98, 97, 98, 97, 33] 2 1 4" "copies [97, 98, 97, 98, 97, 98, 97, 33] 6 1 1"
    by (auto simp: copies_def less_Suc_eq numeral_eq_Suc)
  show "[97, 98, 97, 98, 97, 98, 97, 33] \<noteq> [] \<longrightarrow>
    packets_ok [97, 98, 97, 98, 97, 98, 97, 33] (2 ^ unat (cl_dictSize (levels ! nat 5))) 1 [0, 0, 0, 0] [(1, 0xFFFFFFFF), (4, 5), (1, 0), (1, 0xFFFFFFFF)]"
    using c c(1) [unfolded numeral_2_eq_2] by (simp add: packet_ok_def newReps_def moveToFront_def rep_valid_def levels_def compLevel_def)
qed simp_all

end
