(* ===== verification/Json_Pointer.thy ===== *)
theory Json_Pointer
  imports Go_Prelude
begin

text \<open>
  JSON pointers (\<^verbatim>\<open>gojsonpointer/pointer/pointer.go\<close>): parsing and printing, the escaping of reference
  tokens, and the one loop behind \<^verbatim>\<open>Get\<close>, \<^verbatim>\<open>Set\<close> and \<^verbatim>\<open>Delete\<close>, which walks a document made of Go maps
  and slices. Both are references, so a document is a value over a heap of maps and arrays, and setting
  or deleting writes into that heap.
\<close>

section \<open>The standard library's string functions\<close>

text \<open>\<^verbatim>\<open>strings.Split\<close> at a character, \<^verbatim>\<open>strings.Join\<close>, and \<^verbatim>\<open>strings.Replace\<close> of one or two characters.\<close>

fun split_at :: "char \<Rightarrow> string \<Rightarrow> string list" where
  "split_at c [] = [[]]"
| "split_at c (x # xs) =
     (if x = c then [] # split_at c xs
      else (case split_at c xs of
              [] \<Rightarrow> [[x]]
            | t # ts \<Rightarrow> (x # t) # ts))"

fun join_with :: "char \<Rightarrow> string list \<Rightarrow> string" where
  "join_with c [] = []"
| "join_with c [t] = t"
| "join_with c (t # u # ts) = t @ c # join_with c (u # ts)"

definition replace_char :: "char \<Rightarrow> string \<Rightarrow> string \<Rightarrow> string" where
  "replace_char c new s = concat (map (\<lambda>x. if x = c then new else [x]) s)"

fun replace_two :: "char \<Rightarrow> char \<Rightarrow> string \<Rightarrow> string \<Rightarrow> string" where
  "replace_two a b new (x # y # xs) =
     (if x = a \<and> y = b then new @ replace_two a b new xs
      else x # replace_two a b new (y # xs))"
| "replace_two a b new xs = xs"

text \<open>\<^verbatim>\<open>strconv.Atoi\<close>: an optional sign, digits, and the range of a 64-bit integer.\<close>

definition is_digit :: "char \<Rightarrow> bool" where
  "is_digit c \<longleftrightarrow> 48 \<le> (of_char c :: nat) \<and> (of_char c :: nat) \<le> 57"

definition digits_value :: "string \<Rightarrow> int" where
  "digits_value s = foldl (\<lambda>n c. n * 10 + (of_char c - 48)) 0 s"

definition Atoi :: "string \<Rightarrow> int option" where
  "Atoi s =
     (let neg = (s \<noteq> [] \<and> hd s = CHR ''-'');
          ds = (if s \<noteq> [] \<and> (hd s = CHR ''-'' \<or> hd s = CHR ''+'') then tl s else s);
          n = (if neg then - digits_value ds else digits_value ds)
      in if ds = [] \<or> \<not> list_all is_digit ds then None
         else if n < - (2 ^ 63) \<or> n \<ge> 2 ^ 63 then None
         else Some n)"

section \<open>Pointers as strings\<close>

record JsonPointer =
  referenceTokens :: "string list"

definition NewJsonPointer :: "string \<Rightarrow> JsonPointer res" where
  "NewJsonPointer s =
     (if s = [] then Inr \<lparr>referenceTokens = []\<rparr>
      else if hd s \<noteq> CHR ''/'' then Inl (Err ''JSON pointer must be empty or start with a \"/\"'')
      else Inr \<lparr>referenceTokens = split_at CHR ''/'' (tl s)\<rparr>)"

definition pointer_String :: "JsonPointer \<Rightarrow> string" where
  "pointer_String p =
     (if referenceTokens p = [] then [] else CHR ''/'' # join_with CHR ''/'' (referenceTokens p))"

definition decodeReferenceToken :: "string \<Rightarrow> string" where
  "decodeReferenceToken token =
     (let step1 = replace_two CHR ''~'' CHR ''1'' ''/'' token
      in replace_two CHR ''~'' CHR ''0'' ''~'' step1)"

definition encodeReferenceToken :: "string \<Rightarrow> string" where
  "encodeReferenceToken token =
     (let step1 = replace_char CHR ''~'' ''~0'' token
      in replace_char CHR ''/'' ''~1'' step1)"

section \<open>Documents\<close>

text \<open>
  The dynamic values of an \<^verbatim>\<open>interface{}\<close>: \<^verbatim>\<open>nil\<close>, a Boolean, a \<^verbatim>\<open>float64\<close> (its bits), a string, a map (\<open>None\<close> is the
  nil map), a slice (array, offset, length), and values of any other type.
\<close>

datatype kind = Invalid | KBool | KFloat64 | KString | KMap | KSlice | KOther string

datatype jval =
    VNil
  | VBool bool
  | VNum u64
  | VStr string
  | VMap "addr option"
  | VSlice addr nat nat
  | VOther string

datatype cell =
    CMap "string \<Rightarrow> jval option"
  | CArr "jval list"

type_synonym heap = "addr \<Rightarrow> cell"

definition kindOf :: "jval \<Rightarrow> kind" where
  "kindOf v =
     (case v of VNil \<Rightarrow> Invalid | VBool _ \<Rightarrow> KBool | VNum _ \<Rightarrow> KFloat64 | VStr _ \<Rightarrow> KString
      | VMap _ \<Rightarrow> KMap | VSlice _ _ _ \<Rightarrow> KSlice | VOther k \<Rightarrow> KOther k)"

definition map_at :: "heap \<Rightarrow> addr option \<Rightarrow> string \<Rightarrow> jval option" where
  "map_at h mo k =
     (case mo of None \<Rightarrow> None | Some a \<Rightarrow> (case h a of CMap m \<Rightarrow> m k | CArr _ \<Rightarrow> None))"

text \<open>Writing into a nil map panics, deleting from it does nothing.\<close>

definition map_set :: "heap \<Rightarrow> addr option \<Rightarrow> string \<Rightarrow> jval \<Rightarrow> heap res" where
  "map_set h mo k v =
     (case mo of
        None \<Rightarrow> Inl (Panic ''assignment to entry in nil map'')
      | Some a \<Rightarrow> (case h a of CMap m \<Rightarrow> Inr (h(a := CMap (m(k \<mapsto> v)))) | CArr _ \<Rightarrow> Inl NilDeref))"

definition map_delete :: "heap \<Rightarrow> addr option \<Rightarrow> string \<Rightarrow> heap" where
  "map_delete h mo k =
     (case mo of None \<Rightarrow> h | Some a \<Rightarrow> (case h a of CMap m \<Rightarrow> h(a := CMap (m(k := None))) | CArr _ \<Rightarrow> h))"

definition array_at :: "heap \<Rightarrow> addr \<Rightarrow> jval list" where
  "array_at h a = (case h a of CArr xs \<Rightarrow> xs | CMap _ \<Rightarrow> [])"

definition array_set :: "heap \<Rightarrow> addr \<Rightarrow> nat \<Rightarrow> jval \<Rightarrow> heap" where
  "array_set h a i v = h(a := CArr ((array_at h a)[i := v]))"

section \<open>The loop\<close>

datatype mode = GET | SET | DEL

text \<open>What the loop leaves in its \<^verbatim>\<open>implStruct\<close>.\<close>

record outcome =
  getOutNode :: jval
  getOutKind :: kind
  outError :: "go_error option"

definition failed :: "string \<Rightarrow> kind \<Rightarrow> outcome" where
  "failed e k = \<lparr>getOutNode = VNil, getOutKind = k, outError = Some (Err e)\<rparr>"

text \<open>
  The last step of a deletion from a slice: the last element takes the place of the deleted one, and the
  shorter slice is stored in the map of the step before, under the token of that step as it was written.
\<close>

definition delete_element :: "(jval \<times> string) option \<Rightarrow> addr \<Rightarrow> nat \<Rightarrow> nat \<Rightarrow> nat \<Rightarrow> heap \<Rightarrow> heap res" where
  "delete_element prev a off len i h =
     (let h = array_set h a (off + i) (array_at h a ! (off + (len - 1)));
          h = array_set h a (off + (len - 1)) VNil
      in case prev of
           None \<Rightarrow> Inl IndexOutOfRange
         | Some (VMap mo, t) \<Rightarrow> map_set h mo t (VSlice a off (len - 1))
         | Some _ \<Rightarrow> Inl (Panic ''interface conversion''))"

text \<open>
  \<open>prev\<close> is the node and the token of the step before (\<^verbatim>\<open>previousNodes[ti-1]\<close>, \<^verbatim>\<open>previousTokens[ti-1]\<close>).
\<close>

fun impl_loop ::
  "mode \<Rightarrow> jval \<Rightarrow> (jval \<times> string) option \<Rightarrow> string list \<Rightarrow> jval \<Rightarrow> heap \<Rightarrow> (heap \<times> outcome) res" where
  "impl_loop md sv prev [] node h =
     Inr (h, \<lparr>getOutNode = node, getOutKind = kindOf node, outError = None\<rparr>)"
| "impl_loop md sv prev (token # rest) node h =
     (let isLastToken = (rest = []) in
      case node of
        VMap mo \<Rightarrow>
          (let decodedToken = decodeReferenceToken token in
           case map_at h mo decodedToken of
             Some v \<Rightarrow>
               if isLastToken \<and> md = SET then
                 (case map_set h mo decodedToken sv of
                    Inl e \<Rightarrow> Inl e
                  | Inr h' \<Rightarrow> impl_loop md sv (Some (node, token)) rest v h')
               else if isLastToken \<and> md = DEL then
                 impl_loop md sv (Some (node, token)) rest v (map_delete h mo decodedToken)
               else impl_loop md sv (Some (node, token)) rest v h
           | None \<Rightarrow>
               if isLastToken \<and> md = SET then
                 (case map_set h mo decodedToken sv of
                    Inl e \<Rightarrow> Inl e
                  | Inr h' \<Rightarrow> impl_loop md sv (Some (node, token)) rest node h')
               else Inr (h, failed ''Object has no key'' KMap))
      | VSlice a off len \<Rightarrow>
          (case Atoi token of
             None \<Rightarrow> Inr (h, failed ''Invalid array index'' KSlice)
           | Some tokenIndex \<Rightarrow>
               if tokenIndex < 0 \<or> tokenIndex \<ge> int len then Inr (h, failed ''Out of bound array'' KSlice)
               else
                 (let i = nat tokenIndex; v = array_at h a ! (off + i) in
                  if isLastToken \<and> md = SET then
                    impl_loop md sv (Some (node, token)) rest v (array_set h a (off + i) sv)
                  else if isLastToken \<and> md = DEL then
                    (case delete_element prev a off len i h of
                       Inl e \<Rightarrow> Inl e
                     | Inr h' \<Rightarrow> impl_loop md sv (Some (node, token)) rest v h')
                  else impl_loop md sv (Some (node, token)) rest v h))
      | _ \<Rightarrow> Inr (h, failed ''Invalid token reference'' (kindOf node)))"

definition implementation :: "JsonPointer \<Rightarrow> mode \<Rightarrow> jval \<Rightarrow> jval \<Rightarrow> heap \<Rightarrow> (heap \<times> outcome) res" where
  "implementation p md sv doc h =
     (if referenceTokens p = [] then
        Inr (h, \<lparr>getOutNode = doc, getOutKind = Invalid, outError = None\<rparr>)
      else impl_loop md sv None (referenceTokens p) doc h)"

definition Pointer_Get :: "JsonPointer \<Rightarrow> jval \<Rightarrow> heap \<Rightarrow> (heap \<times> outcome) res" where
  "Pointer_Get p doc h = implementation p GET VNil doc h"

definition Pointer_Set :: "JsonPointer \<Rightarrow> jval \<Rightarrow> jval \<Rightarrow> heap \<Rightarrow> (heap \<times> jval \<times> go_error option) res" where
  "Pointer_Set p doc v h =
     (case implementation p SET v doc h of
        Inl e \<Rightarrow> Inl e
      | Inr (h', i) \<Rightarrow> Inr (h', doc, outError i))"

definition Pointer_Delete :: "JsonPointer \<Rightarrow> jval \<Rightarrow> heap \<Rightarrow> (heap \<times> jval \<times> go_error option) res" where
  "Pointer_Delete p doc h =
     (case implementation p DEL VNil doc h of
        Inl e \<Rightarrow> Inl e
      | Inr (h', i) \<Rightarrow> Inr (h', doc, outError i))"

end
