(* ===== verification/Json_Pointer_Props.thy ===== *)
theory Json_Pointer_Props
  imports Json_Pointer
begin

text \<open>
  What the JSON pointers do to a document that is a tree, as \<^verbatim>\<open>encoding/json\<close> builds them: an abstract tree,
  the relation \<open>own\<close> between a value on the heap and the tree it stands for, with the addresses it is
  made of, and the refinement of lookup, replacement and deletion on trees by the loop on the heap.
\<close>

section \<open>Strings\<close>

lemma split_at_nonempty [simp]: "split_at c s \<noteq> []"
  by (induction s) (auto split: list.splits)

lemma join_split: "join_with c (split_at c s) = s"
proof (induction s)
  case (Cons x xs)
  obtain t ts where t: "split_at c xs = t # ts" using split_at_nonempty by (metis neq_Nil_conv)
  with Cons show ?case by (cases ts) auto
qed simp

lemma split_token: "c \<notin> set t \<Longrightarrow> split_at c t = [t]"
  by (induction t) auto

lemma split_token_sep: "c \<notin> set t \<Longrightarrow> split_at c (t @ c # s) = t # split_at c s"
  by (induction t) auto

lemma split_join: "ts \<noteq> [] \<Longrightarrow> \<forall>t \<in> set ts. c \<notin> set t \<Longrightarrow> split_at c (join_with c ts) = ts"
  by (induction c ts rule: join_with.induct) (auto simp: split_token split_token_sep)

text \<open>An encoded token, character by character, before and after the first replacement of the decoder.\<close>

lemma encode_chars:
  "encodeReferenceToken s = concat (map (\<lambda>x. if x = CHR ''~'' then ''~0'' else if x = CHR ''/'' then ''~1'' else [x]) s)"
  by (induction s) (auto simp: encodeReferenceToken_def replace_char_def)

lemma replace_two_skip: "x \<noteq> a \<Longrightarrow> replace_two a b new (x # xs) = x # replace_two a b new xs"
  by (cases xs) auto

lemma decode_step1:
  "replace_two CHR ''~'' CHR ''1'' ''/'' (encodeReferenceToken s) = replace_char CHR ''~'' ''~0'' s"
  unfolding encode_chars replace_char_def
  by (induction s) (auto simp: replace_two_skip)

lemma decode_encode: "decodeReferenceToken (encodeReferenceToken s) = s"
  unfolding decodeReferenceToken_def Let_def decode_step1 replace_char_def
  by (induction s) (auto simp: replace_two_skip)

lemma encode_no_slash: "CHR ''/'' \<notin> set (encodeReferenceToken s)"
  by (auto simp: encode_chars)

lemma decode_plain: "CHR ''~'' \<notin> set t \<Longrightarrow> decodeReferenceToken t = t"
proof -
  have "replace_two CHR ''~'' b new t = t" if "CHR ''~'' \<notin> set t" for b new
    using that by (induction t) (auto simp: replace_two_skip)
  then show "CHR ''~'' \<notin> set t \<Longrightarrow> decodeReferenceToken t = t" by (simp add: decodeReferenceToken_def)
qed

text \<open>
  C37. Pointers are printed as they were parsed, and they can name every path: a string is a pointer
  exactly if it is empty or starts with a slash, printing the parsed pointer gives the string back, and
  for every list of keys, slashes and tildes and all, the pointer built from the encoded keys is parsed
  into tokens that decode to exactly these keys.
\<close>

theorem pointer_roundtrip:
  "(case NewJsonPointer s of Inl _ \<Rightarrow> s \<noteq> [] \<and> hd s \<noteq> CHR ''/'' | Inr p \<Rightarrow> pointer_String p = s) \<and>
   (\<exists>p. NewJsonPointer (pointer_String \<lparr>referenceTokens = map encodeReferenceToken ks\<rparr>) = Inr p \<and>
      map decodeReferenceToken (referenceTokens p) = ks)"
proof -
  have "case NewJsonPointer s of Inl _ \<Rightarrow> s \<noteq> [] \<and> hd s \<noteq> CHR ''/'' | Inr p \<Rightarrow> pointer_String p = s"
    by (cases s) (auto simp: NewJsonPointer_def pointer_String_def join_split)
  moreover have "map decodeReferenceToken (split_at CHR ''/'' (join_with CHR ''/'' (map encodeReferenceToken ks))) = ks" if "ks \<noteq> []"
    using that by (simp add: split_join encode_no_slash decode_encode comp_def)
  ultimately show ?thesis by (simp add: NewJsonPointer_def pointer_String_def)
qed

section \<open>Trees\<close>

datatype json =
    JAtom jval
  | JObj "string \<Rightarrow> json option"
  | JList "json list"

datatype key = Field string | Index nat

text \<open>The place that a token names in a node: any field of an object, an index within a list.\<close>

definition tkey :: "json \<Rightarrow> string \<Rightarrow> key option" where
  "tkey j t =
     (case j of
        JObj f \<Rightarrow> Some (Field (decodeReferenceToken t))
      | JList xs \<Rightarrow>
          (case Atoi t of
             None \<Rightarrow> None
           | Some i \<Rightarrow> if 0 \<le> i \<and> i < int (length xs) then Some (Index (nat i)) else None)
      | JAtom _ \<Rightarrow> None)"

fun jkids :: "json \<Rightarrow> key \<Rightarrow> json option" where
  "jkids (JObj f) (Field k) = f k"
| "jkids (JList xs) (Index i) = (if i < length xs then Some (xs ! i) else None)"
| "jkids _ _ = None"

fun jput :: "json \<Rightarrow> key \<Rightarrow> json \<Rightarrow> json" where
  "jput (JObj f) (Field k) c = JObj (f(k \<mapsto> c))"
| "jput (JList xs) (Index i) c = JList (xs[i := c])"
| "jput j _ _ = j"

definition jchild :: "json \<Rightarrow> string \<Rightarrow> json option" where
  "jchild j t = Option.bind (tkey j t) (jkids j)"

text \<open>Lookup along tokens, and putting another tree where the tokens lead.\<close>

fun jget :: "string list \<Rightarrow> json \<Rightarrow> json option" where
  "jget [] j = Some j"
| "jget (t # ts) j = Option.bind (jchild j t) (jget ts)"

fun jreplace :: "string list \<Rightarrow> json \<Rightarrow> json \<Rightarrow> json" where
  "jreplace [] c j = c"
| "jreplace (t # ts) c j =
     (case tkey j t of
        None \<Rightarrow> j
      | Some k \<Rightarrow> (case jkids j k of None \<Rightarrow> j | Some d \<Rightarrow> jput j k (jreplace ts c d)))"

lemma jkids_jput:
  assumes "jkids j k \<noteq> None \<or> tkey j t = Some k"
  shows "jkids (jput j k c) = (jkids j)(k \<mapsto> c)"
proof
  fix l
  show "jkids (jput j k c) l = ((jkids j)(k \<mapsto> c)) l"
    using assms by (cases j; cases k; cases l) (auto simp: tkey_def nth_list_update split: option.splits if_splits)
qed

lemma tkey_jput [simp]: "tkey (jput j k c) t = tkey j t"
  by (cases j; cases k) (auto simp: tkey_def split: option.splits)

text \<open>Looking up what was put gives it back.\<close>

lemma jget_jreplace: "jget ts j = Some d \<Longrightarrow> jget (ts @ us) (jreplace ts c j) = jget us c"
proof (induction ts arbitrary: j)
  case (Cons t ts)
  then obtain k e where k: "tkey j t = Some k" "jkids j k = Some e" "jget ts e = Some d"
    by (auto simp: jchild_def bind_eq_Some_conv)
  then show ?case using Cons.IH [of e] by (simp add: jchild_def jkids_jput)
qed simp

section \<open>Values that stand for trees\<close>

fun kids :: "heap \<Rightarrow> jval \<Rightarrow> key \<Rightarrow> jval option" where
  "kids h (VMap mo) (Field k) = map_at h mo k"
| "kids h (VSlice a off len) (Index i) = (if i < len then Some (array_at h a ! (off + i)) else None)"
| "kids _ _ _ = None"

text \<open>The cell behind a node: a map for an object, an array with room for the slice for a list.\<close>

definition root_ok :: "heap \<Rightarrow> jval \<Rightarrow> json \<Rightarrow> addr \<Rightarrow> bool" where
  "root_ok h v j a \<longleftrightarrow>
     (v = VMap (Some a) \<and> (\<exists>m. h a = CMap m) \<and> (\<exists>f. j = JObj f)) \<or>
     (\<exists>off xs ys. v = VSlice a off (length ys) \<and> h a = CArr xs \<and> off + length ys \<le> length xs \<and> j = JList ys)"

definition atomic :: "jval \<Rightarrow> bool" where
  "atomic v \<longleftrightarrow> (case v of VMap _ \<Rightarrow> False | VSlice _ _ _ \<Rightarrow> False | _ \<Rightarrow> True)"

text \<open>
  \<open>own h v j A\<close>: in the heap \<open>h\<close> the value \<open>v\<close> is the tree \<open>j\<close>, made of the cells \<open>A\<close>, none of which is used
  twice.
\<close>

inductive own :: "heap \<Rightarrow> jval \<Rightarrow> json \<Rightarrow> addr set \<Rightarrow> bool" for h where
  atom: "atomic v \<Longrightarrow> own h v (JAtom v) {}"
| node: "root_ok h v j a \<Longrightarrow> dom (kids h v) = dom (jkids j) \<Longrightarrow>
    (\<And>k. k \<in> dom (jkids j) \<Longrightarrow> own h (the (kids h v k)) (the (jkids j k)) (F k)) \<Longrightarrow>
    (\<And>k. k \<in> dom (jkids j) \<Longrightarrow> a \<notin> F k) \<Longrightarrow>
    (\<And>k l. k \<in> dom (jkids j) \<Longrightarrow> l \<in> dom (jkids j) \<Longrightarrow> k \<noteq> l \<Longrightarrow> F k \<inter> F l = {}) \<Longrightarrow>
    own h v j (insert a (\<Union>k \<in> dom (jkids j). F k))"

lemma kids_cong: "root_ok h v j a \<Longrightarrow> h' a = h a \<Longrightarrow> kids h' v = kids h v \<and> root_ok h' v j a"
proof -
  assume r: "root_ok h v j a" and e: "h' a = h a"
  have "kids h' v k = kids h v k" for k
    using r e by (cases k) (auto simp: root_ok_def map_at_def array_at_def)
  then show ?thesis using r e by (auto simp: root_ok_def)
qed

text \<open>A tree does not change when other cells do.\<close>

lemma own_frame:
  assumes "own h v j A" "\<And>a. a \<in> A \<Longrightarrow> h' a = h a"
  shows "own h' v j A"
  using assms
proof induction
  case (node v j a F)
  have c: "kids h' v = kids h v" "root_ok h' v j a" using kids_cong [OF node.hyps(1), of h'] node.prems by simp_all
  have "own h' (the (kids h v k)) (the (jkids j k)) (F k)" if "k \<in> dom (jkids j)" for k
    using node.IH [OF that] node.prems that by blast
  with c node.hyps show ?case by (intro own.node) simp_all
qed (simp add: own.atom)

text \<open>One child of a node is replaced and everything else stays: the node is the tree with that child replaced.\<close>

lemma own_put:
  assumes "root_ok h' v (jput j k d) a"
    and "\<And>l. l \<in> dom (jkids j) \<Longrightarrow> own h (the (kids h v l)) (the (jkids j l)) (F l)"
    and "\<And>l. l \<in> dom (jkids j) \<Longrightarrow> a \<notin> F l"
    and "\<And>l l'. l \<in> dom (jkids j) \<Longrightarrow> l' \<in> dom (jkids j) \<Longrightarrow> l \<noteq> l' \<Longrightarrow> F l \<inter> F l' = {}"
    and "dom (kids h v) = dom (jkids j)" "jkids (jput j k d) = (jkids j)(k \<mapsto> d)" "kids h' v = (kids h v)(k \<mapsto> c)"
    and "own h' c d C" "a \<notin> C" "\<And>l. l \<in> dom (jkids j) \<Longrightarrow> l \<noteq> k \<Longrightarrow> F l \<inter> C = {} \<and> (\<forall>b \<in> F l. h' b = h b)"
  shows "own h' v (jput j k d) (insert a (C \<union> (\<Union>l \<in> dom (jkids j) - {k}. F l)))"
proof -
  let ?G = "F(k := C)"
  have "own h' v (jput j k d) (insert a (\<Union>l \<in> dom (jkids (jput j k d)). ?G l))"
  proof (rule own.node [OF assms(1)])
    show "dom (kids h' v) = dom (jkids (jput j k d))" using assms(5-7) by simp
    show "own h' (the (kids h' v l)) (the (jkids (jput j k d) l)) (?G l)" if "l \<in> dom (jkids (jput j k d))" for l
      using that assms(2,6-8,10) own_frame [of h "the (kids h v l)" "the (jkids j l)" "F l" h'] by auto
    show "a \<notin> ?G l" if "l \<in> dom (jkids (jput j k d))" for l using that assms(3,6,9) by auto
    show "?G l \<inter> ?G l' = {}" if "l \<in> dom (jkids (jput j k d))" "l' \<in> dom (jkids (jput j k d))" "l \<noteq> l'" for l l'
      using that assms(4) [of l l'] assms(6) assms(10) [of l] assms(10) [of l'] by (simp split: if_splits) blast+
  qed
  moreover have "(\<Union>l \<in> dom (jkids (jput j k d)). ?G l) = C \<union> (\<Union>l \<in> dom (jkids j) - {k}. F l)"
    unfolding assms(6) by (auto split: if_splits)
  ultimately show ?thesis by simp
qed

section \<open>One turn of the loop\<close>

lemma kids_child:
  "dom (kids h v) = dom (jkids j) \<Longrightarrow> jkids j k = Some d \<Longrightarrow> kids h v k = Some (the (kids h v k))"
  by (metis domD domI option.sel)

lemma loop_inner:
  assumes "root_ok h v j a" "tkey j t = Some k" "kids h v k = Some c" "rest \<noteq> []"
  shows "impl_loop md sv prev (t # rest) v h = impl_loop md sv (Some (v, t)) rest c h"
  using assms by (auto simp: root_ok_def tkey_def Let_def split: option.splits if_splits)

lemma loop_last_get:
  assumes "root_ok h v j a" "tkey j t = Some k" "kids h v k = Some c"
  shows "impl_loop GET sv prev [t] v h = Inr (h, \<lparr>getOutNode = c, getOutKind = kindOf c, outError = None\<rparr>)"
  using assms by (auto simp: root_ok_def tkey_def Let_def split: option.splits if_splits)

text \<open>A token that leads nowhere ends the loop with an error and leaves the heap as it is.\<close>

definition stops :: "(heap \<times> outcome) res \<Rightarrow> heap \<Rightarrow> bool" where
  "stops r h \<longleftrightarrow> (\<exists>e k. r = Inr (h, failed e k))"

lemma stops_failed [simp]: "stops (Inr (h, failed e k)) h"
  by (auto simp: stops_def)

lemma loop_missing:
  assumes "own h v j A" "jchild j t = None" "md \<noteq> SET \<or> rest \<noteq> []"
  shows "stops (impl_loop md sv prev (t # rest) v h) h"
  using assms(1)
proof cases
  case atom
  then show ?thesis by (auto simp: atomic_def split: jval.splits)
next
  case (node a F)
  then have eq: "\<And>k. kids h v k = None \<longleftrightarrow> jkids j k = None" by (metis domIff)
  from node(2) show ?thesis unfolding root_ok_def
  proof (elim disjE exE conjE)
    fix m f assume v: "v = VMap (Some a)" "h a = CMap m" "j = JObj f"
    then have "m (decodeReferenceToken t) = None"
      using assms(2) eq [of "Field (decodeReferenceToken t)"] by (simp add: jchild_def tkey_def map_at_def)
    then show ?thesis using v assms(3) by (auto simp: map_at_def Let_def)
  next
    fix off xs ys assume "v = VSlice a off (length ys)" "j = JList ys"
    then show ?thesis using assms(2) by (auto simp: jchild_def tkey_def split: option.splits if_splits)
  qed
qed

lemma loop_set_missing:
  assumes "own h v j A" "tkey j t = None"
  shows "stops (impl_loop SET sv prev [t] v h) h"
  using assms(1)
proof cases
  case atom
  then show ?thesis by (auto simp: atomic_def split: jval.splits)
next
  case (node a F)
  from node(2) assms(2) show ?thesis by (auto simp: root_ok_def tkey_def split: option.splits if_splits)
qed

lemma loop_last_set:
  assumes "root_ok h v j a" "tkey j t = Some k"
  shows "\<exists>h' out. impl_loop SET sv prev [t] v h = Inr (h', out) \<and> outError out = None \<and>
    (\<forall>b. b \<noteq> a \<longrightarrow> h' b = h b) \<and> kids h' v = (kids h v)(k \<mapsto> sv) \<and> root_ok h' v (jput j k d) a"
proof -
  from assms(1) [unfolded root_ok_def] show ?thesis
  proof (elim disjE exE conjE)
  fix m f assume v: "v = VMap (Some a)" "h a = CMap m" "j = JObj f"
  let ?h = "h(a := CMap (m(decodeReferenceToken t \<mapsto> sv)))"
  have k: "k = Field (decodeReferenceToken t)" using assms(2) v by (simp add: tkey_def)
  have "kids ?h v l = ((kids h v)(k \<mapsto> sv)) l" for l using v k by (cases l) (auto simp: map_at_def)
  moreover have "\<exists>out. impl_loop SET sv prev [t] v h = Inr (?h, out) \<and> outError out = None"
    using v by (auto simp: map_at_def map_set_def Let_def split: option.splits)
  ultimately show ?thesis using v k by (fastforce simp: root_ok_def)
next
  fix off xs ys assume v: "v = VSlice a off (length ys)" "h a = CArr xs" "off + length ys \<le> length xs" "j = JList ys"
  then obtain i where i: "Atoi t = Some i" "0 \<le> i" "i < int (length ys)" "k = Index (nat i)"
    using assms(2) by (auto simp: tkey_def split: option.splits if_splits)
  let ?h = "array_set h a (off + nat i) sv"
  have "kids ?h v l = ((kids h v)(k \<mapsto> sv)) l" for l
    using v i by (cases l) (auto simp: array_set_def array_at_def nth_list_update)
  moreover have "impl_loop SET sv prev [t] v h =
      Inr (?h, \<lparr>getOutNode = xs ! (off + nat i), getOutKind = kindOf (xs ! (off + nat i)), outError = None\<rparr>)"
    using v i by (simp add: array_at_def Let_def)
  ultimately show ?thesis using v i by (fastforce simp: root_ok_def array_set_def array_at_def)
  qed
qed

section \<open>Walking to a node and putting a tree there\<close>

lemma root_ok_jput: "root_ok h v j a \<Longrightarrow> root_ok h v (jput j k d) a"
  by (cases j; cases k) (auto simp: root_ok_def)

lemma own_nodeE:
  assumes "own h v j A" "tkey j t = Some k"
  obtains a F where "root_ok h v j a" "dom (kids h v) = dom (jkids j)" "A = insert a (\<Union>l \<in> dom (jkids j). F l)"
    "\<And>l. l \<in> dom (jkids j) \<Longrightarrow> own h (the (kids h v l)) (the (jkids j l)) (F l)"
    "\<And>l. l \<in> dom (jkids j) \<Longrightarrow> a \<notin> F l"
    "\<And>l l'. l \<in> dom (jkids j) \<Longrightarrow> l' \<in> dom (jkids j) \<Longrightarrow> l \<noteq> l' \<Longrightarrow> F l \<inter> F l' = {}"
  using assms(1)
proof cases
  case (node a F)
  then show ?thesis by (intro that [of a F]) auto
qed (use assms(2) in \<open>simp add: tkey_def\<close>)

text \<open>
  The loop walks to the node that the tokens name; whatever the cells of that node become, as long as they
  stay apart from the rest, the document becomes the tree with that node replaced.
\<close>

lemma walk:
  assumes "own h v j A" "jget ts j = Some d"
  shows "\<exists>c C. own h c d C \<and> C \<subseteq> A \<and>
    (\<forall>md sv prev rest. rest \<noteq> [] \<longrightarrow>
       (\<exists>prev'. impl_loop md sv prev (ts @ rest) v h = impl_loop md sv prev' rest c h \<and> (ts = [] \<longrightarrow> prev' = prev))) \<and>
    (\<forall>h' d' C'. (\<forall>b \<in> A - C. h' b = h b) \<longrightarrow> own h' c d' C' \<longrightarrow> C' \<inter> (A - C) = {} \<longrightarrow>
       own h' v (jreplace ts d' j) ((A - C) \<union> C'))"
  using assms
proof (induction ts arbitrary: v j A)
  case Nil
  then show ?case by (intro exI [of _ v] exI [of _ A]) auto
next
  case (Cons t ts)
  then obtain k e where k: "tkey j t = Some k" "jkids j k = Some e" "jget ts e = Some d"
    by (auto simp: jchild_def bind_eq_Some_conv)
  obtain a F where N: "root_ok h v j a" "dom (kids h v) = dom (jkids j)" "A = insert a (\<Union>l \<in> dom (jkids j). F l)"
    "\<And>l. l \<in> dom (jkids j) \<Longrightarrow> own h (the (kids h v l)) (the (jkids j l)) (F l)"
    "\<And>l. l \<in> dom (jkids j) \<Longrightarrow> a \<notin> F l"
    "\<And>l l'. l \<in> dom (jkids j) \<Longrightarrow> l' \<in> dom (jkids j) \<Longrightarrow> l \<noteq> l' \<Longrightarrow> F l \<inter> F l' = {}"
    by (rule own_nodeE [OF Cons.prems(1) k(1)]) blast
  have kd: "k \<in> dom (jkids j)" using k(2) by auto
  let ?cv = "the (kids h v k)"
  have cv: "kids h v k = Some ?cv" "own h ?cv e (F k)"
    using kids_child [OF N(2) k(2)] N(4) [OF kd] k(2) by simp_all
  obtain c C where IH: "own h c d C" "C \<subseteq> F k"
    "\<And>md sv prev rest. rest \<noteq> [] \<Longrightarrow> \<exists>prev'. impl_loop md sv prev (ts @ rest) ?cv h = impl_loop md sv prev' rest c h"
    "\<And>h' d' C'. (\<forall>b \<in> F k - C. h' b = h b) \<Longrightarrow> own h' c d' C' \<Longrightarrow> C' \<inter> (F k - C) = {} \<Longrightarrow>
       own h' ?cv (jreplace ts d' e) ((F k - C) \<union> C')"
    using Cons.IH [OF cv(2) k(3)] by metis
  have "own h' v (jreplace (t # ts) d' j) ((A - C) \<union> C')"
    if p: "\<forall>b \<in> A - C. h' b = h b" "own h' c d' C'" "C' \<inter> (A - C) = {}" for h' d' C'
  proof -
    let ?D = "(F k - C) \<union> C'" and ?d = "jreplace ts d' e"
    have sub: "F k \<subseteq> A" "a \<in> A" "a \<notin> C" "\<And>l. l \<in> dom (jkids j) \<Longrightarrow> l \<noteq> k \<Longrightarrow> F l \<subseteq> A - C"
      using N(3) N(5) [OF kd] N(6) [OF _ kd] kd IH(2) by blast+
    have "h' a = h a" using p(1) sub by simp
    then have kc: "kids h' v = kids h v" "root_ok h' v j a" using kids_cong [OF N(1), of h'] by simp_all
    have D: "own h' ?cv ?d ?D" using IH(4) [of h' d' C'] p sub(1) by blast
    have "own h' v (jput j k ?d) (insert a (?D \<union> (\<Union>l \<in> dom (jkids j) - {k}. F l)))"
    proof (rule own_put [where h = h and c = ?cv])
      show "root_ok h' v (jput j k ?d) a" using kc root_ok_jput by blast
      show "jkids (jput j k ?d) = (jkids j)(k \<mapsto> ?d)" using k(2) by (intro jkids_jput) simp
      show "kids h' v = (kids h v)(k \<mapsto> ?cv)" using kc cv(1) by auto
      show "a \<notin> ?D" using N(5) [OF kd] p(3) sub by blast
      show "F l \<inter> ?D = {} \<and> (\<forall>b \<in> F l. h' b = h b)" if "l \<in> dom (jkids j)" "l \<noteq> k" for l
        using sub(4) [OF that] N(6) [OF that(1) kd that(2)] p(1,3) by blast
    qed (fact N D)+
    moreover have "insert a (?D \<union> (\<Union>l \<in> dom (jkids j) - {k}. F l)) = (A - C) \<union> C'"
      using N(3) kd sub by blast
    ultimately show ?thesis using k by simp
  qed
  moreover have "\<exists>prev'. impl_loop md sv prev ((t # ts) @ rest) v h = impl_loop md sv prev' rest c h" if "rest \<noteq> []" for md sv prev rest
    using IH(3) [OF that] loop_inner [OF N(1) k(1) cv(1)] that by simp
  moreover have "C \<subseteq> A" using IH(2) N(3) kd by blast
  ultimately show ?case using IH(1) by blast
qed

text \<open>Tokens that lead nowhere.\<close>

lemma walk_missing:
  assumes "own h v j A" "jget ts j = None" "md \<noteq> SET \<or> rest \<noteq> []"
  shows "stops (impl_loop md sv prev (ts @ rest) v h) h"
  using assms(1,2)
proof (induction ts arbitrary: v j A prev)
  case (Cons t ts)
  show ?case
  proof (cases "jchild j t")
    case None
    then show ?thesis using loop_missing [OF Cons.prems(1) None, of md "ts @ rest" sv prev] assms(3) by simp
  next
    case (Some e)
    then obtain k where k: "tkey j t = Some k" "jkids j k = Some e" by (auto simp: jchild_def bind_eq_Some_conv)
    obtain a F where N: "root_ok h v j a" "dom (kids h v) = dom (jkids j)"
      "\<And>l. l \<in> dom (jkids j) \<Longrightarrow> own h (the (kids h v l)) (the (jkids j l)) (F l)"
      by (rule own_nodeE [OF Cons.prems(1) k(1)]) blast
    have c: "kids h v k = Some (the (kids h v k))" "own h (the (kids h v k)) e (F k)"
      using kids_child [OF N(2) k(2)] N(3) [of k] k(2) by auto
    have e: "jget ts e = None" using Cons.prems(2) Some by simp
    then have "ts \<noteq> []" by auto
    then show ?thesis using loop_inner [OF N(1) k(1) c(1), of "ts @ rest" md sv prev] Cons.IH [OF c(2) e] by simp
  qed
qed simp

text \<open>The last turn of a lookup.\<close>

lemma last_get:
  assumes "own h v j A" "jchild j t = Some d"
  shows "\<exists>c C. impl_loop GET sv prev [t] v h = Inr (h, \<lparr>getOutNode = c, getOutKind = kindOf c, outError = None\<rparr>) \<and> own h c d C"
proof -
  obtain k where k: "tkey j t = Some k" "jkids j k = Some d" using assms(2) by (auto simp: jchild_def bind_eq_Some_conv)
  obtain a F where N: "root_ok h v j a" "dom (kids h v) = dom (jkids j)"
    "\<And>l. l \<in> dom (jkids j) \<Longrightarrow> own h (the (kids h v l)) (the (jkids j l)) (F l)"
    by (rule own_nodeE [OF assms(1) k(1)]) blast
  have c: "kids h v k = Some (the (kids h v k))" "own h (the (kids h v k)) d (F k)"
    using kids_child [OF N(2) k(2)] N(3) [of k] k(2) by auto
  then show ?thesis using loop_last_get [OF N(1) k(1) c(1)] by blast
qed

lemma get_pure: "\<exists>out. impl_loop GET sv prev ts v h = Inr (h, out)"
  by (induction ts arbitrary: prev v) (auto simp: Let_def split: jval.splits option.splits)

section \<open>Get\<close>

lemma jget_snoc: "jget (ts @ [t]) j = Option.bind (jget ts j) (\<lambda>d. jchild d t)"
  by (induction ts arbitrary: j) (auto simp: bind_assoc split: bind_splits)

text \<open>
  C38. Looking up is reading: on every document, cyclic or with nil maps, \<^verbatim>\<open>Get\<close> returns, changes nothing and
  does not panic. On a document that is a tree it is lookup in that tree: it returns the node the tokens
  name, with the kind of that node, and an error exactly if there is none.
\<close>

theorem pointer_get_refines:
  "(\<exists>out. Pointer_Get \<lparr>referenceTokens = ts\<rparr> doc h = Inr (h, out) \<and>
     (own h doc j A \<longrightarrow>
       (case jget ts j of
          None \<Rightarrow> \<exists>e. outError out = Some (Err e)
        | Some d \<Rightarrow> outError out = None \<and> (\<exists>C. own h (getOutNode out) d C) \<and>
            (ts \<noteq> [] \<longrightarrow> getOutKind out = kindOf (getOutNode out)))))"
proof (cases ts rule: rev_cases)
  case Nil
  then show ?thesis by (auto simp: Pointer_Get_def implementation_def)
next
  case (snoc us t)
  have eq: "Pointer_Get \<lparr>referenceTokens = ts\<rparr> doc h = impl_loop GET VNil None (us @ [t]) doc h"
    using snoc by (simp add: Pointer_Get_def implementation_def)
  show ?thesis
  proof (cases "own h doc j A")
    case False
    then show ?thesis unfolding eq using get_pure [of VNil None "us @ [t]" doc h] by blast
  next
    case own: True
    show ?thesis
    proof (cases "jget ts j")
      case None
      then show ?thesis unfolding eq using walk_missing [OF own, of ts GET "[]" VNil None] snoc by (auto simp: stops_def failed_def)
    next
      case (Some d)
      then obtain e where e: "jget us j = Some e" "jchild e t = Some d" using snoc by (auto simp: jget_snoc bind_eq_Some_conv)
      obtain c C prev where c: "own h c e C" "impl_loop GET VNil None (us @ [t]) doc h = impl_loop GET VNil prev [t] c h"
        using walk [OF own e(1)] by blast
      from last_get [OF c(1) e(2), of VNil prev] show ?thesis unfolding eq c(2) using Some snoc by auto
    qed
  qed
qed

section \<open>Set\<close>

text \<open>Setting on trees: the node before the last token must be there and have a place for it.\<close>

definition jset :: "string list \<Rightarrow> json \<Rightarrow> json \<Rightarrow> json option" where
  "jset ts c j =
     do { d \<leftarrow> jget (butlast ts) j;
          k \<leftarrow> tkey d (last ts);
          Some (jreplace (butlast ts) (jput d k c) j) }"

lemma last_set:
  assumes "own h v j A" "tkey j t = Some k" "own h sv c B" "A \<inter> B = {}"
  shows "\<exists>h' out C. impl_loop SET sv prev [t] v h = Inr (h', out) \<and> outError out = None \<and>
    own h' v (jput j k c) C \<and> C \<subseteq> A \<union> B \<and> (\<forall>b. b \<notin> A \<longrightarrow> h' b = h b)"
proof -
  obtain a F where N: "root_ok h v j a" "dom (kids h v) = dom (jkids j)" "A = insert a (\<Union>l \<in> dom (jkids j). F l)"
    "\<And>l. l \<in> dom (jkids j) \<Longrightarrow> own h (the (kids h v l)) (the (jkids j l)) (F l)"
    "\<And>l. l \<in> dom (jkids j) \<Longrightarrow> a \<notin> F l"
    "\<And>l l'. l \<in> dom (jkids j) \<Longrightarrow> l' \<in> dom (jkids j) \<Longrightarrow> l \<noteq> l' \<Longrightarrow> F l \<inter> F l' = {}"
    by (rule own_nodeE [OF assms(1,2)]) blast
  obtain h' out where s: "impl_loop SET sv prev [t] v h = Inr (h', out)" "outError out = None"
    "\<forall>b. b \<noteq> a \<longrightarrow> h' b = h b" "kids h' v = (kids h v)(k \<mapsto> sv)" "root_ok h' v (jput j k c) a"
    using loop_last_set [OF N(1) assms(2)] by blast
  have a: "a \<notin> B" "\<And>l. l \<in> dom (jkids j) \<Longrightarrow> F l \<inter> B = {}" using N(3) assms(4) by auto
  have "own h' v (jput j k c) (insert a (B \<union> (\<Union>l \<in> dom (jkids j) - {k}. F l)))"
  proof (rule own_put [where h = h and c = sv])
    show "jkids (jput j k c) = (jkids j)(k \<mapsto> c)" by (rule jkids_jput [where t = t]) (simp add: assms(2))
    show "own h' sv c B" by (rule own_frame [OF assms(3)]) (use s(3) a(1) in metis)
    show "F l \<inter> B = {} \<and> (\<forall>b \<in> F l. h' b = h b)" if "l \<in> dom (jkids j)" "l \<noteq> k" for l
      using a(2) [OF that(1)] N(5) [OF that(1)] s(3) by metis
  qed (fact N s a)+
  moreover have "insert a (B \<union> (\<Union>l \<in> dom (jkids j) - {k}. F l)) \<subseteq> A \<union> B" using N(3) by blast
  moreover have "\<forall>b. b \<notin> A \<longrightarrow> h' b = h b" using s(3) N(3) by blast
  ultimately show ?thesis using s(1,2) by blast
qed

text \<open>
  C39. Setting in a document that is a tree is replacement in that tree. If the node before the last
  token is there and the last token names a field of an object or an index within a list, \<^verbatim>\<open>Set\<close> returns
  no error, the document becomes the tree with that place replaced, looking the same tokens up gives the
  value, and no cell outside the document changes; otherwise there is an error and nothing changes. With
  the empty pointer nothing is set and no error returned.
\<close>

theorem pointer_set_refines:
  assumes "own h doc j A" "own h v c B" "A \<inter> B = {}"
  shows "(ts = [] \<longrightarrow> Pointer_Set \<lparr>referenceTokens = ts\<rparr> doc v h = Inr (h, doc, None)) \<and>
    (ts \<noteq> [] \<longrightarrow>
      (case jset ts c j of
         None \<Rightarrow> \<exists>e. Pointer_Set \<lparr>referenceTokens = ts\<rparr> doc v h = Inr (h, doc, Some (Err e))
       | Some j' \<Rightarrow> \<exists>h' A'. Pointer_Set \<lparr>referenceTokens = ts\<rparr> doc v h = Inr (h', doc, None) \<and>
           own h' doc j' A' \<and> jget ts j' = Some c \<and> (\<forall>b. b \<notin> A \<longrightarrow> h' b = h b)))"
proof (cases ts rule: rev_cases)
  case Nil
  then show ?thesis by (simp add: Pointer_Set_def implementation_def)
next
  case (snoc us t)
  then have ne: "ts \<noteq> []" by simp
  let ?r = "impl_loop SET v None (us @ [t]) doc h"
  have eq: "Pointer_Set \<lparr>referenceTokens = ts\<rparr> doc v h = (case ?r of Inl e \<Rightarrow> Inl e | Inr (h', i) \<Rightarrow> Inr (h', doc, outError i))"
    using snoc by (simp add: Pointer_Set_def implementation_def)
  have no: "\<exists>e. Pointer_Set \<lparr>referenceTokens = ts\<rparr> doc v h = Inr (h, doc, Some (Err e))" if "stops ?r h"
    using that unfolding eq stops_def by (auto simp: failed_def)
  show ?thesis
  proof (cases "jget us j")
    case None
    then have "jset ts c j = None" using snoc by (simp add: jset_def)
    with no walk_missing [OF assms(1) None, of SET "[t]" v None] ne show ?thesis by simp
  next
    case (Some d)
    obtain n C prev where n: "own h n d C" "C \<subseteq> A" "?r = impl_loop SET v prev [t] n h"
      "\<And>h' d' C'. (\<forall>b \<in> A - C. h' b = h b) \<Longrightarrow> own h' n d' C' \<Longrightarrow> C' \<inter> (A - C) = {} \<Longrightarrow>
         own h' doc (jreplace us d' j) ((A - C) \<union> C')"
      using walk [OF assms(1) Some] by blast
    show ?thesis
    proof (cases "tkey d t")
      case None
      then have "jset ts c j = None" using snoc Some by (simp add: jset_def)
      with no loop_set_missing [OF n(1) None, of v prev] n(3) ne show ?thesis by simp
    next
      case (Some k)
      let ?j = "jreplace us (jput d k c) j"
      have j: "jset ts c j = Some ?j" using snoc \<open>jget us j = Some d\<close> Some by (simp add: jset_def)
      obtain h' out C' where s: "impl_loop SET v prev [t] n h = Inr (h', out)" "outError out = None"
        "own h' n (jput d k c) C'" "C' \<subseteq> C \<union> B" "\<forall>b. b \<notin> C \<longrightarrow> h' b = h b"
        using last_set [OF n(1) Some assms(2), of prev] assms(3) n(2) by blast
      have "own h' doc ?j ((A - C) \<union> C')" using n(4) [of h' "jput d k c" C'] s(3-5) assms(3) by blast
      moreover have "jget ts ?j = Some c"
        using jget_jreplace [OF \<open>jget us j = Some d\<close>, of "[t]" "jput d k c"] Some snoc
          jkids_jput [of d k t c] by (simp add: jchild_def)
      moreover have "Pointer_Set \<lparr>referenceTokens = ts\<rparr> doc v h = Inr (h', doc, None)" using s(1,2) by (simp add: eq n(3))
      ultimately show ?thesis using j snoc s(5) n(2) by auto
    qed
  qed
qed

section \<open>Delete\<close>

text \<open>
  Deletion on trees, as the code does it: \<open>Inr None\<close> is an error, \<open>Inl\<close> a panic. An element of a list is
  replaced by the last one, and only a list that is a field of an object can lose one.
\<close>

definition jdel :: "string list \<Rightarrow> json \<Rightarrow> json option res" where
  "jdel ts j =
     (let us = butlast ts; t = last ts in
      case jget us j of
        Some (JObj f) \<Rightarrow>
          (if f (decodeReferenceToken t) = None then Inr None
           else Inr (Some (jreplace us (JObj (f(decodeReferenceToken t := None))) j)))
      | Some (JList xs) \<Rightarrow>
          (case tkey (JList xs) t of
             Some (Index i) \<Rightarrow>
               (if us = [] then Inl IndexOutOfRange
                else (case jget (butlast us) j of
                        Some (JObj f) \<Rightarrow> Inr (Some (jreplace us (JList (butlast (xs[i := last xs]))) j))
                      | _ \<Rightarrow> Inl (Panic ''interface conversion'')))
           | _ \<Rightarrow> Inr None)
      | _ \<Rightarrow> Inr None)"

text \<open>The fields of an object as its children.\<close>

definition fields :: "(string \<Rightarrow> 'a option) \<Rightarrow> key \<Rightarrow> 'a option" where
  "fields g k = (case k of Field x \<Rightarrow> g x | Index _ \<Rightarrow> None)"

lemma dom_fields: "dom (fields g) = Field ` dom g"
proof (rule set_eqI)
  fix k
  show "k \<in> dom (fields g) \<longleftrightarrow> k \<in> Field ` dom g" by (cases k) (auto simp: fields_def)
qed

lemma kids_fields: "jkids (JObj f) = fields f" "h a = CMap m \<Longrightarrow> kids h (VMap (Some a)) = fields m"
proof -
  have "jkids (JObj f) k = fields f k" for k by (cases k) (auto simp: fields_def)
  moreover have "kids h (VMap (Some a)) k = fields m k" if "h a = CMap m" for k
    using that by (cases k) (auto simp: fields_def map_at_def)
  ultimately show "jkids (JObj f) = fields f" "h a = CMap m \<Longrightarrow> kids h (VMap (Some a)) = fields m" by (simp_all add: fun_eq_iff)
qed

lemma fields_Field [simp]: "fields g (Field x) = g x"
  by (simp add: fields_def)

lemma own_objE:
  assumes "own h v (JObj f) A"
  obtains a m F where "v = VMap (Some a)" "h a = CMap m" "dom m = dom f" "A = insert a (\<Union>k \<in> dom f. F k)"
    "\<And>k. k \<in> dom f \<Longrightarrow> own h (the (m k)) (the (f k)) (F k)" "\<And>k. k \<in> dom f \<Longrightarrow> a \<notin> F k"
    "\<And>k l. k \<in> dom f \<Longrightarrow> l \<in> dom f \<Longrightarrow> k \<noteq> l \<Longrightarrow> F k \<inter> F l = {}"
  using assms
proof cases
  case (node a F)
  then obtain m where v: "v = VMap (Some a)" "h a = CMap m" by (auto simp: root_ok_def)
  have kv: "kids h v = fields m" using v kids_fields(2) by simp
  have "Field ` dom m = Field ` dom f" using node(3) unfolding kids_fields kv dom_fields .
  then have dm: "dom m = dom f" by (simp add: inj_image_eq_iff inj_def)
  have dj: "dom (jkids (JObj f)) = Field ` dom f" by (simp add: kids_fields dom_fields)
  show ?thesis
  proof (rule that [of a m "F \<circ> Field"])
    show "own h (the (m k)) (the (f k)) ((F \<circ> Field) k)" if "k \<in> dom f" for k
      using node(4) [of "Field k"] that unfolding dj by (simp add: kv kids_fields)
    show "a \<notin> (F \<circ> Field) k" if "k \<in> dom f" for k using node(5) [of "Field k"] that unfolding dj by simp
    show "(F \<circ> Field) k \<inter> (F \<circ> Field) l = {}" if "k \<in> dom f" "l \<in> dom f" "k \<noteq> l" for k l
      using node(6) [of "Field k" "Field l"] that unfolding dj by simp
    show "A = insert a (\<Union>k \<in> dom f. (F \<circ> Field) k)" using node(1) unfolding dj by simp
  qed (fact v dm)+
qed

lemma own_objI:
  assumes "h a = CMap m" "dom m = dom f" "\<And>k. k \<in> dom f \<Longrightarrow> own h (the (m k)) (the (f k)) (F k)"
    "\<And>k. k \<in> dom f \<Longrightarrow> a \<notin> F k" "\<And>k l. k \<in> dom f \<Longrightarrow> l \<in> dom f \<Longrightarrow> k \<noteq> l \<Longrightarrow> F k \<inter> F l = {}"
  shows "own h (VMap (Some a)) (JObj f) (insert a (\<Union>k \<in> dom f. F k))"
proof -
  let ?v = "VMap (Some a)" and ?G = "\<lambda>k. case k of Field x \<Rightarrow> F x | Index _ \<Rightarrow> {}"
  have "own h ?v (JObj f) (insert a (\<Union>k \<in> dom (jkids (JObj f)). ?G k))"
  proof (rule own.node)
    show "root_ok h ?v (JObj f) a" using assms(1) by (simp add: root_ok_def)
    show "dom (kids h ?v) = dom (jkids (JObj f))" using assms(1,2) by (simp add: kids_fields dom_fields)
    show "own h (the (kids h ?v k)) (the (jkids (JObj f) k)) (?G k)" if in_dom: "k \<in> dom (jkids (JObj f))" for k
    proof -
      obtain x where x: "k = Field x" "x \<in> dom f" using in_dom unfolding kids_fields dom_fields by blast
      then show ?thesis using assms(3) [OF x(2)] assms(1) by (simp add: kids_fields)
    qed
    show "a \<notin> ?G k" if in_dom: "k \<in> dom (jkids (JObj f))" for k
    proof -
      obtain x where x: "k = Field x" "x \<in> dom f" using in_dom unfolding kids_fields dom_fields by blast
      then show ?thesis using assms(4) [OF x(2)] by simp
    qed
    show "?G k \<inter> ?G l = {}" if in_dom: "k \<in> dom (jkids (JObj f))" "l \<in> dom (jkids (JObj f))" and ne: "k \<noteq> l" for k l
    proof -
      obtain x y where "k = Field x" "l = Field y" "x \<in> dom f" "y \<in> dom f" using in_dom unfolding kids_fields dom_fields by blast
      then show ?thesis using ne assms(5) by simp
    qed
  qed
  then show ?thesis by (simp add: dom_fields kids_fields)
qed

lemma delete_member:
  assumes "own h v (JObj f) A" "f (decodeReferenceToken t) \<noteq> None"
  shows "\<exists>h' out C. impl_loop DEL sv prev [t] v h = Inr (h', out) \<and> outError out = None \<and>
    own h' v (JObj (f(decodeReferenceToken t := None))) C \<and> C \<subseteq> A \<and> (\<forall>b. b \<notin> A \<longrightarrow> h' b = h b)"
proof -
  let ?k = "decodeReferenceToken t"
  obtain a m F where N: "v = VMap (Some a)" "h a = CMap m" "dom m = dom f" "A = insert a (\<Union>k \<in> dom f. F k)"
    "\<And>k. k \<in> dom f \<Longrightarrow> own h (the (m k)) (the (f k)) (F k)" "\<And>k. k \<in> dom f \<Longrightarrow> a \<notin> F k"
    "\<And>k l. k \<in> dom f \<Longrightarrow> l \<in> dom f \<Longrightarrow> k \<noteq> l \<Longrightarrow> F k \<inter> F l = {}"
    by (rule own_objE [OF assms(1)]) blast
  let ?h = "h(a := CMap (m(?k := None)))"
  have mk: "m ?k = Some (the (m ?k))" using assms(2) N(3) by (metis domIff option.collapse)
  have "impl_loop DEL sv prev [t] v h = Inr (?h, \<lparr>getOutNode = the (m ?k), getOutKind = kindOf (the (m ?k)), outError = None\<rparr>)"
    using N(1,2) mk by (auto simp: map_at_def map_delete_def Let_def split: option.splits)
  moreover have "own ?h v (JObj (f(?k := None))) (insert a (\<Union>k \<in> dom (f(?k := None)). F k))"
    unfolding N(1)
  proof (rule own_objI [where m = "m(?k := None)"])
    show "own ?h (the ((m(?k := None)) k)) (the ((f(?k := None)) k)) (F k)" if "k \<in> dom (f(?k := None))" for k
    proof -
      have k: "k \<noteq> ?k" "k \<in> dom f" using that by (auto split: if_splits)
      have "own ?h (the (m k)) (the (f k)) (F k)"
        by (rule own_frame [OF N(5) [OF k(2)]]) (use N(6) [OF k(2)] in auto)
      with k show ?thesis by simp
    qed
    show "F k \<inter> F l = {}" if "k \<in> dom (f(?k := None))" "l \<in> dom (f(?k := None))" "k \<noteq> l" for k l
      using that N(7) [of k l] by (simp split: if_splits)
    show "dom (m(?k := None)) = dom (f(?k := None))" unfolding dom_fun_upd N(3) by simp
    show "a \<notin> F k" if "k \<in> dom (f(?k := None))" for k using that N(6) [of k] by (simp split: if_splits)
  qed simp
  moreover have "insert a (\<Union>k \<in> dom (f(?k := None)). F k) \<subseteq> A" using N(4) by (auto split: if_splits)
  moreover have "\<forall>b. b \<notin> A \<longrightarrow> ?h b = h b" using N(4) by auto
  moreover have "outError \<lparr>getOutNode = the (m ?k), getOutKind = kindOf (the (m ?k)), outError = None\<rparr> = None" by simp
  ultimately show ?thesis by blast
qed

lemma dom_kids_list: "dom (jkids (JList ys)) = Index ` {..<length ys}"
proof (rule set_eqI)
  fix k
  show "k \<in> dom (jkids (JList ys)) \<longleftrightarrow> k \<in> Index ` {..<length ys}" by (cases k) (auto simp: dom_def)
qed

lemma dom_kids_slice: "dom (kids h (VSlice a off n)) = Index ` {..<n}"
proof (rule set_eqI)
  fix k
  show "k \<in> dom (kids h (VSlice a off n)) \<longleftrightarrow> k \<in> Index ` {..<n}" by (cases k) (auto simp: dom_def)
qed

lemma own_listE:
  assumes "own h v (JList ys) A"
  obtains a off zs F where "v = VSlice a off (length ys)" "h a = CArr zs" "off + length ys \<le> length zs"
    "A = insert a (\<Union>i<length ys. F i)" "\<And>i. i < length ys \<Longrightarrow> own h (zs ! (off + i)) (ys ! i) (F i)"
    "\<And>i. i < length ys \<Longrightarrow> a \<notin> F i" "\<And>i k. i < length ys \<Longrightarrow> k < length ys \<Longrightarrow> i \<noteq> k \<Longrightarrow> F i \<inter> F k = {}"
  using assms
proof cases
  case (node a F)
  then obtain off zs where v: "v = VSlice a off (length ys)" "h a = CArr zs" "off + length ys \<le> length zs" by (auto simp: root_ok_def)
  note n = node(4-6) [unfolded dom_kids_list]
  show ?thesis
  proof (rule that [of a off zs "F \<circ> Index"])
    show "own h (zs ! (off + i)) (ys ! i) ((F \<circ> Index) i)" if "i < length ys" for i
      using n(1) [of "Index i"] that v by (simp add: array_at_def)
    show "a \<notin> (F \<circ> Index) i" if "i < length ys" for i using n(2) [of "Index i"] that by simp
    show "(F \<circ> Index) i \<inter> (F \<circ> Index) k = {}" if "i < length ys" "k < length ys" "i \<noteq> k" for i k
      using n(3) [of "Index i" "Index k"] that by simp
    show "A = insert a (\<Union>i<length ys. (F \<circ> Index) i)" using node(1) unfolding dom_kids_list by simp
  qed (fact v)+
qed

lemma own_listI:
  assumes "h a = CArr zs" "off + length ys \<le> length zs" "\<And>i. i < length ys \<Longrightarrow> own h (zs ! (off + i)) (ys ! i) (F i)"
    "\<And>i. i < length ys \<Longrightarrow> a \<notin> F i" "\<And>i k. i < length ys \<Longrightarrow> k < length ys \<Longrightarrow> i \<noteq> k \<Longrightarrow> F i \<inter> F k = {}"
  shows "own h (VSlice a off (length ys)) (JList ys) (insert a (\<Union>i<length ys. F i))"
proof -
  let ?v = "VSlice a off (length ys)" and ?G = "\<lambda>k. case k of Field _ \<Rightarrow> {} | Index i \<Rightarrow> F i"
  have "own h ?v (JList ys) (insert a (\<Union>k \<in> dom (jkids (JList ys)). ?G k))"
  proof (rule own.node; (unfold dom_kids_list dom_kids_slice)?)
    show "root_ok h ?v (JList ys) a" using assms(1,2) by (simp add: root_ok_def)
    show "own h (the (kids h ?v k)) (the (jkids (JList ys) k)) (?G k)" if "k \<in> Index ` {..<length ys}" for k
      using that assms(1,3) by (auto simp: array_at_def)
    show "a \<notin> ?G k" if "k \<in> Index ` {..<length ys}" for k using that assms(4) by auto
    show "?G k \<inter> ?G l = {}" if k: "k \<in> Index ` {..<length ys}" "l \<in> Index ` {..<length ys}" "k \<noteq> l" for k l
    proof -
      obtain x y where "k = Index x" "l = Index y" "x < length ys" "y < length ys" using k by blast
      then show ?thesis using k(3) assms(5) by simp
    qed
  qed simp
  then show ?thesis by (simp add: dom_kids_list)
qed

text \<open>An index within a list.\<close>

lemma tkey_list:
  "tkey (JList ys) t = Some k \<longleftrightarrow> (\<exists>i. Atoi t = Some i \<and> 0 \<le> i \<and> i < int (length ys) \<and> k = Index (nat i))"
  by (auto simp: tkey_def split: option.splits if_splits)

lemma loop_delete_element:
  assumes "v = VSlice a off (length ys)" "tkey (JList ys) t = Some (Index i)"
  shows "impl_loop DEL sv prev [t] v h =
    (case delete_element prev a off (length ys) i h of
       Inl e \<Rightarrow> Inl e
     | Inr h' \<Rightarrow> Inr (h', \<lparr>getOutNode = array_at h a ! (off + i), getOutKind = kindOf (array_at h a ! (off + i)), outError = None\<rparr>))"
  using assms by (auto simp: tkey_list Let_def split: sum.splits)

text \<open>What is left of the list: the cells of the removed element are free, the last element has moved.\<close>

lemma shrink_list:
  assumes "own h (VSlice a off (length ys)) (JList ys) A" "i < length ys"
    and h': "h' a = CArr ((array_at h a)[off + i := array_at h a ! (off + (length ys - 1)), off + (length ys - 1) := VNil])"
    and same: "\<And>b. b \<in> A \<Longrightarrow> b \<noteq> a \<Longrightarrow> h' b = h b"
  shows "\<exists>C. own h' (VSlice a off (length ys - 1)) (JList (butlast (ys[i := last ys]))) C \<and> C \<subseteq> A"
proof -
  obtain zs F where N: "h a = CArr zs" "off + length ys \<le> length zs" "A = insert a (\<Union>i<length ys. F i)"
    "\<And>i. i < length ys \<Longrightarrow> own h (zs ! (off + i)) (ys ! i) (F i)" "\<And>i. i < length ys \<Longrightarrow> a \<notin> F i"
    "\<And>i k. i < length ys \<Longrightarrow> k < length ys \<Longrightarrow> i \<noteq> k \<Longrightarrow> F i \<inter> F k = {}"
    using assms(1) by (rule own_listE) auto
  let ?n = "length ys - 1"
  define \<sigma> where "\<sigma> l = (if l = i then ?n else l)" for l
  let ?ys = "butlast (ys[i := last ys])" and ?zs = "zs[off + i := zs ! (off + ?n), off + ?n := VNil]"
  have len: "length ?ys = ?n" by simp
  have lst: "last ys = ys ! ?n" using assms(2) by (intro last_conv_nth) auto
  have s: "\<sigma> l < length ys" if "l < ?n" for l using that assms(2) by (auto simp: \<sigma>_def)
  have "own h' (VSlice a off (length ?ys)) (JList ?ys) (insert a (\<Union>l<length ?ys. F (\<sigma> l)))"
  proof (rule own_listI; (unfold len)?)
    show "h' a = CArr ?zs" using h' N(1) by (simp add: array_at_def)
    show "off + ?n \<le> length ?zs" using N(2) by simp
    show "a \<notin> F (\<sigma> l)" if "l < ?n" for l using N(5) [OF s [OF that]] .
    show "F (\<sigma> l) \<inter> F (\<sigma> k) = {}" if "l < ?n" "k < ?n" "l \<noteq> k" for l k
      using that s N(6) [of "\<sigma> l" "\<sigma> k"] by (auto simp: \<sigma>_def split: if_splits)
    show "own h' (?zs ! (off + l)) (?ys ! l) (F (\<sigma> l))" if l: "l < ?n" for l
    proof -
      have "?zs ! (off + l) = zs ! (off + \<sigma> l)" "?ys ! l = ys ! \<sigma> l"
        using l assms(2) N(2) by (auto simp: \<sigma>_def nth_list_update nth_butlast lst)
      moreover have "own h' (zs ! (off + \<sigma> l)) (ys ! \<sigma> l) (F (\<sigma> l))"
        by (rule own_frame [OF N(4) [OF s [OF l]]]) (use same N(3,5) s [OF l] in blast)
      ultimately show ?thesis by simp
    qed
  qed
  moreover have "insert a (\<Union>l<?n. F (\<sigma> l)) \<subseteq> A" using N(3) s by blast
  ultimately show ?thesis by (auto simp: len)
qed

lemma delete_from_list:
  assumes "own h v (JObj f) A" "f u = Some (JList xs)" "decodeReferenceToken u = u" "tkey (JList xs) t = Some (Index i)"
  shows "\<exists>h' out C. impl_loop DEL sv prev [u, t] v h = Inr (h', out) \<and> outError out = None \<and>
    own h' v (JObj (f(u \<mapsto> JList (butlast (xs[i := last xs]))))) C \<and> C \<subseteq> A \<and> (\<forall>b. b \<notin> A \<longrightarrow> h' b = h b)"
proof -
  obtain a m F where N: "v = VMap (Some a)" "h a = CMap m" "dom m = dom f" "A = insert a (\<Union>k \<in> dom f. F k)"
    "\<And>k. k \<in> dom f \<Longrightarrow> own h (the (m k)) (the (f k)) (F k)" "\<And>k. k \<in> dom f \<Longrightarrow> a \<notin> F k"
    "\<And>k l. k \<in> dom f \<Longrightarrow> l \<in> dom f \<Longrightarrow> k \<noteq> l \<Longrightarrow> F k \<inter> F l = {}"
    by (rule own_objE [OF assms(1)]) blast
  have u: "u \<in> dom f" using assms(2) by blast
  have ow: "own h (the (m u)) (JList xs) (F u)" using N(5) [OF u] assms(2) by simp
  obtain a2 off zs where L: "the (m u) = VSlice a2 off (length xs)" "h a2 = CArr zs" "a2 \<in> F u"
    using ow by (rule own_listE) auto
  have mu: "m u = Some (VSlice a2 off (length xs))" using L(1) u N(3) by (metis domD domI option.sel)
  have i: "i < length xs" using assms(4) by (auto simp: tkey_list)
  let ?n = "length xs - 1" and ?v2 = "VSlice a2 off (length xs - 1)"
  define h1 where "h1 = array_set (array_set h a2 (off + i) (array_at h a2 ! (off + ?n))) a2 (off + ?n) VNil"
  define h' where "h' = h1(a := CMap (m(u \<mapsto> ?v2)))"
  have aa: "a \<noteq> a2" "a \<notin> F u" using N(6) [OF u] L(3) by auto
  have h1: "h1 a2 = CArr ((array_at h a2)[off + i := array_at h a2 ! (off + ?n), off + ?n := VNil])"
    "\<And>b. b \<noteq> a2 \<Longrightarrow> h1 b = h b" by (simp_all add: h1_def array_set_def array_at_def)
  have "delete_element (Some (v, u)) a2 off (length xs) i h = Inr h'"
    unfolding delete_element_def Let_def h1_def [symmetric]
    using N(1,2) aa h1(2) [of a] by (simp add: map_set_def h'_def)
  moreover have "impl_loop DEL sv prev [u, t] v h = impl_loop DEL sv (Some (v, u)) [t] (VSlice a2 off (length xs)) h"
    using N(1,2) assms(3) mu by (simp add: map_at_def)
  ultimately have r: "\<exists>out. impl_loop DEL sv prev [u, t] v h = Inr (h', out) \<and> outError out = None"
    using loop_delete_element [OF refl assms(4), of sv "Some (v, u)" a2 off h] by simp
  have "\<exists>C. own h' ?v2 (JList (butlast (xs[i := last xs]))) C \<and> C \<subseteq> F u"
    by (rule shrink_list [where h = h, OF _ i]) (use ow L(1) h1 aa in \<open>auto simp: h'_def\<close>)
  then obtain C where C: "own h' ?v2 (JList (butlast (xs[i := last xs]))) C" "C \<subseteq> F u" by blast
  let ?f = "f(u \<mapsto> JList (butlast (xs[i := last xs])))" and ?G = "F(u := C)"
  have d: "dom ?f = dom f" using u by auto
  have sub: "?G k \<subseteq> F k" for k using C(2) by simp
  have "own h' v (JObj ?f) (insert a (\<Union>k \<in> dom ?f. ?G k))"
    unfolding N(1)
  proof (rule own_objI [where m = "m(u \<mapsto> ?v2)"]; (unfold d)?)
    show "h' a = CMap (m(u \<mapsto> ?v2))" by (simp add: h'_def)
    show "dom (m(u \<mapsto> ?v2)) = dom f" using N(3) u by auto
    show "own h' (the ((m(u \<mapsto> ?v2)) k)) (the (?f k)) (?G k)" if k: "k \<in> dom f" for k
    proof (cases "k = u")
      case False
      have "h' b = h b" if "b \<in> F k" for b
        using that False N(7) [OF k u False] N(6) [OF k] L(3) h1(2) [of b] by (auto simp: h'_def)
      with own_frame [OF N(5) [OF k]] False show ?thesis by simp
    qed (use C(1) in simp)
    show "a \<notin> ?G k" if "k \<in> dom f" for k using N(6) [OF that] sub by blast
    show "?G k \<inter> ?G l = {}" if "k \<in> dom f" "l \<in> dom f" "k \<noteq> l" for k l using N(7) [OF that] sub by blast
  qed
  moreover have "insert a (\<Union>k \<in> dom ?f. ?G k) \<subseteq> A" unfolding d N(4) using sub by blast
  moreover have "h' b = h b" if "b \<notin> A" for b
    using that N(4) u L(3) h1(2) [of b] by (auto simp: h'_def)
  ultimately show ?thesis using r by blast
qed

lemma delete_nested:
  assumes "own h v (JList ys) A" "tkey (JList ys) u = Some (Index l)" "ys ! l = JList xs" "tkey (JList xs) t = Some (Index i)"
  shows "impl_loop DEL sv prev [u, t] v h = Inl (Panic ''interface conversion'')"
proof -
  obtain a off zs F where N: "v = VSlice a off (length ys)" "h a = CArr zs" "off + length ys \<le> length zs"
    "\<And>i. i < length ys \<Longrightarrow> own h (zs ! (off + i)) (ys ! i) (F i)"
    by (rule own_listE [OF assms(1)]) blast
  have l: "l < length ys" using assms(2) by (auto simp: tkey_list)
  obtain a2 off2 where L: "zs ! (off + l) = VSlice a2 off2 (length xs)"
    using own_listE [of h "zs ! (off + l)" xs "F l"] N(4) [OF l] assms(3) by metis
  have "impl_loop DEL sv prev [u, t] v h = impl_loop DEL sv (Some (v, u)) [t] (VSlice a2 off2 (length xs)) h"
    by (rule loop_inner [where a = a, OF _ assms(2)]) (use N L l in \<open>simp_all add: root_ok_def array_at_def\<close>)
  then show ?thesis using loop_delete_element [OF refl assms(4), of sv "Some (v, u)" a2 off2 h] N(1)
    by (simp add: delete_element_def Let_def)
qed

lemma delete_root_list:
  assumes "own h v (JList xs) A" "tkey (JList xs) t = Some (Index i)"
  shows "impl_loop DEL sv None [t] v h = Inl IndexOutOfRange"
proof -
  obtain a off where "v = VSlice a off (length xs)" by (rule own_listE [OF assms(1)]) blast
  from loop_delete_element [OF this assms(2)] show ?thesis by (simp add: delete_element_def Let_def)
qed

lemma jreplace_snoc:
  "jget ws j = Some e \<Longrightarrow> tkey e u = Some k \<Longrightarrow> jkids e k \<noteq> None \<Longrightarrow> jreplace (ws @ [u]) c j = jreplace ws (jput e k c) j"
proof (induction ws arbitrary: j)
  case (Cons w ws)
  then show ?case by (auto simp: jchild_def bind_eq_Some_conv)
qed auto

text \<open>An element of a list that is not the root: the list is a field of an object, or an element of a list.\<close>

lemma delete_in_list:
  assumes "own h doc j A" "jget us j = Some (JList xs)" "us \<noteq> []" "CHR ''~'' \<notin> set (last us)"
    "tkey (JList xs) t = Some (Index i)"
  shows "case jdel (us @ [t]) j of
      Inl e \<Rightarrow> impl_loop DEL sv prev (us @ [t]) doc h = Inl e
    | Inr None \<Rightarrow> False
    | Inr (Some j') \<Rightarrow> \<exists>h' out A'. impl_loop DEL sv prev (us @ [t]) doc h = Inr (h', out) \<and> outError out = None \<and>
        own h' doc j' A' \<and> A' \<subseteq> A \<and> (\<forall>b. b \<notin> A \<longrightarrow> h' b = h b)"
proof -
  obtain ws u where us: "us = ws @ [u]" using assms(3) by (metis rev_exhaust)
  obtain e k where e: "jget ws j = Some e" "tkey e u = Some k" "jkids e k = Some (JList xs)"
    using assms(2) unfolding us jget_snoc jchild_def by (auto simp: bind_eq_Some_conv)
  have u: "decodeReferenceToken u = u" using assms(4) us by (simp add: decode_plain)
  obtain n C prev' where n: "own h n e C" "C \<subseteq> A" "impl_loop DEL sv prev (us @ [t]) doc h = impl_loop DEL sv prev' [u, t] n h"
    "\<And>h' d' C'. (\<forall>b \<in> A - C. h' b = h b) \<Longrightarrow> own h' n d' C' \<Longrightarrow> C' \<inter> (A - C) = {} \<Longrightarrow>
       own h' doc (jreplace ws d' j) ((A - C) \<union> C')"
    using walk [OF assms(1) e(1)] us by (metis append.assoc append_Cons append_Nil list.discI)
  let ?l = "JList (butlast (xs[i := last xs]))"
  show ?thesis
  proof (cases e)
    case (JAtom x)
    then show ?thesis using e(2) by (simp add: tkey_def)
  next
    case (JObj f)
    have k: "k = Field u" "f u = Some (JList xs)" using e(2,3) JObj u by (auto simp: tkey_def)
    obtain h' out C' where s: "impl_loop DEL sv prev' [u, t] n h = Inr (h', out)" "outError out = None"
      "own h' n (JObj (f(u \<mapsto> ?l))) C'" "C' \<subseteq> C" "\<forall>b. b \<notin> C \<longrightarrow> h' b = h b"
      using delete_from_list [OF n(1) [unfolded JObj] k(2) u assms(5), of sv prev'] by blast
    have "jreplace us ?l j = jreplace ws (JObj (f(u \<mapsto> ?l))) j"
      using jreplace_snoc [OF e(1,2), of ?l] e(3) JObj k(1) us by simp
    then have "own h' doc (jreplace us ?l j) ((A - C) \<union> C')" using n(4) [of h' _ C'] s(3-5) by auto
    moreover have "jdel (us @ [t]) j = Inr (Some (jreplace us ?l j))" using assms(2,3,5) e(1) JObj us by (simp add: jdel_def Let_def butlast_append)
    moreover have "(A - C) \<union> C' \<subseteq> A" "\<forall>b. b \<notin> A \<longrightarrow> h' b = h b" using s(4,5) n(2) by auto
    ultimately show ?thesis using s(1,2) n(3) by (simp del: impl_loop.simps) blast
  next
    case (JList ys)
    then obtain l where l: "k = Index l" "tkey (JList ys) u = Some (Index l)" "ys ! l = JList xs"
      using e(2,3) by (cases k) (auto split: if_splits)
    have "jdel (us @ [t]) j = Inl (Panic ''interface conversion'')" using assms(2,3,5) e(1) JList us by (simp add: jdel_def Let_def butlast_append)
    then show ?thesis using delete_nested [OF n(1) [unfolded JList] l(2,3) assms(5), of sv prev'] n(3) by simp
  qed
qed


section \<open>A small document\<close>

text \<open>\<^verbatim>\<open>{"a": [1, 2, 3], "b": true}\<close>, in two cells.\<close>

definition small_heap :: heap where
  "small_heap = (\<lambda>_. CArr [])(0 := CMap [''a'' \<mapsto> VSlice 1 0 3, ''b'' \<mapsto> VBool True], 1 := CArr [VNum 1, VNum 2, VNum 3])"

definition small_tree :: json where
  "small_tree = JObj [''a'' \<mapsto> JList [JAtom (VNum 1), JAtom (VNum 2), JAtom (VNum 3)], ''b'' \<mapsto> JAtom (VBool True)]"

lemma own_small: "own small_heap (VMap (Some 0)) small_tree {0, 1}"
proof -
  have leaf: "own small_heap (VNum n) (JAtom (VNum n)) {}" "own small_heap (VBool b) (JAtom (VBool b)) {}" for n b
    by (simp_all add: own.atom atomic_def)
  let ?ys = "[JAtom (VNum 1), JAtom (VNum 2), JAtom (VNum 3)]" and ?zs = "[VNum 1, VNum 2, VNum 3]"
  have "own small_heap (VSlice 1 0 (length ?ys)) (JList ?ys) (insert 1 (\<Union>i<length ?ys. {}))"
  proof (rule own_listI [where zs = ?zs])
    show "own small_heap (?zs ! (0 + i)) (?ys ! i) {}" if "i < length ?ys" for i
    proof -
      have "i = 0 \<or> i = 1 \<or> i = 2" using that by auto
      then show ?thesis using leaf(1) by auto
    qed
  qed (simp_all add: small_heap_def)
  then have l: "own small_heap (VSlice 1 0 3) (JList ?ys) {1}" by (simp add: numeral_3_eq_3)
  let ?f = "[''a'' \<mapsto> JList ?ys, ''b'' \<mapsto> JAtom (VBool True)]" and ?m = "[''a'' \<mapsto> VSlice 1 0 3, ''b'' \<mapsto> VBool True]"
    and ?F = "\<lambda>k. if k = ''a'' then {1} else {} :: addr set"
  have d: "dom ?f = {''a'', ''b''}" by auto
  have "own small_heap (VMap (Some 0)) (JObj ?f) (insert 0 (\<Union>k \<in> dom ?f. ?F k))"
  proof (rule own_objI [where m = ?m]; (unfold d)?)
    show "own small_heap (the (?m k)) (the (?f k)) (?F k)" if "k \<in> {''a'', ''b''}" for k
      using that l leaf by auto
    show "small_heap 0 = CMap ?m" by (simp add: small_heap_def)
  qed auto
  then show ?thesis unfolding d by (simp add: small_tree_def)
qed

lemma Atoi_digits: "Atoi ''0'' = Some 0" "Atoi ''1'' = Some 1"
  by (simp_all add: Atoi_def is_digit_def digits_value_def)

lemma decode_ab: "decodeReferenceToken ''a'' = ''a''" "decodeReferenceToken ''b'' = ''b''" "decodeReferenceToken ''c'' = ''c''"
  by (simp_all add: decode_plain)

theorem pointer_get_refines_witness:
  "\<exists>out C. Pointer_Get \<lparr>referenceTokens = [''a'', ''1'']\<rparr> (VMap (Some 0)) small_heap = Inr (small_heap, out) \<and>
     own small_heap (getOutNode out) (JAtom (VNum 2)) C \<and> outError out = None"
proof -
  have "jget [''a'', ''1''] small_tree = Some (JAtom (VNum 2))"
    by (simp add: small_tree_def jchild_def tkey_def decode_ab Atoi_digits)
  with pointer_get_refines [of "[''a'', ''1'']" "VMap (Some 0)" small_heap small_tree "{0, 1}"] own_small
  show ?thesis by auto
qed

theorem pointer_set_refines_witness:
  "\<exists>h' j' A'. Pointer_Set \<lparr>referenceTokens = [''a'', ''1'']\<rparr> (VMap (Some 0)) (VBool False) small_heap = Inr (h', VMap (Some 0), None) \<and>
     own h' (VMap (Some 0)) j' A' \<and> jget [''a'', ''1''] j' = Some (JAtom (VBool False))"
proof -
  have "own small_heap (VBool False) (JAtom (VBool False)) {}" by (simp add: own.atom atomic_def)
  moreover obtain j' where "jset [''a'', ''1''] (JAtom (VBool False)) small_tree = Some j'"
    by (simp add: jset_def small_tree_def jchild_def tkey_def decode_ab Atoi_digits)
  ultimately show ?thesis
    using pointer_set_refines [OF own_small, of "VBool False" "JAtom (VBool False)" "{}" "[''a'', ''1'']"] by auto
qed


text \<open>
  What happens when the token before the last has an escape: in \<^verbatim>\<open>{"a~b": [1, 2]}\<close> the pointer \<^verbatim>\<open>/a~0b/0\<close> deletes
  the first element, but the shorter list is stored under a new key \<^verbatim>\<open>a~0b\<close>, and under \<^verbatim>\<open>a~b\<close> there is now the
  list \<^verbatim>\<open>[2, null]\<close>.
\<close>

lemma delete_escaped_token:
  "let h = (\<lambda>_. CArr [])(0 := CMap [''a~b'' \<mapsto> VSlice 1 0 2], 1 := CArr [VNum 1, VNum 2]) in
   \<exists>p h'. NewJsonPointer ''/a~0b/0'' = Inr p \<and> Pointer_Delete p (VMap (Some 0)) h = Inr (h', VMap (Some 0), None) \<and>
     h' 0 = CMap [''a~b'' \<mapsto> VSlice 1 0 2, ''a~0b'' \<mapsto> VSlice 1 0 1] \<and> h' 1 = CArr [VNum 2, VNil]"
  by (simp add: NewJsonPointer_def Pointer_Delete_def implementation_def decodeReferenceToken_def map_at_def Let_def
      Atoi_digits array_at_def delete_element_def array_set_def map_set_def)

end
